(* ===== verification/Prelude.thy ===== *)
theory Prelude
  imports Main "HOL-Library.Word"
begin

text \<open>
  Shared vocabulary of the development: the machine integers of the C sources, the result
  type of kernel code (a value, or the panic or fault that stopped it), sequencing of such
  results, bounded loops over tables, and the generic lemmas the component theories rely on.
\<close>

unbundle bit_operations_syntax

section \<open>Machine integers\<close>

text \<open>\<^verbatim>\<open>types.h\<close>: \<open>uint\<close>, \<open>ushort\<close>, \<open>uchar\<close> on the 32-bit target; \<open>int\<close> is read by \<open>sint\<close>.\<close>

type_synonym u8 = "8 word"
type_synonym u16 = "16 word"
type_synonym u32 = "32 word"

named_theorems word_arith \<open>unat of word arithmetic, with the wrap-around written out\<close>

lemma unat_add_mod [word_arith]: "unat (x + y :: 'a::len word) = (unat x + unat y) mod 2 ^ LENGTH('a)"
  by (simp add: unat_word_ariths)

lemma unat_succ_mod [word_arith]: "unat (x + 1 :: 'a::len word) = (unat x + 1) mod 2 ^ LENGTH('a)"
  by (simp add: unat_word_ariths)

lemma unat_sub_mod [word_arith]:
  "unat (x - y :: 'a::len word) = (unat x + (2 ^ LENGTH('a) - unat y)) mod 2 ^ LENGTH('a)"
proof -
  have x: "unat x < 2 ^ LENGTH('a)" and y: "unat y < 2 ^ LENGTH('a)"
    by simp_all
  show ?thesis
  proof (cases "unat y \<le> unat x")
    case True
    have "unat x + (2 ^ LENGTH('a) - unat y) = 2 ^ LENGTH('a) + (unat x - unat y)"
      using True y by linarith
    moreover have "(2 ^ LENGTH('a) + (unat x - unat y)) mod 2 ^ LENGTH('a) = unat x - unat y"
      using x by (simp only: mod_add_self1 mod_less less_imp_diff_less)
    ultimately show ?thesis
      using True by (simp only: unat_sub word_le_nat_alt)
  next
    case False
    have "unat x + (2 ^ LENGTH('a) - unat y) < 2 ^ LENGTH('a)"
      and "unat x + (2 ^ LENGTH('a) - unat y) = unat x + 2 ^ LENGTH('a) - unat y"
      using False x y by linarith+
    with False show ?thesis
      by (simp only: mod_less unat_sub_if_size word_size if_False)
  qed
qed

lemma unat_u32_lt: "unat (x :: u32) < 4294967296"
  using unsigned_less[of x] by simp

lemma unat_u8_lt: "unat (x :: u8) < 256"
  using unsigned_less[of x] by simp

lemma word_eq_unat_iff: "x = y \<longleftrightarrow> unat x = unat y"
  by (simp add: word_unat_eq_iff)

section \<open>Results of kernel code\<close>

text \<open>
  \<open>Panic msg\<close> is a call of \<^verbatim>\<open>panic(msg)\<close>, which never returns; \<open>Fault\<close> is a memory access the
  hardware traps on or the C standard leaves undefined (a null pointer, an index outside an
  array); \<open>Hang\<close> is a wait that no step of the modelled code ends.
\<close>

datatype err = Panic string | Fault string | Hang string

type_synonym 'a res = "err + 'a"

definition bindE :: "'a res \<Rightarrow> ('a \<Rightarrow> 'b res) \<Rightarrow> 'b res" where
  "bindE m f = (case m of Inl e \<Rightarrow> Inl e | Inr x \<Rightarrow> f x)"

lemma bindE_simps [simp]: "bindE (Inl e) f = Inl e" "bindE (Inr x) f = f x"
  by (simp_all add: bindE_def)

lemma bindE_Inr_iff: "bindE m f = Inr y \<longleftrightarrow> (\<exists>x. m = Inr x \<and> f x = Inr y)"
  by (cases m) simp_all

lemma bindE_Inl_iff: "bindE m f = Inl e \<longleftrightarrow> m = Inl e \<or> (\<exists>x. m = Inr x \<and> f x = Inl e)"
  by (cases m) simp_all

lemma bindE_assoc: "bindE (bindE m f) g = bindE m (\<lambda>x. bindE (f x) g)"
  by (cases m) simp_all

lemma bindE_cong [fundef_cong]:
  "m = m' \<Longrightarrow> (\<And>x. m' = Inr x \<Longrightarrow> f x = f' x) \<Longrightarrow> bindE m f = bindE m' f'"
  by (cases m') simp_all

lemma bindE_split: "P (bindE m f) \<longleftrightarrow> (\<forall>e. m = Inl e \<longrightarrow> P (Inl e)) \<and> (\<forall>x. m = Inr x \<longrightarrow> P (f x))"
  by (cases m) auto

definition assertE :: "bool \<Rightarrow> err \<Rightarrow> unit res" where
  "assertE b e = (if b then Inr () else Inl e)"

lemma assertE_simps [simp]: "assertE True e = Inr ()" "assertE False e = Inl e"
  by (simp_all add: assertE_def)

lemma assertE_Inr_iff [simp]: "assertE b e = Inr u \<longleftrightarrow> b"
  by (simp add: assertE_def)

text \<open>A \<open>for\<close> loop over a list of values fixed before the loop.\<close>

fun foldE :: "('a \<Rightarrow> 's \<Rightarrow> 's res) \<Rightarrow> 'a list \<Rightarrow> 's \<Rightarrow> 's res" where
  "foldE f [] s = Inr s"
| "foldE f (x # xs) s = bindE (f x s) (foldE f xs)"

lemma foldE_append: "foldE f (xs @ ys) s = bindE (foldE f xs s) (foldE f ys)"
proof (induction xs arbitrary: s)
  case (Cons x xs)
  then show ?case by (cases "f x s") simp_all
qed simp

definition is_ok :: "'a res \<Rightarrow> bool" where
  "is_ok r = (case r of Inl _ \<Rightarrow> False | Inr _ \<Rightarrow> True)"

lemma is_ok_simps [simp]: "is_ok (Inl e) \<longleftrightarrow> False" "is_ok (Inr x) \<longleftrightarrow> True"
  by (simp_all add: is_ok_def)

lemma is_ok_iff: "is_ok r \<longleftrightarrow> (\<exists>x. r = Inr x)"
  by (cases r) simp_all

section \<open>Tables\<close>

text \<open>
  The kernel's fixed tables (buffers, inodes, files, processes) are lists, a pointer into one
  is its index, and \<^verbatim>\<open>for (p = tab; p < &tab[N]; p++) if (cond(p)) ...\<close> is the search for the
  first index that satisfies the condition.
\<close>

fun find_from :: "nat \<Rightarrow> ('a \<Rightarrow> bool) \<Rightarrow> 'a list \<Rightarrow> nat option" where
  "find_from i P [] = None"
| "find_from i P (x # xs) = (if P x then Some i else find_from (Suc i) P xs)"

abbreviation find_idx :: "('a \<Rightarrow> bool) \<Rightarrow> 'a list \<Rightarrow> nat option" where
  "find_idx P xs \<equiv> find_from 0 P xs"

lemma find_from_shift: "find_from (Suc i) P xs = map_option Suc (find_from i P xs)"
  by (induction xs arbitrary: i) auto

lemma find_idx_Some:
  "find_idx P xs = Some i \<longleftrightarrow> i < length xs \<and> P (xs ! i) \<and> (\<forall>j<i. \<not> P (xs ! j))"
proof (induction xs arbitrary: i)
  case Nil
  then show ?case by simp
next
  case (Cons x xs)
  show ?case
  proof (cases i)
    case 0
    then show ?thesis by (auto simp: find_from_shift)
  next
    case (Suc k)
    then show ?thesis
      using Cons.IH[of k] by (auto simp: find_from_shift less_Suc_eq_0_disj)
  qed
qed

lemma find_idx_None: "find_idx P xs = None \<longleftrightarrow> (\<forall>x\<in>set xs. \<not> P x)"
  by (induction xs) (auto simp: find_from_shift)

lemma find_idx_SomeD:
  assumes "find_idx P xs = Some i"
  shows "i < length xs" and "P (xs ! i)" and "\<And>j. j < i \<Longrightarrow> \<not> P (xs ! j)"
  using assms by (simp_all add: find_idx_Some)

lemma find_idx_exists: "\<exists>x\<in>set xs. P x \<Longrightarrow> \<exists>i. find_idx P xs = Some i"
  by (cases "find_idx P xs") (auto simp: find_idx_None)

text \<open>Sizes of the process table and of a process's table of open files (\<^verbatim>\<open>param.h\<close>).\<close>

abbreviation NPROC :: nat where "NPROC \<equiv> 64"
abbreviation NOFILE :: nat where "NOFILE \<equiv> 16"

section \<open>Lists\<close>

lemma nth_upd: "xs[i := v] ! j = (if i = j \<and> i < length xs then v else xs ! j)"
  by (cases "i < length xs") (simp_all add: list_update_beyond)

lemma nth_list_update_if: "i < length xs \<Longrightarrow> xs[i := x] ! j = (if i = j then x else xs ! j)"
  by auto

lemma sum_list_update_nat:
  "i < length xs \<Longrightarrow> sum_list (xs[i := (x::nat)]) + xs ! i = sum_list xs + x"
  by (induction xs arbitrary: i) (auto split: nat.splits)

end
