(* ===== verification/Ring.thy ===== *)
theory Ring
  imports Prelude
begin

text \<open>
  Ring buffers addressed by free-running 32-bit counters, as \<^verbatim>\<open>pipe.c\<close> and the console input
  of \<^verbatim>\<open>console.c\<close> keep them: byte \<open>k\<close> of the stream lives in slot \<open>k mod cap\<close>, and the counters
  themselves wrap at \<open>2 ^ 32\<close>. The interface is a locale with one law, that the capacity
  divides \<open>2 ^ 32\<close>; everything a client needs follows from it, once for both buffers.
\<close>

definition ring_len :: "u32 \<Rightarrow> u32 \<Rightarrow> nat" where
  "ring_len r w = unat (w - r)"

definition ring_slot :: "nat \<Rightarrow> u32 \<Rightarrow> nat" where
  "ring_slot cap k = unat k mod cap"

definition ring_contents :: "nat \<Rightarrow> 'a list \<Rightarrow> u32 \<Rightarrow> u32 \<Rightarrow> 'a list" where
  "ring_contents cap buf r w = map (\<lambda>i. buf ! ring_slot cap (r + of_nat i)) [0..<ring_len r w]"

lemma length_ring_contents [simp]: "length (ring_contents cap buf r w) = ring_len r w"
  by (simp add: ring_contents_def)

lemma ring_len_refl [simp]: "ring_len r r = 0"
  by (simp add: ring_len_def)

lemma ring_len_0_iff [simp]: "ring_len r w = 0 \<longleftrightarrow> w = r"
  by (auto simp: ring_len_def unat_eq_0)

lemma ring_contents_empty [simp]: "ring_contents cap buf r r = []"
  by (simp add: ring_contents_def)

lemma ring_contents_Nil_iff: "ring_contents cap buf r w = [] \<longleftrightarrow> w = r"
  by (metis length_0_conv length_ring_contents ring_len_0_iff)

lemma ring_len_lt: "ring_len r w < 4294967296"
  by (simp add: ring_len_def unat_u32_lt)

lemma ring_len_succ: "ring_len r w + 1 < 4294967296 \<Longrightarrow> ring_len r (w + 1) = ring_len r w + 1"
proof -
  assume len: "ring_len r w + 1 < 4294967296"
  have "w + 1 - r = (w - r) + 1" by simp
  with len show ?thesis
    unfolding ring_len_def by (simp only: unat_succ_mod len_bit0 len_num1) simp
qed

lemma ring_len_step: "w \<noteq> r \<Longrightarrow> ring_len r w = ring_len (r + 1) w + 1"
proof -
  assume "w \<noteq> r"
  then have "1 + (w - (r + 1)) \<noteq> 0" by simp
  then have "unat (1 + (w - (r + 1))) = Suc (unat (w - (r + 1)))"
    by (rule unatSuc)
  then show ?thesis by (simp add: ring_len_def)
qed

locale ring =
  fixes cap :: nat
  assumes cap_pos: "0 < cap"
    and cap_dvd: "cap dvd 4294967296"
    and cap_lt: "cap < 4294967296"
begin

lemma slot_lt: "ring_slot cap k < cap"
  by (simp add: ring_slot_def cap_pos)

lemma slot_add: "ring_slot cap (k + of_nat i) = (ring_slot cap k + i) mod cap"
proof -
  have "unat (k + of_nat i) = (unat k + i) mod 4294967296"
    by (simp add: unat_add_mod unat_of_nat mod_simps)
  then show ?thesis
    by (simp add: ring_slot_def mod_mod_cancel[OF cap_dvd] mod_simps)
qed

lemma slot_inj:
  assumes "i < cap" "j < cap" "ring_slot cap (k + of_nat i) = ring_slot cap (k + of_nat j)"
  shows "i = j"
proof -
  have wrap: "(ring_slot cap k + n) mod cap =
      (if ring_slot cap k + n < cap then ring_slot cap k + n else ring_slot cap k + n - cap)"
    if "n < cap" for n
    using that slot_lt[of k] by (simp add: mod_if)
  show ?thesis
    using assms(3) wrap[OF assms(1)] wrap[OF assms(2)] assms(1,2) slot_lt[of k]
    unfolding slot_add by (auto split: if_splits)
qed

text \<open>Writing at the write counter appends, as long as the buffer is not full.\<close>

lemma contents_push:
  assumes "length buf = cap" and "ring_len r w < cap"
  shows "ring_contents cap (buf[ring_slot cap w := x]) r (w + 1) = ring_contents cap buf r w @ [x]"
proof -
  let ?n = "ring_len r w"
  have w: "r + of_nat ?n = w"
    by (simp add: ring_len_def)
  have len: "ring_len r (w + 1) = ?n + 1"
    using assms(2) cap_lt by (intro ring_len_succ) simp
  have old: "buf[ring_slot cap w := x] ! ring_slot cap (r + of_nat i) = buf ! ring_slot cap (r + of_nat i)"
    if "i < ?n" for i
    using slot_inj[of i ?n r] that assms w by (metis less_trans nat_neq_iff nth_list_update_neq)
  have new: "buf[ring_slot cap w := x] ! ring_slot cap w = x"
    by (simp add: assms(1) slot_lt)
  show ?thesis
    unfolding ring_contents_def len using old new w by simp
qed

text \<open>Reading at the read counter takes the oldest element.\<close>

lemma contents_pop:
  assumes "w \<noteq> r"
  shows "ring_contents cap buf r w = buf ! ring_slot cap r # ring_contents cap buf (r + 1) w"
proof -
  have len: "ring_len r w = Suc (ring_len (r + 1) w)"
    using ring_len_step[OF assms] by simp
  show ?thesis
    unfolding ring_contents_def len
    by (simp add: upt_conv_Cons map_Suc_upt[symmetric] add.assoc del: upt_Suc map_Suc_upt)
qed

text \<open>Moving the write counter back drops the newest element.\<close>

lemma contents_unpush:
  assumes "w \<noteq> r"
  shows "ring_contents cap buf r (w - 1) = butlast (ring_contents cap buf r w)"
proof -
  have "w - 1 + 1 - r = (w - 1 - r) + 1" by simp
  have len: "ring_len r w = ring_len r (w - 1) + 1"
    using ring_len_step[of "w" "r"] assms by (simp add: ring_len_def algebra_simps)
  show ?thesis
    unfolding ring_contents_def len by simp
qed

lemma contents_last:
  assumes "w \<noteq> r"
  shows "ring_contents cap buf r w = ring_contents cap buf r (w - 1) @ [buf ! ring_slot cap (w - 1)]"
proof -
  have len: "ring_len r w = Suc (ring_len r (w - 1))"
    using ring_len_step[of "w" "r"] assms by (simp add: ring_len_def algebra_simps)
  moreover have "r + of_nat (ring_len r (w - 1)) = w - 1" by (simp add: ring_len_def)
  ultimately show ?thesis unfolding ring_contents_def len by simp
qed

text \<open>Two adjacent stretches make one, and writing behind both changes neither.\<close>

lemma contents_split:
  assumes "ring_len r w + ring_len w e \<le> cap"
  shows "ring_len r e = ring_len r w + ring_len w e" and "ring_contents cap buf r e = ring_contents cap buf r w @ ring_contents cap buf w e"
proof -
  have "e - r = (w - r) + (e - w)" by simp
  then have "unat (e - r) = (unat (w - r) + unat (e - w)) mod 2 ^ 32" using unat_add_mod[of "w - r" "e - w"] by (simp only: len_bit0 len_num1) simp
  moreover have "unat (w - r) + unat (e - w) < 2 ^ 32" using assms cap_lt unfolding ring_len_def by simp
  ultimately show len: "ring_len r e = ring_len r w + ring_len w e" unfolding ring_len_def by (simp only: mod_less)
  have w: "r + of_nat (ring_len r w + i) = w + of_nat i" for i by (simp add: ring_len_def)
  have "map (\<lambda>i. buf ! ring_slot cap (r + of_nat i)) [ring_len r w..<ring_len r w + ring_len w e] =
      map (\<lambda>i. buf ! ring_slot cap (w + of_nat i)) [0..<ring_len w e]"
    by (rule nth_equalityI) (simp_all add: w del: of_nat_add)
  then show "ring_contents cap buf r e = ring_contents cap buf r w @ ring_contents cap buf w e"
    unfolding ring_contents_def len upt_add_eq_append[OF le0, of "ring_len r w" "ring_len w e"] by simp
qed

lemma contents_push_behind:
  assumes "length buf = cap" and "ring_len r w + ring_len w e < cap"
  shows "ring_contents cap (buf[ring_slot cap e := x]) r w = ring_contents cap buf r w"
    and "ring_contents cap (buf[ring_slot cap e := x]) w (e + 1) = ring_contents cap buf w e @ [x]"
    and "ring_len w (e + 1) = ring_len w e + 1"
proof -
  let ?b = "buf[ring_slot cap e := x]"
  note sp = contents_split[of r w e]
  show l: "ring_contents cap ?b w (e + 1) = ring_contents cap buf w e @ [x]"
    using assms by (intro contents_push) simp_all
  show n: "ring_len w (e + 1) = ring_len w e + 1" using l length_ring_contents[of cap ?b w "e + 1"] by simp
  have "ring_contents cap ?b r (e + 1) = ring_contents cap buf r e @ [x]" using assms sp by (intro contents_push) simp_all
  moreover have "ring_contents cap ?b r (e + 1) = ring_contents cap ?b r w @ ring_contents cap ?b w (e + 1)"
    using assms n by (intro contents_split) simp
  ultimately show "ring_contents cap ?b r w = ring_contents cap buf r w" using sp(2)[of buf] assms(2) l by simp
qed

end

end
