(* ===== verification/Pipe.thy ===== *)
theory Pipe
  imports Ring
begin

text \<open>
  Pipes (\<^verbatim>\<open>pipe.c\<close>). The buffer is a ring of \<open>PIPESIZE\<close> bytes with wrapping counters
  (theory \<open>Ring\<close>). A call that would block is modelled up to its \<open>sleep\<close>: it returns the
  work still to do, and the woken process runs the same loop again on it. Wake-ups are
  returned as the list of channels passed to \<open>wakeup\<close>. A step relation then interleaves one
  writing and one reading process, closing and killing, and the stream and sleeping
  properties are invariants of its reachable states.
\<close>

abbreviation PIPESIZE :: nat where
  "PIPESIZE \<equiv> 512"

text \<open>The channels are the addresses of the two counters.\<close>

datatype chan = Nread | Nwrite

record pipe =
  pdata :: "u8 list"
  nread :: u32
  nwrite :: u32
  readopen :: bool
  writeopen :: bool

section \<open>Operations\<close>

text \<open>The pipe part of \<open>pipealloc\<close>: what it stores in the page \<open>kalloc\<close> returned.\<close>

definition pipe_init :: "u8 list \<Rightarrow> pipe" where
  "pipe_init page = \<lparr>pdata = page, nread = 0, nwrite = 0, readopen = True, writeopen = True\<rparr>"

text \<open>\<open>pipeclose\<close> returns the pipe, the channel it wakes and whether it frees the page.\<close>

definition pipeclose :: "pipe \<Rightarrow> bool \<Rightarrow> pipe \<times> chan list \<times> bool" where
  "pipeclose p writable =
     (let (p, w) = (if writable then (p\<lparr>writeopen := False\<rparr>, [Nread])
                    else (p\<lparr>readopen := False\<rparr>, [Nwrite]))
      in (p, w, \<not> readopen p \<and> \<not> writeopen p))"

datatype wait_out = Ret int | Sleep chan

text \<open>
  \<open>pipewrite_loop p killed n bs\<close>: the \<open>for\<close> loop of \<open>pipewrite\<close> with the bytes \<open>bs\<close> of \<open>addr\<close>
  still to write, out of \<open>n\<close>. It returns the pipe, the bytes not written, the wake-ups and
  how the call stopped.
\<close>

fun pipewrite_loop :: "pipe \<Rightarrow> bool \<Rightarrow> nat \<Rightarrow> u8 list \<Rightarrow> pipe \<times> u8 list \<times> chan list \<times> wait_out" where
  "pipewrite_loop p killed n [] = (p, [], [Nread], Ret (int n))"
| "pipewrite_loop p killed n (b # bs) =
     (if nwrite p = nread p + of_nat PIPESIZE then
        if \<not> readopen p \<or> killed then (p, b # bs, [], Ret (-1))
        else (p, b # bs, [Nread], Sleep Nwrite)
      else pipewrite_loop
             (p\<lparr>pdata := (pdata p)[unat (nwrite p) mod PIPESIZE := b], nwrite := nwrite p + 1\<rparr>)
             killed n bs)"

definition pipewrite :: "pipe \<Rightarrow> bool \<Rightarrow> u8 list \<Rightarrow> pipe \<times> u8 list \<times> chan list \<times> wait_out" where
  "pipewrite p killed addr = pipewrite_loop p killed (length addr) addr"

fun piperead_copy :: "pipe \<Rightarrow> nat \<Rightarrow> pipe \<times> u8 list" where
  "piperead_copy p 0 = (p, [])"
| "piperead_copy p (Suc n) =
     (if nread p = nwrite p then (p, [])
      else let b = pdata p ! (unat (nread p) mod PIPESIZE);
               (p', bs) = piperead_copy (p\<lparr>nread := nread p + 1\<rparr>) n
           in (p', b # bs))"

definition piperead :: "pipe \<Rightarrow> bool \<Rightarrow> nat \<Rightarrow> pipe \<times> u8 list \<times> chan list \<times> wait_out" where
  "piperead p killed n =
     (if nread p = nwrite p \<and> writeopen p then
        if killed then (p, [], [], Ret (-1)) else (p, [], [], Sleep Nread)
      else let (p', bs) = piperead_copy p n in (p', bs, [Nwrite], Ret (int (length bs))))"

section \<open>The byte stream\<close>

definition pipe_inv :: "pipe \<Rightarrow> bool" where
  "pipe_inv p \<longleftrightarrow> length (pdata p) = PIPESIZE \<and> ring_len (nread p) (nwrite p) \<le> PIPESIZE"

definition pipe_bytes :: "pipe \<Rightarrow> u8 list" where
  "pipe_bytes p = ring_contents PIPESIZE (pdata p) (nread p) (nwrite p)"

interpretation pipe_ring: ring PIPESIZE
  by unfold_locales simp_all

lemma pipe_full_iff: "nwrite p = nread p + of_nat PIPESIZE \<longleftrightarrow> length (pipe_bytes p) = PIPESIZE"
proof -
  have "nwrite p = nread p + of_nat PIPESIZE \<longleftrightarrow> nwrite p - nread p = of_nat PIPESIZE"
    by (auto simp: algebra_simps)
  also have "\<dots> \<longleftrightarrow> unat (nwrite p - nread p) = PIPESIZE"
    by (simp add: word_eq_unat_iff[of _ 512])
  finally show ?thesis
    by (simp add: pipe_bytes_def ring_len_def)
qed

lemma pipe_empty_iff: "nread p = nwrite p \<longleftrightarrow> pipe_bytes p = []"
  by (auto simp: pipe_bytes_def ring_contents_Nil_iff)

lemma pipe_inv_bound: "pipe_inv p \<Longrightarrow> length (pipe_bytes p) \<le> PIPESIZE"
  by (simp add: pipe_inv_def pipe_bytes_def)

lemma pipe_push:
  assumes "pipe_inv p" and "length (pipe_bytes p) < PIPESIZE"
    and p': "p' = p\<lparr>pdata := (pdata p)[unat (nwrite p) mod PIPESIZE := b], nwrite := nwrite p + 1\<rparr>"
  shows "pipe_bytes p' = pipe_bytes p @ [b]" and "pipe_inv p'"
proof -
  show 1: "pipe_bytes p' = pipe_bytes p @ [b]"
    using assms pipe_ring.contents_push[of "pdata p" "nread p" "nwrite p" b]
    by (simp add: pipe_bytes_def pipe_inv_def ring_slot_def)
  have "length (pipe_bytes p') \<le> PIPESIZE"
    unfolding 1 using assms(2) by simp
  then show "pipe_inv p'"
    using assms(1) by (simp add: pipe_inv_def pipe_bytes_def p')
qed

lemma pipe_pop:
  assumes "pipe_inv p" and "pipe_bytes p \<noteq> []"
  defines "p' \<equiv> p\<lparr>nread := nread p + 1\<rparr>"
  shows "pipe_bytes p = pdata p ! (unat (nread p) mod PIPESIZE) # pipe_bytes p'" and "pipe_inv p'"
proof -
  have ne: "nwrite p \<noteq> nread p"
    using assms(2) pipe_empty_iff[of p] by auto
  show "pipe_bytes p = pdata p ! (unat (nread p) mod PIPESIZE) # pipe_bytes p'"
    using pipe_ring.contents_pop[OF ne, of "pdata p"] by (simp add: pipe_bytes_def p'_def ring_slot_def)
  show "pipe_inv p'"
    using assms(1) ring_len_step[OF ne] by (simp add: pipe_inv_def p'_def)
qed

text \<open>What a run of \<open>pipewrite\<close> does to the stream: the bytes it takes from the caller are appended.\<close>

lemma pipewrite_loop_stream:
  assumes "pipe_inv p" and "pipewrite_loop p killed n bs = (p', rest, ws, out)"
  shows "pipe_inv p' \<and> readopen p' = readopen p \<and> writeopen p' = writeopen p \<and>
         (\<exists>taken. bs = taken @ rest \<and> pipe_bytes p' = pipe_bytes p @ taken)"
  using assms
proof (induction p killed n bs rule: pipewrite_loop.induct)
  case (1 p killed n)
  then show ?case by auto
next
  case (2 p killed n b bs)
  show ?case
  proof (cases "nwrite p = nread p + of_nat PIPESIZE")
    case True
    with 2 show ?thesis by (auto split: if_splits)
  next
    case False
    let ?p = "p\<lparr>pdata := (pdata p)[unat (nwrite p) mod PIPESIZE := b], nwrite := nwrite p + 1\<rparr>"
    have room: "length (pipe_bytes p) < PIPESIZE"
      using False pipe_inv_bound[OF 2(2)] pipe_full_iff[of p] by linarith
    note push = pipe_push[OF 2(2) room refl, of b]
    from False 2(3) have "pipewrite_loop ?p killed n bs = (p', rest, ws, out)"
      by simp
    from 2(1)[OF False push(2) this] push(1) show ?thesis
      by fastforce
  qed
qed

text \<open>How the call ends: all bytes written and the reader woken; or the buffer is full and it
  either fails because no one can read or sleeps after waking the reader.\<close>

lemma pipewrite_loop_end:
  assumes "pipe_inv p" and "pipewrite_loop p killed n bs = (p', rest, ws, out)"
  shows "rest = [] \<and> ws = [Nread] \<and> out = Ret (int n)
         \<or> rest \<noteq> [] \<and> length (pipe_bytes p') = PIPESIZE \<and>
           (if \<not> readopen p \<or> killed then ws = [] \<and> out = Ret (-1)
            else ws = [Nread] \<and> out = Sleep Nwrite)"
  using assms
proof (induction p killed n bs rule: pipewrite_loop.induct)
  case (1 p killed n)
  then show ?case by auto
next
  case (2 p killed n b bs)
  show ?case
  proof (cases "nwrite p = nread p + of_nat PIPESIZE")
    case True
    then have "length (pipe_bytes p) = PIPESIZE" by (simp only: pipe_full_iff)
    with 2 True show ?thesis by (auto split: if_splits)
  next
    case False
    let ?p = "p\<lparr>pdata := (pdata p)[unat (nwrite p) mod PIPESIZE := b], nwrite := nwrite p + 1\<rparr>"
    have room: "length (pipe_bytes p) < PIPESIZE"
      using False pipe_inv_bound[OF 2(2)] pipe_full_iff[of p] by linarith
    from False 2(3) have "pipewrite_loop ?p killed n bs = (p', rest, ws, out)"
      by simp
    from 2(1)[OF False pipe_push(2)[OF 2(2) room refl] this] show ?thesis
      by simp
  qed
qed

lemma piperead_copy_stream:
  assumes "pipe_inv p" and "piperead_copy p n = (p', bs)"
  shows "pipe_inv p' \<and> readopen p' = readopen p \<and> writeopen p' = writeopen p \<and>
         bs = take n (pipe_bytes p) \<and> pipe_bytes p' = drop n (pipe_bytes p)"
  using assms
proof (induction p n arbitrary: bs rule: piperead_copy.induct)
  case (1 p)
  then show ?case by simp
next
  case (2 p n)
  show ?case
  proof (cases "pipe_bytes p = []")
    case True
    with 2 show ?thesis by (auto simp: pipe_empty_iff)
  next
    case False
    then have ne: "nread p \<noteq> nwrite p" by (simp add: pipe_empty_iff)
    note pop = pipe_pop[OF 2(2) False]
    from 2(3) ne obtain bs' where
      rec: "piperead_copy (p\<lparr>nread := nread p + 1\<rparr>) n = (p', bs')"
      and bs: "bs = pdata p ! (unat (nread p) mod PIPESIZE) # bs'"
      by (auto split: prod.splits)
    from 2(1)[OF ne refl pop(2) rec] bs show ?thesis
      by (simp add: pop(1))
  qed
qed

lemma piperead_stream:
  assumes "pipe_inv p" and "piperead p killed n = (p', bs, ws, out)"
  shows "pipe_inv p' \<and> readopen p' = readopen p \<and> writeopen p' = writeopen p \<and>
         pipe_bytes p = bs @ pipe_bytes p'"
  using assms piperead_copy_stream[OF assms(1)]
  by (fastforce simp: piperead_def split: if_splits prod.splits)

section \<open>A writer and a reader interleaved\<close>

text \<open>
  The system around one pipe. \<open>wleft\<close> is the rest of the writer's current call (\<open>None\<close>: the
  writer is outside \<open>pipewrite\<close>), \<open>rwant\<close> the reader's count; \<open>wsleep\<close> and \<open>rsleep\<close> say whether
  each process sleeps on its channel; \<open>written\<close> and \<open>got\<close> record the bytes the calls have moved.
\<close>

record psys =
  pp :: pipe
  wleft :: "u8 list option"
  rwant :: "nat option"
  wsleep :: bool
  rsleep :: bool
  wkilled :: bool
  rkilled :: bool
  written :: "u8 list"
  got :: "u8 list"

definition wake :: "chan list \<Rightarrow> psys \<Rightarrow> psys" where
  "wake ws s = s\<lparr>wsleep := wsleep s \<and> Nwrite \<notin> set ws, rsleep := rsleep s \<and> Nread \<notin> set ws\<rparr>"

definition writer_run :: "u8 list \<Rightarrow> psys \<Rightarrow> psys" where
  "writer_run bs s =
     (let (p', rest, ws, out) = pipewrite_loop (pp s) (wkilled s) (length bs) bs;
          s' = wake ws (s\<lparr>pp := p', written := written s @ take (length bs - length rest) bs\<rparr>)
      in case out of Ret _ \<Rightarrow> s'\<lparr>wleft := None\<rparr>
                   | Sleep _ \<Rightarrow> s'\<lparr>wleft := Some rest, wsleep := True\<rparr>)"

definition reader_run :: "nat \<Rightarrow> psys \<Rightarrow> psys" where
  "reader_run n s =
     (let (p', bs, ws, out) = piperead (pp s) (rkilled s) n;
          s' = wake ws (s\<lparr>pp := p', got := got s @ bs\<rparr>)
      in case out of Ret _ \<Rightarrow> s'\<lparr>rwant := None\<rparr> | Sleep _ \<Rightarrow> s'\<lparr>rwant := Some n, rsleep := True\<rparr>)"

definition close_end :: "bool \<Rightarrow> psys \<Rightarrow> psys" where
  "close_end writable s = (let (p', ws, freed) = pipeclose (pp s) writable in wake ws (s\<lparr>pp := p'\<rparr>))"

definition psys_init :: "u8 list \<Rightarrow> psys" where
  "psys_init page = \<lparr>pp = pipe_init page, wleft = None, rwant = None, wsleep = False, rsleep = False,
     wkilled = False, rkilled = False, written = [], got = []\<rparr>"

inductive pstep :: "psys \<Rightarrow> psys \<Rightarrow> bool" where
  write_call: "wleft s = None \<Longrightarrow> writeopen (pp s) \<Longrightarrow> pstep s (s\<lparr>wleft := Some bs\<rparr>)"
| write_run: "wleft s = Some bs \<Longrightarrow> \<not> wsleep s \<Longrightarrow> pstep s (writer_run bs s)"
| read_call: "rwant s = None \<Longrightarrow> readopen (pp s) \<Longrightarrow> pstep s (s\<lparr>rwant := Some n\<rparr>)"
| read_run: "rwant s = Some n \<Longrightarrow> \<not> rsleep s \<Longrightarrow> pstep s (reader_run n s)"
| close_write: "wleft s = None \<Longrightarrow> writeopen (pp s) \<Longrightarrow> pstep s (close_end True s)"
| close_read: "rwant s = None \<Longrightarrow> readopen (pp s) \<Longrightarrow> pstep s (close_end False s)"
| kill_writer: "pstep s (s\<lparr>wkilled := True, wsleep := False\<rparr>)"
| kill_reader: "pstep s (s\<lparr>rkilled := True, rsleep := False\<rparr>)"

inductive preach :: "psys \<Rightarrow> bool" where
  start: "length page = PIPESIZE \<Longrightarrow> preach (psys_init page)"
| step: "preach s \<Longrightarrow> pstep s t \<Longrightarrow> preach t"

text \<open>
  The invariant: the stream property, and what must hold for a process to be asleep. A sleeping
  writer has a full pipe someone can read; a sleeping reader an empty pipe someone can write,
  or the writer was killed (it then returns without a wake-up; see below).
\<close>

definition psys_inv :: "psys \<Rightarrow> bool" where
  "psys_inv s \<longleftrightarrow>
     pipe_inv (pp s) \<and> written s = got s @ pipe_bytes (pp s) \<and>
     (wsleep s \<longrightarrow> wleft s \<noteq> None \<and> length (pipe_bytes (pp s)) = PIPESIZE \<and> readopen (pp s) \<and> \<not> wkilled s) \<and>
     (rsleep s \<longrightarrow> rwant s \<noteq> None \<and> writeopen (pp s) \<and> (pipe_bytes (pp s) = [] \<or> wkilled s)) \<and>
     (rwant s \<noteq> None \<longrightarrow> readopen (pp s)) \<and> (wleft s \<noteq> None \<longrightarrow> writeopen (pp s))"

lemma psys_inv_init: "length page = PIPESIZE \<Longrightarrow> psys_inv (psys_init page)"
  by (simp add: psys_inv_def psys_init_def pipe_init_def pipe_inv_def pipe_bytes_def)

lemma writer_run_inv:
  assumes inv: "psys_inv s" and call: "wleft s = Some bs" and awake: "\<not> wsleep s"
  shows "psys_inv (writer_run bs s)"
proof -
  obtain p' rest ws out where
    run: "pipewrite_loop (pp s) (wkilled s) (length bs) bs = (p', rest, ws, out)"
    by (cases "pipewrite_loop (pp s) (wkilled s) (length bs) bs") auto
  have pinv: "pipe_inv (pp s)"
    using inv by (simp add: psys_inv_def)
  obtain taken where st: "pipe_inv p'" "readopen p' = readopen (pp s)" "writeopen p' = writeopen (pp s)"
    "bs = taken @ rest" "pipe_bytes p' = pipe_bytes (pp s) @ taken"
    using pipewrite_loop_stream[OF pinv run] by auto
  have taken: "take (length bs - length rest) bs = taken"
    by (simp add: st(4))
  define s' where "s' = wake ws (s\<lparr>pp := p', written := written s @ taken\<rparr>)"
  have res: "writer_run bs s = (case out of Ret _ \<Rightarrow> s'\<lparr>wleft := None\<rparr>
      | Sleep _ \<Rightarrow> s'\<lparr>wleft := Some rest, wsleep := True\<rparr>)"
    by (cases out) (simp_all add: writer_run_def run taken s'_def)
  have stream: "written s @ taken = got s @ pipe_bytes p'"
    using inv st(5) by (simp add: psys_inv_def)
  consider (finished) v where "ws = [Nread]" "out = Ret v"
    | (fails) v where "ws = []" "out = Ret v" "\<not> readopen (pp s) \<or> wkilled s"
    | (sleeps) "ws = [Nread]" "out = Sleep Nwrite" "length (pipe_bytes p') = PIPESIZE"
        "readopen (pp s)" "\<not> wkilled s"
    using pipewrite_loop_end[OF pinv run] by (auto split: if_splits)
  then show ?thesis
  proof cases
    case finished
    then show ?thesis
      using inv awake st(1-3) stream unfolding psys_inv_def res s'_def
      by (simp add: wake_def)
  next
    case fails
    then show ?thesis
      using inv awake st(1-3) stream unfolding psys_inv_def res s'_def
      by (simp add: wake_def)
  next
    case sleeps
    then show ?thesis
      using inv call awake st(1-3) stream unfolding psys_inv_def res s'_def
      by (simp add: wake_def)
  qed
qed

lemma reader_run_inv:
  assumes inv: "psys_inv s" and call: "rwant s = Some n" and awake: "\<not> rsleep s"
  shows "psys_inv (reader_run n s)"
proof -
  obtain p' bs ws out where run: "piperead (pp s) (rkilled s) n = (p', bs, ws, out)"
    by (cases "piperead (pp s) (rkilled s) n") auto
  have pinv: "pipe_inv (pp s)"
    using inv by (simp add: psys_inv_def)
  note st = piperead_stream[OF pinv run]
  from run consider (waits) "p' = pp s" "bs = []" "ws = []" "pipe_bytes (pp s) = []" "writeopen (pp s)"
    | (copies) v where "ws = [Nwrite]" "out = Ret v"
    by (auto simp: piperead_def pipe_empty_iff split: if_splits prod.splits)
  then show ?thesis
  proof cases
    case waits
    then show ?thesis
      using inv call awake
      by (cases out) (auto simp: psys_inv_def reader_run_def run wake_def)
  next
    case copies
    then show ?thesis
      using inv call awake st by (auto simp: psys_inv_def reader_run_def run wake_def)
  qed
qed

lemma close_end_inv:
  assumes "psys_inv s" and "if w then wleft s = None else rwant s = None"
  shows "psys_inv (close_end w s)"
  using assms
  by (auto simp: psys_inv_def close_end_def pipeclose_def wake_def pipe_inv_def pipe_bytes_def
      split: if_splits)

lemma pstep_inv: "pstep s t \<Longrightarrow> psys_inv s \<Longrightarrow> psys_inv t"
proof (induction rule: pstep.induct)
  case (write_call s bs)
  then show ?case by (auto simp: psys_inv_def)
next
  case (write_run s bs)
  then show ?case by (simp add: writer_run_inv)
next
  case (read_call s n)
  then show ?case by (auto simp: psys_inv_def)
next
  case (read_run s n)
  then show ?case by (simp add: reader_run_inv)
next
  case (close_write s)
  then show ?case by (simp add: close_end_inv)
next
  case (close_read s)
  then show ?case by (simp add: close_end_inv)
next
  case (kill_writer s)
  then show ?case by (auto simp: psys_inv_def)
next
  case (kill_reader s)
  then show ?case by (auto simp: psys_inv_def)
qed

lemma preach_inv: "preach s \<Longrightarrow> psys_inv s"
  by (induction rule: preach.induct) (auto intro: psys_inv_init pstep_inv)

text \<open>C29. However writes, reads, closes and kills interleave, and although both counters wrap at
  \<open>2 ^ 32\<close>, the pipe is a FIFO: the bytes read so far followed by the bytes in the buffer are
  exactly the bytes written so far, and the buffer never holds more than \<open>PIPESIZE\<close>.\<close>

theorem pipe_is_fifo:
  assumes "preach s"
  shows "written s = got s @ pipe_bytes (pp s) \<and> length (pipe_bytes (pp s)) \<le> PIPESIZE"
  using preach_inv[OF assms] by (auto simp: psys_inv_def pipe_inv_bound)

text \<open>C30. Writer and reader never sleep at the same time: the pipe cannot deadlock itself.\<close>

theorem pipe_no_deadlock:
  assumes "preach s"
  shows "\<not> (wsleep s \<and> rsleep s)"
  using preach_inv[OF assms] by (auto simp: psys_inv_def)

text \<open>A concrete run for the witnesses: two bytes written, one read.\<close>

definition demo_page :: "u8 list" where
  "demo_page = replicate PIPESIZE 0"

lemma demo_reach:
  fixes page :: "u8 list"
  assumes "length page = PIPESIZE"
  defines "s1 \<equiv> (psys_init page)\<lparr>wleft := Some [1, 2]\<rparr>"
  defines "s2 \<equiv> writer_run [1, 2] s1"
  defines "s3 \<equiv> s2\<lparr>rwant := Some 1\<rparr>"
  shows "preach (reader_run 1 s3) \<and> got (reader_run 1 s3) = [1] \<and> written (reader_run 1 s3) = [1, 2]"
proof -
  have s1: "preach s1"
    unfolding s1_def
    by (rule preach.step[OF preach.start[OF assms(1)]], rule pstep.write_call)
      (simp_all add: psys_init_def pipe_init_def)
  have s2: "preach s2"
    unfolding s2_def
    by (rule preach.step[OF s1], rule pstep.write_run) (simp_all add: s1_def psys_init_def)
  have s3: "preach s3"
    unfolding s3_def
    by (rule preach.step[OF s2], rule pstep.read_call)
      (simp_all add: s2_def s1_def writer_run_def psys_init_def pipe_init_def wake_def)
  have s4: "preach (reader_run 1 s3)"
    by (rule preach.step[OF s3], rule pstep.read_run)
      (simp_all add: s3_def s2_def s1_def writer_run_def psys_init_def pipe_init_def wake_def)
  show ?thesis
    using s4 assms(1)
    by (simp add: s3_def s2_def s1_def writer_run_def reader_run_def psys_init_def pipe_init_def
        wake_def piperead_def)
qed

theorem pipe_is_fifo_witness:
  "\<exists>s. preach s \<and> got s = [1] \<and> written s = [1, 2] \<and> pipe_bytes (pp s) = [2]"
proof -
  obtain s where s: "preach s" "got s = [1]" "written s = [1, 2]"
    using demo_reach[of demo_page] by (auto simp: demo_page_def)
  with pipe_is_fifo[OF s(1)] show ?thesis by auto
qed

theorem pipe_no_deadlock_witness: "\<exists>s. preach s \<and> \<not> (wsleep s \<and> rsleep s)"
  using demo_reach[of demo_page] pipe_no_deadlock by (auto simp: demo_page_def)

text \<open>
  The exception in the invariant is real: a killed writer that has just filled the pipe returns
  -1 without waking a reader that sleeps on the formerly empty pipe.
\<close>

lemma killed_writer_skips_wakeup:
  assumes "length bs = 513" and "pipe_inv p" and "pipe_bytes p = []"
  shows "\<exists>p' rest. pipewrite p True bs = (p', rest, [], Ret (-1)) \<and> pipe_bytes p' \<noteq> []"
proof -
  obtain p' rest ws out where run: "pipewrite_loop p True (length bs) bs = (p', rest, ws, out)"
    by (cases "pipewrite_loop p True (length bs) bs") auto
  obtain taken where st: "pipe_inv p'" "bs = taken @ rest" "pipe_bytes p' = taken"
    using pipewrite_loop_stream[OF assms(2) run] assms(3) by auto
  have "rest \<noteq> []"
    using pipe_inv_bound[OF st(1)] st(2,3) assms(1) by auto
  then show ?thesis
    using pipewrite_loop_end[OF assms(2) run] run st by (auto simp: pipewrite_def)
qed

end
