(* ===== verification/Dll.thy ===== *)
theory Dll
  imports Prelude
begin

text \<open>
  Circular doubly linked lists, as \<^verbatim>\<open>bio.c\<close> threads them through the buffers: link fields are
  functions from cells to cells, \<open>chain nx a xs b\<close> says that following \<open>nx\<close> from \<open>a\<close> visits
  exactly \<open>xs\<close> and then reaches \<open>b\<close>, and a list with head \<open>h\<close> is a chain from \<open>h\<close> to \<open>h\<close> in each
  direction. The pointer assignments for unlinking a cell and for linking one after the head
  are proved to do that to the list.
\<close>

fun chain :: "('c \<Rightarrow> 'c) \<Rightarrow> 'c \<Rightarrow> 'c list \<Rightarrow> 'c \<Rightarrow> bool" where
  "chain nx a [] b \<longleftrightarrow> nx a = b"
| "chain nx a (x # xs) b \<longleftrightarrow> nx a = x \<and> chain nx x xs b"

definition dll :: "('c \<Rightarrow> 'c) \<Rightarrow> ('c \<Rightarrow> 'c) \<Rightarrow> 'c \<Rightarrow> 'c list \<Rightarrow> bool" where
  "dll nx pv h xs \<longleftrightarrow> distinct (h # xs) \<and> chain nx h xs h \<and> chain pv h (rev xs) h"

declare fun_upd_apply [simp del] fun_upd_same [simp] fun_upd_other [simp]

lemma chain_append: "chain nx a (xs @ y # ys) b \<longleftrightarrow> chain nx a xs y \<and> chain nx y ys b"
  by (induction xs arbitrary: a) auto

lemma chain_hd: "chain nx a xs b \<Longrightarrow> nx a = hd (xs @ [b])"
  by (cases xs) auto

lemma chain_upd_other [simp]: "c \<notin> set (a # xs) \<Longrightarrow> chain (nx(c := d)) a xs b \<longleftrightarrow> chain nx a xs b"
  by (induction xs arbitrary: a) auto

lemma chain_cong:
  "(\<And>c. c \<in> set (a # xs) \<Longrightarrow> nx c = nx' c) \<Longrightarrow> chain nx a xs b \<longleftrightarrow> chain nx' a xs b"
  by (induction xs arbitrary: a) auto

lemma chain_unlink:
  assumes "chain nx a (us @ y # vs) b" and "distinct (a # us @ y # vs)"
  shows "chain (nx(last (a # us) := nx y)) a (us @ vs) b"
  using assms
proof (induction us arbitrary: a)
  case Nil
  then show ?case by (cases vs) auto
next
  case (Cons u us)
  then have "chain (nx(last (u # us) := nx y)) u (us @ vs) b"
    by (simp del: last.simps)
  moreover have "last (u # us) \<noteq> a"
    using Cons.prems(2) last_in_set[of "u # us"] by (metis Un_iff append_Cons distinct.simps(2) list.discI set_append)
  ultimately show ?case using Cons.prems by (simp del: last.simps add: last_ConsR)
qed

lemma chain_link_first:
  "chain nx h xs b \<Longrightarrow> y \<notin> set (h # xs) \<Longrightarrow> h \<notin> set xs \<Longrightarrow> chain (nx(y := nx h, h := y)) h (y # xs) b"
  by (cases xs) auto

lemma chain_link_last:
  "chain pv a zs h \<Longrightarrow> distinct (a # zs) \<Longrightarrow> y \<notin> set (a # zs) \<Longrightarrow>
   chain (pv(last (a # zs) := y, y := h)) a (zs @ [y]) h"
proof (induction zs arbitrary: a)
  case (Cons z zs)
  then have "last (z # zs) \<noteq> a"
    using last_in_set[of "z # zs"] by auto
  with Cons show ?case by auto
qed auto

lemma dll_next_y:
  assumes "dll nx pv h (us @ y # vs)"
  shows "nx y = last (h # rev vs)" and "pv y = last (h # us)"
proof -
  have "chain nx y vs h" "chain pv y (rev us) h"
    using assms by (auto simp: dll_def chain_append)
  then show "nx y = last (h # rev vs)" "pv y = last (h # us)"
    by (auto dest!: chain_hd simp: hd_append hd_rev last_rev)
qed

lemma dll_unlink:
  assumes "dll nx pv h (us @ y # vs)"
  shows "dll (nx(pv y := nx y)) (pv(nx y := pv y)) h (us @ vs)"
proof -
  have d: "distinct (h # us @ y # vs)" and n: "chain nx h (us @ y # vs) h"
    and p: "chain pv h (rev vs @ y # rev us) h"
    using assms by (auto simp: dll_def)
  have "chain (nx(pv y := nx y)) h (us @ vs) h"
    unfolding dll_next_y(2)[OF assms] using chain_unlink[OF n] d by simp
  moreover have "chain (pv(nx y := pv y)) h (rev vs @ rev us) h"
    unfolding dll_next_y(1)[OF assms] using chain_unlink[OF p] d by (auto simp del: last.simps)
  ultimately show ?thesis
    using d by (simp add: dll_def)
qed

lemma dll_link_first:
  assumes "dll nx pv h xs" and "y \<notin> set (h # xs)"
  shows "dll (nx(y := nx h, h := y)) (pv(y := h, nx h := y)) h (y # xs)"
proof -
  have h: "nx h = last (h # rev xs)" and d: "distinct (h # xs)"
    using assms(1) by (auto simp: dll_def hd_append hd_rev last_rev dest!: chain_hd)
  have "chain (pv(nx h := y, y := h)) h (rev xs @ [y]) h"
    unfolding h using assms by (intro chain_link_last) (auto simp: dll_def)
  moreover have "nx h \<noteq> y"
    using h assms(2) last_in_set[of "h # rev xs"] by auto
  ultimately have "chain (pv(y := h, nx h := y)) h (rev (y # xs)) h"
    by (simp add: fun_upd_twist)
  moreover have "chain (nx(y := nx h, h := y)) h (y # xs) h"
    using assms by (intro chain_link_first) (auto simp: dll_def)
  ultimately show ?thesis
    using d assms(2) by (auto simp: dll_def)
qed

lemma chain_step_in: "chain nx a xs b \<Longrightarrow> x \<in> set (a # xs) \<Longrightarrow> nx x \<in> set (xs @ [b])"
  by (induction xs arbitrary: a) auto

lemma dll_step_in:
  assumes "dll nx pv h xs" and "x \<in> set (h # xs)"
  shows "nx x \<in> set (h # xs)" and "pv x \<in> set (h # xs)"
  using chain_step_in[of nx h xs h x] chain_step_in[of pv h "rev xs" h x] assms
  by (auto simp: dll_def)

lemma dll_next_neq:
  assumes "dll nx pv h xs" and "y \<in> set xs"
  shows "nx y \<noteq> y"
proof -
  obtain us vs where split: "xs = us @ y # vs"
    using assms(2) by (metis in_set_conv_decomp)
  have "chain nx y vs h" and "y \<notin> set (vs @ [h])"
    using assms(1) by (auto simp: split dll_def chain_append)
  then show ?thesis
    using chain_step_in[of nx y vs h y] by auto
qed

declare fun_upd_apply [simp] fun_upd_same [simp del] fun_upd_other [simp del]

lemma dll_Nil: "nx h = h \<Longrightarrow> pv h = h \<Longrightarrow> dll nx pv h []"
  by (simp add: dll_def)

end
