(* ===== verification/Sleeplock.thy ===== *)
theory Sleeplock
  imports Prelude
begin

text \<open>
  Sleep locks (\<^verbatim>\<open>sleeplock.c\<close>) as the file system uses them. An operation runs on behalf of one
  process; waiting for a lock that is already held is the result \<open>Hang\<close>, since no step of the
  operation itself can release it. The interleaved view of the same lock, with the wait as a
  blocked process, is the step relation at the end.
\<close>

record sleeplock =
  sl_locked :: bool
  sl_pid :: nat

definition initsleeplock :: sleeplock where
  "initsleeplock = \<lparr>sl_locked = False, sl_pid = 0\<rparr>"

definition acquiresleep :: "nat \<Rightarrow> sleeplock \<Rightarrow> sleeplock res" where
  "acquiresleep me lk = (if sl_locked lk then Inl (Hang ''acquiresleep'') else Inr (lk\<lparr>sl_locked := True, sl_pid := me\<rparr>))"

definition releasesleep :: "sleeplock \<Rightarrow> sleeplock" where
  "releasesleep lk = lk\<lparr>sl_locked := False, sl_pid := 0\<rparr>"

definition holdingsleep :: "nat \<Rightarrow> sleeplock \<Rightarrow> bool" where
  "holdingsleep me lk \<longleftrightarrow> sl_locked lk \<and> sl_pid lk = me"

lemma acquiresleep_holds: "acquiresleep me lk = Inr lk' \<Longrightarrow> holdingsleep me lk'"
  by (auto simp: acquiresleep_def holdingsleep_def split: if_splits)

lemma holdingsleep_unique: "holdingsleep p lk \<Longrightarrow> holdingsleep q lk \<Longrightarrow> p = q"
  by (simp add: holdingsleep_def)

section \<open>Mutual exclusion\<close>

text \<open>
  Several processes using one lock. A process asks for the lock, sleeps while it is taken,
  is made runnable again by the \<open>wakeup\<close> in \<open>releasesleep\<close> and then tests the lock again.
\<close>

datatype lphase = Outside | Wants | Asleep | Inside

record lsys =
  the_lk :: sleeplock
  lphase_of :: "nat \<Rightarrow> lphase"

definition wakeup_lock :: "(nat \<Rightarrow> lphase) \<Rightarrow> nat \<Rightarrow> lphase" where
  "wakeup_lock ph p = (if ph p = Asleep then Wants else ph p)"

inductive lstep :: "lsys \<Rightarrow> lsys \<Rightarrow> bool" where
  ask: "lphase_of s p = Outside \<Longrightarrow> lstep s (s\<lparr>lphase_of := (lphase_of s)(p := Wants)\<rparr>)"
| take_it: "lphase_of s p = Wants \<Longrightarrow> acquiresleep p (the_lk s) = Inr l \<Longrightarrow>
    lstep s (s\<lparr>the_lk := l, lphase_of := (lphase_of s)(p := Inside)\<rparr>)"
| wait: "lphase_of s p = Wants \<Longrightarrow> acquiresleep p (the_lk s) = Inl e \<Longrightarrow>
    lstep s (s\<lparr>lphase_of := (lphase_of s)(p := Asleep)\<rparr>)"
| leave: "lphase_of s p = Inside \<Longrightarrow>
    lstep s (s\<lparr>the_lk := releasesleep (the_lk s), lphase_of := (wakeup_lock (lphase_of s))(p := Outside)\<rparr>)"

inductive lreach :: "lsys \<Rightarrow> bool" where
  start: "lreach \<lparr>the_lk = initsleeplock, lphase_of = (\<lambda>_. Outside)\<rparr>"
| step: "lreach s \<Longrightarrow> lstep s t \<Longrightarrow> lreach t"

definition lsys_inv :: "lsys \<Rightarrow> bool" where
  "lsys_inv s \<longleftrightarrow> (\<forall>p. lphase_of s p = Inside \<longrightarrow> holdingsleep p (the_lk s)) \<and>
     (sl_locked (the_lk s) \<longrightarrow> lphase_of s (sl_pid (the_lk s)) = Inside) \<and>
     ((\<exists>p. lphase_of s p = Asleep) \<longrightarrow> sl_locked (the_lk s))"

lemma lstep_inv: "lstep s t \<Longrightarrow> lsys_inv s \<Longrightarrow> lsys_inv t"
proof (induction rule: lstep.induct)
  case (leave s p)
  then have "sl_pid (the_lk s) = p"
    by (simp add: lsys_inv_def holdingsleep_def)
  then have others: "q \<noteq> p \<Longrightarrow> lphase_of s q \<noteq> Inside" for q
    using leave(2) by (auto simp: lsys_inv_def holdingsleep_def)
  show ?case
    by (simp add: lsys_inv_def releasesleep_def wakeup_lock_def others)
next
  case (ask s p)
  then have "sl_locked (the_lk s) \<Longrightarrow> sl_pid (the_lk s) \<noteq> p"
    by (auto simp: lsys_inv_def)
  with ask show ?case
    unfolding lsys_inv_def by (simp, blast)
next
  case (take_it s p l)
  then have "\<not> sl_locked (the_lk s)" "l = (the_lk s)\<lparr>sl_locked := True, sl_pid := p\<rparr>"
    by (auto simp: acquiresleep_def split: if_splits)
  with take_it show ?case by (simp add: lsys_inv_def holdingsleep_def)
next
  case (wait s p e)
  then have "sl_locked (the_lk s)"
    by (auto simp: acquiresleep_def split: if_splits)
  with wait show ?case by (auto simp: lsys_inv_def)
qed

lemma lreach_inv: "lreach s \<Longrightarrow> lsys_inv s"
proof (induction rule: lreach.induct)
  case start
  then show ?case by (simp add: lsys_inv_def initsleeplock_def)
next
  case (step s t)
  then show ?case by (simp add: lstep_inv)
qed

text \<open>C31. Sleep locks exclude each other and lose no wake-up: in every interleaving at most one
  process is between \<open>acquiresleep\<close> and \<open>releasesleep\<close>, it is the one the lock names, and a
  process only sleeps on the lock while some process holds it and will wake it.\<close>

theorem sleeplock_mutual_exclusion:
  assumes "lreach s"
  shows "(lphase_of s p = Inside \<and> lphase_of s q = Inside \<longrightarrow> p = q) \<and>
         (lphase_of s p = Inside \<longrightarrow> holdingsleep p (the_lk s)) \<and>
         (lphase_of s p = Asleep \<longrightarrow> (\<exists>q. q \<noteq> p \<and> lphase_of s q = Inside))"
proof -
  have inv: "lsys_inv s" by (rule lreach_inv[OF assms])
  then have "lphase_of s p = Asleep \<longrightarrow> sl_pid (the_lk s) \<noteq> p \<and> lphase_of s (sl_pid (the_lk s)) = Inside"
    by (auto simp: lsys_inv_def)
  then show ?thesis
    using inv holdingsleep_unique unfolding lsys_inv_def by blast
qed

theorem sleeplock_mutual_exclusion_witness:
  "\<exists>s. lreach s \<and> lphase_of s 1 = Inside \<and> lphase_of s 2 = Asleep \<and> holdingsleep 1 (the_lk s)"
proof -
  define s0 :: lsys where "s0 = \<lparr>the_lk = initsleeplock, lphase_of = (\<lambda>_. Outside)\<rparr>"
  define s1 where "s1 = s0\<lparr>lphase_of := (lphase_of s0)(1 := Wants)\<rparr>"
  define s2 where "s2 = s1\<lparr>the_lk := \<lparr>sl_locked = True, sl_pid = 1\<rparr>, lphase_of := (lphase_of s1)(1 := Inside)\<rparr>"
  define s3 where "s3 = s2\<lparr>lphase_of := (lphase_of s2)(2 := Wants)\<rparr>"
  define s4 where "s4 = s3\<lparr>lphase_of := (lphase_of s3)(2 := Asleep)\<rparr>"
  note defs = s0_def s1_def s2_def s3_def s4_def
  have "lreach s0" unfolding s0_def by (rule lreach.start)
  then have "lreach s1" unfolding s1_def by (rule lreach.step) (rule lstep.ask, simp add: defs)
  then have "lreach s2" unfolding s2_def
    by (rule lreach.step) (rule lstep.take_it, simp_all add: defs acquiresleep_def initsleeplock_def)
  then have "lreach s3" unfolding s3_def by (rule lreach.step) (rule lstep.ask, simp add: defs)
  then have "lreach s4" unfolding s4_def
    by (rule lreach.step) (rule lstep.wait, simp_all add: defs acquiresleep_def)
  moreover have "lphase_of s4 1 = Inside" "lphase_of s4 2 = Asleep"
    by (simp_all add: defs)
  ultimately show ?thesis
    using sleeplock_mutual_exclusion[of s4 1 2] by blast
qed

end
