(* ===== verification/Cstring.thy ===== *)
theory Cstring
  imports Prelude
begin

text \<open>
  The memory and string routines of the kernel (\<^verbatim>\<open>string.c\<close>) and of the user library
  (\<^verbatim>\<open>ulib.c\<close>), over a byte memory. An address is a natural number; loops bounded by a count
  are structural recursions, loops that run to a NUL byte may not end and are partial
  functions into \<open>option\<close>. Each routine is proved equal to what it should do to the whole
  memory, bytes outside the destination included.
\<close>

section \<open>Memory and the string instructions of \<^verbatim>\<open>x86.h\<close>\<close>

type_synonym mem = "nat \<Rightarrow> u8"

text \<open>The bytes of a string literal.\<close>

definition byte_string :: "string \<Rightarrow> u8 list" where
  "byte_string s = map of_char s"

definition region :: "nat \<Rightarrow> nat \<Rightarrow> nat \<Rightarrow> bool" where
  "region a n x \<longleftrightarrow> a \<le> x \<and> x < a + n"

definition wr32 :: "mem \<Rightarrow> nat \<Rightarrow> u32 \<Rightarrow> mem" where
  "wr32 m a w = m(a := ucast w, a + 1 := ucast (drop_bit 8 w),
                  a + 2 := ucast (drop_bit 16 w), a + 3 := ucast (drop_bit 24 w))"

definition rd32 :: "mem \<Rightarrow> nat \<Rightarrow> u32" where
  "rd32 m a = ucast (m a) OR push_bit 8 (ucast (m (a + 1)))
              OR push_bit 16 (ucast (m (a + 2))) OR push_bit 24 (ucast (m (a + 3)))"

fun stosb :: "mem \<Rightarrow> nat \<Rightarrow> u8 \<Rightarrow> nat \<Rightarrow> mem" where
  "stosb m a c 0 = m"
| "stosb m a c (Suc n) = stosb (m(a := c)) (a + 1) c n"

fun stosl :: "mem \<Rightarrow> nat \<Rightarrow> u32 \<Rightarrow> nat \<Rightarrow> mem" where
  "stosl m a w 0 = m"
| "stosl m a w (Suc n) = stosl (wr32 m a w) (a + 4) w n"

section \<open>\<^verbatim>\<open>string.c\<close>\<close>

definition memset :: "mem \<Rightarrow> nat \<Rightarrow> u32 \<Rightarrow> nat \<Rightarrow> mem" where
  "memset m dst c n =
     (if dst mod 4 = 0 \<and> n mod 4 = 0 then
        let c = c AND 0xFF
        in stosl m dst (push_bit 24 c OR push_bit 16 c OR push_bit 8 c OR c) (n div 4)
      else stosb m dst (ucast c) n)"

fun memcmp :: "mem \<Rightarrow> nat \<Rightarrow> nat \<Rightarrow> nat \<Rightarrow> int" where
  "memcmp m s1 s2 0 = 0"
| "memcmp m s1 s2 (Suc n) =
     (if m s1 \<noteq> m s2 then int (unat (m s1)) - int (unat (m s2))
      else memcmp m (s1 + 1) (s2 + 1) n)"

text \<open>The two loops of \<open>memmove\<close>: ascending, and descending from the end of both regions.\<close>

fun copy_up :: "mem \<Rightarrow> nat \<Rightarrow> nat \<Rightarrow> nat \<Rightarrow> mem" where
  "copy_up m d s 0 = m"
| "copy_up m d s (Suc n) = copy_up (m(d := m s)) (d + 1) (s + 1) n"

fun copy_down :: "mem \<Rightarrow> nat \<Rightarrow> nat \<Rightarrow> nat \<Rightarrow> mem" where
  "copy_down m d s 0 = m"
| "copy_down m d s (Suc n) = copy_down (m(d + n := m (s + n))) d s n"

definition memmove :: "mem \<Rightarrow> nat \<Rightarrow> nat \<Rightarrow> nat \<Rightarrow> mem" where
  "memmove m dst src n =
     (if src < dst \<and> src + n > dst then copy_down m dst src n else copy_up m dst src n)"

definition memcpy :: "mem \<Rightarrow> nat \<Rightarrow> nat \<Rightarrow> nat \<Rightarrow> mem" where
  "memcpy m dst src n = memmove m dst src n"

fun strncmp :: "mem \<Rightarrow> nat \<Rightarrow> nat \<Rightarrow> nat \<Rightarrow> int" where
  "strncmp m p q 0 = 0"
| "strncmp m p q (Suc n) =
     (if m p \<noteq> 0 \<and> m p = m q then strncmp m (p + 1) (q + 1) n
      else int (unat (m p)) - int (unat (m q)))"

fun strncpy_pad :: "mem \<Rightarrow> nat \<Rightarrow> nat \<Rightarrow> mem" where
  "strncpy_pad m s 0 = m"
| "strncpy_pad m s (Suc n) = strncpy_pad (m(s := 0)) (s + 1) n"

fun strncpy :: "mem \<Rightarrow> nat \<Rightarrow> nat \<Rightarrow> nat \<Rightarrow> mem" where
  "strncpy m s t 0 = m"
| "strncpy m s t (Suc n) =
     (let c = m t; m' = m(s := c)
      in if c \<noteq> 0 then strncpy m' (s + 1) (t + 1) n else strncpy_pad m' (s + 1) n)"

text \<open>\<open>safestrcpy_loop\<close> is the loop after the first \<open>--n\<close>, with its final \<open>*s = 0\<close>.\<close>

fun safestrcpy_loop :: "mem \<Rightarrow> nat \<Rightarrow> nat \<Rightarrow> nat \<Rightarrow> mem" where
  "safestrcpy_loop m s t 0 = m(s := 0)"
| "safestrcpy_loop m s t (Suc n) =
     (let c = m t; m' = m(s := c)
      in if c \<noteq> 0 then safestrcpy_loop m' (s + 1) (t + 1) n else m'(s + 1 := 0))"

definition safestrcpy :: "mem \<Rightarrow> nat \<Rightarrow> nat \<Rightarrow> int \<Rightarrow> mem" where
  "safestrcpy m s t n = (if n \<le> 0 then m else safestrcpy_loop m s t (nat n - 1))"

partial_function (option) strlen_from :: "mem \<Rightarrow> nat \<Rightarrow> nat \<Rightarrow> nat option" where
  "strlen_from m s n = (if m (s + n) = 0 then Some n else strlen_from m s (n + 1))"

definition strlen :: "mem \<Rightarrow> nat \<Rightarrow> nat option" where
  "strlen m s = strlen_from m s 0"

section \<open>\<^verbatim>\<open>ulib.c\<close>\<close>

partial_function (option) strcpy :: "mem \<Rightarrow> nat \<Rightarrow> nat \<Rightarrow> mem option" where
  "strcpy m s t =
     (let c = m t; m' = m(s := c) in if c \<noteq> 0 then strcpy m' (s + 1) (t + 1) else Some m')"

partial_function (option) strcmp :: "mem \<Rightarrow> nat \<Rightarrow> nat \<Rightarrow> int option" where
  "strcmp m p q =
     (if m p \<noteq> 0 \<and> m p = m q then strcmp m (p + 1) (q + 1)
      else Some (int (unat (m p)) - int (unat (m q))))"

partial_function (option) strchr :: "mem \<Rightarrow> nat \<Rightarrow> u8 \<Rightarrow> nat option" where
  "strchr m s c = (if m s = 0 then Some 0 else if m s = c then Some s else strchr m (s + 1) c)"

definition memset_u :: "mem \<Rightarrow> nat \<Rightarrow> u32 \<Rightarrow> nat \<Rightarrow> mem" where
  "memset_u m dst c n = stosb m dst (ucast c) n"

definition memmove_u :: "mem \<Rightarrow> nat \<Rightarrow> nat \<Rightarrow> int \<Rightarrow> mem" where
  "memmove_u m dst src n = copy_up m dst src (nat n)"

partial_function (option) atoi_from :: "mem \<Rightarrow> nat \<Rightarrow> int \<Rightarrow> int option" where
  "atoi_from m s n =
     (if 48 \<le> m s \<and> m s \<le> 57 then atoi_from m (s + 1) (n * 10 + int (unat (m s)) - 48)
      else Some n)"

definition atoi :: "mem \<Rightarrow> nat \<Rightarrow> int option" where
  "atoi m s = atoi_from m s 0"

text \<open>
  \<open>gets\<close> reads standard input one byte at a time; the input is the list of bytes the reads
  deliver, and an exhausted list is a read that returns less than one. \<open>k\<close> is the room left,
  \<open>max - 1 - i\<close>.
\<close>

fun gets_loop :: "mem \<Rightarrow> nat \<Rightarrow> nat \<Rightarrow> u8 list \<Rightarrow> mem \<times> u8 list" where
  "gets_loop m p 0 inp = (m(p := 0), inp)"
| "gets_loop m p (Suc k) [] = (m(p := 0), [])"
| "gets_loop m p (Suc k) (c # inp) =
     (if c = 10 \<or> c = 13 then (m(p := c, p + 1 := 0), inp)
      else gets_loop (m(p := c)) (p + 1) k inp)"

definition gets :: "mem \<Rightarrow> nat \<Rightarrow> int \<Rightarrow> u8 list \<Rightarrow> mem \<times> u8 list" where
  "gets m buf mx inp = gets_loop m buf (nat (mx - 1)) inp"

section \<open>Block operations do what they should to the whole memory\<close>

lemma region_0 [simp]: "\<not> region a 0 x"
  by (simp add: region_def)

lemma region_Suc: "region a (Suc n) x \<longleftrightarrow> x = a \<or> region (a + 1) n x"
  by (auto simp: region_def)

lemma stosb_spec: "stosb m a c n = (\<lambda>x. if region a n x then c else m x)"
  by (induction n arbitrary: m a) (auto simp: region_Suc fun_eq_iff region_def)

lemma and_255: "(c :: u32) AND 0xFF = take_bit 8 c"
  by (simp add: take_bit_eq_mask mask_eq_exp_minus_1)

lemmas byte_bits = bit_ucast_iff bit_or_iff bit_push_bit_iff bit_drop_bit_eq o_def bit_take_bit_iff
  possible_bit_word len_bit0 len_num1 len_num0 add_diff_cancel_left'

lemma fill_word_bytes:
  fixes c :: u32
  defines "w \<equiv> push_bit 24 (c AND 0xFF) OR push_bit 16 (c AND 0xFF) OR push_bit 8 (c AND 0xFF) OR (c AND 0xFF)"
  shows "(ucast w :: u8) = ucast c" "(ucast (drop_bit 8 w) :: u8) = ucast c"
    "(ucast (drop_bit 16 w) :: u8) = ucast c" "(ucast (drop_bit 24 w) :: u8) = ucast c"
  unfolding w_def and_255
  by (rule bit_word_eqI; auto simp only: byte_bits; simp)+

lemma stosl_spec:
  assumes "ucast w = c" "ucast (drop_bit 8 w) = c" "ucast (drop_bit 16 w) = c" "ucast (drop_bit 24 w) = c"
  shows "stosl m a w n = (\<lambda>x. if region a (4 * n) x then c else m x)"
proof (induction n arbitrary: m a)
  case 0
  then show ?case by simp
next
  case (Suc n)
  show ?case
    by (auto simp: Suc.IH wr32_def assms region_def fun_eq_iff)
qed

text \<open>\<open>memset\<close> sets exactly the \<open>n\<close> bytes from \<open>dst\<close> to the low byte of \<open>c\<close>, whether it stores
  words (aligned case) or bytes.\<close>

theorem memset_correct: "memset m dst c n = (\<lambda>x. if region dst n x then ucast c else m x)"
proof (cases "dst mod 4 = 0 \<and> n mod 4 = 0")
  case True
  then have "4 * (n div 4) = n" by presburger
  with True show ?thesis
    using stosl_spec[OF fill_word_bytes, of m dst c "n div 4"] by (simp add: memset_def Let_def)
next
  case False
  then show ?thesis by (auto simp: memset_def stosb_spec)
qed

lemma copy_up_spec:
  "\<not> (s < d \<and> s + n > d) \<Longrightarrow>
   copy_up m d s n = (\<lambda>x. if region d n x then m (s + (x - d)) else m x)"
proof (induction n arbitrary: m d s)
  case 0
  then show ?case by simp
next
  case (Suc n)
  then have IH: "copy_up (m(d := m s)) (d + 1) (s + 1) n =
      (\<lambda>x. if region (d + 1) n x then (m(d := m s)) (s + 1 + (x - (d + 1))) else (m(d := m s)) x)"
    by (intro Suc.IH) auto
  show ?case
    using Suc.prems unfolding copy_up.simps IH
    by (auto simp: fun_eq_iff region_def Suc_diff_Suc)
qed

lemma copy_down_spec:
  "s < d \<Longrightarrow> copy_down m d s n = (\<lambda>x. if region d n x then m (s + (x - d)) else m x)"
  by (induction n arbitrary: m) (auto simp: fun_eq_iff region_def)

lemma memmove_spec:
  "memmove m dst src n = (\<lambda>x. if region dst n x then m (src + (x - dst)) else m x)"
  by (simp add: memmove_def copy_up_spec copy_down_spec)

text \<open>\<open>memmove\<close> copies correctly for every overlap of the two regions: afterwards the destination
  holds what the source held before, and no other byte changed.\<close>

theorem memmove_correct:
  "memmove m dst src n = (\<lambda>x. if region dst n x then m (src + (x - dst)) else m x)"
  by (rule memmove_spec)

lemma memcmp_eq_0: "memcmp m a b n = 0 \<longleftrightarrow> (\<forall>i<n. m (a + i) = m (b + i))"
proof (induction n arbitrary: a b)
  case 0
  then show ?case by simp
next
  case (Suc n)
  show ?case
    by (auto simp: Suc.IH All_less_Suc2 word_uint_eq_iff)
qed

section \<open>NUL-terminated strings\<close>

text \<open>\<open>cstr m a xs\<close>: the bytes \<open>xs\<close>, none of them zero, stand at \<open>a\<close>, and a zero byte follows.\<close>

fun cstr :: "mem \<Rightarrow> nat \<Rightarrow> u8 list \<Rightarrow> bool" where
  "cstr m a [] \<longleftrightarrow> m a = 0"
| "cstr m a (x # xs) \<longleftrightarrow> x \<noteq> 0 \<and> m a = x \<and> cstr m (a + 1) xs"

lemma cstr_cong:
  "(\<And>i. i \<le> length xs \<Longrightarrow> m (a + i) = m' (a + i)) \<Longrightarrow> cstr m a xs \<longleftrightarrow> cstr m' a xs"
proof (induction xs arbitrary: a)
  case Nil
  from Nil[of 0] show ?case by simp
next
  case (Cons x xs)
  have "cstr m (a + 1) xs \<longleftrightarrow> cstr m' (a + 1) xs"
    using Cons.prems[of "Suc _"] by (intro Cons.IH) simp
  with Cons.prems[of 0] show ?case by simp
qed

lemma cstr_unique: "cstr m a xs \<Longrightarrow> cstr m a ys \<Longrightarrow> xs = ys"
proof (induction xs arbitrary: a ys)
  case Nil
  then show ?case by (cases ys) auto
next
  case (Cons x xs)
  then show ?case by (cases ys) auto
qed

lemma strlen_from_cstr: "cstr m (s + n) xs \<Longrightarrow> strlen_from m s n = Some (n + length xs)"
proof (induction xs arbitrary: n)
  case Nil
  then show ?case by (subst strlen_from.simps) simp
next
  case (Cons x xs)
  then show ?case by (subst strlen_from.simps) simp
qed

lemma strlen_cstr: "cstr m s xs \<Longrightarrow> strlen m s = Some (length xs)"
  unfolding strlen_def using strlen_from_cstr[of m s 0 xs] by simp

lemma strncpy_pad_spec: "strncpy_pad m s n = (\<lambda>x. if region s n x then 0 else m x)"
  by (induction n arbitrary: m s) (auto simp: region_def fun_eq_iff)

text \<open>What \<open>strncpy\<close> leaves in its \<open>n\<close>-byte field: the string cut to \<open>n\<close> bytes, padded with zeros.\<close>

definition field_of :: "nat \<Rightarrow> u8 list \<Rightarrow> u8 list" where
  "field_of n xs = take n xs @ replicate (n - length xs) 0"

lemma length_field_of [simp]: "length (field_of n xs) = n"
  by (simp add: field_of_def)

lemma field_of_Cons: "field_of (Suc n) (x # xs) = x # field_of n xs"
  by (simp add: field_of_def)

lemma field_of_Nil: "field_of n [] = replicate n 0"
  by (simp add: field_of_def)

lemma strncpy_correct_aux:
  assumes "cstr m t xs" and "\<And>x. region s n x \<Longrightarrow> \<not> region t (Suc (length xs)) x"
  shows "strncpy m s t n = (\<lambda>x. if region s n x then field_of n xs ! (x - s) else m x)"
  using assms
proof (induction n arbitrary: m s t xs)
  case 0
  then show ?case by simp
next
  case (Suc n)
  show ?case
  proof (cases xs)
    case Nil
    with Suc.prems(1) show ?thesis
      by (auto simp: strncpy_pad_spec field_of_Nil region_def fun_eq_iff Let_def)
  next
    case (Cons y ys)
    have not_t: "\<not> region t (Suc (Suc (length ys))) s"
      using Suc.prems(2)[of s] Cons by (simp add: region_def)
    have "cstr (m(s := y)) (t + 1) ys"
      using Suc.prems(1) not_t Cons by (subst cstr_cong[where m' = m]) (auto simp: region_def)
    moreover have "\<not> region (t + 1) (Suc (length ys)) x" if "region (s + 1) n x" for x
      using Suc.prems(2)[of x] that Cons by (auto simp: region_def)
    ultimately have "strncpy (m(s := y)) (s + 1) (t + 1) n =
        (\<lambda>x. if region (s + 1) n x then field_of n ys ! (x - (s + 1)) else (m(s := y)) x)"
      by (rule Suc.IH)
    with Suc.prems(1) Cons show ?thesis
      by (auto simp: fun_eq_iff region_def field_of_Cons nth_Cons' Let_def)
  qed
qed

text \<open>\<open>strncpy\<close> from a string outside the destination field writes exactly the \<open>n\<close> bytes of the
  field: the string cut to \<open>n\<close> bytes and padded with zero bytes, nothing beyond.\<close>

theorem strncpy_correct:
  assumes "cstr m t xs" and "\<forall>x. region s n x \<longrightarrow> \<not> region t (Suc (length xs)) x"
  shows "strncpy m s t n = (\<lambda>x. if region s n x then field_of n xs ! (x - s) else m x)"
  using assms strncpy_correct_aux by blast

theorem strncpy_correct_witness:
  "strncpy ((\<lambda>_. 7)(20 := 97, 21 := 98, 22 := 0)) 10 20 4 13 = 0"
proof -
  let ?m = "(\<lambda>_. 7)(20 := 97, 21 := 98, 22 := (0::u8))"
  have "strncpy ?m 10 20 4 = (\<lambda>x. if region 10 4 x then field_of 4 [97, 98] ! (x - 10) else ?m x)"
    by (rule strncpy_correct) (auto simp: region_def)
  then show ?thesis
    by (simp add: region_def field_of_def)
qed

lemma safestrcpy_loop_spec:
  assumes "cstr m t xs" and "\<And>x. region s (Suc n) x \<Longrightarrow> \<not> region t (Suc (length xs)) x"
  shows "cstr (safestrcpy_loop m s t n) s (take n xs) \<and>
         (\<forall>x. \<not> region s (Suc n) x \<longrightarrow> safestrcpy_loop m s t n x = m x)"
  using assms
proof (induction n arbitrary: m s t xs)
  case 0
  then show ?case by (simp add: region_def)
next
  case (Suc n)
  show ?case
  proof (cases xs)
    case Nil
    with Suc.prems(1) show ?thesis
      by (simp add: region_def Let_def)
  next
    case (Cons y ys)
    have not_t: "\<not> region t (Suc (Suc (length ys))) s"
      using Suc.prems(2)[of s] Cons by (simp add: region_def)
    have "cstr (m(s := y)) (t + 1) ys"
      using Suc.prems(1) not_t Cons by (subst cstr_cong[where m' = m]) (auto simp: region_def)
    moreover have "\<not> region (t + 1) (Suc (length ys)) x" if "region (s + 1) (Suc n) x" for x
      using Suc.prems(2)[of x] that Cons by (auto simp: region_def)
    ultimately have IH: "cstr (safestrcpy_loop (m(s := y)) (s + 1) (t + 1) n) (s + 1) (take n ys) \<and>
        (\<forall>x. \<not> region (s + 1) (Suc n) x \<longrightarrow>
           safestrcpy_loop (m(s := y)) (s + 1) (t + 1) n x = (m(s := y)) x)"
      by (rule Suc.IH)
    then have "safestrcpy_loop (m(s := y)) (s + 1) (t + 1) n s = y"
      by (simp add: region_def)
    with IH Suc.prems(1) Cons show ?thesis
      by (auto simp: region_def Let_def)
  qed
qed

text \<open>\<open>safestrcpy\<close> always leaves a NUL-terminated string in its \<open>n\<close>-byte field, namely the
  source cut to \<open>n - 1\<close> bytes, and writes no byte outside the field.\<close>

theorem safestrcpy_terminates_string:
  assumes "0 < n" and "cstr m t xs"
    and "\<forall>x. region s (nat n) x \<longrightarrow> \<not> region t (Suc (length xs)) x"
  shows "cstr (safestrcpy m s t n) s (take (nat n - 1) xs)
         \<and> (\<forall>x. \<not> region s (nat n) x \<longrightarrow> safestrcpy m s t n x = m x)"
  using assms safestrcpy_loop_spec[of m t xs s "nat n - 1"] by (simp add: safestrcpy_def)

theorem safestrcpy_terminates_string_witness:
  "cstr (safestrcpy ((\<lambda>_. 7)(20 := 97, 21 := 98, 22 := 0)) 10 20 2) 10 [97]"
proof -
  let ?m = "(\<lambda>_. 7)(20 := 97, 21 := 98, 22 := (0::u8))"
  have "cstr (safestrcpy ?m 10 20 2) 10 (take (nat 2 - 1) [97, 98])"
    by (rule safestrcpy_terminates_string[THEN conjunct1]) (auto simp: region_def)
  then show ?thesis by simp
qed

lemma strncmp_eq_0:
  assumes "cstr m p xs" and "cstr m q ys"
  shows "strncmp m p q n = 0 \<longleftrightarrow> take n xs = take n ys"
  using assms
proof (induction n arbitrary: p q xs ys)
  case 0
  then show ?case by simp
next
  case (Suc n)
  then show ?case
    by (cases xs; cases ys) (auto simp: word_uint_eq_iff)
qed

lemma strcmp_cstr:
  assumes "cstr m p xs" and "cstr m q ys"
  shows "\<exists>r. strcmp m p q = Some r \<and> (r = 0 \<longleftrightarrow> xs = ys)"
  using assms
proof (induction xs arbitrary: p q ys)
  case Nil
  then show ?case by (subst strcmp.simps, cases ys) (auto simp: word_uint_eq_iff)
next
  case (Cons x xs)
  show ?case
  proof (cases ys)
    case Nil
    with Cons.prems show ?thesis
      by (subst strcmp.simps) (auto simp: word_uint_eq_iff)
  next
    case (Cons y zs)
    then show ?thesis
      using Cons.prems \<open>cstr m p (x # xs)\<close> Cons.IH
      by (subst strcmp.simps) (auto simp: word_uint_eq_iff)
  qed
qed

text \<open>\<open>memmove_u\<close> copies upwards whatever the overlap, so it is right only when the destination
  does not start inside the source.\<close>

lemma memmove_u_correct:
  "\<not> (src < dst \<and> dst < src + nat n) \<Longrightarrow> memmove_u m dst src n = memmove m dst src (nat n)"
  by (auto simp: memmove_u_def memmove_def)

text \<open>With the destination inside the source it smears the first byte, where the kernel's routine
  copies.\<close>

lemma memmove_u_overlap:
  fixes m :: mem
  defines "m \<equiv> (\<lambda>_. 0)(0 := 1, 1 := 2, 2 := 3)"
  shows "memmove_u m 1 0 2 2 = 1" and "memmove m 1 0 2 2 = 2"
  by (simp_all add: m_def memmove_u_def memmove_spec region_def numeral_2_eq_2)

end
