(* ===== verification/Bytes.thy ===== *)
theory Bytes
  imports Cstring
begin

text \<open>
  Fields of C structures inside byte buffers. The target is little endian: \<open>get32 bs i\<close> reads the
  32-bit field at byte \<open>i\<close> of a buffer, \<open>put32\<close> stores one, \<open>get16\<close> and \<open>put16\<close> do the same for a
  \<open>short\<close>, and \<open>get_bytes\<close>/\<open>put_bytes\<close> are \<open>memmove\<close> from and into a buffer. The lemmas say that a
  field reads back what was stored and that fields which do not overlap are independent.
\<close>

definition get32 :: "u8 list \<Rightarrow> nat \<Rightarrow> u32" where
  "get32 bs i = ucast (bs ! i) OR push_bit 8 (ucast (bs ! (i + 1)))
                OR push_bit 16 (ucast (bs ! (i + 2))) OR push_bit 24 (ucast (bs ! (i + 3)))"

definition put32 :: "u8 list \<Rightarrow> nat \<Rightarrow> u32 \<Rightarrow> u8 list" where
  "put32 bs i w = bs[i := ucast w, i + 1 := ucast (drop_bit 8 w),
                     i + 2 := ucast (drop_bit 16 w), i + 3 := ucast (drop_bit 24 w)]"

definition get16 :: "u8 list \<Rightarrow> nat \<Rightarrow> u16" where
  "get16 bs i = ucast (bs ! i) OR push_bit 8 (ucast (bs ! (i + 1)))"

definition put16 :: "u8 list \<Rightarrow> nat \<Rightarrow> u16 \<Rightarrow> u8 list" where
  "put16 bs i w = bs[i := ucast w, i + 1 := ucast (drop_bit 8 w)]"

definition get_bytes :: "u8 list \<Rightarrow> nat \<Rightarrow> nat \<Rightarrow> u8 list" where
  "get_bytes bs i n = take n (drop i bs)"

definition put_bytes :: "u8 list \<Rightarrow> nat \<Rightarrow> u8 list \<Rightarrow> u8 list" where
  "put_bytes bs i xs = take i bs @ xs @ drop (i + length xs) bs"

section \<open>Words from their bytes\<close>

lemma word_of_bytes32:
  fixes w :: u32
  shows "ucast (ucast w :: u8) OR push_bit 8 (ucast (ucast (drop_bit 8 w) :: u8))
         OR push_bit 16 (ucast (ucast (drop_bit 16 w) :: u8))
         OR push_bit 24 (ucast (ucast (drop_bit 24 w) :: u8)) = w"
proof (rule bit_word_eqI)
  fix n
  assume "n < LENGTH(32)"
  then consider "n < 8" | "8 \<le> n" "n < 16" | "16 \<le> n" "n < 24" | "24 \<le> n" "n < 32"
    by (simp, linarith)
  then show "bit (ucast (ucast w :: u8) OR push_bit 8 (ucast (ucast (drop_bit 8 w) :: u8))
         OR push_bit 16 (ucast (ucast (drop_bit 16 w) :: u8))
         OR push_bit 24 (ucast (ucast (drop_bit 24 w) :: u8)) :: u32) n = bit w n"
    by cases (simp_all only: byte_bits, auto)
qed

lemma word_of_bytes16:
  fixes w :: u16
  shows "ucast (ucast w :: u8) OR push_bit 8 (ucast (ucast (drop_bit 8 w) :: u8)) = w"
  by (rule bit_word_eqI; auto simp only: byte_bits; simp; presburger)

lemma length_put32 [simp]: "length (put32 bs i w) = length bs"
  by (simp add: put32_def)

lemma length_put16 [simp]: "length (put16 bs i w) = length bs"
  by (simp add: put16_def)

lemma length_get_bytes [simp]: "length (get_bytes bs i n) = min n (length bs - i)"
  by (simp add: get_bytes_def)

lemma length_put_bytes [simp]: "i + length xs \<le> length bs \<Longrightarrow> length (put_bytes bs i xs) = length bs"
  by (simp add: put_bytes_def)

lemma nth_put32_other: "j < i \<or> i + 4 \<le> j \<Longrightarrow> put32 bs i w ! j = bs ! j"
  by (auto simp: put32_def nth_list_update)

lemma nth_put16_other: "j < i \<or> i + 2 \<le> j \<Longrightarrow> put16 bs i w ! j = bs ! j"
  by (auto simp: put16_def nth_list_update)

lemma nth_put_bytes:
  assumes "i + length xs \<le> length bs" and "j < length bs"
  shows "put_bytes bs i xs ! j = (if i \<le> j \<and> j < i + length xs then xs ! (j - i) else bs ! j)"
  using assms by (auto simp: put_bytes_def nth_append min_def)

lemma nth_get_bytes: "i + j < length bs \<Longrightarrow> j < n \<Longrightarrow> get_bytes bs i n ! j = bs ! (i + j)"
  by (simp add: get_bytes_def)

section \<open>Reading back\<close>

lemma get32_put32_same [simp]: "i + 4 \<le> length bs \<Longrightarrow> get32 (put32 bs i w) i = w"
  using word_of_bytes32[of w] by (simp add: get32_def put32_def)

lemma get32_put32_other: "j + 4 \<le> i \<or> i + 4 \<le> j \<Longrightarrow> get32 (put32 bs i w) j = get32 bs j"
  by (auto simp: get32_def put32_def nth_list_update)

lemma get16_put16_same [simp]: "i + 2 \<le> length bs \<Longrightarrow> get16 (put16 bs i w) i = w"
  using word_of_bytes16[of w] by (simp add: get16_def put16_def)

lemma get16_put16_other: "j + 2 \<le> i \<or> i + 2 \<le> j \<Longrightarrow> get16 (put16 bs i w) j = get16 bs j"
  by (auto simp: get16_def put16_def nth_list_update)

lemma get16_put32_other: "j + 2 \<le> i \<or> i + 4 \<le> j \<Longrightarrow> get16 (put32 bs i w) j = get16 bs j"
  by (auto simp: get16_def put32_def nth_list_update)

lemma get32_put16_other: "j + 4 \<le> i \<or> i + 2 \<le> j \<Longrightarrow> get32 (put16 bs i w) j = get32 bs j"
  by (auto simp: get32_def put16_def nth_list_update)

lemma get_put_bytes_same [simp]:
  "i + length xs \<le> length bs \<Longrightarrow> get_bytes (put_bytes bs i xs) i (length xs) = xs"
  by (simp add: get_bytes_def put_bytes_def)

lemma get_put_bytes_other:
  assumes "i + length xs \<le> length bs" and "j + n \<le> i \<or> i + length xs \<le> j"
  shows "get_bytes (put_bytes bs i xs) j n = get_bytes bs j n"
proof (rule nth_equalityI)
  show "length (get_bytes (put_bytes bs i xs) j n) = length (get_bytes bs j n)"
    using assms(1) by simp
  fix k assume "k < length (get_bytes (put_bytes bs i xs) j n)"
  then show "get_bytes (put_bytes bs i xs) j n ! k = get_bytes bs j n ! k"
    using assms by (auto simp: nth_get_bytes nth_put_bytes)
qed

lemma get32_cong: "(\<And>k. k < 4 \<Longrightarrow> bs ! (i + k) = cs ! (j + k)) \<Longrightarrow> get32 bs i = get32 cs j"
  unfolding get32_def by (metis add.right_neutral zero_less_numeral one_less_numeral_iff
      numeral_less_iff num.distinct(1) semiring_norm(76,78,79,80,81))

lemma get32_put_bytes_other:
  assumes "i + length xs \<le> length bs" and "j + 4 \<le> length bs" and "j + 4 \<le> i \<or> i + length xs \<le> j"
  shows "get32 (put_bytes bs i xs) j = get32 bs j"
  using assms by (intro get32_cong) (auto simp: nth_put_bytes)

section \<open>Arrays of 32-bit words\<close>

text \<open>\<open>words bs off n\<close> is the C array \<open>uint a[n]\<close> at byte \<open>off\<close>; \<open>put_words\<close> stores one.\<close>

definition words :: "u8 list \<Rightarrow> nat \<Rightarrow> nat \<Rightarrow> u32 list" where
  "words bs off n = map (\<lambda>i. get32 bs (off + 4 * i)) [0..<n]"

fun put_words :: "u8 list \<Rightarrow> nat \<Rightarrow> u32 list \<Rightarrow> u8 list" where
  "put_words bs off [] = bs"
| "put_words bs off (w # ws) = put_words (put32 bs off w) (off + 4) ws"

lemma length_put_words [simp]: "length (put_words bs off ws) = length bs"
  by (induction ws arbitrary: bs off) simp_all

lemma get32_put_words_other:
  "j + 4 \<le> off \<or> off + 4 * length ws \<le> j \<Longrightarrow> get32 (put_words bs off ws) j = get32 bs j"
  by (induction ws arbitrary: bs off) (auto simp: get32_put32_other)

lemma get32_put_words:
  "off + 4 * length ws \<le> length bs \<Longrightarrow> k < length ws \<Longrightarrow> get32 (put_words bs off ws) (off + 4 * k) = ws ! k"
proof (induction ws arbitrary: bs off k)
  case Nil
  then show ?case by simp
next
  case (Cons w ws)
  show ?case
  proof (cases k)
    case 0
    with Cons.prems show ?thesis by (simp add: get32_put_words_other)
  next
    case (Suc k')
    with Cons.prems Cons.IH[of "off + 4" "put32 bs off w" k'] show ?thesis
      by (simp add: algebra_simps)
  qed
qed

lemma words_put_words [simp]:
  "off + 4 * length ws \<le> length bs \<Longrightarrow> words (put_words bs off ws) off (length ws) = ws"
  by (rule nth_equalityI) (simp_all add: words_def get32_put_words)

lemma length_words [simp]: "length (words bs off n) = n"
  by (simp add: words_def)

end
