(* ===== verification/Bio.thy ===== *)
theory Bio
  imports Dll Sleeplock Bytes
begin

text \<open>
  The buffer cache (\<^verbatim>\<open>bio.c\<close>) over the in-memory disk driver (\<^verbatim>\<open>memide.c\<close>). A buffer is a cell of
  the table \<open>bcache.buf\<close>, cell \<open>HEAD\<close> is \<open>bcache.head\<close>, and the LRU list is threaded through the
  cells by \<open>prev\<close> and \<open>next\<close> as in the source. The disk remembers the block writes it performed,
  in order, for the crash analysis of the log. An operation runs on behalf of one process.
\<close>

abbreviation BSIZE :: nat where "BSIZE \<equiv> 512"
definition NBUF :: nat where "NBUF = 30"
definition ROOTDEV :: nat where "ROOTDEV = 1"
abbreviation HEAD :: nat where "HEAD \<equiv> NBUF"

type_synonym block = "u8 list"

text \<open>\<open>struct buf\<close>, the bits of \<open>flags\<close> as two fields.\<close>

record buf =
  b_valid :: bool
  b_dirty :: bool
  b_dev :: nat
  b_blockno :: nat
  b_lock :: sleeplock
  b_refcnt :: nat
  b_prev :: nat
  b_next :: nat
  b_data :: block

record bio =
  bcache :: "buf list"
  img :: "block list"
  hist :: "(nat \<times> block) list"

definition upd_buf :: "nat \<Rightarrow> (buf \<Rightarrow> buf) \<Rightarrow> bio \<Rightarrow> bio" where
  "upd_buf b f s = s\<lparr>bcache := (bcache s)[b := f (bcache s ! b)]\<rparr>"

definition b_nx :: "buf list \<Rightarrow> nat \<Rightarrow> nat" where "b_nx c b = b_next (c ! b)"
definition b_pv :: "buf list \<Rightarrow> nat \<Rightarrow> nat" where "b_pv c b = b_prev (c ! b)"

definition set_next :: "nat \<Rightarrow> nat \<Rightarrow> buf list \<Rightarrow> buf list" where
  "set_next b v c = c[b := (c ! b)\<lparr>b_next := v\<rparr>]"

definition set_prev :: "nat \<Rightarrow> nat \<Rightarrow> buf list \<Rightarrow> buf list" where
  "set_prev b v c = c[b := (c ! b)\<lparr>b_prev := v\<rparr>]"

section \<open>The disk driver\<close>

definition disk_write :: "nat \<Rightarrow> block \<Rightarrow> bio \<Rightarrow> bio" where
  "disk_write bn d s = s\<lparr>img := (img s)[bn := d], hist := hist s @ [(bn, d)]\<rparr>"

definition iderw :: "nat \<Rightarrow> nat \<Rightarrow> bio \<Rightarrow> bio res" where
  "iderw me b s =
     (let x = bcache s ! b in
      if \<not> holdingsleep me (b_lock x) then Inl (Panic ''iderw: buf not locked'')
      else if b_valid x \<and> \<not> b_dirty x then Inl (Panic ''iderw: nothing to do'')
      else if b_dev x \<noteq> 1 then Inl (Panic ''iderw: request not for disk 1'')
      else if b_blockno x \<ge> length (img s) then Inl (Panic ''iderw: block out of range'')
      else if b_dirty x then
        Inr (disk_write (b_blockno x) (b_data x) (upd_buf b (\<lambda>x. x\<lparr>b_dirty := False, b_valid := True\<rparr>) s))
      else Inr (upd_buf b (\<lambda>x. x\<lparr>b_data := img s ! b_blockno x, b_valid := True\<rparr>) s))"

section \<open>Cache operations\<close>

definition binit_step :: "buf list \<Rightarrow> nat \<Rightarrow> buf list" where
  "binit_step c b =
     (let c = set_next b (b_nx c HEAD) c;
          c = set_prev b HEAD c;
          c = c[b := (c ! b)\<lparr>b_lock := initsleeplock\<rparr>];
          c = set_prev (b_nx c HEAD) b c
      in set_next HEAD b c)"

definition binit :: "buf list \<Rightarrow> buf list" where
  "binit c = foldl binit_step (set_next HEAD HEAD (set_prev HEAD HEAD c)) [0..<NBUF]"

text \<open>
  A walk \<^verbatim>\<open>for (b = b_nx(head); b != &bcache.head; b = b_nx(b)) if (cond) ...\<close> along the links, with
  at most \<open>fuel\<close> iterations.
\<close>

fun scan :: "nat \<Rightarrow> (nat \<Rightarrow> nat) \<Rightarrow> (nat \<Rightarrow> bool) \<Rightarrow> nat \<Rightarrow> nat option res" where
  "scan 0 link P b = Inl (Hang ''bget'')"
| "scan (Suc fuel) link P b =
     (if b = HEAD then Inr None else if P b then Inr (Some b) else scan fuel link P (link b))"

definition lock_buf :: "nat \<Rightarrow> nat \<Rightarrow> bio \<Rightarrow> bio res" where
  "lock_buf me b s =
     bindE (acquiresleep me (b_lock (bcache s ! b))) (\<lambda>l. Inr (upd_buf b (\<lambda>x. x\<lparr>b_lock := l\<rparr>) s))"

definition bget :: "nat \<Rightarrow> nat \<Rightarrow> nat \<Rightarrow> bio \<Rightarrow> (nat \<times> bio) res" where
  "bget me dev blockno s =
     (let c = bcache s in
      bindE (scan (NBUF + 1) (b_nx c)
               (\<lambda>b. b_dev (c ! b) = dev \<and> b_blockno (c ! b) = blockno) (b_nx c HEAD))
        (\<lambda>r. case r of
           Some b \<Rightarrow>
             bindE (lock_buf me b (upd_buf b (\<lambda>x. x\<lparr>b_refcnt := b_refcnt x + 1\<rparr>) s)) (\<lambda>s. Inr (b, s))
         | None \<Rightarrow>
             bindE (scan (NBUF + 1) (b_pv c)
                      (\<lambda>b. b_refcnt (c ! b) = 0 \<and> \<not> b_dirty (c ! b)) (b_pv c HEAD))
               (\<lambda>r. case r of
                  Some b \<Rightarrow>
                    bindE (lock_buf me b (upd_buf b (\<lambda>x. x\<lparr>b_dev := dev, b_blockno := blockno,
                                    b_valid := False, b_dirty := False, b_refcnt := 1\<rparr>) s))
                      (\<lambda>s. Inr (b, s))
                | None \<Rightarrow> Inl (Panic ''bget: no buffers''))))"

definition bread :: "nat \<Rightarrow> nat \<Rightarrow> nat \<Rightarrow> bio \<Rightarrow> (nat \<times> bio) res" where
  "bread me dev blockno s =
     bindE (bget me dev blockno s)
       (\<lambda>(b, s). if \<not> b_valid (bcache s ! b) then bindE (iderw me b s) (\<lambda>s. Inr (b, s)) else Inr (b, s))"

definition bwrite :: "nat \<Rightarrow> nat \<Rightarrow> bio \<Rightarrow> bio res" where
  "bwrite me b s =
     (if \<not> holdingsleep me (b_lock (bcache s ! b)) then Inl (Panic ''bwrite'')
      else iderw me b (upd_buf b (\<lambda>x. x\<lparr>b_dirty := True\<rparr>) s))"

definition move_first :: "nat \<Rightarrow> buf list \<Rightarrow> buf list" where
  "move_first b c =
     (let c = set_prev (b_nx c b) (b_pv c b) c;
          c = set_next (b_pv c b) (b_nx c b) c;
          c = set_next b (b_nx c HEAD) c;
          c = set_prev b HEAD c;
          c = set_prev (b_nx c HEAD) b c
      in set_next HEAD b c)"

definition brelse :: "nat \<Rightarrow> nat \<Rightarrow> bio \<Rightarrow> bio res" where
  "brelse me b s =
     (if \<not> holdingsleep me (b_lock (bcache s ! b)) then Inl (Panic ''brelse'')
      else let s = upd_buf b (\<lambda>x. x\<lparr>b_lock := releasesleep (b_lock x), b_refcnt := b_refcnt x - 1\<rparr>) s
           in if b_refcnt (bcache s ! b) = 0 then Inr (s\<lparr>bcache := move_first b (bcache s)\<rparr>) else Inr s)"

section \<open>The LRU list\<close>

definition lru :: "buf list \<Rightarrow> nat list \<Rightarrow> bool" where
  "lru c xs \<longleftrightarrow> dll (b_nx c) (b_pv c) HEAD xs \<and> set xs = {..<NBUF}"

lemma links_set [simp]:
  "b < length c \<Longrightarrow> b_nx (set_next b v c) = (b_nx c)(b := v)"
  "b_pv (set_next b v c) = b_pv c"
  "b_nx (set_prev b v c) = b_nx c"
  "b < length c \<Longrightarrow> b_pv (set_prev b v c) = (b_pv c)(b := v)"
  by (auto simp: set_next_def set_prev_def fun_eq_iff nth_upd b_nx_def b_pv_def)

lemma length_set_links [simp]: "length (set_next b v c) = length c" "length (set_prev b v c) = length c"
  by (simp_all add: set_next_def set_prev_def)

lemma links_upd_buf:
  "(\<And>x. b_next (f x) = b_next x) \<Longrightarrow> (\<And>x. b_prev (f x) = b_prev x) \<Longrightarrow>
   b_nx (c[b := f (c ! b)]) = b_nx c \<and> b_pv (c[b := f (c ! b)]) = b_pv c"
  by (auto simp: fun_eq_iff nth_upd b_nx_def b_pv_def)

lemma lru_bounds:
  assumes "lru c xs" and "b \<le> NBUF"
  shows "b_nx c b \<le> NBUF" and "b_pv c b \<le> NBUF" and "b < NBUF \<Longrightarrow> b_nx c b \<noteq> b"
proof -
  have d: "dll (b_nx c) (b_pv c) HEAD xs" and xs: "set xs = {..<NBUF}"
    using assms(1) by (simp_all add: lru_def)
  have cells: "set (HEAD # xs) = {..NBUF}"
    by (simp only: list.set xs lessThan_Suc[symmetric] lessThan_Suc_atMost)
  have "b \<in> set (HEAD # xs)" using cells assms(2) by blast
  from dll_step_in[OF d this] show "b_nx c b \<le> NBUF" "b_pv c b \<le> NBUF"
    unfolding cells by blast+
  show "b < NBUF \<Longrightarrow> b_nx c b \<noteq> b"
    using dll_next_neq[OF d] xs by blast
qed

lemma move_first_lru:
  assumes "lru c xs" and "length c = NBUF + 1" and "b < NBUF"
  shows "lru (move_first b c) (b # remove1 b xs)"
proof -
  have d: "dll (b_nx c) (b_pv c) HEAD xs" and xs: "set xs = {..<NBUF}"
    using assms(1) by (simp_all add: lru_def)
  have "b \<in> set xs" using xs assms(3) by simp
  then obtain us vs where split: "xs = us @ b # vs" and "b \<notin> set us"
    by (metis split_list_first)
  then have rem: "remove1 b xs = us @ vs" by (simp add: remove1_append)
  define b_nx' where "b_nx' = (b_nx c)(b_pv c b := b_nx c b)"
  define b_pv' where "b_pv' = (b_pv c)(b_nx c b := b_pv c b)"
  have d': "dll b_nx' b_pv' HEAD (us @ vs)"
    unfolding b_nx'_def b_pv'_def by (rule dll_unlink[OF d[unfolded split]])
  have fresh: "b \<notin> set (HEAD # us @ vs)"
    using d assms(3) by (auto simp: split dll_def)
  have bounds: "b_nx c b < length c" "b_pv c b < length c" "b_nx c b \<noteq> b" "b < length c"
    "b_nx c HEAD < length c" "HEAD < length c"
    using lru_bounds[OF assms(1), of b] lru_bounds(1)[OF assms(1), of HEAD] assms(2,3) by simp_all
  have nxH: "b_nx' HEAD < length c"
    using bounds by (simp add: b_nx'_def)
  have "b_nx (move_first b c) = b_nx'(b := b_nx' HEAD, HEAD := b) \<and>
        b_pv (move_first b c) = b_pv'(b := HEAD, b_nx' HEAD := b)"
    using bounds nxH assms(3) by (simp add: move_first_def Let_def b_nx'_def b_pv'_def)
  moreover have "set (b # us @ vs) = set xs"
    by (simp add: split)
  ultimately show ?thesis
    using dll_link_first[OF d' fresh] unfolding lru_def rem by (simp only: xs)
qed
text \<open>\<open>binit\<close> links every buffer; the last one it linked is the first of the list.\<close>

lemma binit_step_dll:
  assumes "dll (b_nx c) (b_pv c) HEAD xs" and "b < NBUF" and "b \<notin> set xs"
    and "length c = NBUF + 1" and "set xs \<subseteq> {..<NBUF}"
  shows "dll (b_nx (binit_step c b)) (b_pv (binit_step c b)) HEAD (b # xs)"
    and "length (binit_step c b) = NBUF + 1"
proof -
  have "b_nx c HEAD \<in> set (HEAD # xs)"
    using dll_step_in(1)[OF assms(1)] by simp
  then have h: "b_nx c HEAD < length c"
    using assms(4,5) by auto
  let ?l = "\<lambda>x. x\<lparr>b_lock := initsleeplock\<rparr>"
  have "b_nx (binit_step c b) = (b_nx c)(b := b_nx c HEAD, HEAD := b) \<and>
        b_pv (binit_step c b) = (b_pv c)(b := HEAD, b_nx c HEAD := b)"
    using h assms(2,4) links_upd_buf[of ?l, where b = b]
    by (simp add: binit_step_def Let_def)
  then show "dll (b_nx (binit_step c b)) (b_pv (binit_step c b)) HEAD (b # xs)"
    using dll_link_first[OF assms(1), of b] assms(2,3) by simp
  show "length (binit_step c b) = NBUF + 1"
    by (simp add: binit_step_def Let_def assms(4))
qed

lemma binit_lru:
  assumes "length c = NBUF + 1"
  shows "lru (binit c) (rev [0..<NBUF])" and "length (binit c) = NBUF + 1"
proof -
  let ?c = "set_next HEAD HEAD (set_prev HEAD HEAD c)"
  have "k \<le> NBUF \<Longrightarrow> dll (b_nx (foldl binit_step ?c [0..<k])) (b_pv (foldl binit_step ?c [0..<k])) HEAD (rev [0..<k])
          \<and> length (foldl binit_step ?c [0..<k]) = NBUF + 1" for k
  proof (induction k)
    case 0
    then show ?case using assms by (simp add: dll_Nil)
  next
    case (Suc k)
    have "set (rev [0..<k]) \<subseteq> {..<NBUF}" using Suc.prems by auto
    with Suc show ?case
      using binit_step_dll[of "foldl binit_step ?c [0..<k]" "rev [0..<k]" k] by simp
  qed
  from this[of NBUF] show "lru (binit c) (rev [0..<NBUF])" "length (binit c) = NBUF + 1"
    by (auto simp: lru_def binit_def lessThan_atLeast0)
qed

text \<open>A walk along the links is a search in the list, and it always ends.\<close>

lemma scan_chain:
  assumes "chain link a xs HEAD" and "HEAD \<notin> set xs" and "length xs < fuel"
  shows "scan fuel link P (link a) = Inr (find P xs)"
  using assms
proof (induction xs arbitrary: a fuel)
  case Nil
  then show ?case by (cases fuel) auto
next
  case (Cons x xs)
  then show ?case by (cases fuel) auto
qed

declare scan.simps [simp del]

lemma scan_lru:
  assumes "lru c xs"
  shows "scan (NBUF + 1) (b_nx c) P (b_nx c HEAD) = Inr (find P xs)"
    and "scan (NBUF + 1) (b_pv c) P (b_pv c HEAD) = Inr (find P (rev xs))"
proof -
  have d: "distinct (HEAD # xs)" "chain (b_nx c) HEAD xs HEAD" "chain (b_pv c) HEAD (rev xs) HEAD"
    and xs: "set xs = {..<NBUF}"
    using assms by (simp_all add: lru_def dll_def)
  have "length xs = NBUF"
    using d(1) xs distinct_card[of xs] by simp
  then show "scan (NBUF + 1) (b_nx c) P (b_nx c HEAD) = Inr (find P xs)"
    "scan (NBUF + 1) (b_pv c) P (b_pv c HEAD) = Inr (find P (rev xs))"
    using d by (intro scan_chain; simp)+
qed

section \<open>What the cache holds\<close>

text \<open>
  \<open>bio_inv me s\<close>: the links form the LRU list of all buffers; a buffer is either unused since
  boot or caches a block of disk 1; no block is cached twice; locked buffers belong to \<open>me\<close>
  and have one reference; a buffer that is neither dirty nor locked agrees with the disk.
\<close>

definition buf_ok :: "nat \<Rightarrow> block list \<Rightarrow> buf \<Rightarrow> bool" where
  "buf_ok me im x \<longleftrightarrow>
     length (b_data x) = BSIZE \<and> b_refcnt x = (if sl_locked (b_lock x) then 1 else 0) \<and>
     (sl_locked (b_lock x) \<longrightarrow> sl_pid (b_lock x) = me) \<and>
     (if b_valid x then b_dev x = ROOTDEV \<and> b_blockno x < length im \<and>
                        (\<not> b_dirty x \<and> \<not> sl_locked (b_lock x) \<longrightarrow> b_data x = im ! b_blockno x)
      else b_dev x = 0 \<and> \<not> b_dirty x \<and> \<not> sl_locked (b_lock x))"

definition cell :: "bio \<Rightarrow> nat \<Rightarrow> nat \<Rightarrow> bool" where
  "cell s bn i \<longleftrightarrow> i < NBUF \<and> b_valid (bcache s ! i) \<and> b_blockno (bcache s ! i) = bn"

definition bio_inv :: "nat \<Rightarrow> bio \<Rightarrow> bool" where
  "bio_inv me s \<longleftrightarrow>
     length (bcache s) = NBUF + 1 \<and> (\<exists>xs. lru (bcache s) xs) \<and>
     (\<forall>i<NBUF. buf_ok me (img s) (bcache s ! i)) \<and>
     (\<forall>bn i j. cell s bn i \<longrightarrow> cell s bn j \<longrightarrow> i = j) \<and>
     (\<forall>d\<in>set (img s). length d = BSIZE)"

definition held :: "bio \<Rightarrow> nat set" where
  "held s = {bn. \<exists>i. cell s bn i \<and> sl_locked (b_lock (bcache s ! i))}"

definition dirty :: "bio \<Rightarrow> nat set" where
  "dirty s = {bn. \<exists>i. cell s bn i \<and> b_dirty (bcache s ! i)}"

text \<open>The contents of a block as the kernel sees them: the cached copy if there is one.\<close>

definition view :: "bio \<Rightarrow> nat \<Rightarrow> block" where
  "view s bn = (case find_idx (\<lambda>x. b_valid x \<and> b_blockno x = bn) (take NBUF (bcache s)) of
                  Some i \<Rightarrow> b_data (bcache s ! i) | None \<Rightarrow> img s ! bn)"

lemma ROOTDEV_simps [simp]: "ROOTDEV > 0" "(ROOTDEV = Suc 0) = True"
  by (simp_all add: ROOTDEV_def)

lemma cell_unique: "bio_inv me s \<Longrightarrow> cell s bn i \<Longrightarrow> cell s bn j \<Longrightarrow> i = j"
  unfolding bio_inv_def by blast

lemma cell_ok: "bio_inv me s \<Longrightarrow> cell s bn i \<Longrightarrow> buf_ok me (img s) (bcache s ! i)"
  by (simp add: bio_inv_def cell_def)

lemma view_cached: "bio_inv me s \<Longrightarrow> cell s bn i \<Longrightarrow> view s bn = b_data (bcache s ! i)"
proof -
  assume inv: "bio_inv me s" and c: "cell s bn i"
  have len: "NBUF < length (bcache s)" using inv by (simp add: bio_inv_def)
  have "bcache s ! i \<in> set (take NBUF (bcache s))"
    using c len by (auto simp: cell_def in_set_conv_nth intro!: exI[of _ i])
  then have "find_idx (\<lambda>x. b_valid x \<and> b_blockno x = bn) (take NBUF (bcache s)) \<noteq> None"
    using c unfolding find_idx_None cell_def by blast
  then obtain j where j: "find_idx (\<lambda>x. b_valid x \<and> b_blockno x = bn) (take NBUF (bcache s)) = Some j"
    by blast
  then have "cell s bn j"
    using len by (auto simp: find_idx_Some cell_def)
  with cell_unique[OF inv c] j show ?thesis
    by (simp add: view_def)
qed

lemma view_uncached: "bio_inv me s \<Longrightarrow> \<nexists>i. cell s bn i \<Longrightarrow> view s bn = img s ! bn"
proof -
  assume inv: "bio_inv me s" and c: "\<nexists>i. cell s bn i"
  have "NBUF < length (bcache s)" using inv by (simp add: bio_inv_def)
  with c have "find_idx (\<lambda>x. b_valid x \<and> b_blockno x = bn) (take NBUF (bcache s)) = None"
    by (fastforce simp: find_idx_None cell_def in_set_conv_nth)
  then show ?thesis by (simp add: view_def)
qed

lemma view_clean:
  assumes "bio_inv me s" and "bn \<notin> held s" and "bn \<notin> dirty s"
  shows "view s bn = img s ! bn"
proof (cases "\<exists>i. cell s bn i")
  case True
  then obtain i where i: "cell s bn i" ..
  then show ?thesis
    using cell_ok[OF assms(1) i] view_cached[OF assms(1) i] assms(2,3)
    by (auto simp: buf_ok_def held_def dirty_def cell_def)
next
  case False
  with view_uncached[OF assms(1)] show ?thesis by simp
qed
section \<open>Replacing one buffer\<close>

text \<open>
  Every operation replaces the payload of one buffer \<open>i\<close> by \<open>y\<close>, which then caches block \<open>bn\<close>;
  either it did so before, or the buffer was free. These are the effects on the invariant and
  on the observations \<open>view\<close>, \<open>held\<close> and \<open>dirty\<close>.
\<close>

definition repl :: "nat \<Rightarrow> buf \<Rightarrow> bio \<Rightarrow> bio" where
  "repl i y s = s\<lparr>bcache := (bcache s)[i := y]\<rparr>"

definition can_repl :: "nat \<Rightarrow> bio \<Rightarrow> nat \<Rightarrow> nat \<Rightarrow> buf \<Rightarrow> bool" where
  "can_repl me s bn i y \<longleftrightarrow>
     bio_inv me s \<and> i < NBUF \<and> b_next y = b_next (bcache s ! i) \<and> b_prev y = b_prev (bcache s ! i) \<and>
     buf_ok me (img s) y \<and> b_valid y \<and> b_blockno y = bn \<and> (\<forall>j. j \<noteq> i \<longrightarrow> \<not> cell s bn j) \<and>
     (cell s bn i \<or> \<not> sl_locked (b_lock (bcache s ! i)) \<and> \<not> b_dirty (bcache s ! i))"

lemma repl_simps [simp]:
  "img (repl i y s) = img s" "hist (repl i y s) = hist s" "bcache (repl i y s) = (bcache s)[i := y]"
  by (simp_all add: repl_def)

lemma cell_repl:
  assumes "can_repl me s bn i y"
  shows "cell (repl i y s) k j \<longleftrightarrow> (if j = i then k = bn else cell s k j)"
  using assms by (auto simp: can_repl_def bio_inv_def cell_def nth_upd)

lemma nth_repl:
  assumes "can_repl me s bn i y"
  shows "bcache (repl i y s) ! j = (if j = i then y else bcache s ! j)"
  using assms by (auto simp: can_repl_def bio_inv_def nth_upd)

lemma bio_inv_repl:
  assumes "can_repl me s bn i y"
  shows "bio_inv me (repl i y s)"
proof -
  have inv: "bio_inv me s" using assms by (simp add: can_repl_def)
  have "b_nx (bcache (repl i y s)) = b_nx (bcache s)" "b_pv (bcache (repl i y s)) = b_pv (bcache s)"
    using assms by (auto simp: fun_eq_iff b_nx_def b_pv_def nth_repl[OF assms] can_repl_def simp del: repl_simps)
  then have "\<exists>xs. lru (bcache (repl i y s)) xs"
    using inv by (simp add: bio_inv_def lru_def del: repl_simps)
  moreover have "j < NBUF \<Longrightarrow> buf_ok me (img s) (bcache (repl i y s) ! j)" for j
    using assms inv by (simp add: nth_repl[OF assms] can_repl_def bio_inv_def del: repl_simps)
  moreover have "j = k" if "cell (repl i y s) b j" "cell (repl i y s) b k" for b j k
    using that assms cell_unique[OF inv] unfolding cell_repl[OF assms] can_repl_def by metis
  ultimately show ?thesis
    using inv unfolding bio_inv_def by simp
qed

lemma view_repl:
  assumes "can_repl me s bn i y"
  shows "view (repl i y s) = (view s)(bn := b_data y)"
proof
  fix k
  have inv: "bio_inv me s" using assms by (simp add: can_repl_def)
  note inv' = bio_inv_repl[OF assms]
  show "view (repl i y s) k = ((view s)(bn := b_data y)) k"
  proof (cases "k = bn")
    case True
    then have "cell (repl i y s) k i" by (simp add: cell_repl[OF assms])
    then show ?thesis
      using view_cached[OF inv'] nth_repl[OF assms, of i] True by simp
  next
    case False
    consider (other) j where "j \<noteq> i" "cell s k j" | (was) "cell s k i" | (none) "\<nexists>j. cell s k j"
      by metis
    then show ?thesis
    proof cases
      case other
      then have "cell (repl i y s) k j" by (simp add: cell_repl[OF assms])
      then have "view (repl i y s) k = b_data (bcache s ! j)"
        using view_cached[OF inv'] nth_repl[OF assms, of j] other(1) by (simp del: repl_simps)
      with view_cached[OF inv other(2)] False show ?thesis by simp
    next
      case was
      then have "\<not> cell s bn i" using False by (simp add: cell_def)
      then have clean: "\<not> sl_locked (b_lock (bcache s ! i))" "\<not> b_dirty (bcache s ! i)"
        using assms by (auto simp: can_repl_def)
      have "\<nexists>j. cell (repl i y s) k j"
        unfolding cell_repl[OF assms] using False cell_unique[OF inv was] by metis
      then have "view (repl i y s) k = img s ! k"
        using view_uncached[OF inv'] by simp
      moreover have "view s k = img s ! k"
        using view_cached[OF inv was] cell_ok[OF inv was] was clean by (simp add: buf_ok_def cell_def)
      ultimately show ?thesis using False by simp
    next
      case none
      then have "\<nexists>j. cell (repl i y s) k j"
        unfolding cell_repl[OF assms] using False none by metis
      then show ?thesis
        using view_uncached[OF inv'] view_uncached[OF inv none] False by simp
    qed
  qed
qed

lemma flag_repl:
  assumes "can_repl me s bn i y"
    and "cell s bn i \<or> \<not> P (bcache s ! i)"
  shows "{k. \<exists>j. cell (repl i y s) k j \<and> P (bcache (repl i y s) ! j)} =
    (if P y then insert bn else (\<lambda>A. A - {bn})) {k. \<exists>j. cell s k j \<and> P (bcache s ! j)}"
proof -
  have uniq: "j \<noteq> i \<Longrightarrow> \<not> cell s bn j" for j
    using assms(1) unfolding can_repl_def by metis
  have other: "cell s k i \<Longrightarrow> k \<noteq> bn \<Longrightarrow> \<not> P (bcache s ! i)" for k
    using assms(2) by (auto simp: cell_def)
  have "(\<exists>j. cell (repl i y s) k j \<and> P (bcache (repl i y s) ! j)) \<longleftrightarrow>
        (if k = bn then P y else \<exists>j. cell s k j \<and> P (bcache s ! j))" for k
  proof (cases "k = bn")
    case True
    then show ?thesis
      unfolding cell_repl[OF assms(1)] nth_repl[OF assms(1)] using uniq by (auto split: if_splits)
  next
    case False
    then have "cell s k j \<and> P (bcache s ! j) \<Longrightarrow> j \<noteq> i" for j
      using other by metis
    with False show ?thesis
      unfolding cell_repl[OF assms(1)] nth_repl[OF assms(1)] by (simp, metis)
  qed
  then show ?thesis by auto
qed

lemma held_repl:
  assumes "can_repl me s bn i y"
  shows "held (repl i y s) = (if sl_locked (b_lock y) then insert bn (held s) else held s - {bn})"
proof -
  have "cell s bn i \<or> \<not> sl_locked (b_lock (bcache s ! i))"
    using assms unfolding can_repl_def by blast
  from flag_repl[OF assms, of "\<lambda>x. sl_locked (b_lock x)", OF this] show ?thesis
    by (simp add: held_def del: repl_simps)
qed

lemma dirty_repl:
  assumes "can_repl me s bn i y"
  shows "dirty (repl i y s) = (if b_dirty y then insert bn (dirty s) else dirty s - {bn})"
proof -
  have "cell s bn i \<or> \<not> b_dirty (bcache s ! i)"
    using assms unfolding can_repl_def by blast
  from flag_repl[OF assms, of b_dirty, OF this] show ?thesis
    by (simp add: dirty_def del: repl_simps)
qed

text \<open>Handles of held buffers stay valid: \<open>keeps s s'\<close>.\<close>

definition keeps :: "bio \<Rightarrow> bio \<Rightarrow> bool" where
  "keeps s s' \<longleftrightarrow> (\<forall>k j. cell s k j \<and> sl_locked (b_lock (bcache s ! j)) \<and> k \<in> held s' \<longrightarrow>
                      cell s' k j \<and> sl_locked (b_lock (bcache s' ! j)))"

lemma keeps_repl:
  assumes "can_repl me s bn i y"
  shows "keeps s (repl i y s)"
  unfolding keeps_def
proof (intro allI impI)
  fix k j
  assume a: "cell s k j \<and> sl_locked (b_lock (bcache s ! j)) \<and> k \<in> held (repl i y s)"
  then obtain j' where j': "cell (repl i y s) k j'" "sl_locked (b_lock (bcache (repl i y s) ! j'))"
    by (auto simp: held_def simp del: repl_simps)
  have "cell (repl i y s) k j"
  proof (cases "j = i")
    case True
    with a assms have "cell s bn i" by (auto simp: can_repl_def)
    then have "k = bn" using a True by (simp add: cell_def)
    with True show ?thesis by (simp add: cell_repl[OF assms])
  next
    case False
    with a show ?thesis by (simp add: cell_repl[OF assms])
  qed
  moreover from this have "j = j'" using cell_unique[OF bio_inv_repl[OF assms] _ j'(1)] by blast
  ultimately show "cell (repl i y s) k j \<and> sl_locked (b_lock (bcache (repl i y s) ! j))"
    using j'(2) by simp
qed

lemmas repl_effect = bio_inv_repl view_repl held_repl dirty_repl

section \<open>The operations\<close>

lemma upd_buf_repl: "upd_buf b f s = repl b (f (bcache s ! b)) s"
  by (simp add: upd_buf_def repl_def)

lemma upd_buf_repl_repl [simp]: "repl b y (repl b x s) = repl b y s"
  by (simp add: repl_def)

lemma find_unique: "i \<in> set xs \<Longrightarrow> P i \<Longrightarrow> (\<forall>j\<in>set xs. j \<noteq> i \<longrightarrow> \<not> P j) \<Longrightarrow> find P xs = Some i"
  by (induction xs) auto

lemma valid_iff_dev:
  assumes "bio_inv me s" and "i < NBUF"
  shows "b_dev (bcache s ! i) = ROOTDEV \<longleftrightarrow> b_valid (bcache s ! i)"
proof -
  have "buf_ok me (img s) (bcache s ! i)" using assms by (simp add: bio_inv_def)
  then show ?thesis by (auto simp: buf_ok_def ROOTDEV_def split: if_splits)
qed

lemma cell_iff_key:
  "bio_inv me s \<Longrightarrow> cell s bn i \<longleftrightarrow> i < NBUF \<and> b_dev (bcache s ! i) = ROOTDEV \<and> b_blockno (bcache s ! i) = bn"
  using valid_iff_dev unfolding cell_def by metis

lemma free_iff: "bio_inv me s \<Longrightarrow> i < NBUF \<Longrightarrow> b_refcnt (bcache s ! i) = 0 \<longleftrightarrow> \<not> sl_locked (b_lock (bcache s ! i))"
  by (simp add: bio_inv_def buf_ok_def)

text \<open>A free buffer, chosen from the least recently used end, or none if every buffer is busy.\<close>

definition is_free :: "bio \<Rightarrow> nat \<Rightarrow> bool" where
  "is_free s b \<longleftrightarrow> b_refcnt (bcache s ! b) = 0 \<and> \<not> b_dirty (bcache s ! b)"

lemma scan_hit:
  assumes "bio_inv me s" and "cell s bn i"
  shows "scan (NBUF + 1) (b_nx (bcache s)) (\<lambda>b. b_dev (bcache s ! b) = ROOTDEV \<and> b_blockno (bcache s ! b) = bn)
           (b_nx (bcache s) HEAD) = Inr (Some i)"
proof -
  obtain xs where xs: "lru (bcache s) xs" using assms(1) by (auto simp: bio_inv_def)
  have "find (\<lambda>b. b_dev (bcache s ! b) = ROOTDEV \<and> b_blockno (bcache s ! b) = bn) xs = Some i"
  proof (rule find_unique)
    show "i \<in> set xs" using xs assms(2) by (simp add: lru_def cell_def)
    show "b_dev (bcache s ! i) = ROOTDEV \<and> b_blockno (bcache s ! i) = bn"
      using assms cell_iff_key by blast
    show "\<forall>j\<in>set xs. j \<noteq> i \<longrightarrow> \<not> (b_dev (bcache s ! j) = ROOTDEV \<and> b_blockno (bcache s ! j) = bn)"
      using xs cell_unique[OF assms(1) _ assms(2)] cell_iff_key[OF assms(1), of bn]
      unfolding lru_def by blast
  qed
  with scan_lru(1)[OF xs] show ?thesis by simp
qed

lemma scan_miss:
  assumes "bio_inv me s" and "\<nexists>i. cell s bn i"
  shows "scan (NBUF + 1) (b_nx (bcache s)) (\<lambda>b. b_dev (bcache s ! b) = ROOTDEV \<and> b_blockno (bcache s ! b) = bn)
           (b_nx (bcache s) HEAD) = Inr None"
proof -
  obtain xs where xs: "lru (bcache s) xs" using assms(1) by (auto simp: bio_inv_def)
  have "find (\<lambda>b. b_dev (bcache s ! b) = ROOTDEV \<and> b_blockno (bcache s ! b) = bn) xs = None"
    unfolding find_None_iff using xs assms(2) cell_iff_key[OF assms(1), of bn] unfolding lru_def by blast
  with scan_lru(1)[OF xs] show ?thesis by simp
qed

lemma scan_free:
  assumes "bio_inv me s"
  obtains (some) b where "b < NBUF" and "is_free s b"
      and "scan (NBUF + 1) (b_pv (bcache s)) (is_free s) (b_pv (bcache s) HEAD) = Inr (Some b)"
    | (none) "\<forall>b<NBUF. \<not> is_free s b"
      and "scan (NBUF + 1) (b_pv (bcache s)) (is_free s) (b_pv (bcache s) HEAD) = Inr None"
proof -
  obtain xs where xs: "lru (bcache s) xs" using assms by (auto simp: bio_inv_def)
  note scan = scan_lru(2)[OF xs, of "is_free s"]
  show thesis
  proof (cases "find (is_free s) (rev xs)")
    case None
    then show thesis
      using none scan xs by (auto simp: find_None_iff lru_def)
  next
    case (Some b)
    then have "b \<in> set xs" "is_free s b"
      unfolding find_Some_iff by (metis length_rev nth_mem set_rev)+
    then show thesis
      using some scan xs Some by (auto simp: lru_def)
  qed
qed

definition grab :: "nat \<Rightarrow> sleeplock \<Rightarrow> sleeplock" where
  "grab me l = l\<lparr>sl_locked := True, sl_pid := me\<rparr>"

lemma grab_simps [simp]: "sl_locked (grab me l)" "sl_pid (grab me l) = me" "holdingsleep me (grab me l)"
  by (simp_all add: grab_def holdingsleep_def)

lemma lock_buf_eq:
  "lock_buf me b s = (if sl_locked (b_lock (bcache s ! b)) then Inl (Hang ''acquiresleep'')
     else Inr (repl b ((bcache s ! b)\<lparr>b_lock := grab me (b_lock (bcache s ! b))\<rparr>) s))"
  by (simp add: lock_buf_def acquiresleep_def upd_buf_repl grab_def)

text \<open>\<open>bread\<close> on a cached block returns its buffer, locked, or waits if it is locked already.\<close>

lemma bread_hit:
  assumes "bio_inv me s" and "cell s bn i"
  shows "bread me ROOTDEV bn s = (if sl_locked (b_lock (bcache s ! i)) then Inl (Hang ''acquiresleep'')
    else Inr (i, repl i ((bcache s ! i)\<lparr>b_refcnt := b_refcnt (bcache s ! i) + 1,
                                        b_lock := grab me (b_lock (bcache s ! i))\<rparr>) s))"
proof -
  have "i < length (bcache s)" "b_valid (bcache s ! i)"
    using assms by (auto simp: bio_inv_def cell_def)
  then show ?thesis
    by (simp add: bread_def bget_def Let_def scan_hit[OF assms, simplified] lock_buf_eq upd_buf_repl)
qed

lemma bread_miss:
  assumes "bio_inv me s" and "\<nexists>i. cell s bn i" and "b < NBUF" and "is_free s b"
    and "scan (NBUF + 1) (b_pv (bcache s)) (is_free s) (b_pv (bcache s) HEAD) = Inr (Some b)"
  shows "bread me ROOTDEV bn s = (if bn \<ge> length (img s) then Inl (Panic ''iderw: block out of range'')
    else Inr (b, repl b ((bcache s ! b)\<lparr>b_dev := ROOTDEV, b_blockno := bn, b_dirty := False,
           b_refcnt := 1, b_lock := grab me (b_lock (bcache s ! b)), b_data := img s ! bn, b_valid := True\<rparr>) s))"
proof -
  have b: "b < length (bcache s)" "\<not> sl_locked (b_lock (bcache s ! b))"
    using assms(1,3,4) free_iff by (auto simp: bio_inv_def is_free_def)
  show ?thesis
    using b assms(5) unfolding is_free_def[abs_def]
    by (simp add: bread_def bget_def Let_def scan_miss[OF assms(1,2), simplified] lock_buf_eq upd_buf_repl iderw_def)
qed

lemma bread_none:
  assumes "bio_inv me s" and "\<nexists>i. cell s bn i"
    and "scan (NBUF + 1) (b_pv (bcache s)) (is_free s) (b_pv (bcache s) HEAD) = Inr None"
  shows "bread me ROOTDEV bn s = Inl (Panic ''bget: no buffers'')"
  using assms(3) unfolding is_free_def[abs_def]
  by (simp add: bread_def bget_def Let_def scan_miss[OF assms(1,2), simplified])

text \<open>Every buffer is busy exactly when as many different blocks are locked or dirty.\<close>

lemma all_busy_iff:
  assumes "bio_inv me s"
  shows "(\<forall>b<NBUF. \<not> is_free s b) \<longleftrightarrow> card (held s \<union> dirty s) = NBUF"
    and "card (held s \<union> dirty s) \<le> NBUF" and "finite (held s \<union> dirty s)"
proof -
  define B where "B = {i. i < NBUF \<and> \<not> is_free s i}"
  have valid: "b_valid (bcache s ! i)" if "i \<in> B" for i
    using that assms by (auto simp: B_def is_free_def bio_inv_def buf_ok_def split: if_splits)
  have busy: "sl_locked (b_lock (bcache s ! i)) \<or> b_dirty (bcache s ! i) \<longleftrightarrow> \<not> is_free s i" if "i < NBUF" for i
    using free_iff[OF assms that] by (auto simp: is_free_def)
  have img: "held s \<union> dirty s = (\<lambda>i. b_blockno (bcache s ! i)) ` B"
  proof (intro equalityI subsetI)
    fix bn assume "bn \<in> held s \<union> dirty s"
    then obtain i where "cell s bn i" "sl_locked (b_lock (bcache s ! i)) \<or> b_dirty (bcache s ! i)"
      unfolding held_def dirty_def by blast
    then show "bn \<in> (\<lambda>i. b_blockno (bcache s ! i)) ` B"
      using busy[of i] unfolding B_def cell_def by blast
  next
    fix bn assume "bn \<in> (\<lambda>i. b_blockno (bcache s ! i)) ` B"
    then obtain i where i: "i \<in> B" "bn = b_blockno (bcache s ! i)" by blast
    then have "cell s bn i" "sl_locked (b_lock (bcache s ! i)) \<or> b_dirty (bcache s ! i)"
      using valid[OF i(1)] busy[of i] by (simp_all add: cell_def B_def)
    then show "bn \<in> held s \<union> dirty s"
      unfolding held_def dirty_def by blast
  qed
  have "inj_on (\<lambda>i. b_blockno (bcache s ! i)) B"
  proof (rule inj_onI)
    fix i j assume "i \<in> B" "j \<in> B" "b_blockno (bcache s ! i) = b_blockno (bcache s ! j)"
    then have "cell s (b_blockno (bcache s ! i)) i" "cell s (b_blockno (bcache s ! i)) j"
      using valid[of i] valid[of j] by (simp_all add: cell_def B_def)
    then show "i = j" by (rule cell_unique[OF assms])
  qed
  then have card: "card (held s \<union> dirty s) = card B"
    unfolding img by (rule card_image)
  have sub: "B \<subseteq> {..<NBUF}" by (auto simp: B_def)
  then show "card (held s \<union> dirty s) \<le> NBUF" "finite (held s \<union> dirty s)"
    using card_mono[OF _ sub] card finite_subset[OF sub] by (auto simp: img)
  have "card B = NBUF \<longleftrightarrow> B = {..<NBUF}"
    using card_subset_eq[OF _ sub] by auto
  then show "(\<forall>b<NBUF. \<not> is_free s b) \<longleftrightarrow> card (held s \<union> dirty s) = NBUF"
    unfolding card B_def by auto
qed

text \<open>The outcome of \<open>bread\<close> in terms of the observations, on every branch.\<close>

definition bread_post :: "nat \<Rightarrow> nat \<Rightarrow> bio \<Rightarrow> nat \<Rightarrow> bio \<Rightarrow> bool" where
  "bread_post me bn s b s' \<longleftrightarrow>
     bio_inv me s' \<and> cell s' bn b \<and> holdingsleep me (b_lock (bcache s' ! b)) \<and>
     view s' = view s \<and> held s' = insert bn (held s) \<and> dirty s' = dirty s \<and> img s' = img s \<and>
     hist s' = hist s \<and> keeps s s'"

lemma bread_post_repl:
  assumes "can_repl me s bn i y" and "sl_locked (b_lock y)" and "b_data y = view s bn"
    and "b_dirty y \<longleftrightarrow> bn \<in> dirty s"
  shows "bread_post me bn s i (repl i y s)"
  using repl_effect[OF assms(1)] cell_repl[OF assms(1)] nth_repl[OF assms(1), of i] keeps_repl[OF assms(1)] assms
  by (auto simp: bread_post_def holdingsleep_def can_repl_def buf_ok_def simp del: repl_simps(3))

lemma can_repl_same:
  assumes "bio_inv me s" and "cell s bn b"
    and "b_next y = b_next (bcache s ! b)" and "b_prev y = b_prev (bcache s ! b)"
    and "buf_ok me (img s) y" and "b_valid y" and "b_blockno y = bn"
  shows "can_repl me s bn b y"
proof -
  have "\<forall>j. j \<noteq> b \<longrightarrow> \<not> cell s bn j"
    using cell_unique[OF assms(1) _ assms(2)] by blast
  with assms show ?thesis
    unfolding can_repl_def by (simp add: cell_def)
qed

lemma bread_ok:
  assumes inv: "bio_inv me s" and "bn \<notin> held s" and "bn \<in> dirty s \<or> card (held s \<union> dirty s) < NBUF"
    and "bn < length (img s)"
  shows "\<exists>b s'. bread me ROOTDEV bn s = Inr (b, s') \<and> bread_post me bn s b s'"
proof (cases "\<exists>i. cell s bn i")
  case True
  then obtain i where i: "cell s bn i" ..
  let ?x = "bcache s ! i"
  let ?y = "?x\<lparr>b_refcnt := b_refcnt ?x + 1, b_lock := grab me (b_lock ?x)\<rparr>"
  have un: "\<not> sl_locked (b_lock ?x)" using i assms(2) unfolding held_def by blast
  have ok: "buf_ok me (img s) ?x" by (rule cell_ok[OF inv i])
  have "can_repl me s bn i ?y"
    using ok un i by (intro can_repl_same[OF inv i]) (auto simp: buf_ok_def cell_def)
  moreover have "b_dirty ?x \<longleftrightarrow> bn \<in> dirty s"
    using i cell_unique[OF inv i] unfolding dirty_def by blast
  ultimately have "bread_post me bn s i (repl i ?y s)"
    using view_cached[OF inv i] by (intro bread_post_repl) simp_all
  with bread_hit[OF inv i] un show ?thesis by auto
next
  case False
  then have notbusy: "bn \<notin> dirty s" unfolding dirty_def by blast
  with assms(3) have "\<not> (\<forall>b<NBUF. \<not> is_free s b)"
    using all_busy_iff(1)[OF inv] by simp
  with scan_free[OF inv] obtain b where b: "b < NBUF" "is_free s b"
    "scan (NBUF + 1) (b_pv (bcache s)) (is_free s) (b_pv (bcache s) HEAD) = Inr (Some b)"
    by metis
  let ?x = "bcache s ! b"
  let ?y = "?x\<lparr>b_dev := ROOTDEV, b_blockno := bn, b_dirty := False, b_refcnt := 1,
              b_lock := grab me (b_lock ?x), b_data := img s ! bn, b_valid := True\<rparr>"
  have "length (img s ! bn) = BSIZE" using inv assms(4) by (simp add: bio_inv_def)
  then have "can_repl me s bn b ?y"
    unfolding can_repl_def using inv b(1,2) assms(4) False free_iff[OF inv b(1)]
    by (simp add: buf_ok_def is_free_def)
  then have "bread_post me bn s b (repl b ?y s)"
    using view_uncached[OF inv False] notbusy by (intro bread_post_repl) simp_all
  with bread_miss[OF inv False b] assms(4) show ?thesis by auto
qed

lemma bread_held:
  assumes "bio_inv me s" and "bn \<in> held s"
  shows "bread me ROOTDEV bn s = Inl (Hang ''acquiresleep'')"
proof -
  obtain i where "cell s bn i" "sl_locked (b_lock (bcache s ! i))"
    using assms(2) unfolding held_def by blast
  with bread_hit[OF assms(1)] show ?thesis by simp
qed

lemma cached_in_range: "bio_inv me s \<Longrightarrow> cell s bn i \<Longrightarrow> bn < length (img s)"
  using cell_ok[of me s bn i] by (auto simp: buf_ok_def cell_def)

lemma bread_no_buffers:
  assumes "bio_inv me s" and "bn \<notin> held s \<union> dirty s" and "card (held s \<union> dirty s) = NBUF"
  shows "bread me ROOTDEV bn s = Inl (Panic ''bget: no buffers'')"
proof -
  have busy: "\<forall>b<NBUF. \<not> is_free s b" using all_busy_iff(1)[OF assms(1)] assms(3) by simp
  have "\<not> cell s bn i" for i
  proof
    assume i: "cell s bn i"
    then have "\<not> is_free s i" "i < NBUF" using busy by (simp_all add: cell_def)
    then have "sl_locked (b_lock (bcache s ! i)) \<or> b_dirty (bcache s ! i)"
      using free_iff[OF assms(1)] by (auto simp: is_free_def)
    with i assms(2) show False unfolding held_def dirty_def by blast
  qed
  moreover from scan_free[OF assms(1)] busy
  have "scan (NBUF + 1) (b_pv (bcache s)) (is_free s) (b_pv (bcache s) HEAD) = Inr None"
    by metis
  ultimately show ?thesis using bread_none[OF assms(1)] by blast
qed

lemma bread_out_of_range:
  assumes "bio_inv me s" and "card (held s \<union> dirty s) < NBUF" and "bn \<ge> length (img s)"
  shows "bread me ROOTDEV bn s = Inl (Panic ''iderw: block out of range'')"
proof -
  have nocell: "\<nexists>i. cell s bn i" using cached_in_range[OF assms(1)] assms(3) by fastforce
  have "\<not> (\<forall>b<NBUF. \<not> is_free s b)" using all_busy_iff(1)[OF assms(1)] assms(2) by simp
  with scan_free[OF assms(1)] obtain b where b: "b < NBUF" "is_free s b"
    "scan (NBUF + 1) (b_pv (bcache s)) (is_free s) (b_pv (bcache s) HEAD) = Inr (Some b)"
    by metis
  with bread_miss[OF assms(1) nocell b] assms(3) show ?thesis by simp
qed

section \<open>Writing and releasing\<close>

definition set_data :: "nat \<Rightarrow> block \<Rightarrow> bio \<Rightarrow> bio" where
  "set_data b d s = upd_buf b (\<lambda>x. x\<lparr>b_data := d\<rparr>) s"

definition mark_dirty :: "nat \<Rightarrow> bio \<Rightarrow> bio" where
  "mark_dirty b s = upd_buf b (\<lambda>x. x\<lparr>b_dirty := True\<rparr>) s"

text \<open>\<open>holds me s bn b\<close>: the process holds buffer \<open>b\<close>, which caches block \<open>bn\<close>.\<close>

definition holds :: "nat \<Rightarrow> bio \<Rightarrow> nat \<Rightarrow> nat \<Rightarrow> bool" where
  "holds me s bn b \<longleftrightarrow> bio_inv me s \<and> cell s bn b \<and> sl_locked (b_lock (bcache s ! b))"

lemma set_data_ok:
  assumes h: "holds me s bn b" and "length d = BSIZE"
  shows "holds me (set_data b d s) bn b" and "view (set_data b d s) = (view s)(bn := d)"
    and "held (set_data b d s) = held s" and "dirty (set_data b d s) = dirty s"
    and "keeps s (set_data b d s)"
    and "img (set_data b d s) = img s" and "hist (set_data b d s) = hist s"
proof -
  let ?x = "bcache s ! b" and ?y = "(bcache s ! b)\<lparr>b_data := d\<rparr>"
  have ok: "buf_ok me (img s) ?x" "sl_locked (b_lock ?x)" "cell s bn b" "bio_inv me s"
    using h cell_ok unfolding holds_def by blast+
  then have r: "can_repl me s bn b ?y"
    using assms(2) by (intro can_repl_same) (auto simp: buf_ok_def cell_def)
  have eq: "set_data b d s = repl b ?y s" by (simp add: set_data_def upd_buf_repl)
  have flags: "bn \<in> held s" "b_dirty ?x \<longleftrightarrow> bn \<in> dirty s"
    using ok cell_unique[OF ok(4,3)] unfolding held_def dirty_def by blast+
  show "holds me (set_data b d s) bn b"
    using repl_effect(1)[OF r] cell_repl[OF r] nth_repl[OF r] ok by (simp add: eq holds_def)
  show "view (set_data b d s) = (view s)(bn := d)" using view_repl[OF r] by (simp add: eq)
  show "held (set_data b d s) = held s" using held_repl[OF r] ok flags by (auto simp: eq)
  show "keeps s (set_data b d s)" using keeps_repl[OF r] by (simp add: eq)
  show "dirty (set_data b d s) = dirty s" using dirty_repl[OF r] flags by (auto simp: eq)
qed (simp_all add: set_data_def upd_buf_def)

lemma mark_dirty_ok:
  assumes h: "holds me s bn b"
  shows "holds me (mark_dirty b s) bn b" and "view (mark_dirty b s) = view s"
    and "held (mark_dirty b s) = held s" and "dirty (mark_dirty b s) = insert bn (dirty s)"
    and "keeps s (mark_dirty b s)"
    and "img (mark_dirty b s) = img s" and "hist (mark_dirty b s) = hist s"
proof -
  let ?x = "bcache s ! b" and ?y = "(bcache s ! b)\<lparr>b_dirty := True\<rparr>"
  have ok: "buf_ok me (img s) ?x" "sl_locked (b_lock ?x)" "cell s bn b" "bio_inv me s"
    using h cell_ok unfolding holds_def by blast+
  then have r: "can_repl me s bn b ?y"
    by (intro can_repl_same) (auto simp: buf_ok_def cell_def)
  have eq: "mark_dirty b s = repl b ?y s" by (simp add: mark_dirty_def upd_buf_repl)
  have "bn \<in> held s" using ok unfolding held_def by blast
  then show "held (mark_dirty b s) = held s" using held_repl[OF r] ok by (auto simp: eq)
  show "holds me (mark_dirty b s) bn b"
    using repl_effect(1)[OF r] cell_repl[OF r] nth_repl[OF r] ok by (simp add: eq holds_def)
  show "view (mark_dirty b s) = view s"
    using view_repl[OF r] view_cached[OF ok(4,3)] by (auto simp: eq fun_eq_iff)
  show "keeps s (mark_dirty b s)" using keeps_repl[OF r] by (simp add: eq)
  show "dirty (mark_dirty b s) = insert bn (dirty s)" using dirty_repl[OF r] by (simp add: eq)
qed (simp_all add: mark_dirty_def upd_buf_def)

text \<open>Writing the held block's place on the disk disturbs no other buffer.\<close>

lemma disk_write_ok:
  assumes h: "holds me s bn b" and "length d = BSIZE"
  shows "holds me (disk_write bn d s) bn b" and "view (disk_write bn d s) = view s"
    and "held (disk_write bn d s) = held s" and "dirty (disk_write bn d s) = dirty s"
proof -
  let ?s = "disk_write bn d s"
  have ok: "buf_ok me (img s) (bcache s ! b)" "sl_locked (b_lock (bcache s ! b))" "cell s bn b" "bio_inv me s"
    using h cell_ok unfolding holds_def by blast+
  have bc: "bcache ?s = bcache s" and im: "img ?s = (img s)[bn := d]"
    by (simp_all add: disk_write_def)
  have cells: "cell ?s = cell s" by (simp add: fun_eq_iff cell_def bc)
  have "buf_ok me (img ?s) (bcache s ! j)" if "j < NBUF" for j
  proof (cases "j = b")
    case True
    with ok(1,2) show ?thesis by (auto simp: buf_ok_def im split: if_splits)
  next
    case False
    then have "\<not> cell s bn j" using cell_unique[OF ok(4,3)] by blast
    moreover have "buf_ok me (img s) (bcache s ! j)" using ok(4) that by (simp add: bio_inv_def)
    ultimately show ?thesis using that by (auto simp: buf_ok_def im cell_def)
  qed
  moreover have "\<forall>x\<in>set (img ?s). length x = BSIZE"
    using ok(4) assms(2) by (auto simp: im bio_inv_def dest!: set_update_subset_insert[THEN subsetD])
  ultimately have inv: "bio_inv me ?s"
    using ok(4) unfolding bio_inv_def by (simp add: bc cells)
  then show "holds me ?s bn b" using ok by (simp add: holds_def cells bc)
  show "held ?s = held s" "dirty ?s = dirty s"
    by (simp_all add: held_def dirty_def cells bc)
  show "view ?s = view s"
  proof
    fix k
    show "view ?s k = view s k"
    proof (cases "\<exists>j. cell s k j")
      case True
      then obtain j where "cell s k j" ..
      with view_cached[OF inv, of k j] view_cached[OF ok(4), of k j] show ?thesis by (simp add: cells bc)
    next
      case False
      then have "k \<noteq> bn" using ok(3) by blast
      with view_uncached[OF inv, of k] view_uncached[OF ok(4) False] False show ?thesis
        by (simp add: cells im)
    qed
  qed
qed

lemma bwrite_ok:
  assumes h: "holds me s bn b"
  shows "\<exists>s'. bwrite me b s = Inr s' \<and> holds me s' bn b \<and> view s' = view s \<and> held s' = held s \<and>
    dirty s' = dirty s - {bn} \<and> img s' = (img s)[bn := view s bn] \<and>
    hist s' = hist s @ [(bn, view s bn)] \<and> keeps s s'"
proof -
  let ?x = "bcache s ! b" and ?y = "(bcache s ! b)\<lparr>b_dirty := False, b_valid := True\<rparr>"
  let ?s = "disk_write bn (b_data ?x) s"
  have ok: "buf_ok me (img s) ?x" "sl_locked (b_lock ?x)" "cell s bn b" "bio_inv me s"
    using h cell_ok unfolding holds_def by blast+
  have x: "b_dev ?x = ROOTDEV" "b_blockno ?x = bn" "bn < length (img s)" "length (b_data ?x) = BSIZE" "b_valid ?x"
    "holdingsleep me (b_lock ?x)" "b < length (bcache s)"
    using ok by (auto simp: buf_ok_def cell_def holdingsleep_def bio_inv_def)
  note d = disk_write_ok[OF h x(4)]
  have ok': "bio_inv me ?s" "cell ?s bn b" "bcache ?s = bcache s"
    using d(1) by (simp_all add: holds_def disk_write_def)
  have r: "can_repl me ?s bn b ?y"
    using ok x by (intro can_repl_same[OF ok'(1,2)]) (auto simp: buf_ok_def cell_def disk_write_def)
  have run: "bwrite me b s = Inr (repl b ?y ?s)"
    using x by (simp add: bwrite_def iderw_def upd_buf_repl Let_def disk_write_def repl_def)
  have "bn \<in> held s" using ok unfolding held_def by blast
  then have "held (repl b ?y ?s) = held s" using held_repl[OF r] ok(2) d(3) by (auto simp: insert_absorb)
  moreover have "holds me (repl b ?y ?s) bn b"
    using repl_effect(1)[OF r] cell_repl[OF r] nth_repl[OF r] ok by (simp add: holds_def)
  moreover have v: "view s bn = b_data ?x" by (rule view_cached[OF ok(4,3)])
  moreover have "view (repl b ?y ?s) = view s"
    using view_repl[OF r] d(2) v by (auto simp: fun_eq_iff)
  moreover have "dirty (repl b ?y ?s) = dirty s - {bn}" using dirty_repl[OF r] d(4) by simp
  moreover have "img (repl b ?y ?s) = (img s)[bn := b_data ?x]" "hist (repl b ?y ?s) = hist s @ [(bn, b_data ?x)]"
    by (simp_all add: disk_write_def)
  moreover have "keeps s (repl b ?y ?s)"
    using keeps_repl[OF r] by (simp add: keeps_def cell_def disk_write_def)
  ultimately show ?thesis using run by auto
qed

text \<open>Relinking a buffer changes nothing but the order of the list.\<close>

definition payload :: "buf \<Rightarrow> bool \<times> bool \<times> nat \<times> nat \<times> sleeplock \<times> nat \<times> block" where
  "payload x = (b_valid x, b_dirty x, b_dev x, b_blockno x, b_lock x, b_refcnt x, b_data x)"

lemma payload_links [simp]:
  "payload (set_next b v c ! i) = payload (c ! i)" "payload (set_prev b v c ! i) = payload (c ! i)"
  by (auto simp: set_next_def set_prev_def nth_upd payload_def)

lemma payload_move_first [simp]: "payload (move_first b c ! i) = payload (c ! i)"
  by (simp add: move_first_def Let_def)

lemma length_move_first [simp]: "length (move_first b c) = length c"
  by (simp add: move_first_def Let_def)

lemma payload_eqD:
  assumes "payload x = payload y"
  shows "b_valid x = b_valid y" "b_dirty x = b_dirty y" "b_dev x = b_dev y" "b_blockno x = b_blockno y"
    "b_lock x = b_lock y" "b_refcnt x = b_refcnt y" "b_data x = b_data y"
  using assms by (auto simp: payload_def)

lemma relink_ok:
  assumes inv: "bio_inv me s" and len: "length c = length (bcache s)" and "lru c xs"
    and p: "\<And>i. payload (c ! i) = payload (bcache s ! i)"
  shows "bio_inv me (s\<lparr>bcache := c\<rparr>)" and "view (s\<lparr>bcache := c\<rparr>) = view s"
    and "held (s\<lparr>bcache := c\<rparr>) = held s" and "dirty (s\<lparr>bcache := c\<rparr>) = dirty s"
    and "cell (s\<lparr>bcache := c\<rparr>) = cell s" and "keeps s0 (s\<lparr>bcache := c\<rparr>) \<longleftrightarrow> keeps s0 s"
proof -
  note pd = payload_eqD[OF p]
  show cells: "cell (s\<lparr>bcache := c\<rparr>) = cell s" by (simp add: fun_eq_iff cell_def pd)
  have "buf_ok me (img s) (c ! i) \<longleftrightarrow> buf_ok me (img s) (bcache s ! i)" for i
    by (simp add: buf_ok_def pd)
  then show inv': "bio_inv me (s\<lparr>bcache := c\<rparr>)"
    using inv len assms(3) unfolding bio_inv_def cells by auto
  show held: "held (s\<lparr>bcache := c\<rparr>) = held s" and "dirty (s\<lparr>bcache := c\<rparr>) = dirty s"
    by (simp_all add: held_def dirty_def cells pd)
  show "keeps s0 (s\<lparr>bcache := c\<rparr>) \<longleftrightarrow> keeps s0 s"
    by (simp add: keeps_def held cells pd)
  show "view (s\<lparr>bcache := c\<rparr>) = view s"
  proof
    fix k
    show "view (s\<lparr>bcache := c\<rparr>) k = view s k"
      using view_cached[OF inv', of k] view_cached[OF inv, of k] view_uncached[OF inv', of k]
        view_uncached[OF inv, of k]
      by (cases "\<exists>j. cell s k j") (auto simp: cells pd)
  qed
qed

lemma brelse_ok:
  assumes h: "holds me s bn b" and "bn \<in> dirty s \<or> view s bn = img s ! bn"
  shows "\<exists>s'. brelse me b s = Inr s' \<and> bio_inv me s' \<and> view s' = view s \<and> held s' = held s - {bn} \<and>
    dirty s' = dirty s \<and> img s' = img s \<and> hist s' = hist s \<and> keeps s s'"
proof -
  let ?x = "bcache s ! b"
  let ?y = "?x\<lparr>b_lock := releasesleep (b_lock ?x), b_refcnt := b_refcnt ?x - 1\<rparr>"
  have ok: "buf_ok me (img s) ?x" "sl_locked (b_lock ?x)" "cell s bn b" "bio_inv me s"
    using h cell_ok unfolding holds_def by blast+
  have x: "b < NBUF" "b < length (bcache s)" "holdingsleep me (b_lock ?x)" "b_refcnt ?x = 1"
    using ok by (auto simp: buf_ok_def cell_def holdingsleep_def bio_inv_def)
  have v: "view s bn = b_data ?x" by (rule view_cached[OF ok(4,3)])
  have dirty: "b_dirty ?x \<longleftrightarrow> bn \<in> dirty s"
    using ok cell_unique[OF ok(4,3)] unfolding dirty_def by blast
  have r: "can_repl me s bn b ?y"
    using ok x(4) v dirty assms(2)
    by (intro can_repl_same[OF ok(4,3)]) (auto simp: buf_ok_def cell_def releasesleep_def)
  note inv' = bio_inv_repl[OF r]
  obtain xs where xs: "lru (bcache (repl b ?y s)) xs"
    using inv' unfolding bio_inv_def by blast
  let ?c = "move_first b (bcache (repl b ?y s))"
  have lru': "lru ?c (b # remove1 b xs)"
    using inv' x(1) by (intro move_first_lru[OF xs]) (simp_all add: bio_inv_def)
  note m = relink_ok[OF inv' length_move_first lru' payload_move_first]
  have run: "brelse me b s = Inr ((repl b ?y s)\<lparr>bcache := ?c\<rparr>)"
    using x by (simp add: brelse_def upd_buf_repl Let_def)
  show ?thesis
  proof (intro exI conjI)
    show "brelse me b s = Inr ((repl b ?y s)\<lparr>bcache := ?c\<rparr>)" by (rule run)
    show "bio_inv me ((repl b ?y s)\<lparr>bcache := ?c\<rparr>)" by (rule m(1))
    show "view ((repl b ?y s)\<lparr>bcache := ?c\<rparr>) = view s"
      unfolding m(2) using view_repl[OF r] v by (auto simp: fun_eq_iff)
    show "held ((repl b ?y s)\<lparr>bcache := ?c\<rparr>) = held s - {bn}"
      unfolding m(3) using held_repl[OF r] by (simp add: releasesleep_def)
    show "dirty ((repl b ?y s)\<lparr>bcache := ?c\<rparr>) = dirty s"
      unfolding m(4) using dirty_repl[OF r] dirty by auto
    show "keeps s ((repl b ?y s)\<lparr>bcache := ?c\<rparr>)"
      unfolding m(6) by (rule keeps_repl[OF r])
  qed simp_all
qed

lemma holds_keeps:
  assumes "holds me s bn b" and "keeps s s'" and "bio_inv me s'" and "bn \<in> held s'"
  shows "holds me s' bn b"
  using assms unfolding holds_def keeps_def by blast

lemma holds_data: "holds me s bn b \<Longrightarrow> b_data (bcache s ! b) = view s bn"
  using view_cached[of me s bn b] by (simp add: holds_def)

lemma holds_held: "holds me s bn b \<Longrightarrow> bn \<in> held s"
  unfolding holds_def held_def by blast

lemma holds_inv: "holds me s bn b \<Longrightarrow> bio_inv me s"
  by (simp add: holds_def)

lemma holds_blockno: "holds me s bn b \<Longrightarrow> b_blockno (bcache s ! b) = bn"
  by (simp add: holds_def cell_def)

text \<open>\<open>bread\<close> as a rule that produces a held buffer.\<close>

lemma bread_holds:
  assumes "bio_inv me s" and "bn \<notin> held s" and "bn \<in> dirty s \<or> card (held s \<union> dirty s) < NBUF"
    and "bn < length (img s)"
  shows "\<exists>b s'. bread me ROOTDEV bn s = Inr (b, s') \<and> holds me s' bn b \<and> view s' = view s \<and>
    held s' = insert bn (held s) \<and> dirty s' = dirty s \<and> img s' = img s \<and> hist s' = hist s \<and> keeps s s'"
  using bread_ok[OF assms] unfolding bread_post_def holds_def holdingsleep_def by blast

section \<open>Booting\<close>

text \<open>The statically allocated cache before \<open>binit\<close>, and the state after boot on a disk image.\<close>

definition zero_buf :: buf where
  "zero_buf = \<lparr>b_valid = False, b_dirty = False, b_dev = 0, b_blockno = 0, b_lock = initsleeplock,
     b_refcnt = 0, b_prev = 0, b_next = 0, b_data = replicate BSIZE 0\<rparr>"

definition boot :: "block list \<Rightarrow> bio" where
  "boot im = \<lparr>bcache = binit (replicate (NBUF + 1) zero_buf), img = im, hist = []\<rparr>"

lemma payload_binit:
  assumes "\<And>i. i < length c \<Longrightarrow> payload (c ! i) = payload zero_buf" and "i < length c"
  shows "payload (binit c ! i) = payload zero_buf"
proof -
  have step: "(\<forall>i<length c. payload (c ! i) = payload zero_buf) \<Longrightarrow>
     length (binit_step c b) = length c \<and> (\<forall>i<length c. payload (binit_step c b ! i) = payload zero_buf)" for c b
  proof -
    assume c: "\<forall>i<length c. payload (c ! i) = payload zero_buf"
    let ?c = "set_prev b HEAD (set_next b (b_nx c HEAD) c)"
    have "payload (?c[b := (?c ! b)\<lparr>b_lock := initsleeplock\<rparr>] ! i) = payload zero_buf" if "i < length c" for i
    proof -
      have "payload (?c ! i) = payload zero_buf" using c that by simp
      then show ?thesis using that by (auto simp: nth_upd payload_def zero_buf_def)
    qed
    then show ?thesis by (simp add: binit_step_def Let_def)
  qed
  have fold: "(\<forall>i<length c. payload (c ! i) = payload zero_buf) \<Longrightarrow>
     length (foldl binit_step c bs) = length c \<and> (\<forall>i<length c. payload (foldl binit_step c bs ! i) = payload zero_buf)" for c bs
  proof (induction bs arbitrary: c)
    case (Cons b bs)
    with step[OF Cons.prems, of b] Cons.IH[of "binit_step c b"] show ?case by simp
  qed simp
  show ?thesis
    using fold[of "set_next HEAD HEAD (set_prev HEAD HEAD c)" "[0..<NBUF]"] assms by (simp add: binit_def)
qed

lemma boot_ok:
  assumes "\<forall>d\<in>set im. length d = BSIZE"
  shows "bio_inv me (boot im)" and "view (boot im) = (\<lambda>bn. im ! bn)" and "held (boot im) = {}"
    and "dirty (boot im) = {}" and "img (boot im) = im" and "hist (boot im) = []"
proof -
  let ?c = "binit (replicate (NBUF + 1) zero_buf)"
  have lru: "lru ?c (rev [0..<NBUF])" and len: "length ?c = NBUF + 1"
    using binit_lru[of "replicate (NBUF + 1) zero_buf"] by simp_all
  have p: "payload (?c ! i) = payload zero_buf" if "i < NBUF" for i
    using that by (intro payload_binit) (auto simp del: replicate.simps)
  have invalid: "\<not> b_valid (?c ! i)" and ok: "buf_ok me im (?c ! i)" if "i < NBUF" for i
    using payload_eqD[OF p[OF that]] by (simp_all add: zero_buf_def buf_ok_def initsleeplock_def)
  have nocell: "\<not> cell (boot im) bn i" for bn i
    using invalid unfolding cell_def boot_def by auto
  with lru len ok assms show inv: "bio_inv me (boot im)"
    unfolding bio_inv_def by (auto simp: boot_def simp del: replicate.simps)
  show "view (boot im) = (\<lambda>bn. im ! bn)"
    using view_uncached[OF inv] nocell by (auto simp: boot_def)
  show "held (boot im) = {}" "dirty (boot im) = {}"
    using nocell by (simp_all add: held_def dirty_def)
qed (simp_all add: boot_def)

section \<open>Properties\<close>

text \<open>C11. \<open>bread\<close> on every branch: a returned buffer is locked and holds the current contents of the
  block, no contents change and no disk write happens; it waits exactly for a block the process
  already holds, reports \<open>no buffers\<close> only when all \<open>NBUF\<close> buffers are locked or dirty with other
  blocks, and a range error only past the end of the disk.\<close>

theorem bread_correct:
  assumes "bio_inv me s"
  shows "case bread me ROOTDEV bn s of
           Inr (b, s') \<Rightarrow> bn \<notin> held s \<and> bn < length (img s) \<and> bio_inv me s' \<and>
             b_data (bcache s' ! b) = view s bn \<and> held s' = insert bn (held s) \<and>
             view s' = view s \<and> dirty s' = dirty s \<and> img s' = img s \<and> hist s' = hist s
         | Inl e \<Rightarrow> e = Hang ''acquiresleep'' \<and> bn \<in> held s
             \<or> e = Panic ''bget: no buffers'' \<and> card (held s \<union> dirty s) = NBUF \<and> bn \<notin> held s \<union> dirty s
             \<or> e = Panic ''iderw: block out of range'' \<and> bn \<ge> length (img s)"
proof -
  have "bn \<in> dirty s \<Longrightarrow> bn < length (img s)"
    using cached_in_range[OF assms] by (auto simp: dirty_def)
  moreover have "card (held s \<union> dirty s) < NBUF \<or> card (held s \<union> dirty s) = NBUF"
    using all_busy_iff(2)[OF assms] by linarith
  ultimately consider "bn \<in> held s" | "bn \<notin> held s \<union> dirty s" "card (held s \<union> dirty s) = NBUF"
    | "card (held s \<union> dirty s) < NBUF" "bn \<ge> length (img s)"
    | "bn \<notin> held s" "bn \<in> dirty s \<or> card (held s \<union> dirty s) < NBUF" "bn < length (img s)"
    by (cases "bn < length (img s)") auto
  then show ?thesis
  proof cases
    case 4
    from bread_ok[OF assms this] obtain b s' where run: "bread me ROOTDEV bn s = Inr (b, s')"
      and post: "bread_post me bn s b s'" by blast
    have "b_data (bcache s' ! b) = view s bn"
      using post view_cached[of me s' bn b] by (simp add: bread_post_def)
    with run post 4 show ?thesis by (simp add: bread_post_def)
  qed (simp_all add: bread_held[OF assms] bread_no_buffers[OF assms] bread_out_of_range[OF assms])
qed

theorem bread_correct_witness:
  "\<exists>b s'. bread 7 ROOTDEV 0 (boot [replicate BSIZE 5]) = Inr (b, s') \<and> b_data (bcache s' ! b) = replicate BSIZE 5 \<and>
          held s' = {0}"
proof -
  let ?im = "[replicate BSIZE (5 :: u8)]"
  have im: "\<forall>d\<in>set ?im. length d = BSIZE" by simp
  show ?thesis
    using bread_correct[OF boot_ok(1)[OF im, of 7], of 0] boot_ok(2-5)[OF im]
    by (auto simp: NBUF_def split: sum.splits)
qed

text \<open>Eviction is least-recently-used: on a miss \<open>bget\<close> takes the last buffer of the list that is
  neither referenced nor dirty, and \<open>brelse\<close> moves the released buffer to the front.\<close>

lemma bcache_lru:
  assumes "bio_inv me s" and "lru (bcache s) xs"
  shows "(\<nexists>i. cell s bn i) \<and> bread me ROOTDEV bn s = Inr (b, s') \<longrightarrow> find (is_free s) (rev xs) = Some b"
    and "holds me s bn c \<and> brelse me c s = Inr t \<longrightarrow> lru (bcache t) (c # remove1 c xs)"
proof -
  note scan = scan_lru(2)[OF assms(2), of "is_free s"]
  show "(\<nexists>i. cell s bn i) \<and> bread me ROOTDEV bn s = Inr (b, s') \<longrightarrow> find (is_free s) (rev xs) = Some b"
  proof
    assume a: "(\<nexists>i. cell s bn i) \<and> bread me ROOTDEV bn s = Inr (b, s')"
    from assms(1) show "find (is_free s) (rev xs) = Some b"
    proof (cases rule: scan_free)
      case (some b')
      then show ?thesis using a scan bread_miss[OF assms(1) _ some] by (auto split: if_splits)
    next
      case none
      then show ?thesis using a bread_none[OF assms(1) _ none(2)] by auto
    qed
  qed
  show "holds me s bn c \<and> brelse me c s = Inr t \<longrightarrow> lru (bcache t) (c # remove1 c xs)"
  proof
    assume a: "holds me s bn c \<and> brelse me c s = Inr t"
    let ?x = "bcache s ! c"
    let ?y = "?x\<lparr>b_lock := releasesleep (b_lock ?x), b_refcnt := b_refcnt ?x - 1\<rparr>"
    have x: "c < NBUF" "length (bcache s) = NBUF + 1" "b_refcnt ?x = 1" "sl_locked (b_lock ?x)"
      using a cell_ok[of me s bn c] by (auto simp: holds_def buf_ok_def cell_def bio_inv_def)
    have "lru ((bcache s)[c := ?y]) xs"
      using assms(2) links_upd_buf[of "\<lambda>x. x\<lparr>b_lock := releasesleep (b_lock x), b_refcnt := b_refcnt x - 1\<rparr>" "bcache s" c]
      by (simp add: lru_def)
    then have "lru (move_first c ((bcache s)[c := ?y])) (c # remove1 c xs)"
      using x by (intro move_first_lru) simp_all
    moreover have "t = s\<lparr>bcache := move_first c ((bcache s)[c := ?y])\<rparr>"
      using a x by (auto simp: brelse_def upd_buf_def Let_def split: if_splits)
    ultimately show "lru (bcache t) (c # remove1 c xs)" by simp
  qed
qed

end
