(* ===== verification/Log.thy ===== *)
theory Log
  imports Bio
begin

text \<open>
  The write-ahead log (\<^verbatim>\<open>log.c\<close>) over the buffer cache. The state adds the in-memory log to the
  state of \<open>Bio\<close>; the in-memory header is the list of its first \<open>n\<close> block numbers. The main
  results: what \<open>commit\<close> writes to the disk and in which order, and that a crash after any
  prefix of these writes, followed by recovery at the next boot, leaves either none or all of
  the transaction.
\<close>

abbreviation LOGSIZE :: nat where "LOGSIZE \<equiv> 30"
abbreviation MAXOPBLOCKS :: nat where "MAXOPBLOCKS \<equiv> 10"

record logst =
  l_start :: nat
  l_size :: nat
  l_outstanding :: int
  l_committing :: bool
  l_dev :: nat
  l_lh :: "nat list"

record sto =
  bio :: bio
  log :: logst

section \<open>The superblock\<close>

record superblock =
  sb_size :: nat
  sb_nblocks :: nat
  sb_ninodes :: nat
  sb_nlog :: nat
  sb_nswap :: nat
  sb_logstart :: nat
  sb_inodestart :: nat
  sb_bmapstart :: nat
  sb_swapstart :: nat

text \<open>The superblock read from the bytes of block 1.\<close>

definition sb_of :: "block \<Rightarrow> superblock" where
  "sb_of d = \<lparr>sb_size = unat (get32 d 0), sb_nblocks = unat (get32 d 4), sb_ninodes = unat (get32 d 8),
     sb_nlog = unat (get32 d 12), sb_nswap = unat (get32 d 16), sb_logstart = unat (get32 d 20),
     sb_inodestart = unat (get32 d 24), sb_bmapstart = unat (get32 d 28), sb_swapstart = unat (get32 d 32)\<rparr>"

definition readsb :: "nat \<Rightarrow> nat \<Rightarrow> bio \<Rightarrow> (superblock \<times> bio) res" where
  "readsb me dev s =
     bindE (bread me dev 1 s) (\<lambda>(bp, s).
     let sb = sb_of (b_data (bcache s ! bp)) in
     bindE (brelse me bp s) (\<lambda>s. Inr (sb, s)))"

section \<open>Log operations\<close>

definition upd_log :: "(logst \<Rightarrow> logst) \<Rightarrow> sto \<Rightarrow> sto" where
  "upd_log f s = s\<lparr>log := f (log s)\<rparr>"

text \<open>An operation of the cache run inside the larger state.\<close>

definition on_bio :: "(bio \<Rightarrow> bio res) \<Rightarrow> sto \<Rightarrow> sto res" where
  "on_bio f s = bindE (f (bio s)) (\<lambda>b. Inr (s\<lparr>bio := b\<rparr>))"

definition install_one :: "nat \<Rightarrow> logst \<Rightarrow> nat \<Rightarrow> bio \<Rightarrow> bio res" where
  "install_one me l tail s =
     bindE (bread me (l_dev l) (l_start l + tail + 1) s) (\<lambda>(lbuf, s).
     bindE (bread me (l_dev l) (l_lh l ! tail) s) (\<lambda>(dbuf, s).
     bindE (bwrite me dbuf (set_data dbuf (b_data (bcache s ! lbuf)) s)) (\<lambda>s.
     bindE (brelse me lbuf s) (brelse me dbuf))))"

definition install_trans :: "nat \<Rightarrow> sto \<Rightarrow> sto res" where
  "install_trans me s = on_bio (foldE (install_one me (log s)) [0..<length (l_lh (log s))]) s"

text \<open>
  The header block: \<open>n\<close>, then \<open>n\<close> block numbers. A header with \<open>n > LOGSIZE\<close> would make \<open>read_head\<close>
  write past the end of \<open>log.lh.block\<close>; a negative \<open>n\<close> reads as an empty header.
\<close>

definition head_n :: "block \<Rightarrow> int" where
  "head_n d = sint (get32 d 0)"

definition head_blocks :: "block \<Rightarrow> nat list" where
  "head_blocks d = map (\<lambda>i. unat (get32 d (4 + 4 * i))) [0..<nat (head_n d)]"

definition put_head :: "block \<Rightarrow> nat list \<Rightarrow> block" where
  "put_head d bs = put_words (put32 d 0 (of_nat (length bs))) 4 (map of_nat bs)"

definition read_head :: "nat \<Rightarrow> sto \<Rightarrow> sto res" where
  "read_head me s =
     bindE (bread me (l_dev (log s)) (l_start (log s)) (bio s)) (\<lambda>(buf, b).
     let d = b_data (bcache b ! buf) in
     if head_n d > int LOGSIZE then Inl (Fault ''read_head: log.lh.block'')
     else bindE (brelse me buf b) (\<lambda>b.
       Inr (upd_log (\<lambda>l. l\<lparr>l_lh := head_blocks d\<rparr>) (s\<lparr>bio := b\<rparr>))))"

definition write_head :: "nat \<Rightarrow> sto \<Rightarrow> sto res" where
  "write_head me s =
     bindE (bread me (l_dev (log s)) (l_start (log s)) (bio s)) (\<lambda>(buf, b).
     bindE (bwrite me buf (set_data buf (put_head (b_data (bcache b ! buf)) (l_lh (log s))) b)) (\<lambda>b.
     bindE (brelse me buf b) (\<lambda>b. Inr (s\<lparr>bio := b\<rparr>))))"

definition recover_from_log :: "nat \<Rightarrow> sto \<Rightarrow> sto res" where
  "recover_from_log me s =
     bindE (read_head me s) (\<lambda>s.
     bindE (install_trans me s) (\<lambda>s.
     write_head me (upd_log (\<lambda>l. l\<lparr>l_lh := []\<rparr>) s)))"

definition initlog :: "nat \<Rightarrow> nat \<Rightarrow> sto \<Rightarrow> sto res" where
  "initlog me dev s =
     (if 4 + 4 * LOGSIZE \<ge> BSIZE then Inl (Panic ''initlog: too big logheader'')
      else bindE (readsb me dev (bio s)) (\<lambda>(sb, b).
        recover_from_log me
          (upd_log (\<lambda>l. l\<lparr>l_start := sb_logstart sb, l_size := sb_nlog sb, l_dev := dev\<rparr>) (s\<lparr>bio := b\<rparr>))))"

text \<open>\<open>begin_op\<close> either reserves space or sleeps on the log until a later \<open>end_op\<close>.\<close>

definition op_fits :: "logst \<Rightarrow> bool" where
  "op_fits l \<longleftrightarrow> \<not> int (length (l_lh l)) + (l_outstanding l + 1) * int MAXOPBLOCKS > int LOGSIZE"

definition begin_op :: "sto \<Rightarrow> sto res" where
  "begin_op s =
     (let l = log s in
      if l_committing l then Inl (Hang ''begin_op: committing'')
      else if \<not> op_fits l then Inl (Hang ''begin_op: log space'')
      else Inr (upd_log (\<lambda>l. l\<lparr>l_outstanding := l_outstanding l + 1\<rparr>) s))"

definition write_one :: "nat \<Rightarrow> logst \<Rightarrow> nat \<Rightarrow> bio \<Rightarrow> bio res" where
  "write_one me l tail s =
     bindE (bread me (l_dev l) (l_start l + tail + 1) s) (\<lambda>(to, s).
     bindE (bread me (l_dev l) (l_lh l ! tail) s) (\<lambda>(from_b, s).
     bindE (bwrite me to (set_data to (b_data (bcache s ! from_b)) s)) (\<lambda>s.
     bindE (brelse me from_b s) (brelse me to))))"

definition write_log :: "nat \<Rightarrow> sto \<Rightarrow> sto res" where
  "write_log me s = on_bio (foldE (write_one me (log s)) [0..<length (l_lh (log s))]) s"

definition commit :: "nat \<Rightarrow> sto \<Rightarrow> sto res" where
  "commit me s =
     (if l_lh (log s) \<noteq> [] then
        bindE (write_log me s) (\<lambda>s.
        bindE (write_head me s) (\<lambda>s.
        bindE (install_trans me s) (\<lambda>s.
        write_head me (upd_log (\<lambda>l. l\<lparr>l_lh := []\<rparr>) s))))
      else Inr s)"

definition end_op :: "nat \<Rightarrow> sto \<Rightarrow> sto res" where
  "end_op me s =
     (let s = upd_log (\<lambda>l. l\<lparr>l_outstanding := l_outstanding l - 1\<rparr>) s in
      if l_committing (log s) then Inl (Panic ''log.committing'')
      else if l_outstanding (log s) = 0 then
        bindE (commit me (upd_log (\<lambda>l. l\<lparr>l_committing := True\<rparr>) s)) (\<lambda>s.
        Inr (upd_log (\<lambda>l. l\<lparr>l_committing := False\<rparr>) s))
      else Inr s)"

text \<open>Recording a block: absorbed if it is in the header already, appended otherwise.\<close>

definition absorb :: "nat \<Rightarrow> nat list \<Rightarrow> nat list" where
  "absorb bn lh = (if bn \<in> set lh then lh else lh @ [bn])"

definition log_full :: "logst \<Rightarrow> bool" where
  "log_full l \<longleftrightarrow> length (l_lh l) \<ge> LOGSIZE \<or> int (length (l_lh l)) \<ge> int (l_size l) - 1"

definition log_write :: "nat \<Rightarrow> sto \<Rightarrow> sto res" where
  "log_write b s =
     (if log_full (log s) then Inl (Panic ''too big a transaction'')
      else if l_outstanding (log s) < 1 then Inl (Panic ''log_write outside of trans'')
      else Inr (upd_log (\<lambda>l. l\<lparr>l_lh := absorb (b_blockno (bcache (bio s) ! b)) (l_lh l)\<rparr>)
                  (s\<lparr>bio := mark_dirty b (bio s)\<rparr>)))"

section \<open>The header block\<close>

lemma head_put_head:
  assumes "length d = BSIZE" and "length bs \<le> LOGSIZE" and "\<forall>b\<in>set bs. b < 2 ^ 32"
  shows "head_n (put_head d bs) = int (length bs)" and "head_blocks (put_head d bs) = bs"
    and "length (put_head d bs) = BSIZE"
proof -
  have 1: "get32 (put_head d bs) 0 = of_nat (length bs)"
    using assms(1) by (simp add: put_head_def get32_put_words_other)
  have "sint (of_nat (length bs) :: u32) = int (length bs)"
    using assms(2) by (simp add: signed_of_nat signed_take_bit_int_eq_self)
  then show n: "head_n (put_head d bs) = int (length bs)"
    by (simp add: head_n_def 1)
  have "unat (get32 (put_head d bs) (4 + 4 * i)) = bs ! i" if "i < length bs" for i
  proof -
    have "get32 (put_head d bs) (4 + 4 * i) = of_nat (bs ! i)"
      using get32_put_words[of 4 "map of_nat bs" "put32 d 0 (of_nat (length bs))" i] that assms(1,2)
      by (simp add: put_head_def)
    then show ?thesis using assms(3) that by (simp add: take_bit_nat_eq_self unat_of_nat)
  qed
  then show "head_blocks (put_head d bs) = bs"
    by (auto simp: head_blocks_def n intro: nth_equalityI)
qed (simp add: put_head_def assms(1))

section \<open>Sequences of block writes\<close>

type_synonym dwrite = "nat \<times> block"

text \<open>The contents after a sequence of writes: the last write to a block wins.\<close>

definition vapply :: "(nat \<Rightarrow> block) \<Rightarrow> dwrite list \<Rightarrow> nat \<Rightarrow> block" where
  "vapply v ws bn = (case map_of (rev ws) bn of Some d \<Rightarrow> d | None \<Rightarrow> v bn)"

fun apply_writes :: "block list \<Rightarrow> dwrite list \<Rightarrow> block list" where
  "apply_writes im [] = im"
| "apply_writes im ((bn, d) # ws) = apply_writes (im[bn := d]) ws"

lemma vapply_Nil [simp]: "vapply v [] = v"
  by (simp add: vapply_def fun_eq_iff)

lemma vapply_append [simp]: "vapply v (ws @ us) = vapply (vapply v ws) us"
  by (auto simp: vapply_def fun_eq_iff map_add_def split: option.splits)

lemma vapply_single [simp]: "vapply v [(bn, d)] = v(bn := d)"
  by (simp add: vapply_def fun_eq_iff)

lemma apply_writes_append [simp]: "apply_writes im (ws @ us) = apply_writes (apply_writes im ws) us"
  by (induction im ws rule: apply_writes.induct) simp_all

lemma length_apply_writes [simp]: "length (apply_writes im ws) = length im"
  by (induction im ws rule: apply_writes.induct) simp_all

lemma vapply_other: "bn \<notin> fst ` set ws \<Longrightarrow> vapply v ws bn = v bn"
  using map_of_eq_None_iff[of "rev ws" bn] by (simp add: vapply_def)

lemma vapply_in: "distinct (map fst ws) \<Longrightarrow> (bn, d) \<in> set ws \<Longrightarrow> vapply v ws bn = d"
  using map_of_is_SomeI[of "rev ws" bn d] by (simp add: vapply_def rev_map[symmetric])

lemma nth_apply_writes: "bn < length im \<Longrightarrow> apply_writes im ws ! bn = vapply (\<lambda>b. im ! b) ws bn"
proof (induction ws rule: rev_induct)
  case (snoc x ws)
  obtain k d where x: "x = (k, d)" by (cases x)
  have "apply_writes im (ws @ [x]) = (apply_writes im ws)[k := d]"
    by (simp add: x)
  with snoc show ?case by (simp add: x nth_upd)
qed simp

lemma apply_writes_lengths:
  "\<forall>d\<in>set im. length d = BSIZE \<Longrightarrow> \<forall>w\<in>set ws. length (snd w) = BSIZE \<Longrightarrow>
   \<forall>d\<in>set (apply_writes im ws). length d = BSIZE"
proof (induction im ws rule: apply_writes.induct)
  case (2 im k d ws)
  then have "\<forall>x\<in>set (im[k := d]). length x = BSIZE"
    by (auto dest!: set_update_subset_insert[THEN subsetD])
  with 2 show ?case by simp
qed simp

section \<open>What each log step writes\<close>

definition log_area :: "logst \<Rightarrow> nat set" where
  "log_area l = {l_start l..<l_start l + l_size l}"

text \<open>\<open>log_wf l len\<close>: the log lies on a disk of \<open>len\<close> blocks, and the header names distinct blocks outside it.\<close>

definition log_wf :: "logst \<Rightarrow> nat \<Rightarrow> bool" where
  "log_wf l len \<longleftrightarrow>
     l_dev l = ROOTDEV \<and> l_start l + l_size l \<le> len \<and> len \<le> 2 ^ 32 \<and>
     length (l_lh l) \<le> LOGSIZE \<and> length (l_lh l) < l_size l \<and> distinct (l_lh l) \<and>
     (\<forall>b\<in>set (l_lh l). b < len \<and> b \<notin> log_area l)"

lemma log_wf_block:
  assumes "log_wf l len" and "i < length (l_lh l)"
  shows "l_start l + i + 1 \<in> log_area l" "l_start l + i + 1 < len" "l_lh l ! i < len"
    "l_lh l ! i \<notin> log_area l" "l_lh l ! i \<noteq> l_start l + i + 1" "l_start l \<in> log_area l" "l_dev l = ROOTDEV"
    "l_start l + i + 1 \<noteq> l_start l"
  using assms nth_mem[of i "l_lh l"] by (fastforce simp: log_wf_def log_area_def)+

lemma write_one_ok:
  assumes inv: "bio_inv me s" and free: "held s = {}" and lh: "dirty s = set (l_lh l)"
    and wf: "log_wf l (length (img s))" and i: "i < length (l_lh l)" and small: "length (l_lh l) < NBUF"
    and a_def: "a = l_start l + i + 1" and c_def: "c = l_lh l ! i"
  shows "\<exists>s'. write_one me l i s = Inr s' \<and> bio_inv me s' \<and> held s' = {} \<and> dirty s' = dirty s \<and>
    view s' = (view s)(a := view s c) \<and> img s' = (img s)[a := view s c] \<and> hist s' = hist s @ [(a, view s c)]"
proof -
  note blk = log_wf_block[OF wf i, folded a_def c_def]
  have a: "a \<notin> dirty s" using wf blk(1) by (auto simp: lh log_wf_def)
  have c: "c \<in> dirty s" by (simp add: lh c_def i)
  have card: "card (held s \<union> dirty s) < NBUF"
    using small wf by (simp add: free lh log_wf_def distinct_card)
  have "a \<notin> held s" by (simp add: free)
  from bread_holds[OF inv this disjI2[OF card] blk(2)] obtain to_b s1 where
    1: "bread me ROOTDEV a s = Inr (to_b, s1)" "holds me s1 a to_b" "view s1 = view s"
    "held s1 = {a}" "dirty s1 = dirty s" "img s1 = img s" "hist s1 = hist s"
    by (auto simp: free)
  have "c \<notin> held s1" "c \<in> dirty s1" "c < length (img s1)" using 1 blk(3,5) c by auto
  from bread_holds[OF holds_inv[OF 1(2)] this(1) disjI1[OF this(2)] this(3)] obtain from_b s2 where
    2: "bread me ROOTDEV c s1 = Inr (from_b, s2)" "holds me s2 c from_b" "view s2 = view s"
    "held s2 = {a, c}" "dirty s2 = dirty s" "img s2 = img s" "hist s2 = hist s" "keeps s1 s2"
    by (auto simp: 1 insert_commute)
  have h2: "holds me s2 a to_b" using holds_keeps[OF 1(2) 2(8) holds_inv[OF 2(2)]] 2(4) by simp
  define d where "d = view s c"
  have d: "b_data (bcache s2 ! from_b) = d" using holds_data[OF 2(2)] by (simp add: d_def 2(3))
  have len: "length d = BSIZE"
    using 2(2) d cell_ok[of me s2 c from_b] by (auto simp: holds_def buf_ok_def)
  note sd = set_data_ok[OF h2 len]
  from bwrite_ok[OF sd(1)] obtain s4 where 4: "bwrite me to_b (set_data to_b d s2) = Inr s4" "holds me s4 a to_b"
    "view s4 = (view s)(a := d)" "held s4 = {a, c}" "dirty s4 = dirty s" "img s4 = (img s)[a := d]"
    "hist s4 = hist s @ [(a, d)]" "keeps (set_data to_b d s2) s4"
    using a by (auto simp: sd 2)
  have h3: "holds me (set_data to_b d s2) c from_b"
    using holds_keeps[OF 2(2) sd(5) holds_inv[OF sd(1)]] by (simp add: sd(3) 2(4))
  have h4: "holds me s4 c from_b"
    using holds_keeps[OF h3 4(8) holds_inv[OF 4(2)]] by (simp add: 4(4))
  have "c \<in> dirty s4 \<or> view s4 c = img s4 ! c" using c by (simp add: 4(5))
  from brelse_ok[OF h4 this] obtain s5 where 5: "brelse me from_b s4 = Inr s5" "bio_inv me s5"
    "view s5 = (view s)(a := d)" "held s5 = {a}" "dirty s5 = dirty s" "img s5 = (img s)[a := d]"
    "hist s5 = hist s @ [(a, d)]" "keeps s4 s5"
    using blk(5) by (auto simp: 4)
  have h5: "holds me s5 a to_b" using holds_keeps[OF 4(2) 5(8,2)] by (simp add: 5(4))
  have "a \<in> dirty s5 \<or> view s5 a = img s5 ! a" using blk(2) by (simp add: 5)
  from brelse_ok[OF h5 this] obtain s6 where 6: "brelse me to_b s5 = Inr s6" "bio_inv me s6"
    "view s6 = (view s)(a := d)" "held s6 = {}" "dirty s6 = dirty s" "img s6 = (img s)[a := d]"
    "hist s6 = hist s @ [(a, d)]"
    by (auto simp: 5)
  have "write_one me l i s = Inr s6"
    using 1(1) 2(1) 4(1) 5(1) 6(1) blk(7) d by (simp add: write_one_def a_def c_def)
  with 6 show ?thesis by (simp add: d_def)
qed

lemma install_one_ok:
  assumes inv: "bio_inv me s" and free: "held s = {}" and area: "dirty s \<inter> log_area l = {}"
    and wf: "log_wf l (length (img s))" and i: "i < length (l_lh l)"
    and small: "card (dirty s) < NBUF" "l_lh l ! i \<in> dirty s \<or> card (dirty s) + 1 < NBUF"
    and a_def: "a = l_start l + i + 1" and c_def: "c = l_lh l ! i"
  shows "\<exists>s'. install_one me l i s = Inr s' \<and> bio_inv me s' \<and> held s' = {} \<and> dirty s' = dirty s - {c} \<and>
    view s' = (view s)(c := view s a) \<and> img s' = (img s)[c := view s a] \<and> hist s' = hist s @ [(c, view s a)]"
proof -
  note blk = log_wf_block[OF wf i, folded a_def c_def]
  have a: "a \<notin> dirty s" using area blk(1) by blast
  have fin: "finite (dirty s)" using all_busy_iff(3)[OF inv] by simp
  have "a \<notin> held s" "card (held s \<union> dirty s) < NBUF" using small(1) by (simp_all add: free)
  from bread_holds[OF inv this(1) disjI2[OF this(2)] blk(2)] obtain lbuf s1 where
    1: "bread me ROOTDEV a s = Inr (lbuf, s1)" "holds me s1 a lbuf" "view s1 = view s"
    "held s1 = {a}" "dirty s1 = dirty s" "img s1 = img s" "hist s1 = hist s"
    by (auto simp: free)
  have "card (held s1 \<union> dirty s1) = card (dirty s) + 1" using a fin by (simp add: 1)
  then have "c \<notin> held s1" "c \<in> dirty s1 \<or> card (held s1 \<union> dirty s1) < NBUF" "c < length (img s1)"
    using 1 blk(3,5) small(2) by (auto simp: c_def)
  from bread_holds[OF holds_inv[OF 1(2)] this] obtain dbuf s2 where
    2: "bread me ROOTDEV c s1 = Inr (dbuf, s2)" "holds me s2 c dbuf" "view s2 = view s"
    "held s2 = {a, c}" "dirty s2 = dirty s" "img s2 = img s" "hist s2 = hist s" "keeps s1 s2"
    by (auto simp: 1 insert_commute)
  have h2: "holds me s2 a lbuf" using holds_keeps[OF 1(2) 2(8) holds_inv[OF 2(2)]] 2(4) by simp
  define d where "d = view s a"
  have d: "b_data (bcache s2 ! lbuf) = d" using holds_data[OF h2] by (simp add: d_def 2(3))
  have len: "length d = BSIZE"
    using h2 d cell_ok[of me s2 a lbuf] by (auto simp: holds_def buf_ok_def)
  have da: "d = img s ! a" using view_clean[OF inv _ a] by (simp add: free d_def)
  note sd = set_data_ok[OF 2(2) len]
  from bwrite_ok[OF sd(1)] obtain s4 where 4: "bwrite me dbuf (set_data dbuf d s2) = Inr s4" "holds me s4 c dbuf"
    "view s4 = (view s)(c := d)" "held s4 = {a, c}" "dirty s4 = dirty s - {c}" "img s4 = (img s)[c := d]"
    "hist s4 = hist s @ [(c, d)]" "keeps (set_data dbuf d s2) s4"
    by (auto simp: sd 2)
  have h3: "holds me (set_data dbuf d s2) a lbuf"
    using holds_keeps[OF h2 sd(5) holds_inv[OF sd(1)]] by (simp add: sd(3) 2(4))
  have h4: "holds me s4 a lbuf"
    using holds_keeps[OF h3 4(8) holds_inv[OF 4(2)]] by (simp add: 4(4))
  have "a \<in> dirty s4 \<or> view s4 a = img s4 ! a" using blk(5) da by (simp add: 4 d_def)
  from brelse_ok[OF h4 this] obtain s5 where 5: "brelse me lbuf s4 = Inr s5" "bio_inv me s5"
    "view s5 = (view s)(c := d)" "held s5 = {c}" "dirty s5 = dirty s - {c}" "img s5 = (img s)[c := d]"
    "hist s5 = hist s @ [(c, d)]" "keeps s4 s5"
    using blk(5) by (auto simp: 4)
  have h5: "holds me s5 c dbuf" using holds_keeps[OF 4(2) 5(8,2)] by (simp add: 5(4))
  have "c \<in> dirty s5 \<or> view s5 c = img s5 ! c" using blk(3) by (simp add: 5)
  from brelse_ok[OF h5 this] obtain s6 where 6: "brelse me dbuf s5 = Inr s6" "bio_inv me s6"
    "view s6 = (view s)(c := d)" "held s6 = {}" "dirty s6 = dirty s - {c}" "img s6 = (img s)[c := d]"
    "hist s6 = hist s @ [(c, d)]"
    by (auto simp: 5)
  have "install_one me l i s = Inr s6"
    using 1(1) 2(1) 4(1) 5(1) 6(1) blk(7) d by (simp add: install_one_def a_def c_def)
  with 6 show ?thesis by (simp add: d_def)
qed

lemma write_head_ok:
  assumes inv: "bio_inv me (bio s)" and free: "held (bio s) = {}" and start: "l_start (log s) \<notin> dirty (bio s)"
    and wf: "log_wf (log s) (length (img (bio s)))" and small: "card (dirty (bio s)) < NBUF"
    and a_def: "a = l_start (log s)" and d_def: "d = put_head (view (bio s) a) (l_lh (log s))"
  shows "\<exists>b. write_head me s = Inr (s\<lparr>bio := b\<rparr>) \<and> bio_inv me b \<and> held b = {} \<and> dirty b = dirty (bio s) \<and>
    view b = (view (bio s))(a := d) \<and> img b = (img (bio s))[a := d] \<and> hist b = hist (bio s) @ [(a, d)]"
proof -
  have rng: "a < length (img (bio s))" and dev: "l_dev (log s) = ROOTDEV"
    using wf by (auto simp: log_wf_def a_def)
  have "a \<notin> held (bio s)" "card (held (bio s) \<union> dirty (bio s)) < NBUF" using small by (simp_all add: free)
  from bread_holds[OF inv this(1) disjI2[OF this(2)] rng] obtain buf s1 where
    1: "bread me ROOTDEV a (bio s) = Inr (buf, s1)" "holds me s1 a buf" "view s1 = view (bio s)"
    "held s1 = {a}" "dirty s1 = dirty (bio s)" "img s1 = img (bio s)" "hist s1 = hist (bio s)"
    by (auto simp: free)
  have "length (view (bio s) a) = BSIZE"
    using 1(2) cell_ok[of me s1 a buf] holds_data[OF 1(2)] by (auto simp: holds_def buf_ok_def 1(3))
  then have len: "length d = BSIZE" by (simp add: d_def put_head_def)
  note sd = set_data_ok[OF 1(2) len]
  from bwrite_ok[OF sd(1)] obtain s2 where 2: "bwrite me buf (set_data buf d s1) = Inr s2" "holds me s2 a buf"
    "view s2 = (view (bio s))(a := d)" "held s2 = {a}" "dirty s2 = dirty (bio s)" "img s2 = (img (bio s))[a := d]"
    "hist s2 = hist (bio s) @ [(a, d)]"
    using start by (auto simp: sd 1 a_def)
  have "a \<in> dirty s2 \<or> view s2 a = img s2 ! a" using rng by (simp add: 2)
  from brelse_ok[OF 2(2) this] obtain s3 where 3: "brelse me buf s2 = Inr s3" "bio_inv me s3"
    "view s3 = (view (bio s))(a := d)" "held s3 = {}" "dirty s3 = dirty (bio s)" "img s3 = (img (bio s))[a := d]"
    "hist s3 = hist (bio s) @ [(a, d)]"
    by (auto simp: 2)
  have "b_data (bcache s1 ! buf) = view (bio s) a" using holds_data[OF 1(2)] by (simp add: 1)
  then have "write_head me s = Inr (s\<lparr>bio := s3\<rparr>)"
    using 1(1) 2(1) 3(1) dev by (simp add: write_head_def a_def d_def)
  with 3 show ?thesis by blast
qed

text \<open>The writes of the two copying loops.\<close>

definition log_copies :: "logst \<Rightarrow> (nat \<Rightarrow> block) \<Rightarrow> nat \<Rightarrow> dwrite list" where
  "log_copies l v k = map (\<lambda>i. (l_start l + i + 1, v (l_lh l ! i))) [0..<k]"

definition installs :: "logst \<Rightarrow> (nat \<Rightarrow> block) \<Rightarrow> nat \<Rightarrow> dwrite list" where
  "installs l v k = map (\<lambda>i. (l_lh l ! i, v (l_start l + i + 1))) [0..<k]"

lemma log_copies_Suc: "log_copies l v (Suc k) = log_copies l v k @ [(l_start l + k + 1, v (l_lh l ! k))]"
  by (simp add: log_copies_def)

lemma installs_Suc: "installs l v (Suc k) = installs l v k @ [(l_lh l ! k, v (l_start l + k + 1))]"
  by (simp add: installs_def)

lemma fst_log_copies: "log_wf l len \<Longrightarrow> k \<le> length (l_lh l) \<Longrightarrow> fst ` set (log_copies l v k) \<subseteq> log_area l - {l_start l}"
  by (auto simp: log_copies_def log_wf_def log_area_def)

lemma fst_installs: "k \<le> length (l_lh l) \<Longrightarrow> fst ` set (installs l v k) = set (take k (l_lh l))"
  by (force simp: installs_def in_set_conv_nth image_iff)

lemma write_log_loop:
  assumes inv: "bio_inv me s" and free: "held s = {}" and lh: "dirty s = set (l_lh l)"
    and wf: "log_wf l (length (img s))" and small: "length (l_lh l) < NBUF" and k: "k \<le> length (l_lh l)"
    and ws: "ws = log_copies l (view s) k"
  shows "\<exists>t. foldE (write_one me l) [0..<k] s = Inr t \<and> bio_inv me t \<and> held t = {} \<and> dirty t = dirty s \<and>
    view t = vapply (view s) ws \<and> img t = apply_writes (img s) ws \<and> hist t = hist s @ ws"
  using k ws
proof (induction k arbitrary: ws)
  case 0
  with inv free show ?case by (simp add: log_copies_def)
next
  case (Suc k)
  let ?ws = "log_copies l (view s) k"
  from Suc.IH[OF Suc_leD[OF Suc.prems(1)] refl] obtain t where
    t: "foldE (write_one me l) [0..<k] s = Inr t" "bio_inv me t" "held t = {}" "dirty t = dirty s"
    "view t = vapply (view s) ?ws" "img t = apply_writes (img s) ?ws" "hist t = hist s @ ?ws"
    by blast
  have i: "k < length (l_lh l)" using Suc.prems by simp
  have c: "l_lh l ! k \<notin> fst ` set ?ws"
    using fst_log_copies[OF wf, of k "view s"] log_wf_block(4)[OF wf i] i by auto
  have wf': "log_wf l (length (img t))" using wf by (simp add: t(6))
  from write_one_ok[OF t(2,3) _ wf' i small refl refl] lh t(4) obtain u where
    u: "write_one me l k t = Inr u" "bio_inv me u" "held u = {}" "dirty u = dirty t"
    "view u = (view t)(l_start l + k + 1 := view t (l_lh l ! k))"
    "img u = (img t)[l_start l + k + 1 := view t (l_lh l ! k)]"
    "hist u = hist t @ [(l_start l + k + 1, view t (l_lh l ! k))]"
    by auto
  have same: "view t (l_lh l ! k) = view s (l_lh l ! k)" by (simp add: t(5) vapply_other[OF c])
  have "foldE (write_one me l) [0..<Suc k] s = Inr u" by (simp add: foldE_append t(1) u(1))
  moreover have "view u = vapply (view s) ws"
    unfolding u(5) same unfolding t(5) Suc.prems(2) log_copies_Suc vapply_append vapply_single ..
  moreover have "img u = apply_writes (img s) ws" "hist u = hist s @ ws"
    unfolding u(6,7) same by (simp_all add: Suc.prems(2) log_copies_Suc t)
  ultimately show ?case using u(2-4) t(4) by simp
qed

lemma install_loop:
  assumes inv: "bio_inv me s" and free: "held s = {}" and area: "dirty s \<inter> log_area l = {}"
    and wf: "log_wf l (length (img s))" and small: "card (dirty s) < NBUF"
    and room: "set (l_lh l) \<subseteq> dirty s \<or> card (dirty s) + 1 < NBUF" and k: "k \<le> length (l_lh l)"
    and ws: "ws = installs l (view s) k"
  shows "\<exists>t. foldE (install_one me l) [0..<k] s = Inr t \<and> bio_inv me t \<and> held t = {} \<and>
    dirty t = dirty s - set (take k (l_lh l)) \<and>
    view t = vapply (view s) ws \<and> img t = apply_writes (img s) ws \<and> hist t = hist s @ ws"
  using k ws
proof (induction k arbitrary: ws)
  case 0
  with inv free show ?case by (simp add: installs_def)
next
  case (Suc k)
  let ?ws = "installs l (view s) k"
  from Suc.IH[OF Suc_leD[OF Suc.prems(1)] refl] obtain t where
    t: "foldE (install_one me l) [0..<k] s = Inr t" "bio_inv me t" "held t = {}"
    "dirty t = dirty s - set (take k (l_lh l))"
    "view t = vapply (view s) ?ws" "img t = apply_writes (img s) ?ws" "hist t = hist s @ ?ws"
    by blast
  have i: "k < length (l_lh l)" using Suc.prems by simp
  have a: "l_start l + k + 1 \<notin> fst ` set ?ws"
    using log_wf_block(1)[OF wf i] wf i by (auto simp: fst_installs log_wf_def dest: in_set_takeD)
  have wf': "log_wf l (length (img t))" using wf by (simp add: t(6))
  have fin: "finite (dirty s)" using all_busy_iff(3)[OF inv] by simp
  have card: "card (dirty t) \<le> card (dirty s)" unfolding t(4) by (rule card_mono[OF fin]) blast
  have fresh: "l_lh l ! k \<notin> set (take k (l_lh l))"
    using wf i by (auto simp: log_wf_def in_set_conv_nth nth_eq_iff_index_eq)
  have "l_lh l ! k \<in> dirty t \<or> card (dirty t) + 1 < NBUF"
    using room card fresh nth_mem[OF i] unfolding t(4) by auto
  moreover have "dirty t \<inter> log_area l = {}" using area by (auto simp: t(4))
  ultimately obtain u where
    u: "install_one me l k t = Inr u" "bio_inv me u" "held u = {}" "dirty u = dirty t - {l_lh l ! k}"
    "view u = (view t)(l_lh l ! k := view t (l_start l + k + 1))"
    "img u = (img t)[l_lh l ! k := view t (l_start l + k + 1)]"
    "hist u = hist t @ [(l_lh l ! k, view t (l_start l + k + 1))]"
    using install_one_ok[OF t(2,3) _ wf' i _ _ refl refl] card small by auto
  have same: "view t (l_start l + k + 1) = view s (l_start l + k + 1)" by (simp only: t(5) vapply_other[OF a])
  have "foldE (install_one me l) [0..<Suc k] s = Inr u" by (simp add: foldE_append t(1) u(1))
  moreover have "dirty u = dirty s - set (take (Suc k) (l_lh l))"
    using i by (auto simp: u(4) t(4) take_Suc_conv_app_nth)
  moreover have "view u = vapply (view s) ws"
    unfolding u(5) same unfolding t(5) Suc.prems(2) installs_Suc vapply_append vapply_single ..
  moreover have "img u = apply_writes (img s) ws" "hist u = hist s @ ws"
    unfolding u(6,7) same by (simp_all add: Suc.prems(2) installs_Suc t)
  ultimately show ?case using u(2,3) by blast
qed

section \<open>Commit\<close>

text \<open>
  \<open>trans_ok me s\<close>: a transaction is ready to commit. Nothing is locked, the dirty buffers are the
  blocks of the header, there is a buffer left, and the header on disk is empty.
\<close>

definition trans_ok :: "nat \<Rightarrow> sto \<Rightarrow> bool" where
  "trans_ok me s \<longleftrightarrow>
     bio_inv me (bio s) \<and> held (bio s) = {} \<and> dirty (bio s) = set (l_lh (log s)) \<and>
     log_wf (log s) (length (img (bio s))) \<and> length (l_lh (log s)) < NBUF \<and>
     head_n (img (bio s) ! l_start (log s)) = 0"

definition commit_head :: "logst \<Rightarrow> (nat \<Rightarrow> block) \<Rightarrow> block" where
  "commit_head l v = put_head (v (l_start l)) (l_lh l)"

definition commit_writes :: "logst \<Rightarrow> (nat \<Rightarrow> block) \<Rightarrow> dwrite list" where
  "commit_writes l v =
     log_copies l v (length (l_lh l)) @ [(l_start l, commit_head l v)] @
     map (\<lambda>b. (b, v b)) (l_lh l) @ [(l_start l, put_head (commit_head l v) [])]"

lemma distinct_log_copies: "distinct (map fst (log_copies l v k))"
  by (simp add: log_copies_def distinct_map comp_def inj_on_def)

lemma log_copy_value:
  "i < k \<Longrightarrow> vapply w (log_copies l v k) (l_start l + i + 1) = v (l_lh l ! i)"
  by (rule vapply_in[OF distinct_log_copies]) (auto simp: log_copies_def)

lemma commit_ok:
  assumes ok: "trans_ok me s" and ne: "l_lh (log s) \<noteq> []"
  shows "\<exists>b. commit me s = Inr \<lparr>bio = b, log = (log s)\<lparr>l_lh := []\<rparr>\<rparr> \<and> bio_inv me b \<and> held b = {} \<and> dirty b = {} \<and>
    view b = vapply (view (bio s)) (commit_writes (log s) (view (bio s))) \<and>
    img b = apply_writes (img (bio s)) (commit_writes (log s) (view (bio s))) \<and>
    hist b = hist (bio s) @ commit_writes (log s) (view (bio s))"
proof -
  define l v n where "l = log s" and "v = view (bio s)" and "n = length (l_lh l)"
  have inv: "bio_inv me (bio s)" "held (bio s) = {}" "dirty (bio s) = set (l_lh l)"
    and wf: "log_wf l (length (img (bio s)))" and small: "n < NBUF"
    using ok by (simp_all add: trans_ok_def l_def n_def)
  have card: "card (set (l_lh l)) < NBUF" using wf small by (simp add: log_wf_def distinct_card n_def)
  have area: "set (l_lh l) \<inter> log_area l = {}" "l_start l \<in> log_area l" "l_start l \<notin> set (l_lh l)"
    using wf by (auto simp: log_wf_def log_area_def)
  let ?A = "log_copies l v n" and ?C = "map (\<lambda>b. (b, v b)) (l_lh l)" and ?h = "commit_head l v"
  obtain b1 where 1: "foldE (write_one me l) [0..<n] (bio s) = Inr b1" "bio_inv me b1" "held b1 = {}"
    "dirty b1 = set (l_lh l)" "view b1 = vapply v ?A" "img b1 = apply_writes (img (bio s)) ?A" "hist b1 = hist (bio s) @ ?A"
    using write_log_loop[OF inv wf, of n] small by (auto simp: n_def v_def inv(3))
  have "l_start l \<notin> fst ` set ?A"
    using fst_log_copies[OF wf, of n v] by (auto simp: n_def)
  then have v1: "view b1 (l_start l) = v (l_start l)"
    by (simp add: 1(5) vapply_other)
  have "\<exists>b. write_head me (s\<lparr>bio := b1\<rparr>) = Inr (s\<lparr>bio := b1\<rparr>\<lparr>bio := b\<rparr>) \<and> bio_inv me b \<and> held b = {} \<and>
      dirty b = dirty b1 \<and> view b = (view b1)(l_start l := ?h) \<and> img b = (img b1)[l_start l := ?h] \<and>
      hist b = hist b1 @ [(l_start l, ?h)]"
    using write_head_ok[of me "s\<lparr>bio := b1\<rparr>", OF _ _ _ _ _ refl refl] 1(2,3,4,6) v1 wf card area(3)
    by (simp add: commit_head_def l_def)
  then obtain b2 where 2: "write_head me (s\<lparr>bio := b1\<rparr>) = Inr (s\<lparr>bio := b2\<rparr>)" "bio_inv me b2" "held b2 = {}"
    "dirty b2 = set (l_lh l)" "view b2 = vapply v (?A @ [(l_start l, ?h)])"
    "img b2 = apply_writes (img (bio s)) (?A @ [(l_start l, ?h)])" "hist b2 = hist (bio s) @ ?A @ [(l_start l, ?h)]"
    by (auto simp: 1)
  have "view b2 (l_start l + i + 1) = v (l_lh l ! i)" if "i < n" for i
    using log_copy_value[OF that, of v l v] by (simp add: 2(5))
  then have inst: "installs l (view b2) n = ?C"
    by (intro nth_equalityI) (simp_all add: installs_def n_def)
  obtain b3 where 3: "foldE (install_one me l) [0..<n] b2 = Inr b3" "bio_inv me b3" "held b3 = {}"
    "dirty b3 = {}" "view b3 = vapply (view b2) ?C" "img b3 = apply_writes (img b2) ?C" "hist b3 = hist b2 @ ?C"
    using install_loop[OF 2(2,3) _ _ _ _ _ inst[symmetric]] 2(4,6) area(1) wf card by (auto simp: n_def)
  have v3: "view b3 (l_start l) = ?h"
    using area(3) by (simp add: 3(5) 2(5) vapply_other image_image)
  let ?s = "upd_log (\<lambda>l. l\<lparr>l_lh := []\<rparr>) (s\<lparr>bio := b3\<rparr>)"
  have wf0: "log_wf (log ?s) (length (img (bio ?s)))"
    using wf by (auto simp: upd_log_def log_wf_def l_def 3(6) 2(6))
  have NB: "0 < NBUF" using small by simp
  have "\<exists>b. write_head me ?s = Inr (?s\<lparr>bio := b\<rparr>) \<and> bio_inv me b \<and> held b = {} \<and> dirty b = {} \<and>
      view b = (view b3)(l_start l := put_head ?h []) \<and> img b = (img b3)[l_start l := put_head ?h []] \<and>
      hist b = hist b3 @ [(l_start l, put_head ?h [])]"
    using write_head_ok[of me ?s, OF _ _ _ wf0 _ refl refl] 3(2-4) v3 NB by (simp add: upd_log_def l_def)
  then obtain b4 where 4: "write_head me ?s = Inr (?s\<lparr>bio := b4\<rparr>)" "bio_inv me b4" "held b4 = {}" "dirty b4 = {}"
    "view b4 = (view b3)(l_start l := put_head ?h [])" "img b4 = (img b3)[l_start l := put_head ?h []]"
    "hist b4 = hist b3 @ [(l_start l, put_head ?h [])]"
    by blast
  have 5: "view b4 = vapply v (commit_writes l v)"
    unfolding 4(5) 3(5) 2(5) commit_writes_def n_def[symmetric] vapply_append vapply_single ..
  have 6: "img b4 = apply_writes (img (bio s)) (commit_writes l v)" "hist b4 = hist (bio s) @ commit_writes l v"
    unfolding commit_writes_def n_def[symmetric] by (simp_all add: 4(6,7) 3(6,7) 2(6,7))
  have "commit me s = Inr \<lparr>bio = b4, log = (log s)\<lparr>l_lh := []\<rparr>\<rparr>"
    using ne 1(1) 2(1) 3(1) 4(1)
    by (simp add: commit_def write_log_def install_trans_def on_bio_def l_def n_def upd_log_def)
  with 4(2-4) 5 6 show ?thesis unfolding l_def v_def by blast
qed

section \<open>Recovery\<close>

text \<open>
  \<open>head_ok l im\<close>: the log header on the disk \<open>im\<close> is well formed. \<open>with_head l im\<close> is the log with
  the header read from the disk, and \<open>rec_writes l im\<close> the writes of a recovery.
\<close>

definition with_head :: "logst \<Rightarrow> block list \<Rightarrow> logst" where
  "with_head l im = l\<lparr>l_lh := head_blocks (im ! l_start l)\<rparr>"

definition head_ok :: "logst \<Rightarrow> block list \<Rightarrow> bool" where
  "head_ok l im \<longleftrightarrow> (\<forall>d\<in>set im. length d = BSIZE) \<and> head_n (im ! l_start l) \<le> int LOGSIZE \<and>
     log_wf (with_head l im) (length im)"

definition rec_installs :: "logst \<Rightarrow> block list \<Rightarrow> dwrite list" where
  "rec_installs l im = installs (with_head l im) (\<lambda>b. im ! b) (length (head_blocks (im ! l_start l)))"

definition rec_writes :: "logst \<Rightarrow> block list \<Rightarrow> dwrite list" where
  "rec_writes l im = rec_installs l im @ [(l_start l, put_head (im ! l_start l) [])]"

text \<open>The state in which the kernel finds itself after a crash that left \<open>im\<close> on the disk.\<close>

definition reboot :: "logst \<Rightarrow> block list \<Rightarrow> sto" where
  "reboot l im = \<lparr>bio = boot im, log = l\<lparr>l_lh := [], l_outstanding := 0, l_committing := False\<rparr>\<rparr>"

lemma with_head_simps [simp]:
  "l_start (with_head l im) = l_start l" "l_size (with_head l im) = l_size l"
  "l_dev (with_head l im) = l_dev l" "l_lh (with_head l im) = head_blocks (im ! l_start l)"
  by (simp_all add: with_head_def)

lemma log_area_with_head [simp]: "log_area (with_head l im) = log_area l"
  by (simp add: log_area_def)

lemma read_head_ok:
  assumes ok: "head_ok l im"
  shows "\<exists>b. read_head me (reboot l im) =
      Inr \<lparr>bio = b, log = (with_head l im)\<lparr>l_outstanding := 0, l_committing := False\<rparr>\<rparr> \<and>
    bio_inv me b \<and> held b = {} \<and> dirty b = {} \<and> view b = (\<lambda>b. im ! b) \<and> img b = im \<and> hist b = []"
proof -
  define a where "a = l_start l"
  have im: "\<forall>d\<in>set im. length d = BSIZE" and n: "head_n (im ! a) \<le> int LOGSIZE"
    and a: "a < length im" and dev: "l_dev l = ROOTDEV"
    using ok by (auto simp: head_ok_def log_wf_def a_def)
  note bt = boot_ok[OF im]
  have "a \<notin> held (boot im)" "card (held (boot im) \<union> dirty (boot im)) < NBUF" "a < length (img (boot im))"
    using a by (simp_all add: bt NBUF_def)
  from bread_holds[OF boot_ok(1)[OF im, of me] this(1) disjI2[OF this(2)] this(3)] obtain buf s1 where
    1: "bread me ROOTDEV a (boot im) = Inr (buf, s1)" "holds me s1 a buf" "view s1 = (\<lambda>b. im ! b)"
    "held s1 = {a}" "dirty s1 = {}" "img s1 = im" "hist s1 = []"
    by (auto simp: bt)
  have "a \<in> dirty s1 \<or> view s1 a = img s1 ! a" by (simp add: 1)
  from brelse_ok[OF 1(2) this] obtain s2 where 2: "brelse me buf s1 = Inr s2" "bio_inv me s2"
    "view s2 = (\<lambda>b. im ! b)" "held s2 = {}" "dirty s2 = {}" "img s2 = im" "hist s2 = []"
    by (auto simp: 1)
  have "b_data (bcache s1 ! buf) = im ! a" using holds_data[OF 1(2)] by (simp add: 1)
  then have "read_head me (reboot l im) =
      Inr \<lparr>bio = s2, log = (with_head l im)\<lparr>l_outstanding := 0, l_committing := False\<rparr>\<rparr>"
    using 1(1) 2(1) dev n by (simp add: read_head_def reboot_def upd_log_def with_head_def a_def)
  with 2 show ?thesis by blast
qed

lemma recover_ok:
  assumes ok: "head_ok l im"
  shows "\<exists>t. recover_from_log me (reboot l im) = Inr t \<and> bio_inv me (bio t) \<and> held (bio t) = {} \<and> dirty (bio t) = {} \<and>
    view (bio t) = vapply (\<lambda>b. im ! b) (rec_writes l im) \<and> img (bio t) = apply_writes im (rec_writes l im) \<and>
    hist (bio t) = rec_writes l im \<and> l_lh (log t) = []"
proof -
  define m where "m = (with_head l im)\<lparr>l_outstanding := 0, l_committing := False\<rparr>"
  have lh: "l_lh m = head_blocks (im ! l_start l)" "l_start m = l_start l" "l_dev m = l_dev l" "l_size m = l_size l"
    by (simp_all add: m_def)
  have wf: "log_wf m (length im)" using ok by (simp add: head_ok_def log_wf_def lh log_area_def)
  obtain b1 where 1: "read_head me (reboot l im) = Inr \<lparr>bio = b1, log = m\<rparr>" "bio_inv me b1" "held b1 = {}"
    "dirty b1 = {}" "view b1 = (\<lambda>b. im ! b)" "img b1 = im" "hist b1 = []"
    using read_head_ok[OF ok, of me] unfolding m_def by blast
  have area: "l_start m \<in> log_area m" "l_start m \<notin> set (l_lh m)"
    using wf by (auto simp: log_wf_def log_area_def)
  have inst: "installs m (view b1) (length (l_lh m)) = rec_installs l im"
    by (simp add: rec_installs_def installs_def lh 1(5))
  obtain b2 where 2: "foldE (install_one me m) [0..<length (l_lh m)] b1 = Inr b2" "bio_inv me b2" "held b2 = {}"
    "dirty b2 = {}" "view b2 = vapply (\<lambda>b. im ! b) (rec_installs l im)" "img b2 = apply_writes im (rec_installs l im)"
    "hist b2 = rec_installs l im"
    using install_loop[OF 1(2,3) _ _ _ _ order_refl inst[symmetric]] wf by (auto simp: 1 NBUF_def)
  have "fst ` set (installs m (view b1) (length (l_lh m))) = set (l_lh m)"
    by (simp add: fst_installs)
  then have "l_start l \<notin> fst ` set (rec_installs l im)"
    using area(2) unfolding inst lh(2) by simp
  then have v2: "view b2 (l_start l) = im ! l_start l" by (simp add: 2(5) vapply_other)
  let ?s = "\<lparr>bio = b2, log = m\<lparr>l_lh := []\<rparr>\<rparr>" and ?h = "put_head (im ! l_start l) []"
  have wf0: "log_wf (log ?s) (length (img (bio ?s)))"
    using wf by (auto simp: log_wf_def 2(6) log_area_def)
  have "\<exists>b. write_head me ?s = Inr (?s\<lparr>bio := b\<rparr>) \<and> bio_inv me b \<and> held b = {} \<and> dirty b = {} \<and>
      view b = (view b2)(l_start l := ?h) \<and> img b = (img b2)[l_start l := ?h] \<and> hist b = hist b2 @ [(l_start l, ?h)]"
    using write_head_ok[of me ?s, OF _ _ _ wf0 _ refl refl] 2(2-4) v2 by (simp add: lh NBUF_def)
  then obtain b3 where 3: "write_head me ?s = Inr (?s\<lparr>bio := b3\<rparr>)" "bio_inv me b3" "held b3 = {}" "dirty b3 = {}"
    "view b3 = (view b2)(l_start l := ?h)" "img b3 = (img b2)[l_start l := ?h]" "hist b3 = hist b2 @ [(l_start l, ?h)]"
    by blast
  have "recover_from_log me (reboot l im) = Inr (?s\<lparr>bio := b3\<rparr>)"
    using 2(1) 3(1) by (simp add: recover_from_log_def 1(1) install_trans_def on_bio_def upd_log_def)
  moreover have "view b3 = vapply (\<lambda>b. im ! b) (rec_writes l im)"
    unfolding 3(5) 2(5) rec_writes_def vapply_append vapply_single ..
  ultimately show ?thesis
    using 3(2-4,6,7) 2(6,7) by (auto simp: rec_writes_def)
qed

text \<open>What a recovery leaves outside the log area.\<close>

definition recovered :: "logst \<Rightarrow> block list \<Rightarrow> nat \<Rightarrow> block" where
  "recovered l im bn = vapply (\<lambda>b. im ! b) (rec_installs l im) bn"

lemma recover_view:
  assumes "head_ok l im" and "recover_from_log me (reboot l im) = Inr t" and "bn \<notin> log_area l"
  shows "view (bio t) bn = recovered l im bn"
proof -
  have "bn \<noteq> l_start l" using assms(1,3) by (auto simp: head_ok_def log_wf_def log_area_def)
  then show ?thesis
    using recover_ok[OF assms(1), of me] assms(2) by (auto simp: rec_writes_def recovered_def)
qed

lemma rec_installs_empty: "head_n (im ! l_start l) \<le> 0 \<Longrightarrow> rec_installs l im = []"
  by (simp add: rec_installs_def installs_def head_blocks_def)

lemma head_ok_empty:
  assumes "\<forall>d\<in>set im. length d = BSIZE" and "head_n (im ! l_start l) \<le> 0" and "log_wf l (length im)"
  shows "head_ok l im"
  using assms by (auto simp: head_ok_def log_wf_def with_head_def head_blocks_def log_area_def)

section \<open>Crash safety\<close>

text \<open>The disk after a crash that cut the commit off after \<open>k\<close> block writes.\<close>

definition crash_disk :: "sto \<Rightarrow> nat \<Rightarrow> block list" where
  "crash_disk s k = apply_writes (img (bio s)) (take k (commit_writes (log s) (view (bio s))))"

lemma commit_writes_lengths:
  assumes "trans_ok me s"
  shows "\<forall>w\<in>set (commit_writes (log s) (view (bio s))). length (snd w) = BSIZE"
proof -
  have inv: "bio_inv me (bio s)" and wf: "log_wf (log s) (length (img (bio s)))"
    using assms by (simp_all add: trans_ok_def)
  have len: "length (view (bio s) b) = BSIZE" if "b < length (img (bio s))" for b
  proof (cases "\<exists>i. cell (bio s) b i")
    case True
    then obtain i where "cell (bio s) b i" ..
    then show ?thesis using view_cached[OF inv] cell_ok[OF inv] by (auto simp: buf_ok_def)
  next
    case False
    then show ?thesis using view_uncached[OF inv False] inv that by (simp add: bio_inv_def)
  qed
  have "length (put_head d bs) = length d" for d bs by (simp add: put_head_def)
  moreover have "l_start (log s) < length (img (bio s))" using wf by (auto simp: log_wf_def)
  ultimately show ?thesis
    using len wf by (auto simp: commit_writes_def commit_head_def log_copies_def log_wf_def)
qed

lemma trans_view: "trans_ok me s \<Longrightarrow> bn \<notin> set (l_lh (log s)) \<Longrightarrow> view (bio s) bn = img (bio s) ! bn"
  by (rule view_clean[of me]) (simp_all add: trans_ok_def)

text \<open>Before the header is written: the old contents.\<close>

lemma crash_before_head:
  assumes ok: "trans_ok me s" and k: "k \<le> length (l_lh (log s))"
  shows "head_ok (log s) (crash_disk s k)"
    and "bn < length (img (bio s)) \<Longrightarrow> bn \<notin> log_area (log s) \<Longrightarrow> recovered (log s) (crash_disk s k) bn = img (bio s) ! bn"
proof -
  define l v where "l = log s" and "v = view (bio s)"
  have wf: "log_wf l (length (img (bio s)))" and n0: "head_n (img (bio s) ! l_start l) = 0"
    and im: "\<forall>d\<in>set (img (bio s)). length d = BSIZE"
    using ok by (simp_all add: trans_ok_def l_def bio_inv_def)
  have len: "length (log_copies l v (length (l_lh l))) = length (l_lh l)" by (simp add: log_copies_def)
  have tk: "take k (commit_writes l v) = take k (log_copies l v (length (l_lh l)))"
    using k[folded l_def] by (simp add: commit_writes_def len)
  have sub: "fst ` set (take k (commit_writes l v)) \<subseteq> log_area l - {l_start l}"
    using fst_log_copies[OF wf, of "length (l_lh l)" v] set_take_subset[of k "log_copies l v (length (l_lh l))"]
    unfolding tk by blast
  have cd: "crash_disk s k = apply_writes (img (bio s)) (take k (commit_writes l v))"
    by (simp add: crash_disk_def l_def v_def)
  have same: "crash_disk s k ! b = img (bio s) ! b" if "b < length (img (bio s))" "b \<notin> log_area l - {l_start l}" for b
  proof -
    have "b \<notin> fst ` set (take k (commit_writes l v))" using sub that(2) by blast
    with that(1) show ?thesis unfolding cd by (simp add: nth_apply_writes vapply_other)
  qed
  have start: "l_start l < length (img (bio s))" using wf by (auto simp: log_wf_def)
  then have h: "head_n (crash_disk s k ! l_start l) \<le> 0" using same[OF start] n0 by simp
  have lens: "\<forall>d\<in>set (crash_disk s k). length d = BSIZE"
    unfolding cd using commit_writes_lengths[OF ok]
    by (intro apply_writes_lengths[OF im]) (auto simp: l_def v_def dest: in_set_takeD)
  show "head_ok (log s) (crash_disk s k)"
    using head_ok_empty[OF lens, of l] h wf by (simp add: l_def cd)
  assume "bn < length (img (bio s))" "bn \<notin> log_area (log s)"
  then show "recovered (log s) (crash_disk s k) bn = img (bio s) ! bn"
    using same[of bn] rec_installs_empty[of "crash_disk s k" l] h by (simp add: recovered_def l_def)
qed

text \<open>After it: the new contents, whether none, some or all blocks have been installed.\<close>

lemma crash_after_head:
  assumes ok: "trans_ok me s" and ne: "l_lh (log s) \<noteq> []"
    and k: "length (l_lh (log s)) < k" "k \<le> 2 * length (l_lh (log s)) + 1"
  shows "head_ok (log s) (crash_disk s k)"
    and "bn < length (img (bio s)) \<Longrightarrow> bn \<notin> log_area (log s) \<Longrightarrow> recovered (log s) (crash_disk s k) bn = view (bio s) bn"
proof -
  define l v n where "l = log s" and "v = view (bio s)" and "n = length (l_lh l)"
  define im where "im = crash_disk s k"
  have wf: "log_wf l (length (img (bio s)))" using ok by (simp add: trans_ok_def l_def)
  let ?A = "log_copies l v n" and ?C = "map (\<lambda>b. (b, v b)) (l_lh l)" and ?h = "commit_head l v"
  have lens: "length ?A = n" "length ?C = n" by (simp_all add: log_copies_def n_def)
  have tk: "take k (commit_writes l v) = ?A @ [(l_start l, ?h)] @ take (k - n - 1) ?C"
    using k lens by (simp add: commit_writes_def n_def l_def take_Cons')
  have area: "set (l_lh l) \<inter> log_area l = {}" "l_start l \<in> log_area l" "\<forall>b\<in>set (l_lh l). b < length (img (bio s))"
    "l_start l < length (img (bio s))"
    using wf by (auto simp: log_wf_def log_area_def)
  have C: "fst ` set (take j ?C) \<subseteq> set (l_lh l)" for j
    by (auto dest!: in_set_takeD)
  have nth: "im ! b = vapply (\<lambda>b. img (bio s) ! b) (?A @ [(l_start l, ?h)] @ take (k - n - 1) ?C) b"
    if "b < length (img (bio s))" for b
    unfolding im_def crash_disk_def l_def[symmetric] v_def[symmetric] tk by (rule nth_apply_writes[OF that])
  have "l_start l \<notin> fst ` set (take (k - n - 1) ?C)" using C area(1,2) by blast
  then have "im ! l_start l = ?h"
    using nth[OF area(4)] unfolding vapply_append vapply_single by (simp add: vapply_other)
  moreover have "length (v (l_start l)) = BSIZE"
    using commit_writes_lengths[OF ok] by (auto simp: commit_writes_def commit_head_def l_def v_def put_head_def)
  moreover have "\<forall>b\<in>set (l_lh l). b < 2 ^ 32" "length (l_lh l) \<le> LOGSIZE"
    using wf unfolding log_wf_def by (meson less_le_trans)+
  ultimately have head: "head_n (im ! l_start l) = int n" "head_blocks (im ! l_start l) = l_lh l"
    using head_put_head[of "v (l_start l)" "l_lh l"] by (simp_all add: commit_head_def n_def)
  have len: "length im = length (img (bio s))" by (simp add: im_def crash_disk_def)
  have wh: "with_head l im = l" by (simp add: with_head_def head(2))
  have "\<forall>d\<in>set im. length d = BSIZE"
    unfolding im_def crash_disk_def using commit_writes_lengths[OF ok] ok
    by (intro apply_writes_lengths) (auto simp: trans_ok_def bio_inv_def dest: in_set_takeD)
  then show "head_ok (log s) (crash_disk s k)"
    using wf head(1) wh len unfolding head_ok_def l_def[symmetric] im_def[symmetric] by (simp add: log_wf_def n_def)
  have data: "im ! (l_start l + i + 1) = v (l_lh l ! i)" if i: "i < n" for i
  proof -
    note blk = log_wf_block[OF wf, of i, folded n_def, OF i]
    have "l_start l + i + 1 \<notin> fst ` set (take (k - n - 1) ?C)" using C blk(1) area(1) by blast
    then show ?thesis
      using nth[OF blk(2)] log_copy_value[OF i, of "\<lambda>b. img (bio s) ! b" l v] by (simp add: vapply_other)
  qed
  have inst: "rec_installs l im = ?C"
    unfolding rec_installs_def wh head(2) by (intro nth_equalityI) (simp_all add: installs_def data[simplified] n_def)
  assume bn: "bn < length (img (bio s))" "bn \<notin> log_area (log s)"
  have dist: "distinct (map fst ?C)" using wf by (simp add: log_wf_def comp_def)
  show "recovered (log s) (crash_disk s k) bn = view (bio s) bn"
  proof (cases "bn \<in> set (l_lh l)")
    case True
    then have "(bn, v bn) \<in> set ?C" by simp
    from vapply_in[OF dist this] show ?thesis
      by (simp add: recovered_def l_def[symmetric] im_def[symmetric] inst v_def)
  next
    case False
    have "bn \<notin> fst ` set ?A" using fst_log_copies[OF wf, of n v] bn(2) by (auto simp: n_def l_def)
    moreover have "bn \<noteq> l_start l" using bn(2) area(2) by (auto simp: l_def)
    moreover have "bn \<notin> fst ` set (take (k - n - 1) ?C)" "bn \<notin> fst ` set ?C" using C[of "k - n - 1"] False by auto
    ultimately have "recovered l im bn = img (bio s) ! bn"
      using nth[OF bn(1)] by (simp add: recovered_def inst vapply_other)
    with trans_view[OF ok] False show ?thesis by (simp add: l_def im_def)
  qed
qed

text \<open>After the header has been cleared there is nothing left to recover.\<close>

lemma commit_view:
  assumes ok: "trans_ok me s" and "bn \<notin> log_area (log s)"
  shows "vapply (view (bio s)) (commit_writes (log s) (view (bio s))) bn = view (bio s) bn"
    and "bn < length (img (bio s)) \<Longrightarrow>
      apply_writes (img (bio s)) (commit_writes (log s) (view (bio s))) ! bn = view (bio s) bn"
proof -
  define l v where "l = log s" and "v = view (bio s)"
  let ?A = "log_copies l v (length (l_lh l))" and ?C = "map (\<lambda>b. (b, v b)) (l_lh l)"
  have wf: "log_wf l (length (img (bio s)))" using ok by (simp add: trans_ok_def l_def)
  have start: "bn \<noteq> l_start l" using assms(2) wf by (auto simp: log_area_def log_wf_def l_def)
  have A: "bn \<notin> fst ` set ?A"
    using fst_log_copies[OF wf, of "length (l_lh l)" v] assms(2) by (auto simp: l_def)
  have gen: "vapply w (commit_writes l v) bn = (if bn \<in> set (l_lh l) then v bn else w bn)" for w
  proof -
    have "vapply w (commit_writes l v) bn = vapply (vapply w ?A) ?C bn"
      unfolding commit_writes_def vapply_append vapply_single using start
      by (cases "bn \<in> fst ` set ?C")
        (auto simp: vapply_other vapply_def split: option.splits)
    moreover have "vapply u ?C bn = v bn" if "bn \<in> set (l_lh l)" for u
      using vapply_in[of ?C bn "v bn" u] that wf by (simp add: log_wf_def comp_def)
    moreover have "vapply u ?C bn = u bn" if "bn \<notin> set (l_lh l)" for u
      using that by (simp add: vapply_other image_image)
    ultimately show ?thesis using A by (simp add: vapply_other)
  qed
  show "vapply (view (bio s)) (commit_writes (log s) (view (bio s))) bn = view (bio s) bn"
    using gen[of v] by (simp add: l_def v_def)
  assume "bn < length (img (bio s))"
  then show "apply_writes (img (bio s)) (commit_writes (log s) (view (bio s))) ! bn = view (bio s) bn"
    using gen[of "\<lambda>b. img (bio s) ! b"] trans_view[OF ok, of bn] by (simp add: nth_apply_writes l_def v_def)
qed

lemma crash_done:
  assumes ok: "trans_ok me s" and k: "2 * length (l_lh (log s)) + 2 \<le> k"
  shows "head_ok (log s) (crash_disk s k)"
    and "bn < length (img (bio s)) \<Longrightarrow> bn \<notin> log_area (log s) \<Longrightarrow> recovered (log s) (crash_disk s k) bn = view (bio s) bn"
proof -
  define l v where "l = log s" and "v = view (bio s)"
  define im where "im = crash_disk s k"
  have wf: "log_wf l (length (img (bio s)))" using ok by (simp add: trans_ok_def l_def)
  have "take k (commit_writes l v) = commit_writes l v"
    using k by (simp add: commit_writes_def l_def log_copies_def)
  then have im: "im = apply_writes (img (bio s)) (commit_writes l v)"
    by (simp add: im_def crash_disk_def l_def v_def)
  have start: "l_start l < length (img (bio s))" using wf by (auto simp: log_wf_def)
  have "vapply w (commit_writes l v) (l_start l) = put_head (commit_head l v) []" for w
    unfolding commit_writes_def vapply_append vapply_single by simp
  then have "im ! l_start l = put_head (commit_head l v) []"
    unfolding im by (simp add: nth_apply_writes[OF start])
  moreover have "length (commit_head l v) = BSIZE"
    using commit_writes_lengths[OF ok] by (simp add: commit_writes_def l_def v_def)
  ultimately have h: "head_n (im ! l_start l) \<le> 0" using head_put_head(1)[of "commit_head l v" "[]"] by simp
  have lens: "\<forall>d\<in>set im. length d = BSIZE"
    unfolding im using commit_writes_lengths[OF ok] ok
    by (intro apply_writes_lengths) (auto simp: trans_ok_def bio_inv_def l_def v_def)
  show "head_ok (log s) (crash_disk s k)"
    using head_ok_empty[OF lens h] wf by (simp add: im_def[symmetric] l_def[symmetric]) (simp add: im)
  assume "bn < length (img (bio s))" "bn \<notin> log_area (log s)"
  then show "recovered (log s) (crash_disk s k) bn = view (bio s) bn"
    using commit_view(2)[OF ok] rec_installs_empty[of im l] h
    by (simp add: recovered_def im_def[symmetric] l_def[symmetric]) (simp add: im l_def v_def)
qed

text \<open>Recovery may itself be interrupted: after any prefix of its writes, recovering again gives the
  same contents.\<close>

lemma recovery_prefix:
  assumes ok: "head_ok l im" and im': "im' = apply_writes im (take k (rec_writes l im))"
  shows "head_ok l im'" and "bn < length im \<Longrightarrow> bn \<notin> log_area l \<Longrightarrow> recovered l im' bn = recovered l im bn"
proof -
  define m where "m = with_head l im"
  define I where "I = rec_installs l im"
  have wf: "log_wf m (length im)" and lens: "\<forall>d\<in>set im. length d = BSIZE"
    using ok by (simp_all add: head_ok_def m_def)
  have start: "l_start l < length im" "l_start l \<in> log_area l" "set (l_lh m) \<inter> log_area l = {}"
    using wf by (auto simp: log_wf_def log_area_def m_def)
  have fstI: "fst ` set I = set (l_lh m)" "map fst I = l_lh m"
    unfolding I_def rec_installs_def using fst_installs[of "length (l_lh m)" m "\<lambda>b. im ! b"]
    by (simp_all add: m_def installs_def comp_def map_nth)
  have blk: "im ! b \<in> set im" if "b < length im" for b using that by simp
  have wlens: "\<forall>w\<in>set (rec_writes l im). length (snd w) = BSIZE"
    using lens start(1) log_wf_block(2)[OF wf]
    by (auto simp: rec_writes_def rec_installs_def installs_def m_def put_head_def)
  then have lens': "\<forall>d\<in>set im'. length d = BSIZE"
    unfolding im' by (intro apply_writes_lengths[OF lens]) (auto dest: in_set_takeD)
  have len': "length im' = length im" by (simp add: im')
  show "head_ok l im'" and "bn < length im \<Longrightarrow> bn \<notin> log_area l \<Longrightarrow> recovered l im' bn = recovered l im bn"
  proof -
    consider (some) "take k (rec_writes l im) = take k I" "k \<le> length I"
      | (all) "take k (rec_writes l im) = rec_writes l im"
      by (cases "k \<le> length I") (auto simp: rec_writes_def I_def)
    then have "head_ok l im' \<and> (bn < length im \<longrightarrow> bn \<notin> log_area l \<longrightarrow> recovered l im' bn = recovered l im bn)"
    proof cases
      case some
      have pre: "fst ` set (take k I) \<subseteq> set (l_lh m)" using fstI(1) set_take_subset[of k I] by blast
      have area: "im' ! b = im ! b" if "b < length im" "b \<notin> fst ` set (take k I)" for b
        using that by (simp add: im' some(1) nth_apply_writes vapply_other)
      have hd: "im' ! l_start l = im ! l_start l" using area[OF start(1)] pre start(2,3) by blast
      have "im' ! (l_start m + i + 1) = im ! (l_start m + i + 1)" if "i < length (l_lh m)" for i
        using log_wf_block(1,2)[OF wf that] area pre start(3) by (auto simp: m_def)
      then have same: "rec_installs l im' = I"
        by (simp add: I_def rec_installs_def installs_def with_head_def hd m_def)
      have "head_ok l im'" using ok lens' by (simp add: head_ok_def with_head_def hd len')
      moreover have "recovered l im' bn = recovered l im bn" if "bn < length im"
      proof (cases "bn \<in> fst ` set I")
        case True
        then obtain d where "(bn, d) \<in> set I" by auto
        with vapply_in[of I bn d] wf show ?thesis
          unfolding recovered_def same I_def[symmetric] by (simp add: fstI(2) log_wf_def)
      next
        case False
        moreover have "bn \<notin> fst ` set (take k I)" using False set_take_subset[of k I] by blast
        ultimately show ?thesis
          unfolding recovered_def same I_def[symmetric] using area[OF that] by (simp add: vapply_other)
      qed
      ultimately show ?thesis by blast
    next
      case all
      have nth': "im' ! b = vapply (vapply (\<lambda>b. im ! b) I) [(l_start l, put_head (im ! l_start l) [])] b" if "b < length im" for b
        using that by (simp only: im' all nth_apply_writes) (simp only: rec_writes_def I_def vapply_append)
      have "length (im ! l_start l) = BSIZE" using lens start(1) by simp
      then have h: "head_n (im' ! l_start l) \<le> 0"
        using nth'[OF start(1)] head_put_head(1)[of "im ! l_start l" "[]"] by simp
      have "log_wf (l\<lparr>l_lh := []\<rparr>) (length im')"
        using wf by (auto simp: log_wf_def m_def len' log_area_def)
      then have "head_ok l im'"
        using lens' h by (simp add: head_ok_def with_head_def head_blocks_def)
      moreover have "recovered l im' bn = recovered l im bn" if "bn < length im" "bn \<notin> log_area l"
        using that start(2) nth'[OF that(1)] rec_installs_empty[OF h]
        by (auto simp: recovered_def I_def)
      ultimately show ?thesis by blast
    qed
    then show "head_ok l im'" and "bn < length im \<Longrightarrow> bn \<notin> log_area l \<Longrightarrow> recovered l im' bn = recovered l im bn"
      by blast+
  qed
qed

section \<open>Recording blocks\<close>

lemma log_write_ok:
  assumes h: "holds me (bio s) bn b" and wf: "log_wf (log s) (length (img (bio s)))"
    and room: "length (l_lh (log s)) < LOGSIZE" "length (l_lh (log s)) + 1 < l_size (log s)"
    and op: "l_outstanding (log s) \<ge> 1" and bn: "bn \<notin> log_area (log s)" "bn < length (img (bio s))"
  shows "\<exists>c. log_write b s = Inr \<lparr>bio = c, log = (log s)\<lparr>l_lh := absorb bn (l_lh (log s))\<rparr>\<rparr> \<and> holds me c bn b \<and>
    view c = view (bio s) \<and> held c = held (bio s) \<and> dirty c = insert bn (dirty (bio s)) \<and>
    img c = img (bio s) \<and> hist c = hist (bio s) \<and> keeps (bio s) c" (is ?run)
    and "log_wf ((log s)\<lparr>l_lh := absorb bn (l_lh (log s))\<rparr>) (length (img (bio s)))" (is ?wf)
proof -
  have "log_write b s = Inr \<lparr>bio = mark_dirty b (bio s), log = (log s)\<lparr>l_lh := absorb bn (l_lh (log s))\<rparr>\<rparr>"
    using room op by (simp add: log_write_def log_full_def upd_log_def holds_blockno[OF h])
  with mark_dirty_ok[OF h] show ?run by blast
  show ?wf
    using wf room bn by (auto simp: log_wf_def absorb_def log_area_def)
qed

lemma set_absorb [simp]: "set (absorb bn lh) = insert bn (set lh)"
  by (auto simp: absorb_def)

lemma length_absorb: "length lh \<le> length (absorb bn lh)" "length (absorb bn lh) \<le> length lh + 1"
  by (simp_all add: absorb_def)

section \<open>Properties\<close>

lemma commit_crash:
  assumes "trans_ok me s" and "l_lh (log s) \<noteq> []"
  shows "\<exists>s'. commit me s = Inr s' \<and> l_lh (log s') = [] \<and>
    hist (bio s') = hist (bio s) @ commit_writes (log s) (view (bio s)) \<and>
    (\<forall>bn. bn \<notin> log_area (log s) \<longrightarrow> view (bio s') bn = view (bio s) bn) \<and>
    (\<forall>k. \<exists>t. recover_from_log me (reboot (log s) (crash_disk s k)) = Inr t \<and>
       (\<forall>bn < length (img (bio s)). bn \<notin> log_area (log s) \<longrightarrow>
          view (bio t) bn = (if k \<le> length (l_lh (log s)) then img (bio s) ! bn else view (bio s) bn)))"
proof -
  from commit_ok[OF assms] obtain b where
    b: "commit me s = Inr \<lparr>bio = b, log = (log s)\<lparr>l_lh := []\<rparr>\<rparr>"
    "view b = vapply (view (bio s)) (commit_writes (log s) (view (bio s)))"
    "hist b = hist (bio s) @ commit_writes (log s) (view (bio s))" by blast
  have crash: "head_ok (log s) (crash_disk s k) \<and> (\<forall>bn < length (img (bio s)). bn \<notin> log_area (log s) \<longrightarrow>
      recovered (log s) (crash_disk s k) bn = (if k \<le> length (l_lh (log s)) then img (bio s) ! bn else view (bio s) bn))" for k
  proof -
    consider "k \<le> length (l_lh (log s))" | "length (l_lh (log s)) < k" "k \<le> 2 * length (l_lh (log s)) + 1"
      | "2 * length (l_lh (log s)) + 2 \<le> k"
      by linarith
    then show ?thesis
      by cases (use crash_before_head[OF assms(1), of k] crash_after_head[OF assms, of k]
          crash_done[OF assms(1), of k] in auto)
  qed
  have "\<exists>t. recover_from_log me (reboot (log s) (crash_disk s k)) = Inr t \<and>
       (\<forall>bn < length (img (bio s)). bn \<notin> log_area (log s) \<longrightarrow>
          view (bio t) bn = (if k \<le> length (l_lh (log s)) then img (bio s) ! bn else view (bio s) bn))" for k
    using recover_ok[of "log s" "crash_disk s k" me] recover_view[of "log s" "crash_disk s k" me] crash[of k] by metis
  with b commit_view(1)[OF assms(1)] show ?thesis by simp
qed

text \<open>C1. Atomic commit. \<open>commit\<close> of a transaction returns, and wherever a crash cuts off its sequence
  of disk writes, recovery at the next boot returns and leaves every block outside the log with
  its old contents if the header had not been written yet, and with its new contents otherwise;
  never a mixture.\<close>

theorem commit_crash_safe:
  assumes "trans_ok me s" and "l_lh (log s) \<noteq> []"
  shows "\<exists>s'. commit me s = Inr s' \<and> l_lh (log s') = [] \<and>
    hist (bio s') = hist (bio s) @ commit_writes (log s) (view (bio s)) \<and>
    (\<forall>bn. bn \<notin> log_area (log s) \<longrightarrow> view (bio s') bn = view (bio s) bn) \<and>
    (\<forall>k. \<exists>t. recover_from_log me (reboot (log s) (crash_disk s k)) = Inr t \<and>
       (\<forall>bn < length (img (bio s)). bn \<notin> log_area (log s) \<longrightarrow>
          view (bio t) bn = (if k \<le> length (l_lh (log s)) then img (bio s) ! bn else view (bio s) bn)))"
  by (rule commit_crash[OF assms])

text \<open>C9. Recovery is restartable: it returns, and if it is interrupted after any prefix of its own
  disk writes, recovering again leaves the same contents outside the log.\<close>

theorem recovery_restartable:
  assumes "head_ok l im"
  shows "\<exists>t. recover_from_log me (reboot l im) = Inr t \<and>
    (\<forall>k. \<exists>t'. recover_from_log me (reboot l (apply_writes im (take k (hist (bio t))))) = Inr t' \<and>
       (\<forall>bn < length im. bn \<notin> log_area l \<longrightarrow> view (bio t') bn = view (bio t) bn))"
proof -
  from recover_ok[OF assms] obtain t where
    t: "recover_from_log me (reboot l im) = Inr t" "hist (bio t) = rec_writes l im" by blast
  have "\<exists>t'. recover_from_log me (reboot l (apply_writes im (take k (rec_writes l im)))) = Inr t' \<and>
       (\<forall>bn < length im. bn \<notin> log_area l \<longrightarrow> view (bio t') bn = view (bio t) bn)" for k
  proof -
    note pre = recovery_prefix[OF assms refl, where k = k]
    from recover_ok[OF pre(1)] obtain t' where
      t': "recover_from_log me (reboot l (apply_writes im (take k (rec_writes l im)))) = Inr t'" by blast
    with pre recover_view[OF pre(1) t'] recover_view[OF assms t(1)] show ?thesis by simp
  qed
  with t show ?thesis by simp
qed

text \<open>A concrete transaction for the witnesses: six zeroed blocks, the log in blocks 2 to 4, block 5
  overwritten.\<close>

definition demo_img :: "block list" where
  "demo_img = replicate 6 (replicate BSIZE 0)"

definition demo_log :: logst where
  "demo_log = \<lparr>l_start = 2, l_size = 3, l_outstanding = 1, l_committing = False, l_dev = ROOTDEV, l_lh = []\<rparr>"

lemma demo_head: "head_n (demo_img ! 2) = 0"
  by (simp add: demo_img_def head_n_def get32_def)

lemma demo_trans:
  "\<exists>s. trans_ok me s \<and> l_lh (log s) = [5] \<and> view (bio s) 5 = replicate BSIZE 7 \<and>
       img (bio s) = demo_img \<and> log_area (log s) = {2, 3, 4}"
proof -
  let ?d = "replicate BSIZE (7 :: u8)"
  have im: "\<forall>d\<in>set demo_img. length d = BSIZE" and len: "length demo_img = 6" by (simp_all add: demo_img_def)
  note bt = boot_ok[OF im]
  have "5 \<notin> held (boot demo_img)" "card (held (boot demo_img) \<union> dirty (boot demo_img)) < NBUF"
    "5 < length (img (boot demo_img))"
    by (simp_all add: bt len NBUF_def)
  from bread_holds[OF boot_ok(1)[OF im, of me] this(1) disjI2[OF this(2)] this(3)] obtain b c1 where
    1: "holds me c1 5 b" "held c1 = {5}" "dirty c1 = {}" "img c1 = demo_img" "view c1 = (\<lambda>b. demo_img ! b)"
    by (auto simp: bt)
  note sd = set_data_ok[OF 1(1), of ?d, simplified]
  let ?s = "\<lparr>bio = set_data b ?d c1, log = demo_log\<rparr>"
  have wf: "log_wf (log ?s) (length (img (bio ?s)))"
    by (simp add: log_wf_def demo_log_def sd 1 len)
  have pre: "holds me (bio ?s) 5 b" "length (l_lh (log ?s)) < LOGSIZE" "length (l_lh (log ?s)) + 1 < l_size (log ?s)"
    "l_outstanding (log ?s) \<ge> 1" "5 \<notin> log_area (log ?s)" "5 < length (img (bio ?s))"
    by (simp_all add: sd 1 demo_log_def log_area_def len)
  note lw = log_write_ok[OF pre(1) wf pre(2-6)]
  from lw(1) obtain c2 where 2: "holds me c2 5 b" "view c2 = (\<lambda>b. demo_img ! b)(5 := ?d)" "held c2 = {5}"
    "dirty c2 = {5}" "img c2 = demo_img"
    by (auto simp: sd 1)
  have "5 \<in> dirty c2 \<or> view c2 5 = img c2 ! 5" by (simp add: 2)
  from brelse_ok[OF 2(1) this] obtain c3 where 3: "bio_inv me c3" "view c3 = (\<lambda>b. demo_img ! b)(5 := ?d)"
    "held c3 = {}" "dirty c3 = {5}" "img c3 = demo_img"
    by (auto simp: 2)
  let ?t = "\<lparr>bio = c3, log = demo_log\<lparr>l_lh := [5]\<rparr>\<rparr>"
  have "trans_ok me ?t"
    using 3 lw(2) demo_head
    by (simp add: trans_ok_def sd 1 absorb_def demo_log_def NBUF_def)
  moreover have "log_area (log ?t) = {2, 3, 4}" by (auto simp: log_area_def demo_log_def)
  ultimately show ?thesis using 3 by (intro exI[of _ ?t]) (simp add: demo_log_def)
qed

theorem commit_crash_safe_witness:
  "\<exists>s s' t1 t2. trans_ok 1 s \<and> l_lh (log s) = [5] \<and> commit 1 s = Inr s' \<and>
     recover_from_log 1 (reboot (log s) (crash_disk s 1)) = Inr t1 \<and> view (bio t1) 5 = replicate BSIZE 0 \<and>
     recover_from_log 1 (reboot (log s) (crash_disk s 2)) = Inr t2 \<and> view (bio t2) 5 = replicate BSIZE 7"
proof -
  from demo_trans obtain s where s: "trans_ok 1 s" "l_lh (log s) = [5]" "view (bio s) 5 = replicate BSIZE 7"
    "img (bio s) = demo_img" "log_area (log s) = {2, 3, 4}" by blast
  have "l_lh (log s) \<noteq> []" by (simp add: s)
  from commit_crash_safe[OF s(1) this] obtain s' where s': "commit 1 s = Inr s'"
    and crash: "\<And>k. \<exists>t. recover_from_log 1 (reboot (log s) (crash_disk s k)) = Inr t \<and>
      (\<forall>bn < length (img (bio s)). bn \<notin> log_area (log s) \<longrightarrow>
        view (bio t) bn = (if k \<le> length (l_lh (log s)) then img (bio s) ! bn else view (bio s) bn))"
    by blast
  have 5: "5 < length (img (bio s))" "5 \<notin> log_area (log s)" "img (bio s) ! 5 = replicate BSIZE 0"
    unfolding s demo_img_def by simp_all
  from crash[of 1] crash[of 2] show ?thesis
    using s s' 5 by fastforce
qed

theorem recovery_restartable_witness:
  "head_ok demo_log demo_img \<and> (\<exists>t. recover_from_log 1 (reboot demo_log demo_img) = Inr t)"
proof -
  have "head_ok demo_log demo_img"
    using demo_head
    by (intro head_ok_empty) (simp_all add: demo_log_def log_wf_def demo_img_def)
  with recovery_restartable[OF this] show ?thesis by blast
qed

section \<open>Log space\<close>

text \<open>
  Concurrent operations and the space they reserve. \<open>act\<close> lists, for each operation between
  \<open>begin_op\<close> and \<open>end_op\<close>, how many more blocks it may record; an operation records at most
  \<open>MAXOPBLOCKS\<close>. The last \<open>end_op\<close> commits and empties the header.
\<close>

inductive space_step :: "logst \<times> nat list \<Rightarrow> logst \<times> nat list \<Rightarrow> bool" where
  op_begin: "\<not> l_committing l \<Longrightarrow> op_fits l \<Longrightarrow>
    space_step (l, act) (l\<lparr>l_outstanding := l_outstanding l + 1\<rparr>, act @ [MAXOPBLOCKS])"
| op_write: "i < length act \<Longrightarrow> act ! i > 0 \<Longrightarrow> \<not> log_full l \<Longrightarrow>
    space_step (l, act) (l\<lparr>l_lh := absorb bn (l_lh l)\<rparr>, act[i := act ! i - 1])"
| op_end: "i < length act \<Longrightarrow> l_outstanding l > 1 \<Longrightarrow>
    space_step (l, act) (l\<lparr>l_outstanding := l_outstanding l - 1\<rparr>, take i act @ drop (Suc i) act)"
| op_end_last: "length act = 1 \<Longrightarrow> l_outstanding l = 1 \<Longrightarrow>
    space_step (l, act) (l\<lparr>l_outstanding := 0, l_lh := []\<rparr>, [])"

inductive space_reach :: "nat \<Rightarrow> logst \<times> nat list \<Rightarrow> bool" where
  start: "l_lh l = [] \<Longrightarrow> l_outstanding l = 0 \<Longrightarrow> \<not> l_committing l \<Longrightarrow> l_size l = nlog \<Longrightarrow> space_reach nlog (l, [])"
| step: "space_reach nlog s \<Longrightarrow> space_step s t \<Longrightarrow> space_reach nlog t"

definition space_inv :: "logst \<times> nat list \<Rightarrow> bool" where
  "space_inv s \<longleftrightarrow> (case s of (l, act) \<Rightarrow>
     l_outstanding l = int (length act) \<and> length (l_lh l) + sum_list act \<le> LOGSIZE \<and> (\<forall>x\<in>set act. x \<le> MAXOPBLOCKS))"

lemma sum_list_bound: "\<forall>x\<in>set xs. x \<le> (b :: nat) \<Longrightarrow> sum_list xs \<le> b * length xs"
  by (induction xs) auto

lemma sum_list_remove: "i < length xs \<Longrightarrow> sum_list (take i xs @ drop (Suc i) xs) + xs ! i = sum_list (xs :: nat list)"
  using id_take_nth_drop[of i xs] by (metis add.assoc add.commute sum_list.Cons sum_list.append)

lemma space_step_inv: "space_step s t \<Longrightarrow> space_inv s \<Longrightarrow> space_inv t"
proof (induction rule: space_step.induct)
  case (op_begin l act)
  then have "sum_list act \<le> MAXOPBLOCKS * length act" by (intro sum_list_bound) (simp add: space_inv_def)
  with op_begin show ?case by (auto simp: space_inv_def op_fits_def)
next
  case (op_write i act l bn)
  have "sum_list (act[i := act ! i - 1]) + act ! i = sum_list act + (act ! i - 1)"
    by (rule sum_list_update_nat[OF op_write(1)])
  then have "sum_list (act[i := act ! i - 1]) + 1 = sum_list act" using op_write(2) by arith
  moreover have "\<forall>x\<in>set (act[i := act ! i - 1]). x \<le> MAXOPBLOCKS"
    using op_write nth_mem[OF op_write(1)] by (auto simp: space_inv_def dest!: set_update_subset_insert[THEN subsetD] intro: le_trans[OF diff_le_self])
  ultimately show ?case
    using op_write length_absorb(2)[of bn "l_lh l"] by (simp add: space_inv_def)
next
  case (op_end i act l)
  then show ?case
    using sum_list_remove[OF op_end(1)] by (auto simp: space_inv_def dest: in_set_takeD in_set_dropD)
next
  case (op_end_last act l)
  then show ?case by (simp add: space_inv_def)
qed

lemma space_reach_inv: "space_reach nlog s \<Longrightarrow> space_inv s \<and> l_size (fst s) = nlog"
proof (induction rule: space_reach.induct)
  case (start l nlog)
  then show ?case by (simp add: space_inv_def)
next
  case (step nlog s t)
  moreover have "l_size (fst t) = l_size (fst s)" using step(2) by (induction rule: space_step.induct) simp_all
  ultimately show ?case using space_step_inv by simp
qed

text \<open>C23. The reservation made by \<open>begin_op\<close> is enough: on a log area larger than \<open>LOGSIZE\<close> blocks, an
  operation that records at most \<open>MAXOPBLOCKS\<close> blocks never meets the \<open>too big a transaction\<close>
  panic, however operations interleave.\<close>

theorem log_space_suffices:
  assumes "space_reach nlog (l, act)" and "nlog > LOGSIZE" and "i < length act" and "act ! i > 0"
  shows "\<not> log_full l"
proof -
  have "space_inv (l, act)" "l_size l = nlog" using space_reach_inv[OF assms(1)] by simp_all
  moreover have "act ! i \<le> sum_list act" using assms(3) by (rule elem_le_sum_list)
  ultimately show ?thesis using assms(2,4) by (auto simp: space_inv_def log_full_def)
qed

lemma space_reach_writes:
  assumes "space_reach nlog (l, act)" and "i < length act" and "k \<le> act ! i" and "set (l_lh l) \<subseteq> {..<m}"
    and "length (l_lh l) + k \<le> LOGSIZE" and "length (l_lh l) + k < nlog" and "l_size l = nlog"
  shows "space_reach nlog (l\<lparr>l_lh := l_lh l @ [m..<m + k]\<rparr>, act[i := act ! i - k])"
  using assms(3,5,6)
proof (induction k)
  case 0
  then show ?case using assms(1,2) by simp
next
  case (Suc k)
  let ?l = "l\<lparr>l_lh := l_lh l @ [m..<m + k]\<rparr>" and ?act = "act[i := act ! i - k]"
  have "space_reach nlog (?l, ?act)" using Suc by simp
  moreover have "space_step (?l, ?act) (?l\<lparr>l_lh := absorb (m + k) (l_lh ?l)\<rparr>, ?act[i := ?act ! i - 1])"
    using Suc.prems assms(2,7) by (intro op_write) (auto simp: log_full_def)
  moreover have "absorb (m + k) (l_lh ?l) = l_lh l @ [m..<m + Suc k]"
    using assms(4) by (auto simp: absorb_def)
  ultimately show ?case
    using space_reach.step assms(2) by fastforce
qed

definition idle_log :: "nat \<Rightarrow> logst" where
  "idle_log nlog = \<lparr>l_start = 2, l_size = nlog, l_outstanding = 0, l_committing = False, l_dev = ROOTDEV, l_lh = []\<rparr>"

lemma three_ops_reach:
  assumes "nlog \<ge> 30"
  shows "space_reach nlog ((idle_log nlog)\<lparr>l_outstanding := 3, l_lh := [0..<29]\<rparr>, [0, 0, 1])"
proof -
  let ?l = "idle_log nlog"
  have "space_reach nlog (?l, [])" by (rule space_reach.start) (simp_all add: idle_log_def)
  from space_reach.step[OF this op_begin] have "space_reach nlog (?l\<lparr>l_outstanding := 1\<rparr>, [10])"
    by (simp add: idle_log_def op_fits_def)
  from space_reach.step[OF this op_begin] have "space_reach nlog (?l\<lparr>l_outstanding := 2\<rparr>, [10, 10])"
    by (simp add: idle_log_def op_fits_def)
  from space_reach.step[OF this op_begin] have 3: "space_reach nlog (?l\<lparr>l_outstanding := 3\<rparr>, [10, 10, 10])"
    by (simp add: idle_log_def op_fits_def)
  from space_reach_writes[OF this, of 0 10 0] assms
  have "space_reach nlog (?l\<lparr>l_outstanding := 3, l_lh := [0..<10]\<rparr>, [0, 10, 10])"
    by (simp add: idle_log_def)
  from space_reach_writes[OF this, of 1 10 10] assms
  have "space_reach nlog (?l\<lparr>l_outstanding := 3, l_lh := [0..<10] @ [10..<20]\<rparr>, [0, 0, 10])"
    by (simp add: idle_log_def lessThan_atLeast0)
  from space_reach_writes[OF this, of 2 9 20] assms
  have "space_reach nlog (?l\<lparr>l_outstanding := 3, l_lh := ([0..<10] @ [10..<20]) @ [20..<29]\<rparr>, [0, 0, 1])"
    by (simp add: idle_log_def lessThan_atLeast0)
  moreover have "([0..<10] @ [10..<20]) @ [20..<29] = [0..<29::nat]"
    by (simp add: upt_add_eq_append[symmetric] del: upt_conv_Cons_Cons) (simp add: upt_rec)
  ultimately show ?thesis by (simp only:)
qed

theorem log_space_suffices_witness:
  "space_reach 31 ((idle_log 31)\<lparr>l_outstanding := 3, l_lh := [0..<29]\<rparr>, [0, 0, 1]) \<and>
   \<not> log_full ((idle_log 31)\<lparr>l_outstanding := 3, l_lh := [0..<29]\<rparr>)"
proof -
  have r: "space_reach 31 ((idle_log 31)\<lparr>l_outstanding := 3, l_lh := [0..<29]\<rparr>, [0, 0, 1])"
    by (rule three_ops_reach) simp
  from log_space_suffices[OF r, of 2] r show ?thesis by simp
qed

text \<open>C24. In the layout \<open>mkfs\<close> builds, where the log area has exactly \<open>LOGSIZE\<close> blocks with the header
  among them, the reservation is one block too generous: three admitted operations reach a state
  in which one of them still has a reserved block and recording it panics.\<close>

theorem log_panics_in_mkfs_layout:
  "\<exists>l act i. space_reach LOGSIZE (l, act) \<and> i < length act \<and> act ! i > 0 \<and> log_full l"
proof -
  let ?l = "(idle_log 30)\<lparr>l_outstanding := 3, l_lh := [0..<29]\<rparr>"
  have "space_reach LOGSIZE (?l, [0, 0, 1])" by (rule three_ops_reach) simp
  moreover have "log_full ?l" by (simp add: log_full_def idle_log_def)
  ultimately show ?thesis by (intro exI[of _ ?l] exI[of _ "[0, 0, 1]"] exI[of _ 2]) simp
qed

end
