(* ===== verification/Store.thy ===== *)
theory Store
  imports Log
begin

text \<open>
  What the buffer cache and the log together promise the file system: a set of blocks with their
  current contents, which of them the process holds, and which are recorded in the running
  transaction. A handle is the block number itself. The operations return the same values and
  panics as \<open>bread\<close>, \<open>log_write\<close> and \<open>brelse\<close> of the implementation; this is the refinement proved
  below. Releasing a block that was modified and not recorded is the client error \<open>Fault\<close>: the
  implementation would lose the modification at the next eviction.
\<close>

record store =
  sblk :: "nat \<Rightarrow> block"
  snblk :: nat
  sheld :: "nat list"
  sunsaved :: "nat list"
  slog :: logst

definition s_full :: "nat \<Rightarrow> store \<Rightarrow> bool" where
  "s_full bn s \<longleftrightarrow> bn \<notin> set (l_lh (slog s)) \<and> card (set (sheld s) \<union> set (l_lh (slog s))) \<ge> NBUF"

definition s_bread :: "nat \<Rightarrow> store \<Rightarrow> store res" where
  "s_bread bn s =
     (if bn \<in> set (sheld s) then Inl (Hang ''acquiresleep'')
      else if s_full bn s then Inl (Panic ''bget: no buffers'')
      else if bn \<ge> snblk s then Inl (Panic ''iderw: block out of range'')
      else Inr (s\<lparr>sheld := bn # sheld s\<rparr>))"

definition s_put :: "nat \<Rightarrow> block \<Rightarrow> store \<Rightarrow> store" where
  "s_put bn d s = s\<lparr>sblk := (sblk s)(bn := d), sunsaved := bn # sunsaved s\<rparr>"

definition s_log_write :: "nat \<Rightarrow> store \<Rightarrow> store res" where
  "s_log_write bn s =
     (if log_full (slog s) then Inl (Panic ''too big a transaction'')
      else if l_outstanding (slog s) < 1 then Inl (Panic ''log_write outside of trans'')
      else Inr (s\<lparr>slog := (slog s)\<lparr>l_lh := absorb bn (l_lh (slog s))\<rparr>, sunsaved := removeAll bn (sunsaved s)\<rparr>))"

definition s_brelse :: "nat \<Rightarrow> store \<Rightarrow> store res" where
  "s_brelse bn s =
     (if bn \<notin> set (sheld s) then Inl (Panic ''brelse'')
      else if bn \<in> set (sunsaved s) then Inl (Fault ''modified block released'')
      else Inr (s\<lparr>sheld := removeAll bn (sheld s)\<rparr>))"

section \<open>Refinement\<close>

text \<open>\<open>refines me c s\<close>: the implementation state \<open>c\<close> represents the store \<open>s\<close>.\<close>

definition refines :: "nat \<Rightarrow> sto \<Rightarrow> store \<Rightarrow> bool" where
  "refines me c s \<longleftrightarrow>
     bio_inv me (bio c) \<and> held (bio c) = set (sheld s) \<and> dirty (bio c) = set (l_lh (log c)) \<and>
     slog s = log c \<and> snblk s = length (img (bio c)) \<and> log_wf (log c) (snblk s) \<and>
     sblk s = view (bio c) \<and> set (sunsaved s) \<subseteq> set (sheld s) \<and>
     (\<forall>bn\<in>set (sheld s) - set (l_lh (log c)) - set (sunsaved s). view (bio c) bn = img (bio c) ! bn)"

lemma bread_refines:
  assumes r: "refines me c s"
  shows "s_bread bn s = Inl e \<Longrightarrow> bread me ROOTDEV bn (bio c) = Inl e"
    and "s_bread bn s = Inr s' \<Longrightarrow> \<exists>b d. bread me ROOTDEV bn (bio c) = Inr (b, d) \<and> holds me d bn b \<and>
      b_data (bcache d ! b) = sblk s bn \<and> refines me (c\<lparr>bio := d\<rparr>) s' \<and> keeps (bio c) d \<and>
      img d = img (bio c) \<and> hist d = hist (bio c)"
proof -
  have inv: "bio_inv me (bio c)" and obs: "held (bio c) = set (sheld s)" "dirty (bio c) = set (l_lh (slog s))"
    "slog s = log c" "snblk s = length (img (bio c))" "sblk s = view (bio c)"
    using r by (simp_all add: refines_def)
  have full: "s_full bn s \<longleftrightarrow> bn \<notin> dirty (bio c) \<and> card (held (bio c) \<union> dirty (bio c)) = NBUF"
    using all_busy_iff(2)[OF inv] by (auto simp: s_full_def obs)
  have dirty_range: "bn \<in> dirty (bio c) \<Longrightarrow> bn < length (img (bio c))"
    using cached_in_range[OF inv] by (auto simp: dirty_def)
  show "s_bread bn s = Inl e \<Longrightarrow> bread me ROOTDEV bn (bio c) = Inl e"
    using bread_held[OF inv, of bn] bread_no_buffers[OF inv, of bn] bread_out_of_range[OF inv, of bn]
      full dirty_range all_busy_iff(2)[OF inv]
    by (auto simp: s_bread_def obs le_less split: if_splits)
  assume run: "s_bread bn s = Inr s'"
  then have s': "s' = s\<lparr>sheld := bn # sheld s\<rparr>" and pre: "bn \<notin> held (bio c)" "bn < length (img (bio c))"
    "bn \<in> dirty (bio c) \<or> card (held (bio c) \<union> dirty (bio c)) < NBUF"
    using full all_busy_iff(2)[OF inv] by (auto simp: s_bread_def obs split: if_splits)
  from bread_holds[OF inv pre(1,3,2)] obtain b d where
    1: "bread me ROOTDEV bn (bio c) = Inr (b, d)" "holds me d bn b" "view d = view (bio c)"
    "held d = insert bn (held (bio c))" "dirty d = dirty (bio c)" "img d = img (bio c)" "keeps (bio c) d"
    "hist d = hist (bio c)"
    by blast
  have "bn \<in> dirty (bio c) \<or> view (bio c) bn = img (bio c) ! bn"
    using view_clean[OF inv pre(1)] by blast
  then have "refines me (c\<lparr>bio := d\<rparr>) s'"
    using r holds_inv[OF 1(2)] unfolding refines_def s' by (auto simp: 1 obs)
  then show "\<exists>b d. bread me ROOTDEV bn (bio c) = Inr (b, d) \<and> holds me d bn b \<and>
      b_data (bcache d ! b) = sblk s bn \<and> refines me (c\<lparr>bio := d\<rparr>) s' \<and> keeps (bio c) d \<and>
      img d = img (bio c) \<and> hist d = hist (bio c)"
    using 1 holds_data[OF 1(2)] by (auto simp: obs)
qed

lemma put_refines:
  assumes r: "refines me c s" and h: "holds me (bio c) bn b" and "length d = BSIZE"
  shows "refines me (c\<lparr>bio := set_data b d (bio c)\<rparr>) (s_put bn d s)" and "holds me (set_data b d (bio c)) bn b"
proof -
  note sd = set_data_ok[OF h assms(3)]
  have "bn \<in> set (sheld s)" using holds_held[OF h] r by (simp add: refines_def)
  then show "refines me (c\<lparr>bio := set_data b d (bio c)\<rparr>) (s_put bn d s)"
    using r holds_inv[OF sd(1)] unfolding refines_def s_put_def by (auto simp: sd)
  show "holds me (set_data b d (bio c)) bn b" by (rule sd(1))
qed

lemma log_write_refines:
  assumes r: "refines me c s" and h: "holds me (bio c) bn b" and bn: "bn \<notin> log_area (log c)"
  shows "s_log_write bn s = Inl e \<Longrightarrow> log_write b c = Inl e"
    and "s_log_write bn s = Inr s' \<Longrightarrow> \<exists>c'. log_write b c = Inr c' \<and> refines me c' s' \<and> holds me (bio c') bn b \<and>
      img (bio c') = img (bio c) \<and> hist (bio c') = hist (bio c)"
proof -
  have obs: "slog s = log c" and wf: "log_wf (log c) (length (img (bio c)))"
    using r by (auto simp: refines_def)
  show "s_log_write bn s = Inl e \<Longrightarrow> log_write b c = Inl e"
    by (auto simp: s_log_write_def log_write_def obs split: if_splits)
  assume run: "s_log_write bn s = Inr s'"
  then have pre: "length (l_lh (log c)) < LOGSIZE" "length (l_lh (log c)) + 1 < l_size (log c)" "l_outstanding (log c) \<ge> 1"
    and s': "s' = s\<lparr>slog := (log c)\<lparr>l_lh := absorb bn (l_lh (log c))\<rparr>, sunsaved := removeAll bn (sunsaved s)\<rparr>"
    by (auto simp: s_log_write_def log_full_def obs split: if_splits)
  have rng: "bn < length (img (bio c))" using h cached_in_range by (auto simp: holds_def)
  note lw = log_write_ok[OF h wf pre bn rng]
  from lw(1) obtain d where 1: "log_write b c = Inr \<lparr>bio = d, log = (log c)\<lparr>l_lh := absorb bn (l_lh (log c))\<rparr>\<rparr>"
    "holds me d bn b" "view d = view (bio c)" "held d = held (bio c)" "dirty d = insert bn (dirty (bio c))"
    "img d = img (bio c)" "hist d = hist (bio c)" by blast
  have "refines me \<lparr>bio = d, log = (log c)\<lparr>l_lh := absorb bn (l_lh (log c))\<rparr>\<rparr> s'"
    using r lw(2) holds_inv[OF 1(2)] unfolding refines_def s' by (auto simp: 1)
  with 1 show "\<exists>c'. log_write b c = Inr c' \<and> refines me c' s' \<and> holds me (bio c') bn b \<and>
      img (bio c') = img (bio c) \<and> hist (bio c') = hist (bio c)" by auto
qed

lemma brelse_refines:
  assumes r: "refines me c s" and h: "holds me (bio c) bn b" and run: "s_brelse bn s = Inr s'"
  shows "\<exists>d. brelse me b (bio c) = Inr d \<and> refines me (c\<lparr>bio := d\<rparr>) s' \<and> keeps (bio c) d \<and>
      img d = img (bio c) \<and> hist d = hist (bio c)"
proof -
  have s': "s' = s\<lparr>sheld := removeAll bn (sheld s)\<rparr>" and saved: "bn \<notin> set (sunsaved s)"
    using run by (auto simp: s_brelse_def split: if_splits)
  have "bn \<in> set (sheld s)" using holds_held[OF h] r by (simp add: refines_def)
  then have "bn \<in> dirty (bio c) \<or> view (bio c) bn = img (bio c) ! bn"
    using r saved unfolding refines_def by blast
  from brelse_ok[OF h this] obtain d where 1: "brelse me b (bio c) = Inr d" "bio_inv me d" "view d = view (bio c)"
    "held d = held (bio c) - {bn}" "dirty d = dirty (bio c)" "img d = img (bio c)" "keeps (bio c) d"
    "hist d = hist (bio c)" by blast
  have "refines me (c\<lparr>bio := d\<rparr>) s'"
    using r saved unfolding refines_def s' by (auto simp: 1)
  with 1 show ?thesis by blast
qed

section \<open>Reading, modifying and recording a block\<close>

text \<open>The pattern of every metadata update in \<^verbatim>\<open>fs.c\<close>: \<open>bread\<close>, change the data, \<open>log_write\<close>, \<open>brelse\<close>.\<close>

definition c_rmw :: "nat \<Rightarrow> nat \<Rightarrow> (block \<Rightarrow> block) \<Rightarrow> sto \<Rightarrow> sto res" where
  "c_rmw me bn f c =
     bindE (bread me ROOTDEV bn (bio c)) (\<lambda>(b, d).
     bindE (log_write b (c\<lparr>bio := set_data b (f (b_data (bcache d ! b))) d\<rparr>)) (\<lambda>c.
     bindE (brelse me b (bio c)) (\<lambda>d. Inr (c\<lparr>bio := d\<rparr>))))"

definition s_rmw :: "nat \<Rightarrow> (block \<Rightarrow> block) \<Rightarrow> store \<Rightarrow> store res" where
  "s_rmw bn f s =
     bindE (s_bread bn s) (\<lambda>s.
     bindE (s_log_write bn (s_put bn (f (sblk s bn)) s)) (s_brelse bn))"

lemma s_rmw_no_fault:
  assumes "s_bread bn s = Inr s1" and "s_log_write bn (s_put bn d s1) = Inr s2"
  shows "\<exists>s3. s_brelse bn s2 = Inr s3"
  using assms by (auto simp: s_bread_def s_log_write_def s_put_def s_brelse_def split: if_splits)

lemma rmw_refines:
  assumes r: "refines me c s" and bn: "bn \<notin> log_area (log c)"
    and f: "\<forall>d. length d = BSIZE \<longrightarrow> length (f d) = BSIZE"
  shows "s_rmw bn f s = Inl e \<Longrightarrow> c_rmw me bn f c = Inl e"
    and "s_rmw bn f s = Inr s' \<Longrightarrow> \<exists>c'. c_rmw me bn f c = Inr c' \<and> refines me c' s' \<and>
      img (bio c') = img (bio c) \<and> hist (bio c') = hist (bio c)"
proof -
  have *: "(s_rmw bn f s = Inl e \<longrightarrow> c_rmw me bn f c = Inl e) \<and>
     (s_rmw bn f s = Inr s' \<longrightarrow> (\<exists>c'. c_rmw me bn f c = Inr c' \<and> refines me c' s' \<and>
      img (bio c') = img (bio c) \<and> hist (bio c') = hist (bio c)))"
  proof (cases "s_bread bn s")
    case (Inl x)
    with bread_refines(1)[OF r Inl] show ?thesis by (simp add: s_rmw_def c_rmw_def)
  next
    case (Inr s1)
    from bread_refines(2)[OF r Inr] obtain b d where
      1: "bread me ROOTDEV bn (bio c) = Inr (b, d)" "holds me d bn b" "b_data (bcache d ! b) = sblk s bn"
      "refines me (c\<lparr>bio := d\<rparr>) s1" "img d = img (bio c)" "hist d = hist (bio c)" by blast
    have s1: "sblk s1 bn = sblk s bn" using Inr by (auto simp: s_bread_def split: if_splits)
    have "length (sblk s bn) = BSIZE" using 1(2,3) cell_ok[of me d bn b] by (auto simp: holds_def buf_ok_def)
    then have len: "length (f (sblk s bn)) = BSIZE" using f by simp
    have h: "holds me (bio (c\<lparr>bio := d\<rparr>)) bn b" using 1(2) by simp
    note put = put_refines[OF 1(4) h len]
    let ?c = "c\<lparr>bio := set_data b (f (sblk s bn)) d\<rparr>" and ?s = "s_put bn (f (sblk s bn)) s1"
    have r2: "refines me ?c ?s" and h2: "holds me (bio ?c) bn b" and bn2: "bn \<notin> log_area (log ?c)"
      using put bn by simp_all
    show ?thesis
    proof (cases "s_log_write bn ?s")
      case (Inl y)
      with log_write_refines(1)[OF r2 h2 bn2 Inl] Inr 1 s1 show ?thesis
        by (simp add: s_rmw_def c_rmw_def)
    next
      case lw: (Inr s2)
      from log_write_refines(2)[OF r2 h2 bn2 lw] obtain c2 where
        2: "log_write b ?c = Inr c2" "refines me c2 s2" "holds me (bio c2) bn b"
        "img (bio c2) = img (bio c)" "hist (bio c2) = hist (bio c)"
        using set_data_ok(6,7)[OF 1(2) len] 1(5,6) by auto
      from s_rmw_no_fault[OF Inr lw] obtain s3 where s3: "s_brelse bn s2 = Inr s3" ..
      from brelse_refines[OF 2(2,3) s3] obtain e where
        3: "brelse me b (bio c2) = Inr e" "refines me (c2\<lparr>bio := e\<rparr>) s3"
        "img e = img (bio c2)" "hist e = hist (bio c2)" by blast
      with Inr lw s3 1 2 s1 show ?thesis by (auto simp: s_rmw_def c_rmw_def)
    qed
  qed
  then show "s_rmw bn f s = Inl e \<Longrightarrow> c_rmw me bn f c = Inl e"
    and "s_rmw bn f s = Inr s' \<Longrightarrow> \<exists>c'. c_rmw me bn f c = Inr c' \<and> refines me c' s' \<and>
      img (bio c') = img (bio c) \<and> hist (bio c') = hist (bio c)"
    by blast+
qed

section \<open>The block store interface\<close>

text \<open>
  What a client of the block layer relies on: an update of one block returns while there is space
  (\<open>ready s k\<close>: space for \<open>k\<close> more recorded blocks), applies the function to the block's current
  value and changes nothing else. Both the store and the cache with its log provide it, and a
  client's sequence of updates needs to be analysed once.
\<close>

fun apply_updates :: "(nat \<times> (block \<Rightarrow> block)) list \<Rightarrow> (nat \<Rightarrow> block) \<Rightarrow> nat \<Rightarrow> block" where
  "apply_updates [] v = v"
| "apply_updates ((bn, f) # us) v = apply_updates us (v(bn := f (v bn)))"

locale block_store =
  fixes rmw :: "nat \<Rightarrow> (block \<Rightarrow> block) \<Rightarrow> 's \<Rightarrow> 's res"
    and val :: "'s \<Rightarrow> nat \<Rightarrow> block"
    and ready :: "'s \<Rightarrow> nat \<Rightarrow> bool"
    and usable :: "'s \<Rightarrow> nat \<Rightarrow> bool"
    and recorded :: "'s \<Rightarrow> nat set"
    and frame :: "'s \<Rightarrow> 'x"
  assumes rmw_law: "ready s (Suc k) \<Longrightarrow> usable s bn \<Longrightarrow> (\<forall>d. length d = BSIZE \<longrightarrow> length (f d) = BSIZE) \<Longrightarrow>
      \<exists>s'. rmw bn f s = Inr s' \<and> ready s' k \<and> val s' = (val s)(bn := f (val s bn)) \<and> usable s' = usable s \<and>
        recorded s' = insert bn (recorded s) \<and> frame s' = frame s"
begin

lemma rmw_sequence:
  assumes "ready s (length us + k)"
    and "\<forall>(bn, f)\<in>set us. usable s bn \<and> (\<forall>d. length d = BSIZE \<longrightarrow> length (f d) = BSIZE)"
  shows "\<exists>s'. foldE (\<lambda>(bn, f). rmw bn f) us s = Inr s' \<and> ready s' k \<and> val s' = apply_updates us (val s) \<and>
    recorded s' = recorded s \<union> fst ` set us \<and> frame s' = frame s"
  using assms
proof (induction us arbitrary: s)
  case (Cons u us)
  obtain bn f where u: "u = (bn, f)" by (cases u)
  from rmw_law[of s "length us + k" bn f] Cons.prems obtain s1 where
    1: "rmw bn f s = Inr s1" "ready s1 (length us + k)" "val s1 = (val s)(bn := f (val s bn))" "usable s1 = usable s"
    "recorded s1 = insert bn (recorded s)" "frame s1 = frame s"
    by (auto simp: u)
  from Cons.IH[OF 1(2)] Cons.prems(2) obtain s2 where
    2: "foldE (\<lambda>(bn, f). rmw bn f) us s1 = Inr s2" "ready s2 k" "val s2 = apply_updates us (val s1)"
    "recorded s2 = recorded s1 \<union> fst ` set us" "frame s2 = frame s1"
    by (auto simp: 1(4))
  show ?case using 1 2 by (simp add: u)
qed simp

end

subsection \<open>Provided by the store\<close>

definition log_room :: "logst \<Rightarrow> nat \<Rightarrow> bool" where
  "log_room l k \<longleftrightarrow> l_outstanding l \<ge> 1 \<and> distinct (l_lh l) \<and> length (l_lh l) + k \<le> LOGSIZE \<and>
     length (l_lh l) + k < l_size l \<and> length (l_lh l) + k < NBUF"

definition store_ready :: "store \<Rightarrow> nat \<Rightarrow> bool" where
  "store_ready s k \<longleftrightarrow> sheld s = [] \<and> sunsaved s = [] \<and> log_room (slog s) k"

definition store_usable :: "store \<Rightarrow> nat \<Rightarrow> bool" where
  "store_usable s bn \<longleftrightarrow> bn < snblk s \<and> bn \<notin> log_area (slog s)"

lemma log_room_absorb: "log_room l (Suc k) \<Longrightarrow> log_room (l\<lparr>l_lh := absorb bn (l_lh l)\<rparr>) k"
  by (auto simp: log_room_def absorb_def)

text \<open>
  \<open>can_log s B k\<close>: at most one block is held, and all blocks of \<open>B\<close> and \<open>k\<close> more can be recorded.
  Recording a block of \<open>B\<close>, or one that is recorded already, costs nothing: \<open>log_write\<close> absorbs it.
\<close>

definition can_log :: "store \<Rightarrow> nat set \<Rightarrow> nat \<Rightarrow> bool" where
  "can_log s B k \<longleftrightarrow> l_outstanding (slog s) \<ge> 1 \<and> distinct (l_lh (slog s)) \<and> finite B \<and>
     card (set (l_lh (slog s)) \<union> B) + k < LOGSIZE \<and> card (set (l_lh (slog s)) \<union> B) + k + 1 < l_size (slog s) \<and>
     length (sheld s) \<le> 1 \<and> card (set (l_lh (slog s)) \<union> B) + k + 1 < NBUF"

lemma can_log_mono: "can_log s B k \<Longrightarrow> j \<le> k \<Longrightarrow> can_log s B j"
  by (auto simp: can_log_def)

lemma can_log_insert:
  assumes "can_log s B (Suc k)" shows "can_log s (insert b B) k"
proof -
  have "card (set (l_lh (slog s)) \<union> insert b B) \<le> Suc (card (set (l_lh (slog s)) \<union> B))"
    using assms by (simp add: card_insert_if can_log_def)
  then show ?thesis using assms unfolding can_log_def by (auto intro: le_less_trans)
qed

lemma can_log_drop:
  assumes "can_log s B k" and "C \<subseteq> B" shows "can_log s C k"
proof -
  have "card (set (l_lh (slog s)) \<union> C) \<le> card (set (l_lh (slog s)) \<union> B)"
    using assms by (intro card_mono) (auto simp: can_log_def)
  then show ?thesis using assms finite_subset unfolding can_log_def by fastforce
qed

lemma can_log_absorb:
  assumes "can_log s B k" and "bn \<in> B" and "slog t = (slog s)\<lparr>l_lh := absorb bn (l_lh (slog s))\<rparr>"
    and "length (sheld t) \<le> length (sheld s)"
  shows "can_log t B k"
proof -
  have "set (absorb bn (l_lh (slog s))) \<union> B = set (l_lh (slog s)) \<union> B" and "distinct (l_lh (slog t))"
    using assms by (auto simp: absorb_def can_log_def)
  then show ?thesis using assms by (auto simp: can_log_def)
qed

lemma can_log_record:
  assumes "can_log s B (Suc k)" and "slog t = (slog s)\<lparr>l_lh := absorb bn (l_lh (slog s))\<rparr>"
    and "length (sheld t) \<le> length (sheld s)"
  shows "can_log t B k"
  using can_log_absorb[OF can_log_insert[OF assms(1), of bn] _ assms(2,3)] by (auto intro: can_log_drop)

lemma can_log_held:
  "can_log s B k \<Longrightarrow> slog t = slog s \<Longrightarrow> length (sheld t) \<le> 1 \<Longrightarrow> can_log t B k"
  by (auto simp: can_log_def)

lemma can_log_not_full:
  assumes "can_log s B k" shows "\<not> s_full bn s"
proof -
  have "card (set (sheld s) \<union> set (l_lh (slog s))) \<le> length (sheld s) + card (set (l_lh (slog s)) \<union> B)"
    using assms by (intro order_trans[OF card_Un_le] add_mono card_length card_mono) (auto simp: can_log_def)
  then show ?thesis using assms by (auto simp: s_full_def can_log_def)
qed

lemma can_log_not_log_full:
  assumes "can_log s B k" shows "\<not> log_full (slog s)" and "\<not> l_outstanding (slog s) < 1"
proof -
  have "length (l_lh (slog s)) \<le> card (set (l_lh (slog s)) \<union> B)"
    using assms distinct_card[of "l_lh (slog s)"] card_mono[of "set (l_lh (slog s)) \<union> B" "set (l_lh (slog s))"]
    by (simp add: can_log_def)
  then show "\<not> log_full (slog s)" using assms by (auto simp: can_log_def log_full_def)
  show "\<not> l_outstanding (slog s) < 1" using assms by (simp add: can_log_def)
qed

lemma s_bread_eq:
  assumes "can_log s B k" and "bn \<notin> set (sheld s)" and "bn < snblk s"
  shows "s_bread bn s = Inr (s\<lparr>sheld := bn # sheld s\<rparr>)"
  using assms can_log_not_full by (simp add: s_bread_def)

lemma s_log_write_eq:
  assumes "can_log s B k"
  shows "s_log_write bn s =
    Inr (s\<lparr>slog := (slog s)\<lparr>l_lh := absorb bn (l_lh (slog s))\<rparr>, sunsaved := removeAll bn (sunsaved s)\<rparr>)"
  using can_log_not_log_full[OF assms] by (simp add: s_log_write_def)

lemma s_rmw_eq:
  assumes "can_log s B k" and "bn < snblk s" and "bn \<notin> set (sheld s)" and "bn \<notin> set (sunsaved s)"
  shows "s_rmw bn f s = Inr (s\<lparr>sblk := (sblk s)(bn := f (sblk s bn)),
           slog := (slog s)\<lparr>l_lh := absorb bn (l_lh (slog s))\<rparr>\<rparr>)"
  using s_bread_eq[OF assms(1,3,2)] can_log_not_log_full[OF assms(1)] assms(3,4)
  by (simp add: s_rmw_def s_log_write_def s_put_def s_brelse_def)

lemma store_ready_can_log: "store_ready s (Suc k) \<Longrightarrow> can_log s {} k"
  by (auto simp: store_ready_def can_log_def log_room_def distinct_card)

lemma s_rmw_ready:
  assumes "store_ready s (Suc k)" and "bn < snblk s"
  shows "s_rmw bn f s = Inr (s\<lparr>sblk := (sblk s)(bn := f (sblk s bn)),
           slog := (slog s)\<lparr>l_lh := absorb bn (l_lh (slog s))\<rparr>\<rparr>)"
  using s_rmw_eq[OF store_ready_can_log[OF assms(1)] assms(2)] assms(1) by (simp add: store_ready_def)

interpretation spec: block_store s_rmw sblk store_ready store_usable "\<lambda>s. set (l_lh (slog s))" snblk
proof
  fix s k bn f
  assume r: "store_ready s (Suc k)" and u: "store_usable s bn"
  have "store_ready (s\<lparr>sblk := (sblk s)(bn := f (sblk s bn)), slog := (slog s)\<lparr>l_lh := absorb bn (l_lh (slog s))\<rparr>\<rparr>) k"
    using r log_room_absorb by (simp add: store_ready_def)
  moreover have "store_usable (s\<lparr>sblk := (sblk s)(bn := f (sblk s bn)), slog := (slog s)\<lparr>l_lh := absorb bn (l_lh (slog s))\<rparr>\<rparr>)
      = store_usable s"
    by (auto simp: store_usable_def fun_eq_iff log_area_def)
  ultimately show "\<exists>s'. s_rmw bn f s = Inr s' \<and> store_ready s' k \<and> sblk s' = (sblk s)(bn := f (sblk s bn)) \<and>
      store_usable s' = store_usable s \<and> set (l_lh (slog s')) = insert bn (set (l_lh (slog s))) \<and> snblk s' = snblk s"
    using s_rmw_ready[OF r] u by (simp add: store_usable_def)
qed

subsection \<open>Provided by the cache and the log\<close>

definition cache_ready :: "nat \<Rightarrow> sto \<Rightarrow> nat \<Rightarrow> bool" where
  "cache_ready me c k \<longleftrightarrow> trans_ok me c \<and> log_room (log c) k"

definition cache_usable :: "sto \<Rightarrow> nat \<Rightarrow> bool" where
  "cache_usable c bn \<longleftrightarrow> bn < length (img (bio c)) \<and> bn \<notin> log_area (log c)"

definition store_of :: "sto \<Rightarrow> store" where
  "store_of c = \<lparr>sblk = view (bio c), snblk = length (img (bio c)), sheld = [], sunsaved = [], slog = log c\<rparr>"

lemma refines_store_of: "trans_ok me c \<Longrightarrow> refines me c (store_of c)"
  by (simp add: refines_def store_of_def trans_ok_def)

lemma c_rmw_ok:
  assumes "cache_ready me c (Suc k)" and "cache_usable c bn" and f: "\<forall>d. length d = BSIZE \<longrightarrow> length (f d) = BSIZE"
  shows "\<exists>c'. c_rmw me bn f c = Inr c' \<and> cache_ready me c' k \<and>
    view (bio c') = (view (bio c))(bn := f (view (bio c) bn)) \<and> cache_usable c' = cache_usable c \<and>
    img (bio c') = img (bio c) \<and> hist (bio c') = hist (bio c) \<and>
    log c' = (log c)\<lparr>l_lh := absorb bn (l_lh (log c))\<rparr>"
proof -
  let ?s = "store_of c"
  have t: "trans_ok me c" and room: "log_room (log c) (Suc k)" using assms(1) by (simp_all add: cache_ready_def)
  have "store_ready ?s (Suc k)" "bn < snblk ?s"
    using room assms(2) by (simp_all add: store_ready_def store_of_def cache_usable_def)
  from s_rmw_ready[OF this, of f] have run: "s_rmw bn f ?s = Inr (?s\<lparr>sblk := (sblk ?s)(bn := f (sblk ?s bn)),
      slog := (slog ?s)\<lparr>l_lh := absorb bn (l_lh (slog ?s))\<rparr>\<rparr>)" .
  from rmw_refines(2)[OF refines_store_of[OF t] _ f run] assms(2) obtain c' where
    c': "c_rmw me bn f c = Inr c'" "refines me c' (?s\<lparr>sblk := (sblk ?s)(bn := f (sblk ?s bn)),
      slog := (slog ?s)\<lparr>l_lh := absorb bn (l_lh (slog ?s))\<rparr>\<rparr>)"
    "img (bio c') = img (bio c)" "hist (bio c') = hist (bio c)"
    by (auto simp: cache_usable_def)
  have obs: "log c' = (log c)\<lparr>l_lh := absorb bn (l_lh (log c))\<rparr>" "view (bio c') = (view (bio c))(bn := f (view (bio c) bn))"
    "held (bio c') = {}" "dirty (bio c') = set (l_lh (log c'))" "bio_inv me (bio c')" "log_wf (log c') (length (img (bio c')))"
    using c'(2,3) by (auto simp: refines_def store_of_def)
  have "log_room (log c') k" using log_room_absorb[OF room] by (simp add: obs(1))
  moreover from this have "trans_ok me c'"
    using t obs c'(3) by (auto simp: trans_ok_def log_room_def)
  moreover have "cache_usable c' = cache_usable c"
    by (auto simp: cache_usable_def fun_eq_iff c'(3) obs(1) log_area_def)
  ultimately show ?thesis using c'(1,3,4) obs(1,2) by (auto simp: cache_ready_def)
qed

definition cache_frame :: "sto \<Rightarrow> block list \<times> dwrite list \<times> logst" where
  "cache_frame c = (img (bio c), hist (bio c), (log c)\<lparr>l_lh := []\<rparr>)"

interpretation cache: block_store "c_rmw me" "\<lambda>c. view (bio c)" "cache_ready me" cache_usable
    "\<lambda>c. set (l_lh (log c))" cache_frame for me
proof
  fix c k bn and f :: "block \<Rightarrow> block"
  assume a: "cache_ready me c (Suc k)" "cache_usable c bn" "\<forall>d. length d = BSIZE \<longrightarrow> length (f d) = BSIZE"
  from c_rmw_ok[OF a] show "\<exists>c'. c_rmw me bn f c = Inr c' \<and> cache_ready me c' k \<and>
      view (bio c') = (view (bio c))(bn := f (view (bio c) bn)) \<and> cache_usable c' = cache_usable c \<and>
      set (l_lh (log c')) = insert bn (set (l_lh (log c))) \<and> cache_frame c' = cache_frame c"
    by (auto simp: cache_frame_def)
qed

section \<open>Properties\<close>


definition demo_sto :: sto where
  "demo_sto = \<lparr>bio = boot demo_img, log = demo_log\<rparr>"

lemma demo_ready: "cache_ready me demo_sto 2" "cache_usable demo_sto 5" "view (bio demo_sto) 5 = replicate BSIZE 0"
proof -
  have im: "\<forall>d\<in>set demo_img. length d = BSIZE" by (simp add: demo_img_def)
  show "cache_ready me demo_sto 2"
    using demo_head boot_ok(1)[OF im, of me] boot_ok(3-5)[OF im]
    by (simp add: cache_ready_def trans_ok_def demo_sto_def log_room_def demo_log_def NBUF_def log_wf_def demo_img_def)
  show "cache_usable demo_sto 5"
    by (simp add: cache_usable_def demo_sto_def boot_ok(5)[OF im] demo_log_def log_area_def) (simp add: demo_img_def)
  show "view (bio demo_sto) 5 = replicate BSIZE 0"
    by (simp add: demo_sto_def boot_ok(2)[OF im]) (simp add: demo_img_def)
qed


text \<open>C2. A transaction is atomic through the whole storage stack: a sequence of block updates
  followed by \<open>end_op\<close> returns with all updates visible, and a crash after any prefix of the disk
  writes followed by recovery shows either none or all of them.\<close>

theorem transaction_atomic:
  assumes ready: "cache_ready me c (length us)" and empty: "l_lh (log c) = []" "l_outstanding (log c) = 1" "\<not> l_committing (log c)"
    and us: "us \<noteq> []" "\<forall>(bn, f)\<in>set us. cache_usable c bn \<and> (\<forall>d. length d = BSIZE \<longrightarrow> length (f d) = BSIZE)"
  shows "\<exists>c1 c2 ws. foldE (\<lambda>(bn, f). c_rmw me bn f) us c = Inr c1 \<and> end_op me c1 = Inr c2 \<and>
    hist (bio c2) = hist (bio c) @ ws \<and>
    (\<forall>bn. bn \<notin> log_area (log c) \<longrightarrow> view (bio c2) bn = apply_updates us (view (bio c)) bn) \<and>
    (\<forall>k. \<exists>t. recover_from_log me (reboot (log c2) (apply_writes (img (bio c)) (take k ws))) = Inr t \<and>
      ((\<forall>bn. cache_usable c bn \<longrightarrow> view (bio t) bn = view (bio c) bn) \<or>
       (\<forall>bn. cache_usable c bn \<longrightarrow> view (bio t) bn = apply_updates us (view (bio c)) bn)))"
proof -
  have "cache_ready me c (length us + 0)" using ready by simp
  from cache.rmw_sequence[OF this us(2)] obtain c1 where
    1: "foldE (\<lambda>(bn, f). c_rmw me bn f) us c = Inr c1" "trans_ok me c1"
    "view (bio c1) = apply_updates us (view (bio c))" "set (l_lh (log c1)) = fst ` set us" "cache_frame c1 = cache_frame c"
    by (auto simp: empty cache_ready_def)
  define l where "l = log c1"
  have fr: "img (bio c1) = img (bio c)" "hist (bio c1) = hist (bio c)" "l\<lparr>l_lh := []\<rparr> = log c"
    using 1(5) empty(1) by (auto simp: cache_frame_def l_def)
  have l: "l_start l = l_start (log c)" "l_size l = l_size (log c)" "l_dev l = l_dev (log c)" "l_outstanding l = 1" "\<not> l_committing l"
    using fr(3) empty(2,3) by (metis logst.select_convs logst.update_convs logst.surjective)+
  let ?s = "c1\<lparr>log := l\<lparr>l_outstanding := 0, l_committing := True\<rparr>\<rparr>"
  have t: "trans_ok me ?s" using 1(2) by (simp add: trans_ok_def log_wf_def log_area_def l_def)
  have ne: "l_lh (log ?s) \<noteq> []" using 1(4) us(1) by (auto simp: l_def)
  let ?ws = "commit_writes (log ?s) (view (bio c1))"
  from commit_ok[OF t ne] obtain b where b: "commit me ?s = Inr \<lparr>bio = b, log = (log ?s)\<lparr>l_lh := []\<rparr>\<rparr>"
    "view b = vapply (view (bio c1)) ?ws" "hist b = hist (bio c) @ ?ws"
    using fr(2) by auto
  let ?c2 = "\<lparr>bio = b, log = l\<lparr>l_outstanding := 0, l_committing := False, l_lh := []\<rparr>\<rparr>"
  have run: "end_op me c1 = Inr ?c2"
    using b(1) l(4,5) by (simp add: end_op_def Let_def upd_log_def l_def)
  have area: "log_area (l\<lparr>l_outstanding := 0, l_committing := True\<rparr>) = log_area (log c)" by (simp add: log_area_def l)
  have new: "view b bn = apply_updates us (view (bio c)) bn" if "bn \<notin> log_area (log c)" for bn
    using commit_view(1)[OF t, of bn] that by (simp add: b(2) area 1(3))
  have old: "img (bio ?s) ! bn = view (bio c) bn" for bn
    using trans_view[of me c bn] ready by (simp add: cache_ready_def empty fr(1))
  have crash: "\<exists>t. recover_from_log me (reboot (log ?c2) (apply_writes (img (bio c)) (take k ?ws))) = Inr t \<and>
      ((\<forall>bn. cache_usable c bn \<longrightarrow> view (bio t) bn = view (bio c) bn) \<or>
       (\<forall>bn. cache_usable c bn \<longrightarrow> view (bio t) bn = apply_updates us (view (bio c)) bn))" for k
  proof -
    from commit_crash[OF t ne] obtain t where
      t: "recover_from_log me (reboot (log ?s) (crash_disk ?s k)) = Inr t"
      "\<forall>bn < length (img (bio ?s)). bn \<notin> log_area (log ?s) \<longrightarrow>
        view (bio t) bn = (if k \<le> length (l_lh (log ?s)) then img (bio ?s) ! bn else view (bio ?s) bn)"
      by blast
    have "reboot (log ?s) (crash_disk ?s k) = reboot (log ?c2) (apply_writes (img (bio c)) (take k ?ws))"
      by (simp add: reboot_def crash_disk_def fr(1))
    with t old show ?thesis
      by (cases "k \<le> length (l_lh (log ?s))") (auto simp: cache_usable_def area fr(1) 1(3))
  qed
  show ?thesis
    using 1(1) run new crash by (intro exI[of _ c1] exI[of _ ?c2] exI[of _ ?ws]) (simp add: b(3))
qed

theorem transaction_atomic_witness:
  "\<exists>c1 c2. foldE (\<lambda>(bn, f). c_rmw 1 bn f) [(5, \<lambda>_. replicate BSIZE 9), (1, \<lambda>_. replicate BSIZE 8)] demo_sto = Inr c1 \<and>
     end_op 1 c1 = Inr c2 \<and> view (bio c2) 5 = replicate BSIZE 9 \<and> view (bio c2) 1 = replicate BSIZE 8"
proof -
  let ?us = "[(5, \<lambda>_. replicate BSIZE 9), (1, \<lambda>_. replicate BSIZE 8)] :: (nat \<times> (block \<Rightarrow> block)) list"
  have r: "cache_ready 1 demo_sto (length ?us)" using demo_ready(1)[of 1] by (simp add: numeral_2_eq_2)
  have log: "l_lh (log demo_sto) = []" "l_outstanding (log demo_sto) = 1" "\<not> l_committing (log demo_sto)"
    "log_area (log demo_sto) = {2, 3, 4}"
    by (auto simp: demo_sto_def demo_log_def log_area_def)
  have "1 < length (img (bio demo_sto))" using demo_ready(2) by (simp add: cache_usable_def)
  then have u: "\<forall>(bn, f)\<in>set ?us. cache_usable demo_sto bn \<and> (\<forall>d. length d = BSIZE \<longrightarrow> length (f d) = BSIZE)"
    using demo_ready(2) log(4) by (simp add: cache_usable_def)
  have "?us \<noteq> []" by simp
  from transaction_atomic[OF r log(1-3) this u] show ?thesis
    using log(4) by (fastforce simp: fun_upd_def)
qed

end
