(* ===== verification/Balloc.thy ===== *)
theory Balloc
  imports Store
begin

text \<open>
  Block allocation (\<^verbatim>\<open>fs.c\<close>: \<open>bzero\<close>, \<open>balloc\<close>, \<open>bfree\<close>) over the block store. The free map is the
  sequence of blocks from \<open>sb.bmapstart\<close>, one bit per block of the disk. The results: \<open>balloc\<close>
  returns the first free block, zeroed, and marks exactly it used; \<open>bfree\<close> marks exactly one
  block free.
\<close>

abbreviation BPB :: nat where "BPB \<equiv> 4096"

definition BBLOCK :: "nat \<Rightarrow> superblock \<Rightarrow> nat" where
  "BBLOCK b sb = b div BPB + sb_bmapstart sb"

definition bzero :: "nat \<Rightarrow> store \<Rightarrow> store res" where
  "bzero bno s = s_rmw bno (\<lambda>_. replicate BSIZE 0) s"

text \<open>The bit for block number \<open>bi\<close> of a bitmap block.\<close>

definition bit_mask :: "nat \<Rightarrow> u8" where
  "bit_mask bi = push_bit (bi mod 8) 1"

definition bit_clear :: "block \<Rightarrow> nat \<Rightarrow> bool" where
  "bit_clear d bi \<longleftrightarrow> d ! (bi div 8) AND bit_mask bi = 0"

definition set_bit_in :: "block \<Rightarrow> nat \<Rightarrow> block" where
  "set_bit_in d bi = d[bi div 8 := d ! (bi div 8) OR bit_mask bi]"

definition clear_bit_in :: "block \<Rightarrow> nat \<Rightarrow> block" where
  "clear_bit_in d bi = d[bi div 8 := d ! (bi div 8) AND NOT (bit_mask bi)]"

text \<open>The outer loop of \<open>balloc\<close> from block \<open>b\<close>, a multiple of \<open>BPB\<close>.\<close>

function balloc_from :: "superblock \<Rightarrow> nat \<Rightarrow> store \<Rightarrow> (nat \<times> store) res" where
  "balloc_from sb b s =
     (if b < sb_size sb then
        bindE (s_bread (BBLOCK b sb) s) (\<lambda>s.
        case find (\<lambda>bi. bit_clear (sblk s (BBLOCK b sb)) bi) [0..<min BPB (sb_size sb - b)] of
          Some bi \<Rightarrow>
            bindE (s_log_write (BBLOCK b sb) (s_put (BBLOCK b sb) (set_bit_in (sblk s (BBLOCK b sb)) bi) s)) (\<lambda>s.
            bindE (s_brelse (BBLOCK b sb) s) (\<lambda>s.
            bindE (bzero (b + bi) s) (\<lambda>s. Inr (b + bi, s))))
        | None \<Rightarrow> bindE (s_brelse (BBLOCK b sb) s) (balloc_from sb (b + BPB)))
      else Inl (Panic ''balloc: out of blocks''))"
  by pat_completeness auto
termination by (relation "measure (\<lambda>(sb, b, s). sb_size sb - b)") auto

declare balloc_from.simps [simp del]

definition balloc :: "superblock \<Rightarrow> store \<Rightarrow> (nat \<times> store) res" where
  "balloc sb s = balloc_from sb 0 s"

definition bfree :: "superblock \<Rightarrow> nat \<Rightarrow> store \<Rightarrow> store res" where
  "bfree sb b s =
     bindE (s_bread (BBLOCK b sb) s) (\<lambda>s.
     let bi = b mod BPB in
     if bit_clear (sblk s (BBLOCK b sb)) bi then Inl (Panic ''freeing free block'')
     else bindE (s_log_write (BBLOCK b sb) (s_put (BBLOCK b sb) (clear_bit_in (sblk s (BBLOCK b sb)) bi) s))
            (s_brelse (BBLOCK b sb)))"

section \<open>Bits\<close>

lemma bit_bit_mask: "bit (bit_mask bi) k \<longleftrightarrow> k = bi mod 8"
proof -
  have "bi mod 8 < 8" by simp
  then show ?thesis by (auto simp: bit_mask_def bit_exp_iff)
qed

lemma bit_clear_iff: "bit_clear d bi \<longleftrightarrow> \<not> bit (d ! (bi div 8)) (bi mod 8)"
proof
  assume "bit_clear d bi"
  then have "\<not> bit (d ! (bi div 8) AND bit_mask bi) (bi mod 8)" by (simp add: bit_clear_def)
  then show "\<not> bit (d ! (bi div 8)) (bi mod 8)" by (simp add: bit_and_iff bit_bit_mask)
next
  assume "\<not> bit (d ! (bi div 8)) (bi mod 8)"
  then show "bit_clear d bi"
    unfolding bit_clear_def by (intro bit_word_eqI) (auto simp: bit_and_iff bit_bit_mask)
qed

lemma same_bit_iff: "bi div 8 = bj div 8 \<and> bi mod 8 = bj mod 8 \<longleftrightarrow> bj = (bi :: nat)"
  by (metis div_mult_mod_eq)

lemma bit_clear_set:
  assumes "length d = BSIZE" and "bi < BPB" and "bj < BPB"
  shows "bit_clear (set_bit_in d bi) bj \<longleftrightarrow> bit_clear d bj \<and> bj \<noteq> bi"
proof -
  have "bit (set_bit_in d bi ! (bj div 8)) (bj mod 8) \<longleftrightarrow>
        bit (d ! (bj div 8)) (bj mod 8) \<or> bi div 8 = bj div 8 \<and> bi mod 8 = bj mod 8"
    using assms(1,2) by (auto simp: set_bit_in_def nth_list_update bit_or_iff bit_bit_mask)
  then show ?thesis by (simp add: bit_clear_iff same_bit_iff)
qed

lemma bit_clear_clear:
  assumes "length d = BSIZE" and "bi < BPB" and "bj < BPB"
  shows "bit_clear (clear_bit_in d bi) bj \<longleftrightarrow> bit_clear d bj \<or> bj = bi"
proof -
  have "bj mod 8 < 8" by simp
  then have "bit (clear_bit_in d bi ! (bj div 8)) (bj mod 8) \<longleftrightarrow>
        bit (d ! (bj div 8)) (bj mod 8) \<and> \<not> (bi div 8 = bj div 8 \<and> bi mod 8 = bj mod 8)"
    using assms(1,2)
    by (cases "bi div 8 = bj div 8") (simp_all add: clear_bit_in_def bit_and_iff bit_not_iff bit_bit_mask eq_commute)
  then show ?thesis by (simp only: bit_clear_iff same_bit_iff) blast
qed

lemma length_bit_in [simp]: "length (set_bit_in d bi) = length d" "length (clear_bit_in d bi) = length d"
  by (simp_all add: set_bit_in_def clear_bit_in_def)

section \<open>The free map\<close>

text \<open>\<open>used sb v b\<close>: the free map marks block \<open>b\<close> as in use, in contents \<open>v\<close>.\<close>

definition used :: "superblock \<Rightarrow> (nat \<Rightarrow> block) \<Rightarrow> nat \<Rightarrow> bool" where
  "used sb v b \<longleftrightarrow> \<not> bit_clear (v (BBLOCK b sb)) (b mod BPB)"

definition bmap_area :: "superblock \<Rightarrow> nat set" where
  "bmap_area sb = {sb_bmapstart sb..(sb_size sb - 1) div BPB + sb_bmapstart sb}"

abbreviation IPB :: nat where "IPB \<equiv> 8"

definition inode_area :: "superblock \<Rightarrow> nat set" where
  "inode_area sb = {sb_inodestart sb..sb_ninodes sb div IPB + sb_inodestart sb}"

text \<open>The blocks that never hold file data: boot block, superblock, log, inodes and free map.\<close>

definition meta_area :: "superblock \<Rightarrow> logst \<Rightarrow> nat set" where
  "meta_area sb l = {0, 1} \<union> log_area l \<union> inode_area sb \<union> bmap_area sb"

text \<open>
  \<open>disk_ok sb s\<close>: the file system lies on the disk, all blocks have the right size, the areas do not
  overlap, and the blocks without file data are marked used in the free map, so that they are
  never handed out.
\<close>

definition disk_ok :: "superblock \<Rightarrow> store \<Rightarrow> bool" where
  "disk_ok sb s \<longleftrightarrow>
     sb_size sb \<le> snblk s \<and> sb_size sb \<le> 2 ^ 32 \<and> meta_area sb (slog s) \<subseteq> {..<sb_size sb} \<and>
     (\<forall>b. length (sblk s b) = BSIZE) \<and> (\<forall>b\<in>meta_area sb (slog s). used sb (sblk s) b) \<and>
     bmap_area sb \<inter> ({0, 1} \<union> log_area (slog s) \<union> inode_area sb) = {} \<and>
     inode_area sb \<inter> ({0, 1} \<union> log_area (slog s)) = {}"

lemma BBLOCK_area: "b < sb_size sb \<Longrightarrow> BBLOCK b sb \<in> bmap_area sb"
  by (auto simp: BBLOCK_def bmap_area_def div_le_mono)

lemma BBLOCK_ok:
  assumes "disk_ok sb s" and "b < sb_size sb"
  shows "BBLOCK b sb < snblk s" and "length (sblk s (BBLOCK b sb)) = BSIZE"
  using assms BBLOCK_area[OF assms(2)] by (auto simp: disk_ok_def meta_area_def)

lemma used_outside:
  assumes "v' (BBLOCK b sb) = v (BBLOCK b sb)"
  shows "used sb v' b \<longleftrightarrow> used sb v b"
  using assms by (simp add: used_def)

lemma used_set:
  assumes "length (v (BBLOCK c sb)) = BSIZE"
  shows "used sb (v(BBLOCK c sb := set_bit_in (v (BBLOCK c sb)) (c mod BPB))) b \<longleftrightarrow> used sb v b \<or> b = c"
proof (cases "b div BPB = c div BPB")
  case True
  then have "b mod BPB = c mod BPB \<longleftrightarrow> b = c" by (metis div_mult_mod_eq)
  then show ?thesis
    using True assms bit_clear_set[of "v (BBLOCK c sb)" "c mod BPB" "b mod BPB"] by (auto simp: used_def BBLOCK_def)
next
  case False
  then show ?thesis by (auto simp: used_def BBLOCK_def)
qed

lemma used_clear:
  assumes "length (v (BBLOCK c sb)) = BSIZE"
  shows "used sb (v(BBLOCK c sb := clear_bit_in (v (BBLOCK c sb)) (c mod BPB))) b \<longleftrightarrow> used sb v b \<and> b \<noteq> c"
proof (cases "b div BPB = c div BPB")
  case True
  then have "b mod BPB = c mod BPB \<longleftrightarrow> b = c" by (metis div_mult_mod_eq)
  then show ?thesis
    using True assms bit_clear_clear[of "v (BBLOCK c sb)" "c mod BPB" "b mod BPB"] by (auto simp: used_def BBLOCK_def)
next
  case False
  then show ?thesis by (auto simp: used_def BBLOCK_def)
qed

section \<open>Allocation\<close>

definition alloc_post :: "superblock \<Rightarrow> nat \<Rightarrow> store \<Rightarrow> store" where
  "alloc_post sb b s =
     (let v = (sblk s)(BBLOCK b sb := set_bit_in (sblk s (BBLOCK b sb)) (b mod BPB))
      in s\<lparr>sblk := v(b := replicate BSIZE 0),
           slog := (slog s)\<lparr>l_lh := absorb b (absorb (BBLOCK b sb) (l_lh (slog s)))\<rparr>\<rparr>)"

text \<open>The bits of the bitmap block read for \<open>b\<close> are those of the blocks from \<open>b\<close> on.\<close>

lemma group_bit:
  assumes "b mod BPB = 0" and "bi < min BPB (sb_size sb - b)"
  shows "bit_clear (sblk s (BBLOCK b sb)) bi \<longleftrightarrow> \<not> used sb (sblk s) (b + bi)"
    and "BBLOCK (b + bi) sb = BBLOCK b sb" and "(b + bi) mod BPB = bi"
proof -
  show "(b + bi) mod BPB = bi" using assms by (simp add: mod_add_eq[symmetric, of b])
  moreover show "BBLOCK (b + bi) sb = BBLOCK b sb" using assms by (simp add: BBLOCK_def div_add1_eq)
  ultimately show "bit_clear (sblk s (BBLOCK b sb)) bi \<longleftrightarrow> \<not> used sb (sblk s) (b + bi)" by (simp add: used_def)
qed

lemma balloc_hit:
  assumes "disk_ok sb s" and "can_log s B k" and "bmap_area sb \<subseteq> B" and "sunsaved s = []" and "b mod BPB = 0"
    and "set (sheld s) \<inter> bmap_area sb = {}" and "b + bi \<notin> set (sheld s)"
    and bi: "bi < min BPB (sb_size sb - b)"
    and hit: "find (\<lambda>bi. bit_clear (sblk s (BBLOCK b sb)) bi) [0..<min BPB (sb_size sb - b)] = Some bi"
  shows "balloc_from sb b s = Inr (b + bi, alloc_post sb (b + bi) s)"
proof -
  let ?B = "BBLOCK b sb" and ?c = "b + bi" and ?d = "set_bit_in (sblk s (BBLOCK b sb)) bi"
  let ?s1 = "s\<lparr>sheld := ?B # sheld s\<rparr>"
  let ?s2 = "s\<lparr>sblk := (sblk s)(?B := ?d), slog := (slog s)\<lparr>l_lh := absorb ?B (l_lh (slog s))\<rparr>\<rparr>"
  have b: "b < sb_size sb" and c: "?c < snblk s" using bi assms(1) by (auto simp: disk_ok_def)
  note div = group_bit(2,3)[OF assms(5) bi]
  have notheld: "?B \<notin> set (sheld s)" and area: "?B \<in> B" using BBLOCK_area[OF b] assms(3,6) by blast+
  have rd: "s_bread ?B s = Inr ?s1" by (rule s_bread_eq[OF assms(2) notheld BBLOCK_ok(1)[OF assms(1) b]])
  have lw: "s_log_write ?B (s_put ?B ?d ?s1) = Inr (?s2\<lparr>sheld := ?B # sheld s\<rparr>)"
    using can_log_not_log_full[OF assms(2)] assms(4) by (simp add: s_log_write_def s_put_def)
  have rel: "s_brelse ?B (?s2\<lparr>sheld := ?B # sheld s\<rparr>) = Inr ?s2"
    using notheld assms(4) by (simp add: s_brelse_def)
  have cl: "can_log ?s2 B k" by (rule can_log_absorb[OF assms(2) area]) simp_all
  have bz: "bzero ?c ?s2 = Inr (alloc_post sb ?c s)"
    using s_rmw_eq[OF cl, of ?c] c assms(4,7) by (simp add: bzero_def alloc_post_def Let_def div)
  show ?thesis
    using b hit lw rel bz by (subst balloc_from.simps) (simp add: rd)
qed

lemma balloc_from_ok:
  assumes "disk_ok sb s" and "can_log s B k" and "bmap_area sb \<subseteq> B" and "sunsaved s = []" and "b mod BPB = 0"
    and "set (sheld s) \<inter> bmap_area sb = {}" and "\<forall>c\<in>set (sheld s). c < sb_size sb \<longrightarrow> used sb (sblk s) c"
    and "\<exists>c\<ge>b. c < sb_size sb \<and> \<not> used sb (sblk s) c"
  shows "\<exists>c\<ge>b. c < sb_size sb \<and> \<not> used sb (sblk s) c \<and> (\<forall>e. b \<le> e \<and> e < c \<longrightarrow> used sb (sblk s) e) \<and>
    balloc_from sb b s = Inr (c, alloc_post sb c s)"
  using assms(5,8)
proof (induction "sb_size sb - b" arbitrary: b rule: less_induct)
  case less
  let ?B = "BBLOCK b sb" and ?lim = "min BPB (sb_size sb - b)"
  let ?s1 = "s\<lparr>sheld := ?B # sheld s\<rparr>"
  have b: "b < sb_size sb" using less.prems(2) by auto
  have notheld: "?B \<notin> set (sheld s)" using BBLOCK_area[OF b] assms(6) by blast
  have rd: "s_bread ?B s = Inr ?s1" by (rule s_bread_eq[OF assms(2) notheld BBLOCK_ok(1)[OF assms(1) b]])
  note bit = group_bit(1)[OF less.prems(1), of _ sb s]
  show ?case
  proof (cases "find (\<lambda>bi. bit_clear (sblk s ?B) bi) [0..<?lim]")
    case None
    have rel: "s_brelse ?B ?s1 = Inr s" using notheld assms(4) by (simp add: s_brelse_def)
    have all: "used sb (sblk s) e" if "b \<le> e" "e < b + ?lim" for e
    proof -
      have lim: "e - b < ?lim" using that by linarith
      then have "\<not> bit_clear (sblk s ?B) (e - b)" using None by (auto simp: find_None_iff)
      with bit[OF lim] that(1) show ?thesis by simp
    qed
    obtain c where c: "c \<ge> b" "c < sb_size sb" "\<not> used sb (sblk s) c" using less.prems(2) by auto
    have "\<not> c < b + ?lim" using all[of c] c by blast
    then have "c \<ge> b + BPB" using c(1,2) by linarith
    then have ex: "\<exists>c\<ge>b + BPB. c < sb_size sb \<and> \<not> used sb (sblk s) c" using c by blast
    have next_b: "sb_size sb - (b + BPB) < sb_size sb - b" "(b + BPB) mod BPB = 0"
      using b less.prems(1) by simp_all
    from less.hyps[OF next_b ex] obtain c' where c': "c' \<ge> b + BPB" "c' < sb_size sb"
      "\<not> used sb (sblk s) c'" "\<forall>e. b + BPB \<le> e \<and> e < c' \<longrightarrow> used sb (sblk s) e"
      "balloc_from sb (b + BPB) s = Inr (c', alloc_post sb c' s)"
      by blast
    have "used sb (sblk s) e" if "b \<le> e" "e < c'" for e
      using c'(2,4) that all[of e] by (cases "b + BPB \<le> e") auto
    moreover have "balloc_from sb b s = Inr (c', alloc_post sb c' s)"
      using b None rel c'(5) by (subst balloc_from.simps) (simp add: rd)
    ultimately show ?thesis using c' by (intro exI[of _ c']) auto
  next
    case (Some bi)
    then have bi: "bi < ?lim" "bit_clear (sblk s ?B) bi" "\<forall>j<bi. \<not> bit_clear (sblk s ?B) j"
      by (auto simp: find_Some_iff)
    have c: "b + bi < sb_size sb" "\<not> used sb (sblk s) (b + bi)" using bi bit by auto
    have "used sb (sblk s) e" if "b \<le> e" "e < b + bi" for e
    proof -
      have "e - b < bi" using that by linarith
      with bi(1,3) bit[of "e - b"] that show ?thesis by auto
    qed
    moreover have "b + bi \<notin> set (sheld s)" using assms(7) c by blast
    from balloc_hit[OF assms(1-4) less.prems(1) assms(6) this bi(1) Some]
    have "balloc_from sb b s = Inr (b + bi, alloc_post sb (b + bi) s)" .
    ultimately show ?thesis using c by (intro exI[of _ "b + bi"]) auto
  qed
qed

lemma balloc_from_none:
  assumes "disk_ok sb s" and "can_log s B k" and "sunsaved s = []" and "b mod BPB = 0"
    and "set (sheld s) \<inter> bmap_area sb = {}" and all: "\<forall>c\<ge>b. c < sb_size sb \<longrightarrow> used sb (sblk s) c"
  shows "balloc_from sb b s = Inl (Panic ''balloc: out of blocks'')"
  using assms(4) all
proof (induction "sb_size sb - b" arbitrary: b rule: less_induct)
  case less
  let ?B = "BBLOCK b sb"
  show ?case
  proof (cases "b < sb_size sb")
    case False
    then show ?thesis by (subst balloc_from.simps) simp
  next
    case True
    note B = BBLOCK_ok[OF assms(1) True]
    have notheld: "?B \<notin> set (sheld s)" using BBLOCK_area[OF True] assms(5) by blast
    let ?s1 = "s\<lparr>sheld := ?B # sheld s\<rparr>" and ?lim = "min BPB (sb_size sb - b)"
    have rd: "s_bread ?B s = Inr ?s1" by (rule s_bread_eq[OF assms(2) notheld B(1)])
    have rel: "s_brelse ?B ?s1 = Inr s" using notheld assms(3) by (simp add: s_brelse_def)
    have "\<not> bit_clear (sblk s ?B) bi" if "bi < ?lim" for bi
    proof -
      have "b \<le> b + bi" "b + bi < sb_size sb" using that by linarith+
      then show ?thesis using less.prems(2) group_bit(1)[OF less.prems(1) that, of s] by blast
    qed
    then have none: "find (\<lambda>bi. bit_clear (sblk s ?B) bi) [0..<?lim] = None" by (simp add: find_None_iff)
    have next_b: "sb_size sb - (b + BPB) < sb_size sb - b" "(b + BPB) mod BPB = 0"
      "\<forall>c\<ge>b + BPB. c < sb_size sb \<longrightarrow> used sb (sblk s) c"
      using True less.prems by simp_all
    from less.hyps[OF next_b] True none rel show ?thesis
      by (subst balloc_from.simps) (simp add: rd)
  qed
qed

text \<open>What allocating block \<open>c\<close> changes.\<close>

lemma alloc_post_ok:
  assumes ok: "disk_ok sb s" and c: "c < sb_size sb" "\<not> used sb (sblk s) c"
  defines "t \<equiv> alloc_post sb c s"
  shows "c \<notin> meta_area sb (slog s)"
    and "b < sb_size sb \<Longrightarrow> used sb (sblk t) b \<longleftrightarrow> used sb (sblk s) b \<or> b = c"
    and "sblk t c = replicate BSIZE 0"
    and "b \<noteq> c \<Longrightarrow> b \<notin> bmap_area sb \<Longrightarrow> sblk t b = sblk s b"
    and "disk_ok sb t"
    and "sheld t = sheld s" "sunsaved t = sunsaved s" "snblk t = snblk s"
    and "meta_area sb (slog t) = meta_area sb (slog s)"
    and "can_log s B (Suc k) \<Longrightarrow> bmap_area sb \<subseteq> B \<Longrightarrow> can_log t B k"
proof -
  show cm: "c \<notin> meta_area sb (slog s)" using ok c by (auto simp: disk_ok_def)
  have blk: "BBLOCK b sb \<noteq> c" if "b < sb_size sb" for b
    using BBLOCK_area[OF that] cm by (auto simp: meta_area_def)
  show us: "used sb (sblk t) b \<longleftrightarrow> used sb (sblk s) b \<or> b = c" if "b < sb_size sb" for b
    using used_set[of "sblk s" c sb b] BBLOCK_ok(2)[OF ok c(1)] blk[OF that]
    by (simp add: t_def alloc_post_def Let_def used_def)
  show "sblk t c = replicate BSIZE 0" by (simp add: t_def alloc_post_def Let_def)
  show "b \<noteq> c \<Longrightarrow> b \<notin> bmap_area sb \<Longrightarrow> sblk t b = sblk s b"
    using BBLOCK_area[OF c(1)] by (auto simp: t_def alloc_post_def Let_def)
  show fr: "sheld t = sheld s" "sunsaved t = sunsaved s" "snblk t = snblk s"
    by (simp_all add: t_def alloc_post_def Let_def)
  have lg: "log_area (slog t) = log_area (slog s)"
    by (simp add: t_def alloc_post_def Let_def log_area_def)
  then show meta: "meta_area sb (slog t) = meta_area sb (slog s)" by (simp add: meta_area_def)
  have "length (sblk t b) = BSIZE" for b
    using ok by (simp add: t_def alloc_post_def Let_def disk_ok_def)
  moreover have "used sb (sblk t) b" if "b \<in> meta_area sb (slog s)" for b
    using us[of b] ok that by (auto simp: disk_ok_def)
  ultimately show "disk_ok sb t"
    using ok by (simp add: disk_ok_def meta lg fr)
  assume a: "can_log s B (Suc k)" "bmap_area sb \<subseteq> B"
  define u where "u = s\<lparr>slog := (slog s)\<lparr>l_lh := absorb (BBLOCK c sb) (l_lh (slog s))\<rparr>\<rparr>"
  have "can_log u B (Suc k)"
    using can_log_absorb[OF a(1), of "BBLOCK c sb" u] BBLOCK_area[OF c(1)] a(2) by (auto simp: u_def)
  then show "can_log t B k"
    using can_log_record[of u B k t c] by (simp add: u_def t_def alloc_post_def Let_def)
qed

text \<open>The contract of \<open>balloc\<close> for its callers, which may hold blocks that are in use.\<close>

lemma balloc_ok:
  assumes "disk_ok sb s" and "can_log s B k" and "bmap_area sb \<subseteq> B" and "sunsaved s = []"
    and "set (sheld s) \<inter> bmap_area sb = {}" and "\<forall>c\<in>set (sheld s). c < sb_size sb \<longrightarrow> used sb (sblk s) c"
    and "\<exists>c < sb_size sb. \<not> used sb (sblk s) c"
  shows "\<exists>c < sb_size sb. \<not> used sb (sblk s) c \<and> (\<forall>e < c. used sb (sblk s) e) \<and> balloc sb s = Inr (c, alloc_post sb c s)"
  using balloc_from_ok[OF assms(1-4), of 0] assms(5-7) by (auto simp: balloc_def)

section \<open>Freeing\<close>

definition free_post :: "superblock \<Rightarrow> nat \<Rightarrow> store \<Rightarrow> store" where
  "free_post sb b s =
     s\<lparr>sblk := (sblk s)(BBLOCK b sb := clear_bit_in (sblk s (BBLOCK b sb)) (b mod BPB)),
       slog := (slog s)\<lparr>l_lh := absorb (BBLOCK b sb) (l_lh (slog s))\<rparr>\<rparr>"

lemma bfree_ok:
  assumes ok: "disk_ok sb s" and "can_log s B k" and "sunsaved s = []" and "b < sb_size sb"
    and "BBLOCK b sb \<notin> set (sheld s)"
  shows "bfree sb b s = (if used sb (sblk s) b then Inr (free_post sb b s) else Inl (Panic ''freeing free block''))"
proof -
  let ?B = "BBLOCK b sb" and ?s1 = "s\<lparr>sheld := BBLOCK b sb # sheld s\<rparr>"
  have rd: "s_bread ?B s = Inr ?s1" by (rule s_bread_eq[OF assms(2,5) BBLOCK_ok(1)[OF ok assms(4)]])
  show ?thesis
  proof (cases "used sb (sblk s) b")
    case False
    then show ?thesis by (simp add: bfree_def rd used_def Let_def)
  next
    case True
    then show ?thesis
      using assms(3,5) can_log_not_log_full[OF assms(2)]
      by (simp add: bfree_def rd used_def Let_def s_log_write_def s_put_def s_brelse_def free_post_def)
  qed
qed

lemma free_post_ok:
  assumes ok: "disk_ok sb s" and c: "c < sb_size sb" "c \<notin> meta_area sb (slog s)"
  defines "t \<equiv> free_post sb c s"
  shows "used sb (sblk t) b \<longleftrightarrow> used sb (sblk s) b \<and> b \<noteq> c"
    and "b \<notin> bmap_area sb \<Longrightarrow> sblk t b = sblk s b"
    and "disk_ok sb t"
    and "sheld t = sheld s" "sunsaved t = sunsaved s" "snblk t = snblk s"
    and "meta_area sb (slog t) = meta_area sb (slog s)"
    and "can_log s B k \<Longrightarrow> bmap_area sb \<subseteq> B \<Longrightarrow> can_log t B k"
proof -
  show us: "used sb (sblk t) b \<longleftrightarrow> used sb (sblk s) b \<and> b \<noteq> c" for b
    using used_clear[of "sblk s" c sb b] BBLOCK_ok(2)[OF ok c(1)] by (simp add: t_def free_post_def)
  show "b \<notin> bmap_area sb \<Longrightarrow> sblk t b = sblk s b"
    using BBLOCK_area[OF c(1)] by (auto simp: t_def free_post_def)
  show fr: "sheld t = sheld s" "sunsaved t = sunsaved s" "snblk t = snblk s"
    by (simp_all add: t_def free_post_def)
  have lg: "log_area (slog t) = log_area (slog s)"
    by (simp add: t_def free_post_def log_area_def)
  then show meta: "meta_area sb (slog t) = meta_area sb (slog s)" by (simp add: meta_area_def)
  have "length (sblk t b) = BSIZE" for b
    using ok by (simp add: t_def free_post_def disk_ok_def)
  moreover have "used sb (sblk t) b" if "b \<in> meta_area sb (slog s)" for b
    using us[of b] ok that c(2) by (auto simp: disk_ok_def)
  ultimately show "disk_ok sb t"
    using ok by (simp add: disk_ok_def meta lg fr)
  show "can_log s B k \<Longrightarrow> bmap_area sb \<subseteq> B \<Longrightarrow> can_log t B k"
    using can_log_absorb[of s B k "BBLOCK c sb" t] BBLOCK_area[OF c(1)] by (auto simp: t_def free_post_def)
qed

section \<open>Properties\<close>

text \<open>C20. \<open>balloc\<close> returns the lowest free block, never one of the metadata blocks, zeroes it, marks
  it and no other block used, and changes no other block's contents except in the free map; when
  every block is used it panics.\<close>

theorem balloc_correct:
  assumes "disk_ok sb s" and "can_log s (bmap_area sb) 1" and "sunsaved s = []" and "sheld s = []"
  shows "case balloc sb s of
      Inr (c, t) \<Rightarrow> c < sb_size sb \<and> \<not> used sb (sblk s) c \<and> (\<forall>e < c. used sb (sblk s) e) \<and>
        c \<notin> meta_area sb (slog s) \<and> sblk t c = replicate BSIZE 0 \<and>
        (\<forall>b < sb_size sb. used sb (sblk t) b \<longleftrightarrow> used sb (sblk s) b \<or> b = c) \<and>
        (\<forall>b. b \<noteq> c \<and> b \<notin> bmap_area sb \<longrightarrow> sblk t b = sblk s b) \<and> disk_ok sb t \<and> sheld t = []
    | Inl e \<Rightarrow> e = Panic ''balloc: out of blocks'' \<and> (\<forall>c < sb_size sb. used sb (sblk s) c)"
proof (cases "\<exists>c < sb_size sb. \<not> used sb (sblk s) c")
  case True
  from balloc_ok[OF assms(1,2) _ assms(3) _ _ True] assms(4) obtain c where
    c: "c < sb_size sb" "\<not> used sb (sblk s) c" "\<forall>e < c. used sb (sblk s) e" "balloc sb s = Inr (c, alloc_post sb c s)"
    by auto
  show ?thesis
    using c alloc_post_ok[OF assms(1) c(1,2)] assms(4) by simp
next
  case False
  then show ?thesis
    using balloc_from_none[OF assms(1-3), of 0] assms(4) by (auto simp: balloc_def)
qed

text \<open>A small disk: 40 blocks, a log of 20, 16 inodes, and data blocks from 26 on, all of them free.\<close>

definition demo_sb :: superblock where
  "demo_sb = \<lparr>sb_size = 40, sb_nblocks = 14, sb_ninodes = 16, sb_nlog = 20, sb_nswap = 0, sb_logstart = 2,
     sb_inodestart = 22, sb_bmapstart = 25, sb_swapstart = 40\<rparr>"

definition demo_map :: block where
  "demo_map = [255, 255, 255, 3] @ replicate 508 0"

definition demo_store :: store where
  "demo_store = \<lparr>sblk = (\<lambda>_. replicate BSIZE 0)(25 := demo_map), snblk = 40, sheld = [], sunsaved = [],
     slog = \<lparr>l_start = 2, l_size = 20, l_outstanding = 1, l_committing = False, l_dev = ROOTDEV, l_lh = []\<rparr>\<rparr>"

lemma demo_areas:
  "bmap_area demo_sb = {25}" "inode_area demo_sb = {22, 23, 24}" "log_area (slog demo_store) = {2..<22}"
  by (auto simp: bmap_area_def inode_area_def log_area_def demo_sb_def demo_store_def)

lemma demo_used_bits: "list_all (\<lambda>b. bit_clear demo_map b = (b \<ge> 26)) [0..<40]"
  by code_simp

lemma demo_used: "b < 40 \<Longrightarrow> used demo_sb (sblk demo_store) b \<longleftrightarrow> b < 26"
  using demo_used_bits by (auto simp: list_all_iff used_def BBLOCK_def demo_sb_def demo_store_def)

lemma demo_disk_ok: "disk_ok demo_sb demo_store"
proof -
  have sz: "sb_size demo_sb = 40" "snblk demo_store = 40" by (simp_all add: demo_sb_def demo_store_def)
  have meta: "meta_area demo_sb (slog demo_store) = {..<26}"
    by (auto simp: meta_area_def demo_areas)
  moreover have "length (sblk demo_store b) = BSIZE" for b by (simp add: demo_store_def demo_map_def)
  moreover have "used demo_sb (sblk demo_store) b" if "b < 26" for b using demo_used[of b] that by simp
  ultimately show ?thesis
    by (auto simp: disk_ok_def sz demo_areas)
qed

lemma demo_can_log:
  assumes "finite B" and "card B + k < 19" shows "can_log demo_store B k"
  using assms by (simp add: can_log_def demo_store_def NBUF_def)

lemma demo_idle [simp]: "sheld demo_store = []" "sunsaved demo_store = []" "l_lh (slog demo_store) = []"
  by (simp_all add: demo_store_def)

theorem balloc_correct_witness:
  "\<exists>t. balloc demo_sb demo_store = Inr (26, t) \<and> used demo_sb (sblk t) 26 \<and> \<not> used demo_sb (sblk t) 27"
proof -
  have "can_log demo_store (bmap_area demo_sb) 1" by (rule demo_can_log) (simp_all add: demo_areas)
  note B = balloc_correct[OF demo_disk_ok this demo_idle(2,1)]
  have sz: "sb_size demo_sb = 40" by (simp add: demo_sb_def)
  show ?thesis
  proof (cases "balloc demo_sb demo_store")
    case (Inl e)
    with B demo_used[of 30] show ?thesis by (simp add: sz)
  next
    case (Inr r)
    obtain c t where r: "r = (c, t)" by (cases r)
    have c: "c < 40" "\<not> c < 26" "\<forall>e<c. used demo_sb (sblk demo_store) e"
      and u: "\<forall>b<40. used demo_sb (sblk t) b \<longleftrightarrow> used demo_sb (sblk demo_store) b \<or> b = c"
      using B demo_used[of c] by (auto simp: Inr r sz)
    have "\<not> 26 < c" using c(3) demo_used[of 26] by auto
    then have "c = 26" using c(2) by simp
    with u demo_used[of 27] show ?thesis by (simp add: Inr r)
  qed
qed

end
