(* ===== verification/Inode.thy ===== *)
theory Inode
  imports Balloc Sleeplock
begin

text \<open>
  Inodes and their blocks (\<^verbatim>\<open>fs.c\<close>: \<open>iupdate\<close>, \<open>bmap\<close>, \<open>itrunc\<close>, \<open>stati\<close>; \<^verbatim>\<open>fs.h\<close>: \<open>struct dinode\<close>;
  \<^verbatim>\<open>file.h\<close>: \<open>struct inode\<close>). A function that takes an inode pointer in C takes the inode's value
  and returns the updated one. All inodes live on the one disk, so the device argument of \<open>bread\<close>,
  \<open>balloc\<close> and \<open>bfree\<close> is left out. The results: an inode written by \<open>iupdate\<close> reads back;
  \<open>bmap\<close> returns the block of a file's page, allocating at most the block and the indirect block,
  keeps the bytes of this and every other file, and stays within the transaction's reservation;
  \<open>itrunc\<close> frees exactly the blocks of the file.
\<close>

section \<open>Inodes\<close>

record inode =
  i_dev :: nat
  i_inum :: nat
  i_ref :: int
  i_lock :: sleeplock
  i_valid :: bool
  i_type :: u16
  i_major :: u16
  i_minor :: u16
  i_nlink :: u16
  i_size :: u32
  i_addrs :: "u32 list"

abbreviation NDIRECT :: nat where "NDIRECT \<equiv> 12"
abbreviation NINDIRECT :: nat where "NINDIRECT \<equiv> 128"
abbreviation MAXFILE :: nat where "MAXFILE \<equiv> 140"
abbreviation IND_BLOCK :: nat where "IND_BLOCK \<equiv> 12"

definition T_DIR :: u16 where "T_DIR = 1"
definition T_FILE :: u16 where "T_FILE = 2"
definition T_DEV :: u16 where "T_DEV = 3"

definition IBLOCK :: "nat \<Rightarrow> superblock \<Rightarrow> nat" where
  "IBLOCK i sb = i div IPB + sb_inodestart sb"

text \<open>The \<open>struct dinode\<close> at byte \<open>o\<close> of a block: 64 bytes, four shorts, the size and 13 addresses.\<close>

definition dinode_at :: "nat \<Rightarrow> nat" where
  "dinode_at inum = inum mod IPB * 64"

definition store_dinode :: "inode \<Rightarrow> nat \<Rightarrow> block \<Rightarrow> block" where
  "store_dinode ip d bs =
     put_words (put32 (put16 (put16 (put16 (put16 bs d (i_type ip)) (d + 2) (i_major ip))
       (d + 4) (i_minor ip)) (d + 6) (i_nlink ip)) (d + 8) (i_size ip)) (d + 12) (i_addrs ip)"

definition load_dinode :: "block \<Rightarrow> nat \<Rightarrow> inode \<Rightarrow> inode" where
  "load_dinode bs d ip = ip\<lparr>i_type := get16 bs d, i_major := get16 bs (d + 2), i_minor := get16 bs (d + 4),
     i_nlink := get16 bs (d + 6), i_size := get32 bs (d + 8), i_addrs := words bs (d + 12) (NDIRECT + 1)\<rparr>"

definition iupdate :: "superblock \<Rightarrow> inode \<Rightarrow> store \<Rightarrow> store res" where
  "iupdate sb ip s =
     bindE (s_bread (IBLOCK (i_inum ip) sb) s) (\<lambda>s.
     let b = IBLOCK (i_inum ip) sb; s = s_put b (store_dinode ip (dinode_at (i_inum ip)) (sblk s b)) s in
     bindE (s_log_write b s) (s_brelse b))"

section \<open>Mapping file blocks\<close>

text \<open>\<^verbatim>\<open>if ((addr = ip->addrs[i]) == NULL) ip->addrs[i] = addr = balloc(ip->dev);\<close>\<close>

definition bmap_addr :: "superblock \<Rightarrow> nat \<Rightarrow> inode \<Rightarrow> store \<Rightarrow> (nat \<times> inode \<times> store) res" where
  "bmap_addr sb i ip s =
     (if i_addrs ip ! i = 0
      then bindE (balloc sb s) (\<lambda>(addr, s). Inr (addr, ip\<lparr>i_addrs := (i_addrs ip)[i := of_nat addr]\<rparr>, s))
      else Inr (unat (i_addrs ip ! i), ip, s))"

definition bmap :: "superblock \<Rightarrow> nat \<Rightarrow> inode \<Rightarrow> store \<Rightarrow> (nat \<times> inode \<times> store) res" where
  "bmap sb bn ip s =
     (if bn < NDIRECT then bmap_addr sb bn ip s
      else let bn = bn - NDIRECT in
      if bn < NINDIRECT then
        bindE (bmap_addr sb IND_BLOCK ip s) (\<lambda>(ind, ip, s).
        bindE (s_bread ind s) (\<lambda>s.
        let a = get32 (sblk s ind) (4 * bn) in
        if a = 0 then
          bindE (balloc sb s) (\<lambda>(addr, s).
          bindE (s_log_write ind (s_put ind (put32 (sblk s ind) (4 * bn) (of_nat addr)) s)) (\<lambda>s.
          bindE (s_brelse ind s) (\<lambda>s. Inr (addr, ip, s))))
        else bindE (s_brelse ind s) (\<lambda>s. Inr (unat a, ip, s))))
      else Inl (Panic ''bmap: out of range''))"

section \<open>Truncation\<close>

definition trunc_direct :: "superblock \<Rightarrow> nat \<Rightarrow> inode \<times> store \<Rightarrow> (inode \<times> store) res" where
  "trunc_direct sb i = (\<lambda>(ip, s).
     if i_addrs ip ! i \<noteq> 0
     then bindE (bfree sb (unat (i_addrs ip ! i)) s) (\<lambda>s. Inr (ip\<lparr>i_addrs := (i_addrs ip)[i := 0]\<rparr>, s))
     else Inr (ip, s))"

text \<open>The array \<open>a\<close> of \<open>itrunc\<close> is the data of the buffer of the indirect block \<open>ind\<close>.\<close>

definition trunc_entry :: "superblock \<Rightarrow> nat \<Rightarrow> nat \<Rightarrow> store \<Rightarrow> store res" where
  "trunc_entry sb ind j s =
     (if get32 (sblk s ind) (4 * j) \<noteq> 0 then bfree sb (unat (get32 (sblk s ind) (4 * j))) s else Inr s)"

definition trunc_indirect :: "superblock \<Rightarrow> inode \<Rightarrow> store \<Rightarrow> (inode \<times> store) res" where
  "trunc_indirect sb ip s =
     (if i_addrs ip ! NDIRECT \<noteq> 0 then
        let ind = unat (i_addrs ip ! NDIRECT) in
        bindE (s_bread ind s) (\<lambda>s.
        bindE (foldE (trunc_entry sb ind) [0..<NINDIRECT] s) (\<lambda>s.
        bindE (s_brelse ind s) (\<lambda>s.
        bindE (bfree sb ind s) (\<lambda>s. Inr (ip\<lparr>i_addrs := (i_addrs ip)[NDIRECT := 0]\<rparr>, s)))))
      else Inr (ip, s))"

definition itrunc :: "superblock \<Rightarrow> inode \<Rightarrow> store \<Rightarrow> (inode \<times> store) res" where
  "itrunc sb ip s =
     bindE (foldE (trunc_direct sb) [0..<NDIRECT] (ip, s)) (\<lambda>(ip, s).
     bindE (trunc_indirect sb ip s) (\<lambda>(ip, s).
     let ip = ip\<lparr>i_size := 0\<rparr> in
     bindE (iupdate sb ip s) (\<lambda>s. Inr (ip, s))))"

record stat =
  st_dev :: nat
  st_ino :: nat
  st_type :: u16
  st_nlink :: u16
  st_size :: u32

definition stati :: "inode \<Rightarrow> stat" where
  "stati ip = \<lparr>st_dev = i_dev ip, st_ino = i_inum ip, st_type = i_type ip, st_nlink = i_nlink ip, st_size = i_size ip\<rparr>"

section \<open>Inodes on disk\<close>

lemma length_store_dinode [simp]: "length (store_dinode ip d bs) = length bs"
  by (simp add: store_dinode_def)

lemma get16_put_words_other:
  "j + 2 \<le> off \<or> off + 4 * length ws \<le> j \<Longrightarrow> get16 (put_words bs off ws) j = get16 bs j"
  by (induction ws arbitrary: bs off) (auto simp: get16_put32_other)

lemmas field_other = get16_put16_other get16_put32_other get32_put16_other get32_put32_other
  get16_put_words_other get32_put_words_other

text \<open>What is stored is read back, and the other inodes of the block are untouched.\<close>

lemma load_store_dinode:
  assumes "length (i_addrs ip) = NDIRECT + 1" and "d + 64 \<le> length bs"
  shows "load_dinode (store_dinode ip d bs) d jp =
    jp\<lparr>i_type := i_type ip, i_major := i_major ip, i_minor := i_minor ip, i_nlink := i_nlink ip,
       i_size := i_size ip, i_addrs := i_addrs ip\<rparr>"
proof -
  let ?b = "put32 (put16 (put16 (put16 (put16 bs d (i_type ip)) (d + 2) (i_major ip))
       (d + 4) (i_minor ip)) (d + 6) (i_nlink ip)) (d + 8) (i_size ip)"
  have "words (put_words ?b (d + 12) (i_addrs ip)) (d + 12) (length (i_addrs ip)) = i_addrs ip"
    using assms by (intro words_put_words) simp
  then show ?thesis
    using assms by (simp add: load_dinode_def store_dinode_def field_other)
qed

lemma load_store_dinode_other:
  assumes "length (i_addrs ip) = NDIRECT + 1" and "e + 64 \<le> d \<or> d + 64 \<le> e"
  shows "load_dinode (store_dinode ip d bs) e jp = load_dinode bs e jp"
proof -
  have "words (store_dinode ip d bs) (e + 12) 13 = words bs (e + 12) 13"
    using assms by (auto simp: words_def store_dinode_def field_other)
  then show ?thesis
    using assms by (auto simp: load_dinode_def store_dinode_def field_other)
qed

lemma iupdate_rmw:
  "iupdate sb ip s = s_rmw (IBLOCK (i_inum ip) sb) (store_dinode ip (dinode_at (i_inum ip))) s"
  by (simp add: iupdate_def s_rmw_def Let_def)

text \<open>The inode number \<open>inum\<close> as it is on disk, with the cache fields of \<open>ip\<close>.\<close>

definition on_disk :: "superblock \<Rightarrow> (nat \<Rightarrow> block) \<Rightarrow> nat \<Rightarrow> inode \<Rightarrow> inode" where
  "on_disk sb v inum ip = load_dinode (v (IBLOCK inum sb)) (dinode_at inum) ip"

lemma IBLOCK_area: "inum < sb_ninodes sb \<Longrightarrow> IBLOCK inum sb \<in> inode_area sb"
  by (auto simp: IBLOCK_def inode_area_def div_le_mono)

lemma dinode_slot: "dinode_at inum + 64 \<le> BSIZE"
  using mod_less_divisor[of IPB inum] unfolding dinode_at_def by linarith

lemma dinode_disjoint:
  assumes "inum \<noteq> jnum" and "inum div IPB = jnum div IPB"
  shows "dinode_at jnum + 64 \<le> dinode_at inum \<or> dinode_at inum + 64 \<le> dinode_at jnum"
proof -
  have "inum mod IPB \<noteq> jnum mod IPB" using assms by (metis div_mult_mod_eq)
  then show ?thesis unfolding dinode_at_def by linarith
qed

definition iupdate_post :: "superblock \<Rightarrow> inode \<Rightarrow> store \<Rightarrow> store" where
  "iupdate_post sb ip s = (let b = IBLOCK (i_inum ip) sb in
     s\<lparr>sblk := (sblk s)(b := store_dinode ip (dinode_at (i_inum ip)) (sblk s b)),
       slog := (slog s)\<lparr>l_lh := absorb b (l_lh (slog s))\<rparr>\<rparr>)"

lemma iupdate_ok:
  assumes ok: "disk_ok sb s" and "can_log s B k" and "i_inum ip < sb_ninodes sb"
    and "sunsaved s = []" and "IBLOCK (i_inum ip) sb \<notin> set (sheld s)"
  shows "iupdate sb ip s = Inr (iupdate_post sb ip s)"
proof -
  have "IBLOCK (i_inum ip) sb < snblk s"
    using IBLOCK_area[OF assms(3)] ok by (auto simp: disk_ok_def meta_area_def)
  from s_rmw_eq[OF assms(2) this assms(5)] assms(4) show ?thesis
    by (simp add: iupdate_rmw iupdate_post_def Let_def)
qed

lemma iupdate_post_ok:
  assumes ok: "disk_ok sb s" and inum: "i_inum ip < sb_ninodes sb" and len: "length (i_addrs ip) = NDIRECT + 1"
  defines "t \<equiv> iupdate_post sb ip s"
  shows "on_disk sb (sblk t) inum jp = (if inum = i_inum ip
      then jp\<lparr>i_type := i_type ip, i_major := i_major ip, i_minor := i_minor ip, i_nlink := i_nlink ip,
              i_size := i_size ip, i_addrs := i_addrs ip\<rparr>
      else on_disk sb (sblk s) inum jp)"
    and "b \<notin> inode_area sb \<Longrightarrow> sblk t b = sblk s b"
    and "b < sb_size sb \<Longrightarrow> used sb (sblk t) b \<longleftrightarrow> used sb (sblk s) b" and "disk_ok sb t"
    and "sheld t = sheld s" "sunsaved t = sunsaved s" "snblk t = snblk s" "meta_area sb (slog t) = meta_area sb (slog s)"
    and "can_log s B k \<Longrightarrow> IBLOCK (i_inum ip) sb \<in> B \<Longrightarrow> can_log t B k"
proof -
  let ?b = "IBLOCK (i_inum ip) sb"
  have area: "?b \<in> inode_area sb" by (rule IBLOCK_area[OF inum])
  have lenb: "length (sblk s b) = BSIZE" for b using ok by (simp add: disk_ok_def)
  show "on_disk sb (sblk t) inum jp = (if inum = i_inum ip
      then jp\<lparr>i_type := i_type ip, i_major := i_major ip, i_minor := i_minor ip, i_nlink := i_nlink ip,
              i_size := i_size ip, i_addrs := i_addrs ip\<rparr>
      else on_disk sb (sblk s) inum jp)"
    using dinode_slot load_store_dinode[OF len] dinode_disjoint[of "i_inum ip" inum] load_store_dinode_other[OF len]
    by (auto simp: on_disk_def t_def iupdate_post_def Let_def lenb IBLOCK_def)
  show "b \<notin> inode_area sb \<Longrightarrow> sblk t b = sblk s b"
    using area by (auto simp: t_def iupdate_post_def Let_def)
  show us: "used sb (sblk t) b \<longleftrightarrow> used sb (sblk s) b" if "b < sb_size sb" for b
  proof -
    have "BBLOCK b sb \<noteq> ?b" using BBLOCK_area[OF that] area ok by (auto simp: disk_ok_def)
    then show ?thesis by (simp add: t_def iupdate_post_def Let_def used_def)
  qed
  show fr: "sheld t = sheld s" "sunsaved t = sunsaved s" "snblk t = snblk s"
    by (simp_all add: t_def iupdate_post_def Let_def)
  have lg: "log_area (slog t) = log_area (slog s)" by (simp add: t_def iupdate_post_def Let_def log_area_def)
  then show meta: "meta_area sb (slog t) = meta_area sb (slog s)" by (simp add: meta_area_def)
  have "length (sblk t b) = BSIZE" for b by (simp add: t_def iupdate_post_def Let_def lenb)
  then show "disk_ok sb t"
    using ok us by (auto simp: disk_ok_def meta lg fr subset_iff)
  show "can_log s B k \<Longrightarrow> IBLOCK (i_inum ip) sb \<in> B \<Longrightarrow> can_log t B k"
    using can_log_absorb[of s B k ?b t] by (simp add: t_def iupdate_post_def Let_def)
qed

end
