(* ===== verification/Bmap.thy ===== *)
theory Bmap
  imports Inode
begin

text \<open>
  The blocks and the bytes of a file, and what \<open>bmap\<close> (\<^verbatim>\<open>fs.c\<close>) does to them. \<open>blk_of\<close> is the
  block number of each page of the file, 0 where there is none; \<open>file_ok\<close> says that these blocks
  and the indirect block are distinct data blocks marked used. \<open>bmap\<close> returns the block of a page,
  allocating it (and the indirect block) when it is missing; no byte of this or of another file
  changes.
\<close>

section \<open>Blocks of a file\<close>

definition ind_of :: "inode \<Rightarrow> nat" where
  "ind_of ip = unat (i_addrs ip ! IND_BLOCK)"

definition blk_of :: "(nat \<Rightarrow> block) \<Rightarrow> inode \<Rightarrow> nat \<Rightarrow> nat" where
  "blk_of v ip k =
     (if k < NDIRECT then unat (i_addrs ip ! k)
      else if ind_of ip = 0 then 0
      else unat (get32 (v (ind_of ip)) (4 * (k - NDIRECT))))"

definition data_block :: "superblock \<Rightarrow> store \<Rightarrow> nat \<Rightarrow> bool" where
  "data_block sb s b \<longleftrightarrow> b < sb_size sb \<and> b \<notin> meta_area sb (slog s) \<and> used sb (sblk s) b"

definition layout_ok :: "superblock \<Rightarrow> store \<Rightarrow> nat \<Rightarrow> (nat \<Rightarrow> nat) \<Rightarrow> bool" where
  "layout_ok sb s ind f \<longleftrightarrow>
     (\<forall>k<MAXFILE. f k \<noteq> 0 \<longrightarrow> data_block sb s (f k) \<and> f k \<noteq> ind \<and> (\<forall>j<MAXFILE. j \<noteq> k \<longrightarrow> f j \<noteq> f k)) \<and>
     (ind \<noteq> 0 \<longrightarrow> data_block sb s ind)"

definition file_ok :: "superblock \<Rightarrow> store \<Rightarrow> inode \<Rightarrow> bool" where
  "file_ok sb s ip \<longleftrightarrow> length (i_addrs ip) = NDIRECT + 1 \<and> layout_ok sb s (ind_of ip) (blk_of (sblk s) ip)"

text \<open>The byte at offset \<open>i\<close>; a page without a block reads as zeros.\<close>

definition fbyte :: "(nat \<Rightarrow> block) \<Rightarrow> inode \<Rightarrow> nat \<Rightarrow> u8" where
  "fbyte v ip i = (let b = blk_of v ip (i div BSIZE) in if b = 0 then 0 else v b ! (i mod BSIZE))"

definition free_blocks :: "superblock \<Rightarrow> store \<Rightarrow> nat" where
  "free_blocks sb s = card {c. c < sb_size sb \<and> \<not> used sb (sblk s) c}"

lemma file_ok_blk:
  assumes "file_ok sb s ip" and "k < MAXFILE" and "blk_of (sblk s) ip k \<noteq> 0"
  shows "data_block sb s (blk_of (sblk s) ip k)" and "blk_of (sblk s) ip k \<noteq> ind_of ip"
    and "j < MAXFILE \<Longrightarrow> j \<noteq> k \<Longrightarrow> blk_of (sblk s) ip j \<noteq> blk_of (sblk s) ip k"
  using assms by (auto simp: file_ok_def layout_ok_def)

lemma file_ok_ind: "file_ok sb s ip \<Longrightarrow> ind_of ip \<noteq> 0 \<Longrightarrow> data_block sb s (ind_of ip)"
  by (simp add: file_ok_def layout_ok_def)

lemma data_block_pos: "data_block sb s b \<Longrightarrow> b \<noteq> 0"
  by (auto simp: data_block_def meta_area_def)

lemma data_block_area: "data_block sb s b \<Longrightarrow> b \<notin> bmap_area sb" "data_block sb s b \<Longrightarrow> b \<notin> inode_area sb"
  by (auto simp: data_block_def meta_area_def)

section \<open>Growing a file\<close>

text \<open>
  \<open>grows sb s ip t ip'\<close>: from \<open>s\<close> to \<open>t\<close> pages without a block may have got a fresh block of zeros,
  the file may have got an indirect block, and nothing else that was in use changed.
\<close>

definition grows :: "superblock \<Rightarrow> store \<Rightarrow> inode \<Rightarrow> store \<Rightarrow> inode \<Rightarrow> bool" where
  "grows sb s ip t ip' \<longleftrightarrow>
     disk_ok sb t \<and> file_ok sb t ip' \<and> ip' = ip\<lparr>i_addrs := i_addrs ip'\<rparr> \<and>
     sheld t = sheld s \<and> sunsaved t = sunsaved s \<and> snblk t = snblk s \<and> meta_area sb (slog t) = meta_area sb (slog s) \<and>
     (\<forall>b < sb_size sb. used sb (sblk s) b \<longrightarrow>
        used sb (sblk t) b \<and> (b \<notin> bmap_area sb \<and> b \<noteq> ind_of ip \<longrightarrow> sblk t b = sblk s b)) \<and>
     (\<forall>k<MAXFILE. if blk_of (sblk s) ip k = 0
        then blk_of (sblk t) ip' k = 0 \<or>
          \<not> used sb (sblk s) (blk_of (sblk t) ip' k) \<and> sblk t (blk_of (sblk t) ip' k) = replicate BSIZE 0
        else blk_of (sblk t) ip' k = blk_of (sblk s) ip k) \<and>
     (if ind_of ip = 0 then ind_of ip' = 0 \<or> \<not> used sb (sblk s) (ind_of ip') else ind_of ip' = ind_of ip)"

lemma grows_refl: "disk_ok sb s \<Longrightarrow> file_ok sb s ip \<Longrightarrow> grows sb s ip s ip"
  by (simp add: grows_def)

lemma growsD:
  assumes "grows sb s ip t ip'"
  shows "disk_ok sb t" and "file_ok sb t ip'" and "ip' = ip\<lparr>i_addrs := i_addrs ip'\<rparr>"
    and "sheld t = sheld s" "sunsaved t = sunsaved s" "snblk t = snblk s" "meta_area sb (slog t) = meta_area sb (slog s)"
    and "b < sb_size sb \<Longrightarrow> used sb (sblk s) b \<Longrightarrow> used sb (sblk t) b"
    and "b < sb_size sb \<Longrightarrow> used sb (sblk s) b \<Longrightarrow> b \<notin> bmap_area sb \<Longrightarrow> b \<noteq> ind_of ip \<Longrightarrow> sblk t b = sblk s b"
    and "k < MAXFILE \<Longrightarrow> blk_of (sblk s) ip k \<noteq> 0 \<Longrightarrow> blk_of (sblk t) ip' k = blk_of (sblk s) ip k"
    and "k < MAXFILE \<Longrightarrow> blk_of (sblk s) ip k = 0 \<Longrightarrow> blk_of (sblk t) ip' k \<noteq> 0 \<Longrightarrow>
      \<not> used sb (sblk s) (blk_of (sblk t) ip' k) \<and> sblk t (blk_of (sblk t) ip' k) = replicate BSIZE 0"
    and "ind_of ip \<noteq> 0 \<Longrightarrow> ind_of ip' = ind_of ip"
    and "ind_of ip = 0 \<Longrightarrow> ind_of ip' \<noteq> 0 \<Longrightarrow> \<not> used sb (sblk s) (ind_of ip')"
  using assms by (auto simp: grows_def split: if_splits)

lemma grows_data_block: "grows sb s ip t ip' \<Longrightarrow> data_block sb s b \<Longrightarrow> data_block sb t b"
  by (auto simp: data_block_def grows_def)

lemma grows_fbyte:
  assumes "grows sb s ip t ip'" and "file_ok sb s ip" and "i < MAXFILE * BSIZE"
  shows "fbyte (sblk t) ip' i = fbyte (sblk s) ip i"
proof -
  have k: "i div BSIZE < MAXFILE" using assms(3) by (simp add: less_mult_imp_div_less)
  show ?thesis
  proof (cases "blk_of (sblk s) ip (i div BSIZE) = 0")
    case True
    then show ?thesis using growsD(11)[OF assms(1) k] by (auto simp: fbyte_def Let_def)
  next
    case False
    note b = file_ok_blk(1,2)[OF assms(2) k False]
    from growsD(9)[OF assms(1)] b data_block_area(1)[OF b(1)] show ?thesis
      using growsD(10)[OF assms(1) k False] False by (auto simp: fbyte_def Let_def data_block_def)
  qed
qed

lemma grows_trans:
  assumes st: "grows sb s ip t ip'" and tu: "grows sb t ip' u ip''"
  shows "grows sb s ip u ip''"
proof -
  have ind: "if ind_of ip = 0 then ind_of ip'' = 0 \<or> \<not> used sb (sblk s) (ind_of ip'') else ind_of ip'' = ind_of ip"
  proof (cases "ind_of ip'' = 0 \<or> ind_of ip' \<noteq> 0")
    case True
    then show ?thesis
      using growsD(12,13)[OF st] growsD(12)[OF tu] by (cases "ind_of ip = 0"; cases "ind_of ip' = 0") auto
  next
    case False
    then have "\<not> used sb (sblk t) (ind_of ip'')" "ind_of ip'' < sb_size sb"
      using growsD(13)[OF tu] file_ok_ind[OF growsD(2)[OF tu]] by (auto simp: data_block_def)
    then show ?thesis using growsD(8,12)[OF st] False by auto
  qed
  have page: "if blk_of (sblk s) ip k = 0 then blk_of (sblk u) ip'' k = 0 \<or>
          \<not> used sb (sblk s) (blk_of (sblk u) ip'' k) \<and> sblk u (blk_of (sblk u) ip'' k) = replicate BSIZE 0
        else blk_of (sblk u) ip'' k = blk_of (sblk s) ip k" if k: "k < MAXFILE" for k
  proof (cases "blk_of (sblk t) ip' k = 0")
    case True
    then have "blk_of (sblk s) ip k = 0" using growsD(10)[OF st k] by auto
    moreover have "data_block sb u (blk_of (sblk u) ip'' k)" if "blk_of (sblk u) ip'' k \<noteq> 0"
      using file_ok_blk(1)[OF growsD(2)[OF tu] k that] .
    ultimately show ?thesis
      using growsD(11)[OF tu k True] growsD(8)[OF st] by (auto simp: data_block_def)
  next
    case False
    let ?b = "blk_of (sblk t) ip' k"
    have eq: "blk_of (sblk u) ip'' k = ?b" by (rule growsD(10)[OF tu k False])
    note b = file_ok_blk(1,2)[OF growsD(2)[OF st] k False]
    have "sblk u ?b = sblk t ?b"
      using growsD(9)[OF tu] b data_block_area(1)[OF b(1)] by (simp add: data_block_def)
    then show ?thesis using growsD(10,11)[OF st k] False eq by auto
  qed
  have used: "used sb (sblk u) b \<and> (b \<notin> bmap_area sb \<and> b \<noteq> ind_of ip \<longrightarrow> sblk u b = sblk s b)"
    if b: "b < sb_size sb" "used sb (sblk s) b" for b
    using growsD(8,9,12,13)[OF st] growsD(8,9)[OF tu] b by metis
  have "ip'' = ip\<lparr>i_addrs := i_addrs ip''\<rparr>"
    using growsD(3)[OF st] growsD(3)[OF tu] by (metis inode.surjective inode.update_convs(11))
  then show ?thesis
    unfolding grows_def using growsD(1,2,4-7)[OF tu] growsD(4-7)[OF st] used page ind
    by (intro conjI; (blast | simp))
qed

text \<open>\<open>allocates sb c x s t\<close>: block \<open>c\<close> became used and zeroed; besides it and the free map, only \<open>x\<close> may have changed.\<close>

definition allocates :: "superblock \<Rightarrow> nat \<Rightarrow> nat \<Rightarrow> store \<Rightarrow> store \<Rightarrow> bool" where
  "allocates sb c x s t \<longleftrightarrow> c < sb_size sb \<and> \<not> used sb (sblk s) c \<and> disk_ok sb t \<and>
     sheld t = sheld s \<and> sunsaved t = sunsaved s \<and> snblk t = snblk s \<and> meta_area sb (slog t) = meta_area sb (slog s) \<and>
     (\<forall>b < sb_size sb. used sb (sblk t) b \<longleftrightarrow> used sb (sblk s) b \<or> b = c) \<and> sblk t c = replicate BSIZE 0 \<and>
     (\<forall>b. b \<noteq> c \<and> b \<notin> bmap_area sb \<and> b \<noteq> x \<longrightarrow> sblk t b = sblk s b)"

lemma allocates_balloc:
  assumes "disk_ok sb s" and "c < sb_size sb" and "\<not> used sb (sblk s) c"
  shows "allocates sb c x s (alloc_post sb c s)"
  using alloc_post_ok[OF assms] assms(2,3) by (simp add: allocates_def)

lemma allocates_free:
  assumes "allocates sb c x s t"
  shows "free_blocks sb s = Suc (free_blocks sb t)"
proof -
  let ?F = "\<lambda>s. {b. b < sb_size sb \<and> \<not> used sb (sblk s) b}"
  have "?F s = insert c (?F t)" "c \<notin> ?F t" using assms by (auto simp: allocates_def)
  then show ?thesis by (simp add: free_blocks_def)
qed

lemma allocates_data_block:
  assumes "disk_ok sb s" and "allocates sb c x s t"
  shows "data_block sb t b \<longleftrightarrow> data_block sb s b \<or> b = c"
proof -
  have "c \<notin> meta_area sb (slog s)" using assms by (auto simp: allocates_def disk_ok_def)
  then show ?thesis using assms(2) by (auto simp: allocates_def data_block_def)
qed

lemma allocates_pos: "disk_ok sb s \<Longrightarrow> allocates sb c x s t \<Longrightarrow> c \<noteq> 0"
  using allocates_data_block data_block_pos by blast

lemma allocates_fresh:
  assumes "file_ok sb s ip" and "allocates sb c x s t"
  shows "k < MAXFILE \<Longrightarrow> blk_of (sblk s) ip k \<noteq> 0 \<Longrightarrow> blk_of (sblk s) ip k \<noteq> c" and "ind_of ip \<noteq> 0 \<Longrightarrow> ind_of ip \<noteq> c"
  using file_ok_blk(1)[OF assms(1)] file_ok_ind[OF assms(1)] assms(2) by (auto simp: allocates_def data_block_def)

lemma grows_page:
  assumes ok: "disk_ok sb s" "file_ok sb s ip" and al: "allocates sb c (ind_of ip) s t"
    and ip': "ip' = ip\<lparr>i_addrs := i_addrs ip'\<rparr>" "length (i_addrs ip') = NDIRECT + 1" "ind_of ip' = ind_of ip"
    and bn: "bn < MAXFILE" "blk_of (sblk s) ip bn = 0"
    and blk: "\<And>k. k < MAXFILE \<Longrightarrow> blk_of (sblk t) ip' k = (if k = bn then c else blk_of (sblk s) ip k)"
  shows "grows sb s ip t ip'"
proof -
  note db = allocates_data_block[OF ok(1) al] and fresh = allocates_fresh[OF ok(2) al]
  note c0 = allocates_pos[OF ok(1) al]
  have "layout_ok sb t (ind_of ip') (blk_of (sblk t) ip')"
    unfolding layout_ok_def
  proof (intro conjI allI impI)
    fix k assume k: "k < MAXFILE" "blk_of (sblk t) ip' k \<noteq> 0"
    show "data_block sb t (blk_of (sblk t) ip' k)"
      using file_ok_blk(1)[OF ok(2) k(1)] k blk[OF k(1)] by (auto simp: db)
    show "blk_of (sblk t) ip' k \<noteq> ind_of ip'"
      using file_ok_blk(2)[OF ok(2) k(1)] k blk[OF k(1)] fresh(2) c0 by (auto simp: ip'(3))
    show "blk_of (sblk t) ip' j \<noteq> blk_of (sblk t) ip' k" if "j < MAXFILE" "j \<noteq> k" for j
      using file_ok_blk(3)[OF ok(2) k(1) _ that] k fresh(1)[OF k(1)] fresh(1)[OF that(1)] that(2) c0
      unfolding blk[OF k(1)] blk[OF that(1)] by (metis (full_types))
  next
    show "data_block sb t (ind_of ip')" if "ind_of ip' \<noteq> 0"
      using file_ok_ind[OF ok(2)] that by (simp add: db ip'(3))
  qed
  then have "file_ok sb t ip'" using ip'(2) by (simp add: file_ok_def)
  moreover have "if blk_of (sblk s) ip k = 0
        then blk_of (sblk t) ip' k = 0 \<or>
          \<not> used sb (sblk s) (blk_of (sblk t) ip' k) \<and> sblk t (blk_of (sblk t) ip' k) = replicate BSIZE 0
        else blk_of (sblk t) ip' k = blk_of (sblk s) ip k" if "k < MAXFILE" for k
    using blk[OF that] bn(2) al by (auto simp: allocates_def)
  moreover have "used sb (sblk t) b \<and> (b \<notin> bmap_area sb \<and> b \<noteq> ind_of ip \<longrightarrow> sblk t b = sblk s b)"
    if "b < sb_size sb" "used sb (sblk s) b" for b
    using al that unfolding allocates_def by metis
  ultimately show ?thesis
    unfolding grows_def using al ip'(1,3) by (simp add: allocates_def)
qed

lemma grows_indirect:
  assumes ok: "disk_ok sb s" "file_ok sb s ip" and al: "allocates sb c x s t" and x: "x = 0"
    and ip': "ip' = ip\<lparr>i_addrs := i_addrs ip'\<rparr>" "length (i_addrs ip') = NDIRECT + 1" "ind_of ip' = c" "ind_of ip = 0"
    and blk: "\<And>k. k < MAXFILE \<Longrightarrow> blk_of (sblk t) ip' k = blk_of (sblk s) ip k"
  shows "grows sb s ip t ip'"
proof -
  note db = allocates_data_block[OF ok(1) al] and fresh = allocates_fresh[OF ok(2) al]
  have "layout_ok sb t (ind_of ip') (blk_of (sblk t) ip')"
    unfolding layout_ok_def
  proof (intro conjI allI impI)
    fix k assume k: "k < MAXFILE" "blk_of (sblk t) ip' k \<noteq> 0"
    show "data_block sb t (blk_of (sblk t) ip' k)"
      using file_ok_blk(1)[OF ok(2) k(1)] k blk[OF k(1)] by (auto simp: db)
    show "blk_of (sblk t) ip' k \<noteq> ind_of ip'" using k blk[OF k(1)] fresh(1) by (simp add: ip'(3))
    show "blk_of (sblk t) ip' j \<noteq> blk_of (sblk t) ip' k" if "j < MAXFILE" "j \<noteq> k" for j
      using file_ok_blk(3)[OF ok(2) k(1)] k blk[OF k(1)] blk[OF that(1)] that by simp
  next
    show "data_block sb t (ind_of ip')" by (simp add: db ip'(3))
  qed
  then have "file_ok sb t ip'" using ip'(2) by (simp add: file_ok_def)
  moreover have "used sb (sblk t) b \<and> (b \<notin> bmap_area sb \<and> b \<noteq> ind_of ip \<longrightarrow> sblk t b = sblk s b)"
    if "b < sb_size sb" "used sb (sblk s) b" for b
    using al that ip'(4) x unfolding allocates_def by metis
  ultimately show ?thesis
    unfolding grows_def using al ip' blk by (simp add: allocates_def)
qed

section \<open>\<open>bmap\<close>\<close>

text \<open>
  What \<open>bmap\<close> needs: \<open>slack\<close> counts the indirect block the file may still have to allocate, and
  \<open>reserve B ip\<close> adds an existing one to the blocks already reserved for the transaction.
\<close>

definition slack :: "inode \<Rightarrow> nat" where
  "slack ip = (if ind_of ip = 0 then 1 else 0)"

definition reserve :: "nat set \<Rightarrow> inode \<Rightarrow> nat set" where
  "reserve B ip = B \<union> ({ind_of ip} - {0})"

lemma balloc_gets:
  assumes ok: "disk_ok sb s" and cl: "can_log s B (Suc k)" and B: "bmap_area sb \<subseteq> B" and "sunsaved s = []"
    and held: "\<forall>b\<in>set (sheld s). data_block sb s b" and "free_blocks sb s > 0"
  shows "\<exists>c t. balloc sb s = Inr (c, t) \<and> (\<forall>x. allocates sb c x s t) \<and> can_log t (insert c B) k"
proof -
  have "\<exists>c < sb_size sb. \<not> used sb (sblk s) c"
    using assms(6) by (auto simp: free_blocks_def card_gt_0_iff)
  moreover have "set (sheld s) \<inter> bmap_area sb = {}" "\<forall>c\<in>set (sheld s). c < sb_size sb \<longrightarrow> used sb (sblk s) c"
    using held by (auto simp: data_block_def meta_area_def)
  ultimately obtain c where c: "c < sb_size sb" "\<not> used sb (sblk s) c" "balloc sb s = Inr (c, alloc_post sb c s)"
    using balloc_ok[OF ok cl B assms(4)] by blast
  let ?u = "s\<lparr>slog := (slog s)\<lparr>l_lh := absorb (BBLOCK c sb) (l_lh (slog s))\<rparr>\<rparr>"
  have "can_log ?u (insert c B) k"
    using can_log_absorb[OF can_log_insert[OF cl, of c], of "BBLOCK c sb" ?u] BBLOCK_area[OF c(1)] B by auto
  then have "can_log (alloc_post sb c s) (insert c B) k"
    by (rule can_log_absorb[of _ _ _ c]) (simp_all add: alloc_post_def Let_def)
  then show ?thesis using c allocates_balloc[OF ok c(1,2)] by blast
qed

lemma unat_blk: "disk_ok sb s \<Longrightarrow> c < sb_size sb \<Longrightarrow> unat (of_nat c :: u32) = c"
  by (simp add: disk_ok_def unat_of_nat take_bit_nat_eq_self)

lemma allocates_ind_kept:
  assumes "file_ok sb s ip" and "allocates sb c 0 s t" and "ind_of ip \<noteq> 0"
  shows "sblk t (ind_of ip) = sblk s (ind_of ip)"
  using allocates_fresh(2)[OF assms] file_ok_ind[OF assms(1,3)] data_block_area(1) assms(2,3)
  by (auto simp: allocates_def)

lemma get32_zero: "4 * k + 4 \<le> n \<Longrightarrow> get32 (replicate n 0) (4 * k) = 0"
  by (simp add: get32_def)

lemma bmap_direct:
  assumes ok: "disk_ok sb s" "file_ok sb s ip" and k: "k < NDIRECT" and zero: "i_addrs ip ! k = 0"
    and al: "\<forall>x. allocates sb c x s t"
  defines "ip' \<equiv> ip\<lparr>i_addrs := (i_addrs ip)[k := of_nat c]\<rparr>"
  shows "grows sb s ip t ip'" and "blk_of (sblk t) ip' k = c"
proof -
  have len: "length (i_addrs ip) = NDIRECT + 1" using ok(2) by (simp add: file_ok_def)
  have c: "c < sb_size sb" using al by (auto simp: allocates_def)
  have ind: "ind_of ip' = ind_of ip" using k by (simp add: ind_of_def ip'_def)
  have blk: "blk_of (sblk t) ip' j = (if j = k then c else blk_of (sblk s) ip j)" for j
    using k len unat_blk[OF ok(1) c] allocates_ind_kept[OF ok(2) al[rule_format]]
    by (auto simp: blk_of_def ind nth_list_update) (auto simp: ip'_def)
  then show "blk_of (sblk t) ip' k = c" by simp
  show "grows sb s ip t ip'"
    by (rule grows_page[OF ok al[rule_format] _ _ ind _ _ blk]) (use k zero len in \<open>simp_all add: ip'_def blk_of_def\<close>)
qed

lemma bmap_new_indirect:
  assumes ok: "disk_ok sb s" "file_ok sb s ip" and zero: "i_addrs ip ! IND_BLOCK = 0" and al: "\<forall>x. allocates sb c x s t"
  defines "ip' \<equiv> ip\<lparr>i_addrs := (i_addrs ip)[IND_BLOCK := of_nat c]\<rparr>"
  shows "grows sb s ip t ip'" and "ind_of ip' = c"
proof -
  have len: "length (i_addrs ip) = NDIRECT + 1" using ok(2) by (simp add: file_ok_def)
  have c: "c < sb_size sb" and z: "sblk t c = replicate BSIZE 0" using al by (auto simp: allocates_def)
  show ind: "ind_of ip' = c" using len unat_blk[OF ok(1) c] by (simp add: ind_of_def ip'_def)
  have ind0: "ind_of ip = 0" using zero by (simp add: ind_of_def)
  have blk: "blk_of (sblk t) ip' j = blk_of (sblk s) ip j" if j: "j < MAXFILE" for j
  proof (cases "j < NDIRECT")
    case True
    then show ?thesis by (simp add: blk_of_def ip'_def)
  next
    case False
    then show ?thesis using j get32_zero[of "j - NDIRECT" BSIZE] by (simp add: blk_of_def ind ind0 z)
  qed
  show "grows sb s ip t ip'"
    by (rule grows_indirect[OF ok al[rule_format] refl _ _ ind ind0 blk]) (simp_all add: ip'_def len)
qed

text \<open>Storing the number of a fresh block in the indirect block.\<close>

definition set_entry :: "nat \<Rightarrow> nat \<Rightarrow> nat \<Rightarrow> store \<Rightarrow> store" where
  "set_entry ind j c t = t\<lparr>sblk := (sblk t)(ind := put32 (sblk t ind) (4 * j) (of_nat c)),
     sheld := [], slog := (slog t)\<lparr>l_lh := absorb ind (l_lh (slog t))\<rparr>\<rparr>"

lemma set_entry_allocates:
  assumes ok: "disk_ok sb s" and ind: "data_block sb s ind" and al: "allocates sb c ind (s\<lparr>sheld := [ind]\<rparr>) t"
    and "sheld s = []"
  shows "allocates sb c ind s (set_entry ind j c t)"
proof -
  let ?u = "set_entry ind j c t"
  have lg: "log_area (slog ?u) = log_area (slog t)" and meta: "meta_area sb (slog ?u) = meta_area sb (slog t)"
    by (simp_all add: set_entry_def log_area_def meta_area_def)
  have cind: "c \<noteq> ind" using ind al by (auto simp: allocates_def data_block_def)
  have us: "used sb (sblk ?u) b \<longleftrightarrow> used sb (sblk t) b" if "b < sb_size sb" for b
    using BBLOCK_area[OF that] data_block_area(1)[OF ind] by (auto simp: used_def set_entry_def)
  have tk: "disk_ok sb t" using al by (simp add: allocates_def)
  have "disk_ok sb ?u"
    using tk us meta lg by (auto simp: disk_ok_def subset_iff) (auto simp: set_entry_def)
  then show ?thesis
    using al us meta cind assms(4) by (auto simp: allocates_def) (auto simp: set_entry_def)
qed

lemma bmap_entry:
  assumes ok: "disk_ok sb s" "file_ok sb s ip" and j: "j < NINDIRECT" and ind: "ind_of ip \<noteq> 0"
    and zero: "get32 (sblk s (ind_of ip)) (4 * j) = 0" and "sheld s = []"
    and al: "\<forall>x. allocates sb c x (s\<lparr>sheld := [ind_of ip]\<rparr>) t"
  defines "u \<equiv> set_entry (ind_of ip) j c t"
  shows "grows sb s ip u ip" and "blk_of (sblk u) ip (j + NDIRECT) = c"
proof -
  let ?x = "ind_of ip"
  note db = file_ok_ind[OF ok(2) ind]
  note al' = set_entry_allocates[OF ok(1) db al[rule_format] assms(6), of j, folded u_def]
  have len: "length (i_addrs ip) = NDIRECT + 1" "length (sblk s ?x) = BSIZE"
    using ok by (simp_all add: file_ok_def disk_ok_def)
  have c: "c < sb_size sb" "c \<noteq> ?x" using al db by (auto simp: allocates_def data_block_def)
  have tx: "sblk t ?x = sblk s ?x" using al[rule_format, of 0] c(2) data_block_area(1)[OF db] ind by (auto simp: allocates_def)
  have blk: "blk_of (sblk u) ip k = (if k = j + NDIRECT then c else blk_of (sblk s) ip k)" for k
  proof (cases "k = j + NDIRECT \<or> k < NDIRECT")
    case True
    then show ?thesis
      using j len ind unat_blk[OF ok(1) c(1)] tx by (auto simp: blk_of_def u_def set_entry_def)
  next
    case False
    then have "4 * (k - NDIRECT) + 4 \<le> 4 * j \<or> 4 * j + 4 \<le> 4 * (k - NDIRECT)" by linarith
    from get32_put32_other[OF this] False ind tx show ?thesis
      by (simp add: blk_of_def u_def set_entry_def)
  qed
  then show "blk_of (sblk u) ip (j + NDIRECT) = c" by simp
  show "grows sb s ip u ip"
    by (rule grows_page[OF ok al' _ _ refl _ _ blk]) (use j ind zero len in \<open>simp_all add: blk_of_def\<close>)
qed

lemma set_entry_can_log:
  assumes "can_log t B k" and "ind \<in> B" shows "can_log (set_entry ind j c t) B k"
  by (rule can_log_absorb[OF assms]) (simp_all add: set_entry_def)

lemma bmap_mapped:
  assumes ok: "disk_ok sb s" "file_ok sb s ip" and bn: "bn < MAXFILE" "blk_of (sblk s) ip bn \<noteq> 0"
    and idle: "sheld s = []" "sunsaved s = []" and room: "\<forall>b. \<not> s_full b s"
  shows "bmap sb bn ip s = Inr (blk_of (sblk s) ip bn, ip, s)"
proof (cases "bn < NDIRECT")
  case True
  then show ?thesis using bn(2) by (auto simp: bmap_def bmap_addr_def blk_of_def)
next
  case False
  then have ind: "ind_of ip \<noteq> 0" using bn(2) by (simp add: blk_of_def split: if_splits)
  have "ind_of ip < snblk s" using file_ok_ind[OF ok(2) ind] ok(1) by (simp add: data_block_def disk_ok_def)
  then have "s_bread (ind_of ip) s = Inr (s\<lparr>sheld := [ind_of ip]\<rparr>)" using idle room by (simp add: s_bread_def)
  moreover have "s_brelse (ind_of ip) (s\<lparr>sheld := [ind_of ip]\<rparr>) = Inr s" using idle by (simp add: s_brelse_def)
  moreover have "bmap_addr sb IND_BLOCK ip s = Inr (ind_of ip, ip, s)" using ind by (auto simp: bmap_addr_def ind_of_def)
  ultimately show ?thesis using False bn ind by (auto simp: bmap_def blk_of_def Let_def)
qed

lemma bmap_addr_ind:
  assumes ok: "disk_ok sb s" "file_ok sb s ip" and idle: "sheld s = []" "sunsaved s = []"
    and B: "bmap_area sb \<subseteq> B" and cl: "can_log s (reserve B ip) (k + slack ip)" and fr: "n + slack ip \<le> free_blocks sb s"
  shows "\<exists>ip' t. bmap_addr sb IND_BLOCK ip s = Inr (ind_of ip', ip', t) \<and> grows sb s ip t ip' \<and> ind_of ip' \<noteq> 0 \<and>
    can_log t (reserve B ip') k \<and> n \<le> free_blocks sb t"
proof (cases "ind_of ip = 0")
  case False
  then have "i_addrs ip ! IND_BLOCK \<noteq> 0" by (auto simp: ind_of_def)
  then have "bmap_addr sb IND_BLOCK ip s = Inr (ind_of ip, ip, s)" by (simp add: bmap_addr_def ind_of_def)
  then show ?thesis using False grows_refl[OF ok] cl fr by (simp add: slack_def)
next
  case True
  then have z: "i_addrs ip ! IND_BLOCK = 0" by (simp add: ind_of_def unsigned_eq_0_iff)
  have R: "reserve B ip = B" using True by (simp add: reserve_def)
  have "can_log s B (Suc k)" "free_blocks sb s > 0" using cl fr True by (simp_all add: R slack_def)
  from balloc_gets[OF ok(1) this(1) B idle(2) _ this(2)] idle(1)
  obtain c t where c: "balloc sb s = Inr (c, t)" "\<forall>x. allocates sb c x s t" "can_log t (insert c B) k"
    by auto
  let ?ip = "ip\<lparr>i_addrs := (i_addrs ip)[IND_BLOCK := of_nat c]\<rparr>"
  note g = bmap_new_indirect[OF ok z c(2)]
  have "c \<noteq> 0" using allocates_pos[OF ok(1)] c(2) by blast
  moreover have "reserve B ?ip = insert c B" using g(2) \<open>c \<noteq> 0\<close> by (simp add: reserve_def)
  moreover have "bmap_addr sb IND_BLOCK ip s = Inr (ind_of ?ip, ?ip, t)" using z c(1) g(2) by (simp add: bmap_addr_def)
  moreover have "n \<le> free_blocks sb t" using allocates_free[OF c(2)[rule_format]] fr True by (simp add: slack_def)
  ultimately show ?thesis using g c(3) by (intro exI[of _ ?ip] exI[of _ t]) simp
qed

text \<open>The contract of \<open>bmap\<close>.\<close>

definition bmap_spec :: "superblock \<Rightarrow> nat \<Rightarrow> nat set \<Rightarrow> nat \<Rightarrow> nat \<Rightarrow> inode \<Rightarrow> store \<Rightarrow> bool" where
  "bmap_spec sb bn B k n ip s \<longleftrightarrow>
     (\<exists>c ip' t. bmap sb bn ip s = Inr (c, ip', t) \<and> grows sb s ip t ip' \<and> c = blk_of (sblk t) ip' bn \<and> c \<noteq> 0 \<and>
        can_log t (insert c (reserve B ip')) (k + slack ip') \<and> n + slack ip' \<le> free_blocks sb t \<and>
        (blk_of (sblk s) ip bn \<noteq> 0 \<longrightarrow> ip' = ip \<and> t = s))"

lemma bmap_ok_mapped:
  assumes ok: "disk_ok sb s" "file_ok sb s ip" and idle: "sheld s = []" "sunsaved s = []"
    and cl: "can_log s (reserve B ip) (Suc (k + slack ip))" and fr: "n + slack ip \<le> free_blocks sb s"
    and bn: "bn < MAXFILE" "blk_of (sblk s) ip bn \<noteq> 0"
  shows "bmap_spec sb bn B k n ip s"
proof -
  have "\<forall>b. \<not> s_full b s" using can_log_not_full[OF cl] by blast
  from bmap_mapped[OF ok bn idle this] show ?thesis
    using bn(2) grows_refl[OF ok] can_log_insert[OF cl] fr by (simp add: bmap_spec_def)
qed

lemma bmap_ok_direct:
  assumes ok: "disk_ok sb s" "file_ok sb s ip" and idle: "sheld s = []" "sunsaved s = []" and B: "bmap_area sb \<subseteq> B"
    and cl: "can_log s (reserve B ip) (Suc (k + slack ip))" and fr: "Suc (n + slack ip) \<le> free_blocks sb s"
    and bn: "bn < NDIRECT" "blk_of (sblk s) ip bn = 0"
  shows "bmap_spec sb bn B k n ip s"
proof -
  have z: "i_addrs ip ! bn = 0" using bn by (simp add: blk_of_def unsigned_eq_0_iff)
  have R: "bmap_area sb \<subseteq> reserve B ip" using B by (auto simp: reserve_def)
  from balloc_gets[OF ok(1) cl R idle(2)] idle(1) fr
  obtain c t where c: "balloc sb s = Inr (c, t)" "\<forall>x. allocates sb c x s t" "can_log t (insert c (reserve B ip)) (k + slack ip)"
    by auto
  let ?ip = "ip\<lparr>i_addrs := (i_addrs ip)[bn := of_nat c]\<rparr>"
  note g = bmap_direct[OF ok bn(1) z c(2)]
  have "c \<noteq> 0" using allocates_pos[OF ok(1)] c(2) by blast
  moreover have "ind_of ?ip = ind_of ip" using bn(1) by (simp add: ind_of_def)
  then have "reserve B ?ip = reserve B ip" "slack ?ip = slack ip" by (simp_all add: reserve_def slack_def)
  moreover have "bmap sb bn ip s = Inr (c, ?ip, t)" using z c(1) bn(1) by (simp add: bmap_def bmap_addr_def)
  moreover have "n + slack ip \<le> free_blocks sb t" using allocates_free[OF c(2)[rule_format]] fr by simp
  ultimately show ?thesis
    unfolding bmap_spec_def using g c(3) bn(2) by (intro exI[of _ c] exI[of _ ?ip] exI[of _ t]) simp
qed

lemma bmap_ok_indirect:
  assumes ok: "disk_ok sb s" "file_ok sb s ip" and idle: "sheld s = []" "sunsaved s = []" and B: "bmap_area sb \<subseteq> B"
    and cl: "can_log s (reserve B ip) (Suc (k + slack ip))" and fr: "Suc (n + slack ip) \<le> free_blocks sb s"
    and bn: "NDIRECT \<le> bn" "bn < MAXFILE" "blk_of (sblk s) ip bn = 0"
  shows "bmap_spec sb bn B k n ip s"
proof -
  let ?j = "bn - NDIRECT"
  from bmap_addr_ind[OF ok idle B, of "Suc k" "Suc n"] cl fr obtain ip' t where
    i: "bmap_addr sb IND_BLOCK ip s = Inr (ind_of ip', ip', t)" "grows sb s ip t ip'" "ind_of ip' \<noteq> 0"
      "can_log t (reserve B ip') (Suc k)" "Suc n \<le> free_blocks sb t" by auto
  let ?x = "ind_of ip'" and ?t1 = "t\<lparr>sheld := [ind_of ip']\<rparr>"
  note ok' = growsD(1,2)[OF i(2)] and db = file_ok_ind[OF growsD(2)[OF i(2)] i(3)]
  have idle': "sheld t = []" "sunsaved t = []" using growsD(4,5)[OF i(2)] idle by simp_all
  have sl: "slack ip' = 0" using i(3) by (simp add: slack_def)
  have rd: "s_bread ?x t = Inr ?t1"
    using s_bread_eq[OF i(4)] idle' db ok'(1) by (simp add: data_block_def disk_ok_def)
  show ?thesis
  proof (cases "get32 (sblk t ?x) (4 * ?j) = 0")
    case False
    then have b: "blk_of (sblk t) ip' bn = unat (get32 (sblk t ?x) (4 * ?j))" "blk_of (sblk t) ip' bn \<noteq> 0"
      using bn(1) i(3) by (simp_all add: blk_of_def unsigned_eq_0_iff)
    have "s_brelse ?x ?t1 = Inr t" using idle' by (simp add: s_brelse_def)
    then have "bmap sb bn ip s = Inr (blk_of (sblk t) ip' bn, ip', t)" using bn False i(1) rd b(1) by (simp add: bmap_def Let_def)
    then show ?thesis
      unfolding bmap_spec_def using i(2,5) b(2) bn(3) can_log_insert[OF i(4)] sl by auto
  next
    case True
    have cl1: "can_log ?t1 (reserve B ip') (Suc k)" by (rule can_log_held[OF i(4)]) simp_all
    have pre: "disk_ok sb ?t1" "bmap_area sb \<subseteq> reserve B ip'" "sunsaved ?t1 = []" "\<forall>b\<in>set (sheld ?t1). data_block sb ?t1 b"
      "free_blocks sb ?t1 > 0"
      using ok'(1) B idle'(2) db i(5) by (auto simp: disk_ok_def reserve_def data_block_def free_blocks_def)
    from balloc_gets[OF pre(1) cl1 pre(2-5)] obtain c u where
      c: "balloc sb ?t1 = Inr (c, u)" "\<forall>x. allocates sb c x ?t1 u" "can_log u (insert c (reserve B ip')) k" by blast
    have j: "?j < NINDIRECT" "?j + NDIRECT = bn" using bn by simp_all
    note e = bmap_entry[OF ok' j(1) i(3) True idle'(1) c(2), unfolded j(2)]
    have u: "sheld u = [?x]" "sunsaved u = []" using c(2) idle'(2) by (auto simp: allocates_def)
    have lw: "s_log_write ?x (s_put ?x (put32 (sblk u ?x) (4 * ?j) (of_nat c)) u) = Inr ((set_entry ?x ?j c u)\<lparr>sheld := [?x]\<rparr>)"
      using can_log_not_log_full[OF c(3)] u by (simp add: s_log_write_def s_put_def set_entry_def)
    moreover have "s_brelse ?x ((set_entry ?x ?j c u)\<lparr>sheld := [?x]\<rparr>) = Inr (set_entry ?x ?j c u)"
      using u by (simp add: s_brelse_def set_entry_def)
    ultimately have run: "bmap sb bn ip s = Inr (c, ip', set_entry ?x ?j c u)"
      using bn j True i(1) rd c(1) by (simp add: bmap_def Let_def)
    have c0: "c \<noteq> 0" using allocates_pos[OF pre(1)] c(2) by blast
    have "can_log (set_entry ?x ?j c u) (insert c (reserve B ip')) k"
      by (rule set_entry_can_log[OF c(3)]) (simp add: reserve_def i(3))
    moreover have "free_blocks sb (set_entry ?x ?j c u) \<ge> n"
      using allocates_free[OF set_entry_allocates[OF ok'(1) db c(2)[rule_format] idle'(1)], of ?j] i(5) by simp
    ultimately show ?thesis
      unfolding bmap_spec_def using run grows_trans[OF i(2) e(1)] e(2) c0 bn(3) sl
      by (intro exI[of _ c] exI[of _ ip'] exI[of _ "set_entry ?x ?j c u"]) simp
  qed
qed

lemma bmap_ok:
  assumes "disk_ok sb s" and "file_ok sb s ip" and "sheld s = []" and "sunsaved s = []" and "bmap_area sb \<subseteq> B"
    and "can_log s (reserve B ip) (Suc (k + slack ip))" and "Suc (n + slack ip) \<le> free_blocks sb s" and "bn < MAXFILE"
  shows "bmap_spec sb bn B k n ip s"
proof (cases "blk_of (sblk s) ip bn = 0")
  case True
  then show ?thesis
    using bmap_ok_direct[OF assms(1-7)] bmap_ok_indirect[OF assms(1-7)] assms(8) by (cases "bn < NDIRECT") auto
next
  case False
  then show ?thesis using bmap_ok_mapped[OF assms(1-4,6) _ assms(8)] assms(7) by simp
qed

end
