(* ===== verification/Fileio.thy ===== *)
theory Fileio
  imports Bmap
begin

text \<open>
  Reading and writing the bytes of an inode (\<^verbatim>\<open>fs.c\<close>: \<open>readi\<close>, \<open>writei\<close>). The destination of \<open>readi\<close>
  is returned as the list of bytes stored there, the source of \<open>writei\<close> is a list. The offset and
  the count are checked at their width of 32 bits; the loops then run below \<open>off + n\<close>, which those
  checks keep from wrapping, so they count in \<open>nat\<close>. The results: \<open>readi\<close> returns the bytes of the
  file; after \<open>writei\<close> the file holds the new bytes at their place and the old ones elsewhere, no
  other file changes, and the number of blocks logged is the number of pages plus the inode, the
  indirect block and the free map.
\<close>

section \<open>Operations\<close>

text \<open>The table \<open>devsw\<close> (\<^verbatim>\<open>file.h\<close>): the functions of a device, null when it has none.\<close>

record devops =
  dev_read :: "(inode \<Rightarrow> u32 \<Rightarrow> store \<Rightarrow> ((int \<times> u8 list) \<times> inode \<times> store) res) option"
  dev_write :: "(inode \<Rightarrow> u8 list \<Rightarrow> u32 \<Rightarrow> store \<Rightarrow> (int \<times> inode \<times> store) res) option"

definition NDEV :: int where "NDEV = 10"

definition dev_of :: "devops list \<Rightarrow> inode \<Rightarrow> devops option" where
  "dev_of devsw ip =
     (if sint (i_major ip) < 0 \<or> sint (i_major ip) \<ge> NDEV then None else Some (devsw ! nat (sint (i_major ip))))"

function readi_loop :: "superblock \<Rightarrow> nat \<Rightarrow> nat \<Rightarrow> inode \<Rightarrow> store \<Rightarrow> (u8 list \<times> inode \<times> store) res" where
  "readi_loop sb off n ip s =
     (if n = 0 then Inr ([], ip, s)
      else bindE (bmap sb (off div BSIZE) ip s) (\<lambda>(b, ip, s).
        bindE (s_bread b s) (\<lambda>s.
        let m = min n (BSIZE - off mod BSIZE); d = get_bytes (sblk s b) (off mod BSIZE) m in
        bindE (s_brelse b s) (\<lambda>s.
        bindE (readi_loop sb (off + m) (n - m) ip s) (\<lambda>(ds, ip, s). Inr (d @ ds, ip, s))))))"
  by pat_completeness auto
termination by (relation "measure (\<lambda>(sb, off, n, ip, s). n)") (auto simp: Let_def)

declare readi_loop.simps [simp del]

definition readi :: "devops list \<Rightarrow> superblock \<Rightarrow> u32 \<Rightarrow> u32 \<Rightarrow> inode \<Rightarrow> store \<Rightarrow> ((int \<times> u8 list) \<times> inode \<times> store) res" where
  "readi devsw sb off n ip s =
     (if i_type ip = T_DEV then
        case Option.bind (dev_of devsw ip) dev_read of None \<Rightarrow> Inr ((- 1, []), ip, s) | Some f \<Rightarrow> f ip n s
      else if off > i_size ip \<or> off + n < off then Inr ((- 1, []), ip, s)
      else let n = (if off + n > i_size ip then i_size ip - off else n) in
        bindE (readi_loop sb (unat off) (unat n) ip s) (\<lambda>(ds, ip, s). Inr ((sint n, ds), ip, s)))"

text \<open>The loop of \<open>writei\<close>; \<open>src\<close> is what is left to write. The final offset is returned too.\<close>

function writei_loop :: "superblock \<Rightarrow> u8 list \<Rightarrow> nat \<Rightarrow> inode \<Rightarrow> store \<Rightarrow> (nat \<times> inode \<times> store) res" where
  "writei_loop sb src off ip s =
     (if src = [] then Inr (off, ip, s)
      else bindE (bmap sb (off div BSIZE) ip s) (\<lambda>(b, ip, s).
        bindE (s_bread b s) (\<lambda>s.
        let m = min (length src) (BSIZE - off mod BSIZE);
            s = s_put b (put_bytes (sblk s b) (off mod BSIZE) (take m src)) s in
        bindE (s_log_write b s) (\<lambda>s.
        bindE (s_brelse b s) (\<lambda>s.
        writei_loop sb (drop m src) (off + m) ip s)))))"
  by pat_completeness auto
termination by (relation "measure (\<lambda>(sb, src, off, ip, s). length src)") (auto simp: Let_def)

declare writei_loop.simps [simp del]

definition writei :: "devops list \<Rightarrow> superblock \<Rightarrow> u8 list \<Rightarrow> u32 \<Rightarrow> u32 \<Rightarrow> inode \<Rightarrow> store \<Rightarrow> (int \<times> inode \<times> store) res" where
  "writei devsw sb src off n ip s =
     (if i_type ip = T_DEV then
        case Option.bind (dev_of devsw ip) dev_write of None \<Rightarrow> Inr (- 1, ip, s) | Some f \<Rightarrow> f ip src n s
      else if off > i_size ip \<or> off + n < off then Inr (- 1, ip, s)
      else if off + n > of_nat (MAXFILE * BSIZE) then Inr (- 1, ip, s)
      else bindE (writei_loop sb (take (unat n) src) (unat off) ip s) (\<lambda>(off, ip, s).
        if n > 0 \<and> off > unat (i_size ip) then
          let ip = ip\<lparr>i_size := of_nat off\<rparr> in
          bindE (iupdate sb ip s) (\<lambda>s. Inr (sint n, ip, s))
        else Inr (sint n, ip, s)))"

section \<open>Reading\<close>

definition fbytes :: "(nat \<Rightarrow> block) \<Rightarrow> inode \<Rightarrow> nat \<Rightarrow> nat \<Rightarrow> u8 list" where
  "fbytes v ip off n = map (fbyte v ip) [off..<off + n]"

text \<open>A file without holes: every page below its size has a block.\<close>

definition dense :: "(nat \<Rightarrow> block) \<Rightarrow> inode \<Rightarrow> bool" where
  "dense v ip \<longleftrightarrow> unat (i_size ip) \<le> MAXFILE * BSIZE \<and> (\<forall>i<unat (i_size ip). blk_of v ip (i div BSIZE) \<noteq> 0)"

lemma same_page:
  assumes "off \<le> i" and "i < off + (BSIZE - off mod BSIZE)"
  shows "i div BSIZE = off div BSIZE" and "i mod BSIZE = off mod BSIZE + (i - off)"
proof -
  have i: "i = (off mod BSIZE + (i - off)) + off div BSIZE * BSIZE" and lt: "off mod BSIZE + (i - off) < BSIZE"
    using assms mod_less_divisor[of BSIZE off] by simp_all
  have "(off mod BSIZE + (i - off) + off div BSIZE * BSIZE) div BSIZE = off div BSIZE"
    using lt by (subst div_mult_self1) simp_all
  with i show "i div BSIZE = off div BSIZE" by simp
  have "(off mod BSIZE + (i - off) + off div BSIZE * BSIZE) mod BSIZE = off mod BSIZE + (i - off)"
    using lt by (subst mod_mult_self1) simp
  with i show "i mod BSIZE = off mod BSIZE + (i - off)" by simp
qed

lemma chunk_in_page:
  assumes "m \<le> BSIZE - off mod BSIZE" and "blk_of v ip (off div BSIZE) \<noteq> 0" and "length (v (blk_of v ip (off div BSIZE))) = BSIZE"
  shows "get_bytes (v (blk_of v ip (off div BSIZE))) (off mod BSIZE) m = fbytes v ip off m"
proof (rule nth_equalityI)
  have "off mod BSIZE + m \<le> BSIZE" using assms(1) mod_less_divisor[of BSIZE off] by linarith
  then show "length (get_bytes (v (blk_of v ip (off div BSIZE))) (off mod BSIZE) m) = length (fbytes v ip off m)"
    using assms(3) by (simp add: fbytes_def)
  fix j assume "j < length (get_bytes (v (blk_of v ip (off div BSIZE))) (off mod BSIZE) m)"
  then have j: "j < m" "off mod BSIZE + j < BSIZE" using assms(3) by (simp, simp, linarith)
  have "(off + j) div BSIZE = off div BSIZE" "(off + j) mod BSIZE = off mod BSIZE + j"
    using same_page[of off "off + j"] j(1) assms(1) by simp_all
  then show "get_bytes (v (blk_of v ip (off div BSIZE))) (off mod BSIZE) m ! j = fbytes v ip off m ! j"
    using j assms(2,3) by (simp add: nth_get_bytes fbytes_def fbyte_def Let_def)
qed

lemma fbytes_append: "fbytes v ip off (m + n) = fbytes v ip off m @ fbytes v ip (off + m) n"
  using upt_add_eq_append[of off "off + m" n] by (simp add: fbytes_def add.assoc)

lemma readi_loop_ok:
  assumes ok: "disk_ok sb s" "file_ok sb s ip" and idle: "sheld s = []" "sunsaved s = []" and room: "\<forall>b. \<not> s_full b s"
  shows "off + n \<le> MAXFILE * BSIZE \<Longrightarrow> \<forall>i. off \<le> i \<and> i < off + n \<longrightarrow> blk_of (sblk s) ip (i div BSIZE) \<noteq> 0 \<Longrightarrow>
    readi_loop sb off n ip s = Inr (fbytes (sblk s) ip off n, ip, s)"
proof (induction n arbitrary: off rule: less_induct)
  case (less n)
  show ?case
  proof (cases "n = 0")
    case True
    then show ?thesis by (simp add: readi_loop.simps fbytes_def)
  next
    case False
    define m where "m = min n (BSIZE - off mod BSIZE)"
    let ?b = "blk_of (sblk s) ip (off div BSIZE)"
    have m: "0 < m" "m \<le> n" "m \<le> BSIZE - off mod BSIZE" using False by (auto simp: m_def)
    have k: "off div BSIZE < MAXFILE" using less.prems(1) False by (simp add: less_mult_imp_div_less)
    have b: "?b \<noteq> 0" using less.prems(2) False by auto
    have bm: "bmap sb (off div BSIZE) ip s = Inr (?b, ip, s)" by (rule bmap_mapped[OF ok k b idle room])
    have "?b < snblk s" using file_ok_blk(1)[OF ok(2) k b] ok(1) by (simp add: data_block_def disk_ok_def)
    then have rd: "s_bread ?b s = Inr (s\<lparr>sheld := [?b]\<rparr>)" using idle room by (simp add: s_bread_def)
    have rel: "s_brelse ?b (s\<lparr>sheld := [?b]\<rparr>) = Inr s" using idle by (simp add: s_brelse_def)
    have d: "get_bytes (sblk s ?b) (off mod BSIZE) m = fbytes (sblk s) ip off m"
      using chunk_in_page[OF m(3) b] ok(1) by (simp add: disk_ok_def)
    have "readi_loop sb (off + m) (n - m) ip s = Inr (fbytes (sblk s) ip (off + m) (n - m), ip, s)"
      by (rule less.IH) (use m less.prems in auto)
    moreover have "fbytes (sblk s) ip off n = fbytes (sblk s) ip off m @ fbytes (sblk s) ip (off + m) (n - m)"
      using fbytes_append[of "sblk s" ip off m "n - m"] m by simp
    ultimately show ?thesis
      using False bm rd rel d by (subst readi_loop.simps) (simp add: Let_def m_def[symmetric])
  qed
qed

section \<open>Writing\<close>

definition file_blocks :: "(nat \<Rightarrow> block) \<Rightarrow> inode \<Rightarrow> nat set" where
  "file_blocks v ip = {b. b \<noteq> 0 \<and> (b = ind_of ip \<or> (\<exists>k<MAXFILE. b = blk_of v ip k))}"

text \<open>
  \<open>wrote sb s ip t ip'\<close>: from \<open>s\<close> to \<open>t\<close> only blocks of the file, fresh blocks and the free map changed,
  and pages keep their block.
\<close>

definition wrote :: "superblock \<Rightarrow> store \<Rightarrow> inode \<Rightarrow> store \<Rightarrow> inode \<Rightarrow> bool" where
  "wrote sb s ip t ip' \<longleftrightarrow>
     disk_ok sb t \<and> file_ok sb t ip' \<and> ip' = ip\<lparr>i_addrs := i_addrs ip'\<rparr> \<and>
     sheld t = sheld s \<and> sunsaved t = sunsaved s \<and> snblk t = snblk s \<and> meta_area sb (slog t) = meta_area sb (slog s) \<and>
     (\<forall>b < sb_size sb. used sb (sblk s) b \<longrightarrow>
        used sb (sblk t) b \<and> (b \<noteq> 0 \<and> b \<notin> bmap_area sb \<and> b \<notin> file_blocks (sblk s) ip \<longrightarrow> sblk t b = sblk s b)) \<and>
     (\<forall>b\<in>file_blocks (sblk t) ip'. b \<in> file_blocks (sblk s) ip \<or> \<not> used sb (sblk s) b) \<and>
     (\<forall>k<MAXFILE. blk_of (sblk s) ip k \<noteq> 0 \<longrightarrow> blk_of (sblk t) ip' k = blk_of (sblk s) ip k)"

lemma wrote_refl: "disk_ok sb s \<Longrightarrow> file_ok sb s ip \<Longrightarrow> wrote sb s ip s ip"
  by (simp add: wrote_def)

lemma file_blocks_used:
  assumes "file_ok sb s ip" and "b \<in> file_blocks (sblk s) ip" shows "data_block sb s b"
  using assms file_ok_blk(1)[OF assms(1)] file_ok_ind[OF assms(1)] by (auto simp: file_blocks_def)

lemma grows_wrote:
  assumes "grows sb s ip t ip'" shows "wrote sb s ip t ip'"
proof -
  have "b \<in> file_blocks (sblk s) ip \<or> \<not> used sb (sblk s) b" if "b \<in> file_blocks (sblk t) ip'" for b
    using that growsD(10-13)[OF assms] unfolding file_blocks_def mem_Collect_eq by metis
  moreover have "sblk t b = sblk s b"
    if "b < sb_size sb" "used sb (sblk s) b" "b \<noteq> 0" "b \<notin> bmap_area sb" "b \<notin> file_blocks (sblk s) ip" for b
    using growsD(9)[OF assms that(1,2,4)] that(3,5) by (auto simp: file_blocks_def)
  ultimately show ?thesis
    unfolding wrote_def using growsD(1-8,10)[OF assms] by (intro conjI) auto
qed

lemma wroteD:
  assumes "wrote sb s ip t ip'"
  shows "disk_ok sb t" and "file_ok sb t ip'" and "ip' = ip\<lparr>i_addrs := i_addrs ip'\<rparr>"
    and "sheld t = sheld s" "sunsaved t = sunsaved s" "snblk t = snblk s" "meta_area sb (slog t) = meta_area sb (slog s)"
    and "b < sb_size sb \<Longrightarrow> used sb (sblk s) b \<Longrightarrow> used sb (sblk t) b"
    and "b < sb_size sb \<Longrightarrow> used sb (sblk s) b \<Longrightarrow> b \<noteq> 0 \<Longrightarrow> b \<notin> bmap_area sb \<Longrightarrow> b \<notin> file_blocks (sblk s) ip \<Longrightarrow>
      sblk t b = sblk s b"
    and "b \<in> file_blocks (sblk t) ip' \<Longrightarrow> b \<in> file_blocks (sblk s) ip \<or> \<not> used sb (sblk s) b"
    and "k < MAXFILE \<Longrightarrow> blk_of (sblk s) ip k \<noteq> 0 \<Longrightarrow> blk_of (sblk t) ip' k = blk_of (sblk s) ip k"
  using assms by (auto simp: wrote_def)

lemma wrote_trans:
  assumes st: "wrote sb s ip t ip'" and tu: "wrote sb t ip' u ip''"
  shows "wrote sb s ip u ip''"
proof -
  have new: "b \<in> file_blocks (sblk s) ip \<or> \<not> used sb (sblk s) b" if "b \<in> file_blocks (sblk u) ip''" for b
  proof (cases "b \<in> file_blocks (sblk t) ip'")
    case True
    then show ?thesis using wroteD(10)[OF st] by blast
  next
    case False
    then have "\<not> used sb (sblk t) b" "b < sb_size sb"
      using wroteD(10)[OF tu that] file_blocks_used[OF wroteD(2)[OF tu] that] by (auto simp: data_block_def)
    then show ?thesis using wroteD(8)[OF st] by blast
  qed
  have "ip'' = ip\<lparr>i_addrs := i_addrs ip''\<rparr>"
    using wroteD(3)[OF st] wroteD(3)[OF tu] by (metis inode.surjective inode.update_convs(11))
  moreover have "sblk u b = sblk s b" if b: "b < sb_size sb" "used sb (sblk s) b" "b \<noteq> 0" "b \<notin> bmap_area sb" "b \<notin> file_blocks (sblk s) ip" for b
    using wroteD(9)[OF st b] wroteD(9)[OF tu b(1) wroteD(8)[OF st b(1,2)] b(3,4)] wroteD(10)[OF st, of b] b(2,5) by auto
  ultimately show ?thesis
    unfolding wrote_def using wroteD(1,2,4-8,11)[OF tu] wroteD(4-8,11)[OF st] new by simp
qed

text \<open>Overwriting one page of the file.\<close>

definition put_page :: "nat \<Rightarrow> block \<Rightarrow> store \<Rightarrow> store" where
  "put_page c d s = s\<lparr>sblk := (sblk s)(c := d), slog := (slog s)\<lparr>l_lh := absorb c (l_lh (slog s))\<rparr>\<rparr>"

lemma put_page_ok:
  assumes ok: "disk_ok sb s" "file_ok sb s ip" and k: "k < MAXFILE" "blk_of (sblk s) ip k = c" "c \<noteq> 0" and d: "length d = BSIZE"
  defines "t \<equiv> put_page c d s"
  shows "wrote sb s ip t ip" and "j < MAXFILE \<Longrightarrow> blk_of (sblk t) ip j = blk_of (sblk s) ip j"
    and "i < MAXFILE * BSIZE \<Longrightarrow> fbyte (sblk t) ip i = (if i div BSIZE = k then d ! (i mod BSIZE) else fbyte (sblk s) ip i)"
    and "free_blocks sb t = free_blocks sb s"
proof -
  note c = file_ok_blk[OF ok(2) k(1)]
  have db: "data_block sb s c" and ind: "c \<noteq> ind_of ip" using c(1,2) k(2,3) by auto
  have blk: "blk_of (sblk t) ip = blk_of (sblk s) ip"
    using ind by (auto simp: blk_of_def t_def put_page_def)
  then show "j < MAXFILE \<Longrightarrow> blk_of (sblk t) ip j = blk_of (sblk s) ip j" by simp
  have lg: "log_area (slog t) = log_area (slog s)" and meta: "meta_area sb (slog t) = meta_area sb (slog s)"
    by (simp_all add: t_def put_page_def log_area_def meta_area_def)
  have us: "used sb (sblk t) b \<longleftrightarrow> used sb (sblk s) b" if "b < sb_size sb" for b
    using BBLOCK_area[OF that] data_block_area(1)[OF db] by (auto simp: used_def t_def put_page_def)
  have dk: "disk_ok sb t" using ok(1) us d lg meta by (auto simp: disk_ok_def subset_iff) (auto simp: t_def put_page_def)
  have dt: "data_block sb t b \<longleftrightarrow> data_block sb s b" for b using us by (auto simp: data_block_def meta)
  have fk: "file_ok sb t ip" using ok(2) by (simp add: file_ok_def layout_ok_def blk dt)
  have "c \<in> file_blocks (sblk s) ip" using k by (auto simp: file_blocks_def)
  then show "wrote sb s ip t ip"
    using dk fk us meta by (auto simp: wrote_def blk file_blocks_def) (auto simp: t_def put_page_def)
  show "free_blocks sb t = free_blocks sb s" using us by (auto simp: free_blocks_def intro: arg_cong[where f = card])
  assume "i < MAXFILE * BSIZE"
  then have i: "i div BSIZE < MAXFILE" by (simp add: less_mult_imp_div_less)
  show "fbyte (sblk t) ip i = (if i div BSIZE = k then d ! (i mod BSIZE) else fbyte (sblk s) ip i)"
  proof (cases "i div BSIZE = k")
    case True
    then show ?thesis using k by (simp add: fbyte_def blk Let_def) (simp add: t_def put_page_def)
  next
    case False
    then have "blk_of (sblk s) ip (i div BSIZE) \<noteq> c" using c(3)[OF _ i] k(2,3) by auto
    then show ?thesis using False by (simp add: fbyte_def blk Let_def) (simp add: t_def put_page_def)
  qed
qed

text \<open>The number of pages that a write of \<open>n\<close> bytes at \<open>off\<close> touches.\<close>

definition pages :: "nat \<Rightarrow> nat \<Rightarrow> nat" where
  "pages off n = (if n = 0 then 0 else Suc ((off + n - 1) div BSIZE - off div BSIZE))"

lemma pages_step:
  assumes "n \<noteq> 0" and "m = min n (BSIZE - off mod BSIZE)"
  shows "pages off n = Suc (pages (off + m) (n - m))"
proof (cases "n \<le> BSIZE - off mod BSIZE")
  case True
  then have "(off + n - 1) div BSIZE = off div BSIZE" using assms by (intro same_page(1)) auto
  then show ?thesis using True assms by (simp add: pages_def)
next
  case False
  let ?q = "off div BSIZE"
  have m: "m = BSIZE - off mod BSIZE" using False assms(2) by simp
  have om: "off + m = Suc ?q * BSIZE"
    unfolding mult_Suc m using div_mult_mod_eq[of off BSIZE] mod_less_divisor[of BSIZE off, simplified] by linarith
  have le: "off + m \<le> off + n - 1" using False m by linarith
  define P where "P = (off + n - 1) div BSIZE"
  have P: "Suc ?q \<le> P" using div_le_mono[OF le, of BSIZE] by (simp only: om nonzero_mult_div_cancel_right P_def)
  have "off + m + (n - m) - 1 = off + n - 1" and n: "n - m \<noteq> 0" using False m by linarith+
  then have e: "(off + m + (n - m) - 1) div BSIZE = P" "(off + m) div BSIZE = Suc ?q" by (simp_all only: P_def om) simp
  show ?thesis
    unfolding pages_def e P_def[symmetric] using P n assms(1) by simp
qed

text \<open>One round of the loop: the bytes of one page.\<close>

lemma writei_page:
  assumes ok: "disk_ok sb s" "file_ok sb s ip" and idle: "sheld s = []" "sunsaved s = []" and B: "bmap_area sb \<subseteq> B"
    and cl: "can_log s (reserve B ip) (Suc (k + slack ip))" and fr: "Suc (n + slack ip) \<le> free_blocks sb s"
    and src: "src \<noteq> []" "off + length src \<le> MAXFILE * BSIZE" and m: "m = min (length src) (BSIZE - off mod BSIZE)"
  shows "\<exists>ip' t. writei_loop sb src off ip s = writei_loop sb (drop m src) (off + m) ip' t \<and> wrote sb s ip t ip' \<and>
    (\<forall>i<MAXFILE * BSIZE. fbyte (sblk t) ip' i = (if off \<le> i \<and> i < off + m then src ! (i - off) else fbyte (sblk s) ip i)) \<and>
    can_log t (reserve B ip') (k + slack ip') \<and> n + slack ip' \<le> free_blocks sb t \<and>
    blk_of (sblk t) ip' (off div BSIZE) \<noteq> 0 \<and> (blk_of (sblk s) ip (off div BSIZE) \<noteq> 0 \<longrightarrow> ip' = ip)"
proof -
  let ?k = "off div BSIZE" and ?o = "off mod BSIZE"
  have "off < MAXFILE * BSIZE" using src by (cases src) auto
  then have k: "?k < MAXFILE" by (simp add: less_mult_imp_div_less)
  from bmap_ok[OF ok idle B cl fr k, unfolded bmap_spec_def] obtain c ip' t where
    b: "bmap sb ?k ip s = Inr (c, ip', t)" "grows sb s ip t ip'" "c = blk_of (sblk t) ip' ?k" "c \<noteq> 0"
      "can_log t (insert c (reserve B ip')) (k + slack ip')" "n + slack ip' \<le> free_blocks sb t"
      "blk_of (sblk s) ip ?k \<noteq> 0 \<Longrightarrow> ip' = ip" by blast
  note ok' = growsD(1,2)[OF b(2)]
  let ?d = "put_bytes (sblk t c) ?o (take m src)" and ?f = "\<lambda>d. put_bytes d ?o (take m src)"
  have len: "length (sblk t c) = BSIZE" using ok'(1) by (simp add: disk_ok_def)
  have fit: "?o + m \<le> BSIZE" "length (take m src) = m" using m mod_less_divisor[of BSIZE off] by auto
  have c: "c < snblk t" using file_ok_blk(1)[OF ok'(2) k] b(3,4) ok'(1) by (simp add: data_block_def disk_ok_def)
  have idle': "sheld t = []" "sunsaved t = []" using growsD(4,5)[OF b(2)] idle by simp_all
  have "s_rmw c ?f t = Inr (put_page c ?d t)" using s_rmw_eq[OF b(5) c, of ?f] idle' by (simp add: put_page_def)
  then have run: "writei_loop sb src off ip s = writei_loop sb (drop m src) (off + m) ip' (put_page c ?d t)"
    using src(1) b(1)
    by (subst writei_loop.simps) (auto simp: s_rmw_def Let_def m[symmetric] bindE_Inr_iff)
  have d: "length ?d = BSIZE" using len fit by simp
  note pp = put_page_ok[OF ok' k b(3)[symmetric] b(4) d]
  have bytes: "fbyte (sblk (put_page c ?d t)) ip' i = (if off \<le> i \<and> i < off + m then src ! (i - off) else fbyte (sblk s) ip i)"
    if i: "i < MAXFILE * BSIZE" for i
  proof (cases "i div BSIZE = ?k")
    case True
    have "i = ?k * BSIZE + i mod BSIZE" "off = ?k * BSIZE + ?o" by (simp only: True[symmetric] div_mult_mod_eq, simp only: div_mult_mod_eq)
    then have eq: "off \<le> i \<longleftrightarrow> ?o \<le> i mod BSIZE" "i < off + m \<longleftrightarrow> i mod BSIZE < ?o + m" "i - off = i mod BSIZE - ?o"
      by linarith+
    have tk: "take m src ! (i mod BSIZE - ?o) = src ! (i mod BSIZE - ?o)" if "i mod BSIZE < ?o + m" "?o \<le> i mod BSIZE"
      by (rule nth_take) (use that in linarith)
    have "fbyte (sblk t) ip' i = sblk t c ! (i mod BSIZE)" using b(3,4) by (simp add: fbyte_def True Let_def)
    then show ?thesis
      using pp(3)[OF i] True fit len grows_fbyte[OF b(2) ok(2) i] tk by (simp add: nth_put_bytes eq)
  next
    case False
    have "m \<le> BSIZE - ?o" using m by simp
    then have "\<not> (off \<le> i \<and> i < off + m)" using same_page(1)[of off i] False by linarith
    then show ?thesis using pp(3)[OF i] False grows_fbyte[OF b(2) ok(2) i] by (simp only: if_False)
  qed
  have "can_log (put_page c ?d t) (insert c (reserve B ip')) (k + slack ip')"
    by (rule can_log_absorb[OF b(5), of c]) (simp_all add: put_page_def)
  then have "can_log (put_page c ?d t) (reserve B ip') (k + slack ip')" by (rule can_log_drop) blast
  then show ?thesis
    using run wrote_trans[OF grows_wrote[OF b(2)] pp(1)] bytes pp(2)[OF k] pp(4) b(3,4,6,7)
    by (intro exI[of _ ip'] exI[of _ "put_page c ?d t"]) auto
qed

text \<open>The contract of the loop, with \<open>k\<close> log entries and \<open>n\<close> blocks to spare.\<close>

lemma writei_loop_ok:
  assumes "bmap_area sb \<subseteq> B"
  shows "disk_ok sb s \<Longrightarrow> file_ok sb s ip \<Longrightarrow> sheld s = [] \<Longrightarrow> sunsaved s = [] \<Longrightarrow>
    can_log s (reserve B ip) (k + pages off (length src) + slack ip) \<Longrightarrow>
    n + pages off (length src) + slack ip \<le> free_blocks sb s \<Longrightarrow> off + length src \<le> MAXFILE * BSIZE \<Longrightarrow>
    \<exists>ip' t. writei_loop sb src off ip s = Inr (off + length src, ip', t) \<and> wrote sb s ip t ip' \<and>
      (\<forall>i<MAXFILE * BSIZE. fbyte (sblk t) ip' i = (if off \<le> i \<and> i < off + length src then src ! (i - off) else fbyte (sblk s) ip i)) \<and>
      can_log t (reserve B ip') (k + slack ip') \<and> n + slack ip' \<le> free_blocks sb t \<and>
      (\<forall>i. off \<le> i \<and> i < off + length src \<longrightarrow> blk_of (sblk t) ip' (i div BSIZE) \<noteq> 0) \<and>
      ((\<forall>i. off \<le> i \<and> i < off + length src \<longrightarrow> blk_of (sblk s) ip (i div BSIZE) \<noteq> 0) \<longrightarrow> ip' = ip)"
proof (induction src arbitrary: off ip s rule: length_induct)
  case (1 src)
  show ?case
  proof (cases "src = []")
    case True
    then have "writei_loop sb src off ip s = Inr (off + length src, ip, s)" by (simp add: writei_loop.simps)
    moreover have "wrote sb s ip s ip" using "1.prems"(1,2) by (rule wrote_refl)
    ultimately show ?thesis using "1.prems"(5,6) True by (intro exI[of _ ip] exI[of _ s]) (auto simp: pages_def)
  next
    case False
    define m where "m = min (length src) (BSIZE - off mod BSIZE)"
    have m: "0 < m" "m \<le> length src" "m \<le> BSIZE - off mod BSIZE" using False by (auto simp: m_def)
    have pg: "pages off (length src) = Suc (pages (off + m) (length (drop m src)))"
      using pages_step[OF _ m_def] False by simp
    let ?p = "pages (off + m) (length (drop m src))"
    have cl: "can_log s (reserve B ip) (Suc (k + ?p + slack ip))" and fr: "Suc (n + ?p + slack ip) \<le> free_blocks sb s"
      using "1.prems"(5,6) by (simp_all add: pg)
    from writei_page[OF "1.prems"(1-4) assms cl fr False "1.prems"(7) m_def] obtain ip1 s1 where
      p: "writei_loop sb src off ip s = writei_loop sb (drop m src) (off + m) ip1 s1" "wrote sb s ip s1 ip1"
        "\<forall>i<MAXFILE * BSIZE. fbyte (sblk s1) ip1 i = (if off \<le> i \<and> i < off + m then src ! (i - off) else fbyte (sblk s) ip i)"
        "can_log s1 (reserve B ip1) (k + ?p + slack ip1)" "n + ?p + slack ip1 \<le> free_blocks sb s1"
        "blk_of (sblk s1) ip1 (off div BSIZE) \<noteq> 0" "blk_of (sblk s) ip (off div BSIZE) \<noteq> 0 \<Longrightarrow> ip1 = ip" by blast
    have i1: "sheld s1 = []" "sunsaved s1 = []" "off + m + length (drop m src) \<le> MAXFILE * BSIZE"
      using wroteD(4,5)[OF p(2)] "1.prems"(3,4,7) m by simp_all
    have short: "length (drop m src) < length src" using m by simp
    from "1.IH"[rule_format, OF short wroteD(1,2)[OF p(2)] i1(1,2) p(4,5) i1(3)] obtain ip' t where
      q: "writei_loop sb (drop m src) (off + m) ip1 s1 = Inr (off + m + length (drop m src), ip', t)" "wrote sb s1 ip1 t ip'"
        "\<forall>i<MAXFILE * BSIZE. fbyte (sblk t) ip' i = (if off + m \<le> i \<and> i < off + m + length (drop m src) then drop m src ! (i - (off + m)) else fbyte (sblk s1) ip1 i)"
        "can_log t (reserve B ip') (k + slack ip')" "n + slack ip' \<le> free_blocks sb t"
        "\<forall>i. off + m \<le> i \<and> i < off + m + length (drop m src) \<longrightarrow> blk_of (sblk t) ip' (i div BSIZE) \<noteq> 0"
        "(\<forall>i. off + m \<le> i \<and> i < off + m + length (drop m src) \<longrightarrow> blk_of (sblk s1) ip1 (i div BSIZE) \<noteq> 0) \<longrightarrow> ip' = ip1"
      by blast
    have lt: "i div BSIZE < MAXFILE" if "i < off + length src" for i
      using that "1.prems"(7) by (intro less_mult_imp_div_less) linarith
    have mapped: "blk_of (sblk t) ip' (i div BSIZE) \<noteq> 0" if i: "off \<le> i" "i < off + length src" for i
    proof (cases "i < off + m")
      case True
      then have "i div BSIZE = off div BSIZE" using same_page(1)[OF i(1)] m(3) by linarith
      then show ?thesis using wroteD(11)[OF q(2) lt[OF i(2)]] p(6) by simp
    next
      case False
      then show ?thesis using q(6) i m by simp
    qed
    have same: "ip' = ip" if all: "\<forall>i. off \<le> i \<and> i < off + length src \<longrightarrow> blk_of (sblk s) ip (i div BSIZE) \<noteq> 0"
    proof -
      have "ip1 = ip" using p(7) all False by simp
      moreover have "blk_of (sblk s1) ip1 (i div BSIZE) \<noteq> 0" if "off + m \<le> i" "i < off + m + length (drop m src)" for i
        using wroteD(11)[OF p(2) lt[of i]] all[rule_format, of i] that m by simp
      ultimately show ?thesis using q(7) by blast
    qed
    have "fbyte (sblk t) ip' i = (if off \<le> i \<and> i < off + length src then src ! (i - off) else fbyte (sblk s) ip i)"
      if i: "i < MAXFILE * BSIZE" for i
      using p(3)[rule_format, OF i] q(3)[rule_format, OF i] m by (cases "i < off + m") auto
    then show ?thesis
      using p(1) q(1,4,5) wrote_trans[OF p(2) q(2)] mapped same m by (intro exI[of _ ip'] exI[of _ t]) simp
  qed
qed

text \<open>A file whose blocks did not change.\<close>

lemma file_frame:
  assumes ok: "file_ok sb s jp" and same: "\<forall>b\<in>file_blocks (sblk s) jp. sblk t b = sblk s b"
  shows "blk_of (sblk t) jp k = blk_of (sblk s) jp k" and "i < MAXFILE * BSIZE \<Longrightarrow> fbyte (sblk t) jp i = fbyte (sblk s) jp i"
    and "meta_area sb (slog t) = meta_area sb (slog s) \<Longrightarrow> \<forall>b < sb_size sb. used sb (sblk s) b \<longrightarrow> used sb (sblk t) b \<Longrightarrow> file_ok sb t jp"
proof -
  have "ind_of jp \<noteq> 0 \<Longrightarrow> sblk t (ind_of jp) = sblk s (ind_of jp)" using same by (simp add: file_blocks_def)
  then show blk: "blk_of (sblk t) jp k = blk_of (sblk s) jp k" for k by (simp add: blk_of_def)
  show "fbyte (sblk t) jp i = fbyte (sblk s) jp i" if "i < MAXFILE * BSIZE"
  proof -
    have "i div BSIZE < MAXFILE" using that by (rule less_mult_imp_div_less)
    then have "blk_of (sblk s) jp (i div BSIZE) \<noteq> 0 \<Longrightarrow> blk_of (sblk s) jp (i div BSIZE) \<in> file_blocks (sblk s) jp"
      by (auto simp: file_blocks_def)
    then show ?thesis using same by (auto simp: fbyte_def blk Let_def)
  qed
  assume "meta_area sb (slog t) = meta_area sb (slog s)" and "\<forall>b < sb_size sb. used sb (sblk s) b \<longrightarrow> used sb (sblk t) b"
  then have "data_block sb s b \<Longrightarrow> data_block sb t b" for b by (auto simp: data_block_def)
  then show "file_ok sb t jp" using ok by (auto simp: file_ok_def layout_ok_def blk)
qed

section \<open>Properties\<close>

definition content :: "(nat \<Rightarrow> block) \<Rightarrow> inode \<Rightarrow> u8 list" where
  "content v ip = fbytes v ip 0 (unat (i_size ip))"

text \<open>\<open>live sb s ip\<close>: the in-memory inode \<open>ip\<close> is a file without holes and agrees with the disk; no block is held.\<close>

definition live :: "superblock \<Rightarrow> store \<Rightarrow> inode \<Rightarrow> bool" where
  "live sb s ip \<longleftrightarrow> disk_ok sb s \<and> file_ok sb s ip \<and> dense (sblk s) ip \<and> i_inum ip < sb_ninodes sb \<and>
     on_disk sb (sblk s) (i_inum ip) ip = ip \<and> sheld s = [] \<and> sunsaved s = []"

lemma length_content [simp]: "length (content v ip) = unat (i_size ip)"
  by (simp add: content_def fbytes_def)

lemma nth_content: "i < unat (i_size ip) \<Longrightarrow> content v ip ! i = fbyte v ip i"
  by (simp add: content_def fbytes_def)

lemma content_frame:
  fixes s t :: store
  assumes "file_ok sb s jp" and "dense (sblk s) jp" and "\<forall>b\<in>file_blocks (sblk s) jp. sblk t b = sblk s b"
  shows "content (sblk t) jp = content (sblk s) jp"
  using file_frame(2)[OF assms(1,3)] assms(2) by (intro nth_equalityI) (auto simp: nth_content dense_def)

lemma wrote_inodes:
  assumes "wrote sb s ip t ip'" and "disk_ok sb s" and "file_ok sb s ip" and "b \<in> inode_area sb"
  shows "sblk t b = sblk s b"
proof (rule wroteD(9)[OF assms(1)])
  show "b \<notin> file_blocks (sblk s) ip" using file_blocks_used[OF assms(3)] data_block_area(2) assms(4) by blast
qed (use assms(2,4) in \<open>auto simp: disk_ok_def meta_area_def\<close>)

lemma iupdate_frame:
  assumes ok: "disk_ok sb s" "file_ok sb s ip" and inum: "i_inum jp < sb_ninodes sb" and len: "length (i_addrs jp) = NDIRECT + 1"
  shows "\<forall>b\<in>file_blocks (sblk s) ip. sblk (iupdate_post sb jp s) b = sblk s b"
  using iupdate_post_ok(2)[OF ok(1) inum len] file_blocks_used[OF ok(2)] data_block_area(2) by blast

text \<open>The outcome of a write, before the size is brought up to date.\<close>

lemma writei_run:
  assumes lv: "live sb s ip" and src: "length src = unat n" and off: "off + unat n \<le> MAXFILE * BSIZE"
    and B: "B = insert (IBLOCK (i_inum ip) sb) (bmap_area sb)"
    and cl: "can_log s (reserve B ip) (pages off (unat n) + slack ip)" and fr: "pages off (unat n) + slack ip \<le> free_blocks sb s"
  shows "\<exists>ip' t. writei_loop sb src off ip s = Inr (off + unat n, ip', t) \<and> wrote sb s ip t ip' \<and>
      (\<forall>i<MAXFILE * BSIZE. fbyte (sblk t) ip' i = (if off \<le> i \<and> i < off + unat n then src ! (i - off) else fbyte (sblk s) ip i)) \<and>
      can_log t (reserve B ip') (slack ip') \<and>
      (\<forall>i<unat (i_size ip). blk_of (sblk t) ip' (i div BSIZE) \<noteq> 0) \<and>
      (\<forall>i. off \<le> i \<and> i < off + unat n \<longrightarrow> blk_of (sblk t) ip' (i div BSIZE) \<noteq> 0) \<and>
      (off + unat n \<le> unat (i_size ip) \<longrightarrow> ip' = ip)"
proof -
  have bm: "bmap_area sb \<subseteq> B" using B by blast
  have l: "disk_ok sb s" "file_ok sb s ip" "sheld s = []" "sunsaved s = []" "dense (sblk s) ip" using lv by (simp_all add: live_def)
  from writei_loop_ok[OF bm l(1-4), of 0 off src 0] cl fr off src obtain ip' t where
    r: "writei_loop sb src off ip s = Inr (off + unat n, ip', t)" "wrote sb s ip t ip'"
      "\<forall>i<MAXFILE * BSIZE. fbyte (sblk t) ip' i = (if off \<le> i \<and> i < off + unat n then src ! (i - off) else fbyte (sblk s) ip i)"
      "can_log t (reserve B ip') (slack ip')"
      "\<forall>i. off \<le> i \<and> i < off + unat n \<longrightarrow> blk_of (sblk t) ip' (i div BSIZE) \<noteq> 0"
      "(\<forall>i. off \<le> i \<and> i < off + unat n \<longrightarrow> blk_of (sblk s) ip (i div BSIZE) \<noteq> 0) \<longrightarrow> ip' = ip" by auto
  have "blk_of (sblk t) ip' (i div BSIZE) \<noteq> 0" if "i < unat (i_size ip)" for i
  proof -
    have "i div BSIZE < MAXFILE" using that l(5) by (intro less_mult_imp_div_less) (simp add: dense_def)
    then show ?thesis using wroteD(11)[OF r(2)] l(5) that by (simp add: dense_def)
  qed
  moreover have "off + unat n \<le> unat (i_size ip) \<longrightarrow> ip' = ip" using r(6) l(5) by (auto simp: dense_def)
  ultimately show ?thesis using r by blast
qed

lemma spliced_content:
  assumes "length (content v ip) = sz" and "unat (i_size ip') = max sz (off + length src)" and "off \<le> sz"
    and "unat (i_size ip') \<le> MAXFILE * BSIZE"
    and "\<forall>i<MAXFILE * BSIZE. fbyte w ip' i = (if off \<le> i \<and> i < off + length src then src ! (i - off) else fbyte v ip i)"
  shows "content w ip' = take off (content v ip) @ src @ drop (off + length src) (content v ip)"
proof (rule nth_equalityI)
  show "length (content w ip') = length (take off (content v ip) @ src @ drop (off + length src) (content v ip))"
    using assms(1-3) by auto
  fix i assume "i < length (content w ip')"
  then have i: "i < unat (i_size ip')" "i < MAXFILE * BSIZE" using assms(4) by simp_all
  show "content w ip' ! i = (take off (content v ip) @ src @ drop (off + length src) (content v ip)) ! i"
    using assms(1-3) assms(5)[rule_format, OF i(2)] i(1) by (auto simp: nth_append nth_content)
qed

lemma live_after:
  assumes "wrote sb s ip t ip" and "live sb s ip" and "\<forall>i<unat (i_size ip). blk_of (sblk t) ip (i div BSIZE) \<noteq> 0"
  shows "live sb t ip"
proof -
  have "sblk t (IBLOCK (i_inum ip) sb) = sblk s (IBLOCK (i_inum ip) sb)"
    using wrote_inodes[OF assms(1)] assms(2) IBLOCK_area by (simp add: live_def)
  then show ?thesis using wroteD(1,2,4,5)[OF assms(1)] assms(2,3) by (simp add: live_def dense_def on_disk_def)
qed

lemma sint_small: "unat (n :: u32) \<le> MAXFILE * BSIZE \<Longrightarrow> sint n = int (unat n)"
proof -
  assume "unat n \<le> MAXFILE * BSIZE"
  moreover have "uint n = int (unat n)" by simp
  ultimately have "uint n \<le> 71680" by linarith
  then have hi: "uint n < 2 ^ 31" by simp
  have "- (2 ^ 31) \<le> uint n" by (rule order_trans[OF _ unsigned_greater_eq]) simp
  from signed_take_bit_int_eq_self[OF this hi] have "signed_take_bit 31 (uint n) = uint n" .
  then show ?thesis by (simp add: sint_uint)
qed

lemma readi_ok:
  assumes "live sb s ip" and "i_type ip \<noteq> T_DEV" and "\<forall>b. \<not> s_full b s"
  shows "readi devsw sb off n ip s =
    Inr (if unat off \<le> unat (i_size ip) \<and> unat off + unat n < 2 ^ 32
         then (int (min (unat n) (unat (i_size ip) - unat off)), take (unat n) (drop (unat off) (content (sblk s) ip)))
         else (- 1, []), ip, s)"
proof -
  let ?sz = "unat (i_size ip)"
  have l: "disk_ok sb s" "file_ok sb s ip" "sheld s = []" "sunsaved s = []" "dense (sblk s) ip" using assms(1) by (simp_all add: live_def)
  have cond: "i_size ip < off \<or> off + n < off \<longleftrightarrow> \<not> (unat off \<le> ?sz \<and> unat off + unat n < 2 ^ 32)"
    using no_olen_add_nat[of off n] word_less_nat_alt[of "i_size ip" off] by (auto simp: not_le[symmetric])
  show ?thesis
  proof (cases "unat off \<le> ?sz \<and> unat off + unat n < 2 ^ 32")
    case False
    then show ?thesis using assms(2) by (simp only: readi_def cond if_True if_False not_True_eq_False not_False_eq_True)
  next
    case True
    define m where "m = (if off + n > i_size ip then i_size ip - off else n)"
    have "unat (off + n) = unat off + unat n" using True by (simp add: unat_add_mod)
    then have m: "unat m = min (unat n) (?sz - unat off)"
      using True by (auto simp: m_def word_less_nat_alt word_le_nat_alt unat_sub)
    have le: "unat off + unat m \<le> ?sz" using m True by auto
    have sz: "?sz \<le> MAXFILE * BSIZE" and blk: "\<forall>i<?sz. blk_of (sblk s) ip (i div BSIZE) \<noteq> 0" using l(5) by (simp_all add: dense_def)
    have "readi_loop sb (unat off) (unat m) ip s = Inr (fbytes (sblk s) ip (unat off) (unat m), ip, s)"
      by (rule readi_loop_ok[OF l(1-4) assms(3)]) (use le sz blk in auto)
    moreover have "fbytes (sblk s) ip (unat off) (unat m) = take (unat n) (drop (unat off) (content (sblk s) ip))"
      by (rule nth_equalityI) (use le m in \<open>auto simp: fbytes_def nth_content content_def\<close>)
    moreover have "sint m = int (unat m)" using le sz by (intro sint_small) linarith
    ultimately show ?thesis
      using True assms(2) m
      by (simp only: readi_def cond if_True if_False not_True_eq_False Let_def m_def[symmetric]) simp
  qed
qed

text \<open>C13. \<open>readi\<close> returns the bytes of the file between the offset and the smaller of offset plus
  count and the size, changing nothing; an offset past the end or a count that wraps is refused.\<close>

theorem readi_correct:
  assumes "live sb s ip" and "i_type ip \<noteq> T_DEV" and "\<forall>b. \<not> s_full b s"
  shows "readi devsw sb off n ip s =
    Inr (if unat off \<le> unat (i_size ip) \<and> unat off + unat n < 2 ^ 32
         then (int (min (unat n) (unat (i_size ip) - unat off)), take (unat n) (drop (unat off) (content (sblk s) ip)))
         else (- 1, []), ip, s)"
  using readi_ok[OF assms] .

lemma wrote_frame:
  assumes w: "wrote sb s ip t ip'" and ok: "disk_ok sb s" "file_ok sb s ip"
  shows "file_ok sb s jp \<Longrightarrow> file_blocks (sblk s) jp \<inter> file_blocks (sblk s) ip = {} \<Longrightarrow> b \<in> file_blocks (sblk s) jp \<Longrightarrow>
      sblk t b = sblk s b"
    and "j < sb_ninodes sb \<Longrightarrow> on_disk sb (sblk t) j jp = on_disk sb (sblk s) j jp"
proof -
  assume jp: "file_ok sb s jp" "file_blocks (sblk s) jp \<inter> file_blocks (sblk s) ip = {}" "b \<in> file_blocks (sblk s) jp"
  have db: "data_block sb s b" by (rule file_blocks_used[OF jp(1,3)])
  show "sblk t b = sblk s b"
    by (rule wroteD(9)[OF w]) (use db data_block_area(1)[OF db] data_block_pos[OF db] jp(2,3) in \<open>auto simp: data_block_def\<close>)
next
  assume "j < sb_ninodes sb"
  then show "on_disk sb (sblk t) j jp = on_disk sb (sblk s) j jp"
    using wrote_inodes[OF w ok IBLOCK_area] by (simp add: on_disk_def)
qed

text \<open>Bringing the size and the inode on disk up to date after the write.\<close>

lemma writei_grow:
  assumes lv: "live sb s ip" and w: "wrote sb s ip t ip'" and e: "e \<le> MAXFILE * BSIZE" "unat (i_size ip) < e"
    and cl: "can_log t B k" and mapped: "\<forall>i<e. blk_of (sblk t) ip' (i div BSIZE) \<noteq> 0"
  defines "jp \<equiv> ip'\<lparr>i_size := of_nat e\<rparr>"
  shows "iupdate sb jp t = Inr (iupdate_post sb jp t)" and "unat (i_size jp) = e" and "live sb (iupdate_post sb jp t) jp"
    and "i < MAXFILE * BSIZE \<Longrightarrow> fbyte (sblk (iupdate_post sb jp t)) jp i = fbyte (sblk t) ip' i"
    and "file_ok sb s kp \<Longrightarrow> file_blocks (sblk s) kp \<inter> file_blocks (sblk s) ip = {} \<Longrightarrow> b \<in> file_blocks (sblk s) kp \<Longrightarrow>
      sblk (iupdate_post sb jp t) b = sblk s b"
    and "j < sb_ninodes sb \<Longrightarrow> j \<noteq> i_inum ip \<Longrightarrow> on_disk sb (sblk (iupdate_post sb jp t)) j kp = on_disk sb (sblk s) j kp"
proof -
  note wd = wroteD[OF w]
  have l: "disk_ok sb s" "file_ok sb s ip" "i_inum ip < sb_ninodes sb" "sheld t = []" "sunsaved t = []"
    using lv wd(4,5) by (simp_all add: live_def)
  have inum: "i_inum jp = i_inum ip" "i_inum jp < sb_ninodes sb" using l(3) wd(3) by (metis jp_def inode.select_convs(2) inode.surjective inode.update_convs(10,11))+
  have len: "length (i_addrs jp) = NDIRECT + 1" using wd(2) by (simp add: jp_def file_ok_def)
  have blk: "blk_of v jp = blk_of v ip'" for v by (auto simp: blk_of_def ind_of_def jp_def)
  have fb: "file_blocks v jp = file_blocks v ip'" for v by (simp add: file_blocks_def blk) (simp add: ind_of_def jp_def)
  have fj: "file_ok sb t jp" using wd(2) by (simp add: file_ok_def blk) (simp add: ind_of_def jp_def)
  show "iupdate sb jp t = Inr (iupdate_post sb jp t)" using iupdate_ok[OF wd(1) cl inum(2)] l(4,5) by simp
  note p = iupdate_post_ok[OF wd(1) inum(2) len] and fr = iupdate_frame[OF wd(1) fj inum(2) len]
  show sz: "unat (i_size jp) = e" using e(1) by (simp add: jp_def unat_of_nat take_bit_nat_eq_self)
  show bytes: "fbyte (sblk (iupdate_post sb jp t)) jp i = fbyte (sblk t) ip' i" if "i < MAXFILE * BSIZE" for i
    using file_frame(2)[OF fj fr that] by (simp add: fbyte_def blk)
  have "file_ok sb (iupdate_post sb jp t) jp" by (rule file_frame(3)[OF fj fr p(8)]) (use p(3) in blast)
  moreover have "dense (sblk (iupdate_post sb jp t)) jp"
    using mapped e(1) file_frame(1)[OF fj fr] by (simp add: dense_def sz blk)
  ultimately show "live sb (iupdate_post sb jp t) jp"
    using p(1)[of "i_inum jp" jp] p(4-6) inum(2) l(4,5) by (simp add: live_def)
  show "sblk (iupdate_post sb jp t) b = sblk s b"
    if "file_ok sb s kp" "file_blocks (sblk s) kp \<inter> file_blocks (sblk s) ip = {}" "b \<in> file_blocks (sblk s) kp"
    using wrote_frame(1)[OF w l(1,2) that] p(2) data_block_area(2)[OF file_blocks_used[OF that(1,3)]] by simp
  show "on_disk sb (sblk (iupdate_post sb jp t)) j kp = on_disk sb (sblk s) j kp" if "j < sb_ninodes sb" "j \<noteq> i_inum ip"
    using p(1)[of j kp] that(2) inum(1) wrote_frame(2)[OF w l(1,2) that(1)] by simp
qed

lemma writei_ok:
  assumes lv: "live sb s ip" and "i_type ip \<noteq> T_DEV" and src: "length src = unat n"
    and off: "unat off \<le> unat (i_size ip)" "unat off + unat n \<le> MAXFILE * BSIZE"
    and cl: "can_log s (reserve (insert (IBLOCK (i_inum ip) sb) (bmap_area sb)) ip) (pages (unat off) (unat n) + slack ip)"
    and fr: "pages (unat off) (unat n) + slack ip \<le> free_blocks sb s"
  shows "\<exists>ip' t. writei devsw sb src off n ip s = Inr (int (unat n), ip', t) \<and> live sb t ip' \<and>
    ip' = ip\<lparr>i_addrs := i_addrs ip', i_size := i_size ip'\<rparr> \<and>
    content (sblk t) ip' = take (unat off) (content (sblk s) ip) @ src @ drop (unat off + unat n) (content (sblk s) ip) \<and>
    (\<forall>jp. file_ok sb s jp \<and> dense (sblk s) jp \<and> file_blocks (sblk s) jp \<inter> file_blocks (sblk s) ip = {} \<longrightarrow>
       content (sblk t) jp = content (sblk s) jp) \<and>
    (\<forall>j < sb_ninodes sb. j \<noteq> i_inum ip \<longrightarrow> (\<forall>jp. on_disk sb (sblk t) j jp = on_disk sb (sblk s) j jp))"
proof -
  let ?o = "unat off" and ?n = "unat n" and ?sz = "unat (i_size ip)"
  have l: "disk_ok sb s" "file_ok sb s ip" "dense (sblk s) ip" "i_inum ip < sb_ninodes sb" using lv by (simp_all add: live_def)
  have sm: "sint n = int ?n" "take ?n src = src" using off(2) src sint_small[of n] by auto
  have nolimit: "\<not> (off > i_size ip \<or> off + n < off)" "\<not> off + n > of_nat (MAXFILE * BSIZE)"
    using off no_olen_add_nat[of off n] by (simp_all add: word_less_nat_alt unat_add_mod)
  from writei_run[OF lv src off(2) refl cl fr] obtain ip' t where
    r: "writei_loop sb src ?o ip s = Inr (?o + ?n, ip', t)" "wrote sb s ip t ip'"
      "\<forall>i<MAXFILE * BSIZE. fbyte (sblk t) ip' i = (if ?o \<le> i \<and> i < ?o + ?n then src ! (i - ?o) else fbyte (sblk s) ip i)"
      "can_log t (reserve (insert (IBLOCK (i_inum ip) sb) (bmap_area sb)) ip') (slack ip')"
      "\<forall>i<?sz. blk_of (sblk t) ip' (i div BSIZE) \<noteq> 0"
      "\<forall>i. ?o \<le> i \<and> i < ?o + ?n \<longrightarrow> blk_of (sblk t) ip' (i div BSIZE) \<noteq> 0"
      "?o + ?n \<le> ?sz \<Longrightarrow> ip' = ip" by blast
  have size: "i_size ip' = i_size ip" by (subst wroteD(3)[OF r(2)]) simp
  show ?thesis
  proof (cases "?o + ?n > ?sz")
    case False
    have ip: "ip' = ip" using r(7) False by simp
    have "writei devsw sb src off n ip s = Inr (int ?n, ip, t)"
      using assms(2) nolimit sm r(1) False by (simp add: writei_def ip)
    moreover have "content (sblk t) ip = take ?o (content (sblk s) ip) @ src @ drop (?o + ?n) (content (sblk s) ip)"
      using spliced_content[of "sblk s" ip ?sz ip ?o src "sblk t"] r(3) False off(1) l(3) by (simp add: src ip dense_def max_def)
    moreover have "live sb t ip" using live_after r(2,5) lv by (simp add: ip)
    moreover have "ip = ip\<lparr>i_addrs := i_addrs ip, i_size := i_size ip\<rparr>" by simp
    ultimately show ?thesis
      using content_frame wrote_frame[OF r(2) l(1,2)] by (intro exI[of _ ip] exI[of _ t]) blast
  next
    case True
    have mapped: "\<forall>i<?o + ?n. blk_of (sblk t) ip' (i div BSIZE) \<noteq> 0"
      using r(5,6) off(1) by (meson linorder_not_less order_less_le_trans)
    note g = writei_grow[OF lv r(2) off(2) True r(4) mapped]
    let ?jp = "ip'\<lparr>i_size := of_nat (?o + ?n)\<rparr>"
    let ?u = "iupdate_post sb ?jp t"
    have "0 < n" using True off(1) by (simp add: word_less_nat_alt)
    then have "writei devsw sb src off n ip s = Inr (int ?n, ?jp, ?u)"
      using assms(2) nolimit sm r(1) True g(1) by (simp add: writei_def size Let_def)
    moreover have "content (sblk ?u) ?jp = take ?o (content (sblk s) ip) @ src @ drop (?o + ?n) (content (sblk s) ip)"
      using spliced_content[of "sblk s" ip ?sz ?jp ?o src "sblk ?u"] r(3) g(2,4) True off src by (simp add: max_def)
    moreover have "?jp = ip\<lparr>i_addrs := i_addrs ?jp, i_size := i_size ?jp\<rparr>" by (subst wroteD(3)[OF r(2)]) simp
    ultimately show ?thesis
      using content_frame g(3,5,6) by (intro exI[of _ ?jp] exI[of _ ?u]) blast
  qed
qed

text \<open>C12. A write that starts within the file and ends below the maximal size succeeds when the log has
  room for its pages, the indirect block, the inode and the free map, and the disk has the blocks.
  Afterwards the file holds the new bytes at the offset and the old bytes elsewhere, is grown when
  the write passes its end, agrees with its inode on disk, and no other file or inode has changed.\<close>

theorem writei_correct:
  assumes lv: "live sb s ip" and "i_type ip \<noteq> T_DEV" and src: "length src = unat n"
    and off: "unat off \<le> unat (i_size ip)" "unat off + unat n \<le> MAXFILE * BSIZE"
    and cl: "can_log s (reserve (insert (IBLOCK (i_inum ip) sb) (bmap_area sb)) ip) (pages (unat off) (unat n) + slack ip)"
    and fr: "pages (unat off) (unat n) + slack ip \<le> free_blocks sb s"
  shows "\<exists>ip' t. writei devsw sb src off n ip s = Inr (int (unat n), ip', t) \<and> live sb t ip' \<and>
    content (sblk t) ip' = take (unat off) (content (sblk s) ip) @ src @ drop (unat off + unat n) (content (sblk s) ip) \<and>
    (\<forall>jp. file_ok sb s jp \<and> dense (sblk s) jp \<and> file_blocks (sblk s) jp \<inter> file_blocks (sblk s) ip = {} \<longrightarrow>
       content (sblk t) jp = content (sblk s) jp) \<and>
    (\<forall>j < sb_ninodes sb. j \<noteq> i_inum ip \<longrightarrow> (\<forall>jp. on_disk sb (sblk t) j jp = on_disk sb (sblk s) j jp))"
  using writei_ok[OF assms] by blast

text \<open>
  The small disk with one file, inode 3, in block 26: as an open and unlinked file of five zero bytes,
  and as a directory with one empty entry.
\<close>

definition demo_inode :: "u16 \<Rightarrow> u32 \<Rightarrow> inode" where
  "demo_inode ty sz = \<lparr>i_dev = ROOTDEV, i_inum = 3, i_ref = 1, i_lock = initsleeplock, i_valid = True, i_type = ty, i_major = 0,
     i_minor = 0, i_nlink = 0, i_size = sz, i_addrs = 26 # replicate 12 0\<rparr>"

definition demo_disk :: "u16 \<Rightarrow> u32 \<Rightarrow> store" where
  "demo_disk ty sz = iupdate_post demo_sb (demo_inode ty sz) (alloc_post demo_sb 26 demo_store)"

abbreviation demo_file :: inode where "demo_file \<equiv> demo_inode T_FILE 5"

abbreviation demo_fs :: store where "demo_fs \<equiv> demo_disk T_FILE 5"

lemma demo_inode_fields:
  "i_inum (demo_inode ty sz) < sb_ninodes demo_sb" "length (i_addrs (demo_inode ty sz)) = NDIRECT + 1" "ind_of (demo_inode ty sz) = 0"
  "i_size (demo_inode ty sz) = sz" "k < MAXFILE \<Longrightarrow> blk_of v (demo_inode ty sz) k = (if k = 0 then 26 else 0)" "i_type (demo_inode ty sz) = ty"
  "IBLOCK (i_inum (demo_inode ty sz)) demo_sb = 22" "slack (demo_inode ty sz) = 1"
  by (auto simp: demo_inode_def demo_sb_def ind_of_def blk_of_def nth_Cons' IBLOCK_def slack_def)

lemma demo_disk_live:
  assumes sz: "unat sz \<le> BSIZE"
  shows "live demo_sb (demo_disk ty sz) (demo_inode ty sz)"
    and "finite B \<Longrightarrow> card (insert 26 (insert 25 (insert 22 B))) + k < 19 \<Longrightarrow> can_log (demo_disk ty sz) B k"
    and "free_blocks demo_sb (demo_disk ty sz) = 13" and "content (sblk (demo_disk ty sz)) (demo_inode ty sz) = replicate (unat sz) 0"
proof -
  let ?s = "alloc_post demo_sb 26 demo_store" and ?ip = "demo_inode ty sz" and ?t = "demo_disk ty sz"
  have c: "26 < sb_size demo_sb" "\<not> used demo_sb (sblk demo_store) 26" using demo_used[of 26] by (simp_all add: demo_sb_def)
  note al = alloc_post_ok[OF demo_disk_ok c]
  note up = iupdate_post_ok[OF al(5) demo_inode_fields(1,2), folded demo_disk_def]
  have bn: "sb_size demo_sb = 40" by (simp add: demo_sb_def)
  have us: "used demo_sb (sblk ?t) b \<longleftrightarrow> b < 27" if "b < 40" for b
    using up(3)[of b] al(2)[of b] demo_used[of b] that by (auto simp: bn)
  have "26 \<notin> meta_area demo_sb (slog ?t)" using al(1,9) up(8) by simp
  then have db: "data_block demo_sb ?t 26" using us[of 26] by (simp add: data_block_def bn)
  have fk: "file_ok demo_sb ?t ?ip" using db by (auto simp: file_ok_def layout_ok_def demo_inode_fields)
  have "dense (sblk ?t) ?ip" using sz by (auto simp: dense_def demo_inode_fields)
  moreover have "sheld ?t = []" "sunsaved ?t = []" using up(5,6) al(6,7) by simp_all
  ultimately show "live demo_sb ?t ?ip"
    using up(1)[of ty sz "i_inum ?ip" ?ip] up(4) fk by (simp add: live_def demo_inode_fields)
  have "can_log ?s (insert 26 (insert 25 (insert 22 B))) k" if "finite B" "card (insert 26 (insert 25 (insert 22 B))) + k < 19"
  proof -
    let ?B = "insert 26 (insert 25 (insert 22 B))" and ?u = "demo_store\<lparr>slog := (slog demo_store)\<lparr>l_lh := absorb (BBLOCK 26 demo_sb) (l_lh (slog demo_store))\<rparr>\<rparr>"
    have "can_log ?u ?B k"
      by (rule can_log_absorb[OF demo_can_log, of _ _ "BBLOCK 26 demo_sb"]) (use that in \<open>simp_all add: BBLOCK_def demo_sb_def\<close>)
    then show ?thesis by (rule can_log_absorb[of _ _ _ 26]) (simp_all add: alloc_post_def Let_def)
  qed
  then have "can_log ?t (insert 26 (insert 25 (insert 22 B))) k" if "finite B" "card (insert 26 (insert 25 (insert 22 B))) + k < 19"
    using that by (intro up(9)) (simp_all add: demo_inode_fields)
  then show "finite B \<Longrightarrow> card (insert 26 (insert 25 (insert 22 B))) + k < 19 \<Longrightarrow> can_log ?t B k"
    by (rule can_log_drop) auto
  have "{c. c < 40 \<and> \<not> used demo_sb (sblk ?t) c} = {27..<40}" using us by auto
  then show "free_blocks demo_sb ?t = 13" by (simp add: free_blocks_def bn)
  have "sblk ?t 26 = replicate BSIZE 0" using up(2)[of 26] al(3) by (simp add: demo_areas)
  then show "content (sblk ?t) ?ip = replicate (unat sz) 0"
    using sz by (intro nth_equalityI) (auto simp: nth_content fbyte_def demo_inode_fields)
qed

lemma demo_fs_ok:
  "live demo_sb demo_fs demo_file"
  "finite B \<Longrightarrow> card (insert 26 (insert 25 (insert 22 B))) + k < 19 \<Longrightarrow> can_log demo_fs B k"
  "free_blocks demo_sb demo_fs = 13" "content (sblk demo_fs) demo_file = replicate 5 0"
  using demo_disk_live[where sz = 5 and ty = T_FILE] by simp_all

lemma demo_file_fields:
  "i_inum demo_file < sb_ninodes demo_sb" "length (i_addrs demo_file) = NDIRECT + 1" "ind_of demo_file = 0" "i_type demo_file \<noteq> T_DEV"
  "unat (i_size demo_file) = 5" "k < MAXFILE \<Longrightarrow> blk_of v demo_file k = (if k = 0 then 26 else 0)"
  by (simp_all add: demo_inode_fields T_FILE_def T_DEV_def)

theorem readi_correct_witness:
  "live demo_sb demo_fs demo_file \<and> readi [] demo_sb 2 10 demo_file demo_fs = Inr ((3, [0, 0, 0]), demo_file, demo_fs)"
proof -
  have "can_log demo_fs {} 0" by (rule demo_fs_ok(2)) simp_all
  then have "\<forall>b. \<not> s_full b demo_fs" using can_log_not_full by blast
  from readi_correct[OF demo_fs_ok(1) demo_file_fields(4) this, of "[]" 2 10] show ?thesis
    using demo_fs_ok(1,4) by (simp add: demo_file_fields numeral_3_eq_3)
qed

theorem writei_correct_witness:
  "\<exists>ip' t. writei [] demo_sb [7, 8, 9] 4 3 demo_file demo_fs = Inr (3, ip', t) \<and> live demo_sb t ip' \<and>
     content (sblk t) ip' = [0, 0, 0, 0, 7, 8, 9]"
proof -
  have p: "pages 4 3 = 1" by (simp add: pages_def)
  have "IBLOCK (i_inum demo_file) demo_sb = 22" by (simp add: demo_inode_fields)
  then have r: "reserve (insert (IBLOCK (i_inum demo_file) demo_sb) (bmap_area demo_sb)) demo_file = {22, 25}"
    by (simp add: reserve_def demo_file_fields demo_areas)
  have cl: "can_log demo_fs {22, 25} 2" by (rule demo_fs_ok(2)) (simp_all add: card_insert_if)
  have u: "unat (3 :: u32) = 3" "unat (4 :: u32) = 4" by simp_all
  have rep: "replicate 4 (0 :: u8) = [0, 0, 0, 0]" by (simp add: numeral_eq_Suc)
  have "slack demo_file = 1" by (simp add: demo_inode_fields)
  with writei_correct[OF demo_fs_ok(1) demo_file_fields(4), of "[7, 8, 9]" 3 4 "[]", unfolded u r p demo_fs_ok(3,4) demo_file_fields(5)] cl
  obtain ip' t where "writei [] demo_sb [7, 8, 9] 4 3 demo_file demo_fs = Inr (int 3, ip', t)" "live demo_sb t ip'"
    "content (sblk t) ip' = take 4 (replicate 5 0) @ [7, 8, 9] @ drop (4 + 3) (replicate 5 0)"
    by (auto simp: numeral_2_eq_2)
  then show ?thesis by (auto simp: rep)
qed

end
