(* ===== verification/Itrunc.thy ===== *)
theory Itrunc
  imports Fileio
begin

text \<open>
  Truncation (\<^verbatim>\<open>fs.c\<close>: \<open>itrunc\<close>): all blocks of the file, the indirect block included, become free and
  nothing else does. Every \<open>bfree\<close> logs a block of the free map, so a file of any size fits in one
  transaction.
\<close>

definition frees :: "superblock \<Rightarrow> nat set \<Rightarrow> store \<Rightarrow> store \<Rightarrow> bool" where
  "frees sb F s t \<longleftrightarrow> disk_ok sb t \<and> sheld t = sheld s \<and> sunsaved t = sunsaved s \<and> snblk t = snblk s \<and>
     meta_area sb (slog t) = meta_area sb (slog s) \<and>
     (\<forall>b < sb_size sb. used sb (sblk t) b \<longleftrightarrow> used sb (sblk s) b \<and> b \<notin> F) \<and>
     (\<forall>b. b \<notin> bmap_area sb \<longrightarrow> sblk t b = sblk s b) \<and>
     (\<forall>B k. bmap_area sb \<subseteq> B \<longrightarrow> can_log s B k \<longrightarrow> can_log t B k)"

lemma freesD:
  assumes "frees sb F s t"
  shows "disk_ok sb t" and "sheld t = sheld s" and "sunsaved t = sunsaved s" and "snblk t = snblk s"
    and "meta_area sb (slog t) = meta_area sb (slog s)"
    and "b < sb_size sb \<Longrightarrow> used sb (sblk t) b \<longleftrightarrow> used sb (sblk s) b \<and> b \<notin> F"
    and "b \<notin> bmap_area sb \<Longrightarrow> sblk t b = sblk s b"
    and "bmap_area sb \<subseteq> B \<Longrightarrow> can_log s B k \<Longrightarrow> can_log t B k"
  using assms by (auto simp: frees_def)

lemma disk_ok_sheld [simp]: "disk_ok sb (s\<lparr>sheld := h\<rparr>) \<longleftrightarrow> disk_ok sb s"
  by (simp add: disk_ok_def)

lemma data_block_sheld [simp]: "data_block sb (s\<lparr>sheld := h\<rparr>) b \<longleftrightarrow> data_block sb s b"
  by (simp add: data_block_def)

lemma frees_refl: "disk_ok sb s \<Longrightarrow> frees sb {} s s"
  by (simp add: frees_def)

lemma frees_trans: "frees sb F s t \<Longrightarrow> frees sb G t u \<Longrightarrow> frees sb (F \<union> G) s u"
  by (auto simp: frees_def)

lemma bfree_frees:
  assumes ok: "disk_ok sb s" and cl: "can_log s B k" and "sunsaved s = []" and db: "data_block sb s c" and held: "set (sheld s) \<inter> bmap_area sb = {}"
  shows "\<exists>t. bfree sb c s = Inr t \<and> frees sb {c} s t"
proof -
  have c: "c < sb_size sb" "c \<notin> meta_area sb (slog s)" "used sb (sblk s) c" using db by (simp_all add: data_block_def)
  have "BBLOCK c sb \<notin> set (sheld s)" using BBLOCK_area[OF c(1)] held by blast
  from bfree_ok[OF ok cl assms(3) c(1) this] c(3) have "bfree sb c s = Inr (free_post sb c s)" by simp
  then show ?thesis using free_post_ok[OF ok c(1,2)] by (simp add: frees_def)
qed

lemma frees_data_block: "frees sb F s t \<Longrightarrow> data_block sb s b \<Longrightarrow> b \<notin> F \<Longrightarrow> data_block sb t b"
  by (auto simp: frees_def data_block_def)

section \<open>The direct blocks\<close>

definition cleared :: "nat \<Rightarrow> inode \<Rightarrow> inode" where
  "cleared m ip = ip\<lparr>i_addrs := replicate m 0 @ drop m (i_addrs ip)\<rparr>"

lemma cleared_step: "m < length (i_addrs ip) \<Longrightarrow> (cleared m ip)\<lparr>i_addrs := (i_addrs (cleared m ip))[m := 0]\<rparr> = cleared (Suc m) ip"
  by (simp add: cleared_def list_update_append Cons_nth_drop_Suc[symmetric] replicate_append_same[symmetric])

lemma cleared_same: "m < length (i_addrs ip) \<Longrightarrow> i_addrs ip ! m = 0 \<Longrightarrow> cleared (Suc m) ip = cleared m ip"
  by (simp add: cleared_def Cons_nth_drop_Suc[symmetric] replicate_append_same[symmetric])

definition pages_in :: "(nat \<Rightarrow> block) \<Rightarrow> inode \<Rightarrow> nat \<Rightarrow> nat \<Rightarrow> nat set" where
  "pages_in v ip d m = {b. b \<noteq> 0 \<and> (\<exists>k<m. b = blk_of v ip (k + d))}"

lemma pages_in_0 [simp]: "pages_in v ip d 0 = {}"
  by (simp add: pages_in_def)

lemma pages_in_Suc:
  "pages_in v ip d (Suc m) = (if blk_of v ip (m + d) = 0 then pages_in v ip d m else pages_in v ip d m \<union> {blk_of v ip (m + d)})"
  by (auto simp: pages_in_def less_Suc_eq)

lemma pages_in_fresh:
  assumes "file_ok sb s ip" and "d + m \<le> j" and "j < MAXFILE" and "blk_of (sblk s) ip j \<noteq> 0"
  shows "blk_of (sblk s) ip j \<notin> pages_in (sblk s) ip d m"
proof
  assume "blk_of (sblk s) ip j \<in> pages_in (sblk s) ip d m"
  then obtain k where "k < m" "blk_of (sblk s) ip (k + d) = blk_of (sblk s) ip j" by (auto simp: pages_in_def)
  then show False using file_ok_blk(3)[OF assms(1,3,4), of "k + d"] assms(2,3) by simp
qed

lemma pages_in_ind:
  assumes "file_ok sb s ip" and "d + m \<le> MAXFILE" shows "ind_of ip \<notin> pages_in (sblk s) ip d m"
proof
  assume "ind_of ip \<in> pages_in (sblk s) ip d m"
  then obtain k where "k < m" "blk_of (sblk s) ip (k + d) = ind_of ip" "ind_of ip \<noteq> 0" by (auto simp: pages_in_def)
  then show False using file_ok_blk(2)[OF assms(1), of "k + d"] assms(2) by simp
qed

lemma foldE_snoc: "foldE f [0..<m] s = Inr t \<Longrightarrow> foldE f [0..<Suc m] s = f m t"
  by (cases "f m t") (simp_all add: foldE_append)

lemma trunc_directs:
  assumes ok: "disk_ok sb s" "file_ok sb s ip" and idle: "sheld s = []" "sunsaved s = []"
    and cl: "can_log s B k" and B: "bmap_area sb \<subseteq> B"
  shows "m \<le> NDIRECT \<Longrightarrow> \<exists>t. foldE (trunc_direct sb) [0..<m] (ip, s) = Inr (cleared m ip, t) \<and>
    frees sb (pages_in (sblk s) ip 0 m) s t"
proof (induction m)
  case 0
  then show ?case using ok(1) by (simp add: cleared_def frees_refl)
next
  case (Suc m)
  then obtain t where t: "foldE (trunc_direct sb) [0..<m] (ip, s) = Inr (cleared m ip, t)"
    "frees sb (pages_in (sblk s) ip 0 m) s t" by auto
  have len: "length (i_addrs ip) = NDIRECT + 1" using ok(2) by (simp add: file_ok_def)
  have at: "i_addrs (cleared m ip) ! m = i_addrs ip ! m" using Suc.prems len by (simp add: cleared_def nth_append)
  have blk: "blk_of (sblk s) ip m = unat (i_addrs ip ! m)" using Suc.prems by (simp add: blk_of_def)
  note fold = foldE_snoc[OF t(1)]
  show ?case
  proof (cases "i_addrs ip ! m = 0")
    case True
    then have "trunc_direct sb m (cleared m ip, t) = Inr (cleared (Suc m) ip, t)"
      using Suc.prems len by (simp add: trunc_direct_def at cleared_same)
    moreover have "pages_in (sblk s) ip 0 (Suc m) = pages_in (sblk s) ip 0 m" using True blk by (simp add: pages_in_Suc)
    ultimately show ?thesis unfolding fold using t(2) by auto
  next
    case False
    let ?c = "blk_of (sblk s) ip m"
    have m: "m < MAXFILE" "?c \<noteq> 0" using Suc.prems False blk by (simp_all add: unsigned_eq_0_iff)
    have db: "data_block sb t ?c"
      using frees_data_block[OF t(2) file_ok_blk(1)[OF ok(2) m]] pages_in_fresh[OF ok(2) _ m, of 0 m] by simp
    have "can_log t B k" "sunsaved t = []" "set (sheld t) \<inter> bmap_area sb = {}" "disk_ok sb t"
      using freesD(1-3,8)[OF t(2)] cl B idle by simp_all
    from bfree_frees[OF this(4,1,2) db this(3)] obtain u where u: "bfree sb ?c t = Inr u" "frees sb {?c} t u" by blast
    have "trunc_direct sb m (cleared m ip, t) = Inr (cleared (Suc m) ip, u)"
      using u(1) False Suc.prems len by (simp add: trunc_direct_def at blk[symmetric] cleared_step)
    moreover have "pages_in (sblk s) ip 0 (Suc m) = pages_in (sblk s) ip 0 m \<union> {?c}" using m(2) by (simp add: pages_in_Suc)
    ultimately show ?thesis unfolding fold using frees_trans[OF t(2) u(2)] by auto
  qed
qed

section \<open>The indirect block\<close>

lemma trunc_entries:
  assumes ok: "disk_ok sb s" "file_ok sb s ip" and idle: "sheld s = []" "sunsaved s = []"
    and cl: "can_log s B k" and B: "bmap_area sb \<subseteq> B" and ind: "ind_of ip \<noteq> 0"
    and st: "frees sb F s t" and F: "\<forall>j. NDIRECT \<le> j \<and> j < MAXFILE \<and> blk_of (sblk s) ip j \<noteq> 0 \<longrightarrow> blk_of (sblk s) ip j \<notin> F"
  shows "m \<le> NINDIRECT \<Longrightarrow> \<exists>u. foldE (trunc_entry sb (ind_of ip)) [0..<m] (t\<lparr>sheld := [ind_of ip]\<rparr>) = Inr u \<and>
    frees sb (pages_in (sblk s) ip NDIRECT m) (t\<lparr>sheld := [ind_of ip]\<rparr>) u"
proof (induction m)
  case 0
  show ?case using freesD(1)[OF st] by (simp add: frees_refl)
next
  case (Suc m)
  let ?t = "t\<lparr>sheld := [ind_of ip]\<rparr>" and ?x = "ind_of ip" and ?c = "blk_of (sblk s) ip (m + NDIRECT)"
  from Suc obtain u where u: "foldE (trunc_entry sb ?x) [0..<m] ?t = Inr u"
    "frees sb (pages_in (sblk s) ip NDIRECT m) ?t u" by auto
  note xb = file_ok_ind[OF ok(2) ind]
  have x: "?x \<notin> bmap_area sb" by (rule data_block_area(1)[OF xb])
  then have ux: "sblk u ?x = sblk s ?x" using freesD(7)[OF u(2)] freesD(7)[OF st] by simp
  then have e: "unat (get32 (sblk u ?x) (4 * m)) = ?c" using ind by (simp add: blk_of_def)
  note fold = foldE_snoc[OF u(1)]
  show ?case
  proof (cases "?c = 0")
    case True
    then have "trunc_entry sb ?x m u = Inr u" using e by (simp add: trunc_entry_def unsigned_eq_0_iff)
    moreover have "pages_in (sblk s) ip NDIRECT (Suc m) = pages_in (sblk s) ip NDIRECT m" using True by (simp add: pages_in_Suc)
    ultimately show ?thesis unfolding fold using u(2) by simp
  next
    case False
    have m: "m + NDIRECT < MAXFILE" using Suc.prems by simp
    have "data_block sb ?t ?c"
      using frees_data_block[OF st file_ok_blk(1)[OF ok(2) m False]] F m False by simp
    then have db: "data_block sb u ?c" using frees_data_block[OF u(2)] pages_in_fresh[OF ok(2) _ m False, of NDIRECT m] by simp
    have "can_log ?t B k" by (rule can_log_held[OF freesD(8)[OF st B cl]]) simp_all
    then have "can_log u B k" "sunsaved u = []" "set (sheld u) \<inter> bmap_area sb = {}" "disk_ok sb u"
      using freesD(1-3,8)[OF u(2)] freesD(3)[OF st] B idle x by simp_all
    from bfree_frees[OF this(4,1,2) db this(3)] obtain w where w: "bfree sb ?c u = Inr w" "frees sb {?c} u w" by blast
    have "trunc_entry sb ?x m u = Inr w" using e w(1) False by (auto simp: trunc_entry_def)
    moreover have "pages_in (sblk s) ip NDIRECT (Suc m) = pages_in (sblk s) ip NDIRECT m \<union> {?c}" using False by (simp add: pages_in_Suc)
    ultimately show ?thesis unfolding fold using frees_trans[OF u(2) w(2)] by simp
  qed
qed

lemma all_directs: "i_addrs (cleared NDIRECT ip) ! NDIRECT = i_addrs ip ! NDIRECT" if "length (i_addrs ip) = NDIRECT + 1"
  using that by (simp add: cleared_def nth_append)

lemma file_blocks_split:
  "file_blocks v ip = pages_in v ip 0 NDIRECT \<union> pages_in v ip NDIRECT NINDIRECT \<union> ({ind_of ip} - {0})"
proof -
  have "pages_in v ip 0 MAXFILE = pages_in v ip 0 NDIRECT \<union> pages_in v ip NDIRECT NINDIRECT"
  proof (rule set_eqI, rule iffI)
    fix b assume "b \<in> pages_in v ip 0 MAXFILE"
    then obtain k where k: "k < MAXFILE" "b = blk_of v ip k" "b \<noteq> 0" by (auto simp: pages_in_def)
    show "b \<in> pages_in v ip 0 NDIRECT \<union> pages_in v ip NDIRECT NINDIRECT"
    proof (cases "k < NDIRECT")
      case False
      then have "k - NDIRECT < NINDIRECT" "b = blk_of v ip (k - NDIRECT + NDIRECT)" using k by simp_all
      then show ?thesis using k(3) unfolding pages_in_def by blast
    qed (use k in \<open>auto simp: pages_in_def\<close>)
  next
    fix b assume "b \<in> pages_in v ip 0 NDIRECT \<union> pages_in v ip NDIRECT NINDIRECT"
    then obtain d m k where k: "k < m" "b = blk_of v ip (k + d)" "b \<noteq> 0" "d = 0 \<and> m = NDIRECT \<or> d = NDIRECT \<and> m = NINDIRECT"
      unfolding pages_in_def by blast
    then have "k + d < MAXFILE" by auto
    then show "b \<in> pages_in v ip 0 MAXFILE" using k(2,3) unfolding pages_in_def by auto
  qed
  then show ?thesis by (auto simp: file_blocks_def pages_in_def)
qed

lemma trunc_indirect_ok:
  assumes ok: "disk_ok sb s" "file_ok sb s ip" and idle: "sheld s = []" "sunsaved s = []"
    and cl: "can_log s B k" and B: "bmap_area sb \<subseteq> B" and st: "frees sb (pages_in (sblk s) ip 0 NDIRECT) s t"
  shows "\<exists>u. trunc_indirect sb (cleared NDIRECT ip) t = Inr (cleared (NDIRECT + 1) ip, u) \<and> frees sb (file_blocks (sblk s) ip) s u"
proof (cases "ind_of ip = 0")
  have len: "length (i_addrs ip) = NDIRECT + 1" using ok(2) by (simp add: file_ok_def)
  {
    case True
    then have z: "i_addrs ip ! NDIRECT = 0" by (simp add: ind_of_def unsigned_eq_0_iff)
    have "pages_in (sblk s) ip NDIRECT NINDIRECT = {}" using True by (auto simp: pages_in_def blk_of_def)
    then have "file_blocks (sblk s) ip = pages_in (sblk s) ip 0 NDIRECT" using True by (simp add: file_blocks_split)
    moreover have "trunc_indirect sb (cleared NDIRECT ip) t = Inr (cleared (NDIRECT + 1) ip, t)"
      using z cleared_same[of NDIRECT ip] len by (simp add: trunc_indirect_def all_directs)
    ultimately show ?thesis using st by auto
  next
    case False
    let ?x = "ind_of ip" and ?E = "pages_in (sblk s) ip NDIRECT NINDIRECT" and ?D = "pages_in (sblk s) ip 0 NDIRECT"
    have nz: "i_addrs (cleared NDIRECT ip) ! NDIRECT \<noteq> 0" "unat (i_addrs (cleared NDIRECT ip) ! NDIRECT) = ?x"
      using False by (auto simp: all_directs[OF len] ind_of_def)
    obtain u where u: "foldE (trunc_entry sb ?x) [0..<NINDIRECT] (t\<lparr>sheld := [?x]\<rparr>) = Inr u" "frees sb ?E (t\<lparr>sheld := [?x]\<rparr>) u"
      using trunc_entries[OF ok idle cl B False st, of NINDIRECT] pages_in_fresh[OF ok(2), of 0 NDIRECT] by auto
    note tc = freesD(8)[OF st B cl]
    have xs: "?x < snblk t" using file_ok_ind[OF ok(2) False] freesD(4)[OF st] ok(1) by (simp add: data_block_def disk_ok_def)
    have rd: "s_bread ?x t = Inr (t\<lparr>sheld := [?x]\<rparr>)"
      using s_bread_eq[OF tc _ xs] freesD(2)[OF st] idle by simp
    have ui: "sheld u = [?x]" "sunsaved u = []" using freesD(2,3)[OF u(2)] freesD(3)[OF st] idle by simp_all
    let ?v = "u\<lparr>sheld := []\<rparr>"
    have rel: "s_brelse ?x u = Inr ?v" using ui by (simp add: s_brelse_def)
    have tv: "frees sb ?E t ?v"
      using u(2) freesD(2)[OF st] idle(1) can_log_held[of t _ _ "t\<lparr>sheld := [?x]\<rparr>"] can_log_held[of u _ _ ?v] unfolding frees_def by simp
    have "?x \<notin> ?D" "?x \<notin> ?E" using pages_in_ind[OF ok(2)] by simp_all
    then have "data_block sb ?v ?x"
      using frees_data_block[OF frees_trans[OF st tv] file_ok_ind[OF ok(2) False]] by blast
    then obtain w where w: "bfree sb ?x ?v = Inr w" "frees sb {?x} ?v w"
      using bfree_frees[OF freesD(1)[OF tv] freesD(8)[OF tv B tc]] ui by auto
    have "trunc_indirect sb (cleared NDIRECT ip) t = Inr (cleared (NDIRECT + 1) ip, w)"
      using nz rd u(1) rel w(1) cleared_step[of NDIRECT ip] len by (simp add: trunc_indirect_def Let_def)
    moreover have "file_blocks (sblk s) ip = ?D \<union> ?E \<union> {?x}" using False by (simp add: file_blocks_split)
    ultimately show ?thesis using frees_trans[OF frees_trans[OF st tv] w(2)] by auto
  }
qed

section \<open>Properties\<close>

definition emptied :: "inode \<Rightarrow> inode" where
  "emptied ip = ip\<lparr>i_addrs := replicate (NDIRECT + 1) 0, i_size := 0\<rparr>"

lemma emptied_fields [simp]:
  "i_inum (emptied ip) = i_inum ip" "i_size (emptied ip) = 0" "length (i_addrs (emptied ip)) = NDIRECT + 1"
  "ind_of (emptied ip) = 0" "file_blocks v (emptied ip) = {}" "content v (emptied ip) = []" "dense v (emptied ip)"
proof -
  show ind: "ind_of (emptied ip) = 0" by (simp add: emptied_def ind_of_def del: replicate.simps)
  have "blk_of v (emptied ip) k = 0" if "k < MAXFILE" for k
    using that by (simp add: blk_of_def ind) (simp add: emptied_def del: replicate.simps)
  then show "file_blocks v (emptied ip) = {}" by (auto simp: file_blocks_def ind)
qed (simp_all add: emptied_def content_def fbytes_def dense_def)

lemma emptied_ok: "file_ok sb t (emptied ip)"
proof -
  have "blk_of v (emptied ip) k = 0" if "k < MAXFILE" for v k
    using that emptied_fields(5)[of v ip] unfolding file_blocks_def by blast
  then show ?thesis by (simp add: file_ok_def layout_ok_def)
qed

lemma itrunc_ok:
  assumes ok: "disk_ok sb s" "file_ok sb s ip" and idle: "sheld s = []" "sunsaved s = []" and inum: "i_inum ip < sb_ninodes sb"
    and cl: "can_log s B k" and B: "insert (IBLOCK (i_inum ip) sb) (bmap_area sb) \<subseteq> B"
  defines "ip' \<equiv> emptied ip"
  shows "\<exists>u. frees sb (file_blocks (sblk s) ip) s u \<and> itrunc sb ip s = Inr (ip', iupdate_post sb ip' u) \<and> can_log u B k"
proof -
  have len: "length (i_addrs ip) = NDIRECT + 1" using ok(2) by (simp add: file_ok_def)
  have bm: "bmap_area sb \<subseteq> B" using B by blast
  from trunc_directs[OF ok idle cl bm, of NDIRECT] obtain t where
    t: "foldE (trunc_direct sb) [0..<NDIRECT] (ip, s) = Inr (cleared NDIRECT ip, t)" "frees sb (pages_in (sblk s) ip 0 NDIRECT) s t"
    by auto
  from trunc_indirect_ok[OF ok idle cl bm t(2)] obtain u where
    u: "trunc_indirect sb (cleared NDIRECT ip) t = Inr (cleared (NDIRECT + 1) ip, u)" "frees sb (file_blocks (sblk s) ip) s u" by auto
  note c = freesD(8)[OF u(2) bm cl]
  have eq: "(cleared (NDIRECT + 1) ip)\<lparr>i_size := 0\<rparr> = ip'" using len by (simp add: cleared_def ip'_def emptied_def)
  have "iupdate sb ip' u = Inr (iupdate_post sb ip' u)"
    by (rule iupdate_ok[OF freesD(1)[OF u(2)] c]) (use inum freesD(2,3)[OF u(2)] idle in \<open>simp_all add: ip'_def\<close>)
  then have "itrunc sb ip s = Inr (ip', iupdate_post sb ip' u)"
    unfolding itrunc_def t(1) by (simp only: bindE_simps prod.case u(1) eq Let_def)
  with u(2) c show ?thesis by blast
qed

text \<open>C21. \<open>itrunc\<close> always succeeds on a well-formed file: it frees exactly the blocks of the file and the
  indirect block, empties the inode in memory and on disk, leaves every other block that holds
  data and every other inode as they were, and fits in any transaction that can log the inode's block
  and the free map, however long the file is.\<close>

theorem itrunc_correct:
  assumes lv: "live sb s ip" and "can_log s (insert (IBLOCK (i_inum ip) sb) (bmap_area sb)) k"
  shows "\<exists>ip' t. itrunc sb ip s = Inr (ip', t) \<and> live sb t ip' \<and> content (sblk t) ip' = [] \<and> file_blocks (sblk t) ip' = {} \<and>
    (\<forall>b < sb_size sb. used sb (sblk t) b \<longleftrightarrow> used sb (sblk s) b \<and> b \<notin> file_blocks (sblk s) ip) \<and>
    (\<forall>b. b \<notin> bmap_area sb \<and> b \<notin> inode_area sb \<longrightarrow> sblk t b = sblk s b) \<and>
    (\<forall>j < sb_ninodes sb. j \<noteq> i_inum ip \<longrightarrow> (\<forall>jp. on_disk sb (sblk t) j jp = on_disk sb (sblk s) j jp))"
proof -
  have l: "disk_ok sb s" "file_ok sb s ip" "sheld s = []" "sunsaved s = []" "i_inum ip < sb_ninodes sb" using lv by (simp_all add: live_def)
  let ?ip = "emptied ip"
  from itrunc_ok[OF l assms(2)] obtain u where u: "frees sb (file_blocks (sblk s) ip) s u" "itrunc sb ip s = Inr (?ip, iupdate_post sb ?ip u)"
    by blast
  let ?t = "iupdate_post sb ?ip u"
  have inum: "i_inum ?ip < sb_ninodes sb" "length (i_addrs ?ip) = NDIRECT + 1" using l(5) by simp_all
  note p = iupdate_post_ok[OF freesD(1)[OF u(1)] inum]
  have "on_disk sb (sblk ?t) (i_inum ?ip) ?ip = ?ip" using p(1)[of "i_inum ?ip" ?ip] by simp
  then have "live sb ?t ?ip" using p(4-6) freesD(2,3)[OF u(1)] l(3-5) by (simp add: live_def emptied_ok)
  moreover have "on_disk sb (sblk ?t) j jp = on_disk sb (sblk s) j jp" if "j < sb_ninodes sb" "j \<noteq> i_inum ip" for j jp
  proof -
    have "IBLOCK j sb \<notin> bmap_area sb" using IBLOCK_area[OF that(1)] l(1) by (auto simp: disk_ok_def)
    then show ?thesis using p(1)[of j jp] that(2) freesD(7)[OF u(1)] by (simp add: on_disk_def)
  qed
  moreover have "used sb (sblk ?t) b \<longleftrightarrow> used sb (sblk s) b \<and> b \<notin> file_blocks (sblk s) ip" if "b < sb_size sb" for b
    using p(3)[OF that] freesD(6)[OF u(1) that] by simp
  moreover have "sblk ?t b = sblk s b" if "b \<notin> bmap_area sb" "b \<notin> inode_area sb" for b
    using p(2)[OF that(2)] freesD(7)[OF u(1) that(1)] by simp
  ultimately show ?thesis using u(2) by (intro exI[of _ ?ip] exI[of _ ?t]) simp
qed

theorem itrunc_correct_witness:
  "\<exists>ip' t. itrunc demo_sb demo_file demo_fs = Inr (ip', t) \<and> used demo_sb (sblk demo_fs) 26 \<and> \<not> used demo_sb (sblk t) 26"
proof -
  have "IBLOCK (i_inum demo_file) demo_sb = 22" by (simp add: demo_inode_fields)
  then have "can_log demo_fs (insert (IBLOCK (i_inum demo_file) demo_sb) (bmap_area demo_sb)) 1"
    by (intro demo_fs_ok(2)) (simp_all add: demo_areas card_insert_if)
  from itrunc_correct[OF demo_fs_ok(1) this] obtain ip' t where
    t: "itrunc demo_sb demo_file demo_fs = Inr (ip', t)"
      "\<forall>b < sb_size demo_sb. used demo_sb (sblk t) b \<longleftrightarrow> used demo_sb (sblk demo_fs) b \<and> b \<notin> file_blocks (sblk demo_fs) demo_file"
    by blast
  have "blk_of (sblk demo_fs) demo_file 0 = 26" by (simp add: demo_file_fields)
  then have fb: "26 \<in> file_blocks (sblk demo_fs) demo_file"
    unfolding file_blocks_def by (auto intro!: exI[of _ 0])
  have "data_block demo_sb demo_fs 26" using file_blocks_used[OF _ fb] demo_fs_ok(1) by (simp add: live_def)
  then show ?thesis using t fb by (auto simp: data_block_def)
qed

end
