(* ===== verification/Icache.thy ===== *)
theory Icache
  imports Itrunc "HOL-Library.Multiset"
begin

text \<open>
  The inode cache (\<^verbatim>\<open>fs.c\<close>: \<open>iinit\<close>, \<open>ialloc\<close>, \<open>iget\<close>, \<open>idup\<close>, \<open>ilock\<close>, \<open>iunlock\<close>, \<open>iput\<close>,
  \<open>iunlockput\<close>). A pointer to an inode is its index in the table. The operations run on behalf of
  process \<open>me\<close>; \<open>icache.lock\<close> makes each table access atomic. The results: reference counts are the
  numbers of references clients hold, so an entry is never recycled under a client; \<open>ilock\<close> makes the
  entry agree with the disk; the last \<open>iput\<close> of an inode without links frees its blocks and the inode.
\<close>

definition NINODE :: nat where "NINODE = 50"

record fsys =
  f_sb :: superblock
  f_sto :: store
  f_ic :: "inode list"

definition upd_ic :: "nat \<Rightarrow> (inode \<Rightarrow> inode) \<Rightarrow> fsys \<Rightarrow> fsys" where
  "upd_ic i g f = f\<lparr>f_ic := (f_ic f)[i := g (f_ic f ! i)]\<rparr>"

definition blank_inode :: inode where
  "blank_inode = \<lparr>i_dev = 0, i_inum = 0, i_ref = 0, i_lock = initsleeplock, i_valid = False, i_type = 0, i_major = 0,
     i_minor = 0, i_nlink = 0, i_size = 0, i_addrs = replicate (NDIRECT + 1) 0\<rparr>"

text \<open>The superblock is that of block 1 of the store; the line \<open>iinit\<close> prints is not modelled.\<close>

definition iinit :: "store \<Rightarrow> fsys" where
  "iinit s = \<lparr>f_sb = sb_of (sblk s 1), f_sto = s, f_ic = replicate NINODE blank_inode\<rparr>"

definition iget :: "nat \<Rightarrow> nat \<Rightarrow> fsys \<Rightarrow> (nat \<times> fsys) res" where
  "iget dev inum f =
     (case find_idx (\<lambda>ip. i_ref ip > 0 \<and> i_dev ip = dev \<and> i_inum ip = inum) (f_ic f) of
        Some i \<Rightarrow> Inr (i, upd_ic i (\<lambda>ip. ip\<lparr>i_ref := i_ref ip + 1\<rparr>) f)
      | None \<Rightarrow>
          (case find_idx (\<lambda>ip. i_ref ip = 0) (f_ic f) of
             None \<Rightarrow> Inl (Panic ''iget: no inodes'')
           | Some i \<Rightarrow> Inr (i, upd_ic i (\<lambda>ip. ip\<lparr>i_dev := dev, i_inum := inum, i_ref := 1, i_valid := False\<rparr>) f)))"

definition idup :: "nat \<Rightarrow> fsys \<Rightarrow> fsys" where
  "idup i f = upd_ic i (\<lambda>ip. ip\<lparr>i_ref := i_ref ip + 1\<rparr>) f"

text \<open>The loop of \<open>ialloc\<close> over the inode numbers still to try; the line it prints is not modelled.\<close>

fun ialloc_from :: "nat \<Rightarrow> u16 \<Rightarrow> nat list \<Rightarrow> fsys \<Rightarrow> (nat \<times> fsys) res" where
  "ialloc_from dev ty [] f = Inl (Panic ''ialloc: no inodes'')"
| "ialloc_from dev ty (inum # inums) f =
     (let b = IBLOCK inum (f_sb f); d = dinode_at inum in
      bindE (s_bread b (f_sto f)) (\<lambda>s.
      if get16 (sblk s b) d = 0 then
        bindE (s_log_write b (s_put b (put16 (put_bytes (sblk s b) d (replicate 64 0)) d ty) s)) (\<lambda>s.
        bindE (s_brelse b s) (\<lambda>s. iget dev inum (f\<lparr>f_sto := s\<rparr>)))
      else bindE (s_brelse b s) (\<lambda>s. ialloc_from dev ty inums (f\<lparr>f_sto := s\<rparr>))))"

definition ialloc :: "nat \<Rightarrow> u16 \<Rightarrow> fsys \<Rightarrow> (nat \<times> fsys) res" where
  "ialloc dev ty f = ialloc_from dev ty [1..<sb_ninodes (f_sb f)] f"

definition ilock :: "nat \<Rightarrow> nat \<Rightarrow> fsys \<Rightarrow> fsys res" where
  "ilock me i f =
     (if i_ref (f_ic f ! i) < 1 then Inl (Panic ''ilock'')
      else bindE (acquiresleep me (i_lock (f_ic f ! i))) (\<lambda>lk.
        let ip = (f_ic f ! i)\<lparr>i_lock := lk\<rparr> in
        if i_valid ip then Inr (upd_ic i (\<lambda>_. ip) f)
        else let b = IBLOCK (i_inum ip) (f_sb f) in
          bindE (s_bread b (f_sto f)) (\<lambda>s.
          let ip = load_dinode (sblk s b) (dinode_at (i_inum ip)) ip in
          bindE (s_brelse b s) (\<lambda>s.
          if i_type ip = 0 then Inl (Panic ''ilock: no type'')
          else Inr (upd_ic i (\<lambda>_. ip\<lparr>i_valid := True\<rparr>) (f\<lparr>f_sto := s\<rparr>))))))"

definition iunlock :: "nat \<Rightarrow> nat \<Rightarrow> fsys \<Rightarrow> fsys res" where
  "iunlock me i f =
     (if \<not> holdingsleep me (i_lock (f_ic f ! i)) \<or> i_ref (f_ic f ! i) < 1 then Inl (Panic ''iunlock'')
      else Inr (upd_ic i (\<lambda>ip. ip\<lparr>i_lock := releasesleep (i_lock ip)\<rparr>) f))"

text \<open>The branch of \<open>iput\<close> that frees the inode, which has no links and no other references.\<close>

definition iput_free :: "superblock \<Rightarrow> inode \<Rightarrow> store \<Rightarrow> (inode \<times> store) res" where
  "iput_free sb ip s =
     bindE (itrunc sb ip s) (\<lambda>(ip, s).
     let ip = ip\<lparr>i_type := 0\<rparr> in
     bindE (iupdate sb ip s) (\<lambda>s. Inr (ip\<lparr>i_valid := False\<rparr>, s)))"

definition iput :: "nat \<Rightarrow> nat \<Rightarrow> fsys \<Rightarrow> fsys res" where
  "iput me i f =
     bindE (acquiresleep me (i_lock (f_ic f ! i))) (\<lambda>lk.
     let ip = (f_ic f ! i)\<lparr>i_lock := lk\<rparr> in
     bindE (if i_valid ip \<and> i_nlink ip = 0 \<and> i_ref ip = 1 then iput_free (f_sb f) ip (f_sto f)
            else Inr (ip, f_sto f)) (\<lambda>(ip, s).
     Inr (upd_ic i (\<lambda>_. ip\<lparr>i_lock := releasesleep (i_lock ip), i_ref := i_ref ip - 1\<rparr>) (f\<lparr>f_sto := s\<rparr>))))"

definition iunlockput :: "nat \<Rightarrow> nat \<Rightarrow> fsys \<Rightarrow> fsys res" where
  "iunlockput me i f = bindE (iunlock me i f) (iput me i)"

section \<open>Reference counts\<close>

definition ikey :: "inode \<Rightarrow> nat \<times> nat" where
  "ikey ip = (i_dev ip, i_inum ip)"

text \<open>
  \<open>refs_ok ic R\<close>: \<open>R\<close> is the multiset of the references that clients hold, by device and inode
  number. Every entry in use counts the references to its inode, no two entries in use are for the
  same inode, and every referenced inode has an entry.
\<close>

definition refs_ok :: "inode list \<Rightarrow> (nat \<times> nat) multiset \<Rightarrow> bool" where
  "refs_ok ic R \<longleftrightarrow>
     (\<forall>i<length ic. i_ref (ic ! i) \<ge> 0 \<and> (i_ref (ic ! i) > 0 \<longrightarrow> i_ref (ic ! i) = int (count R (ikey (ic ! i))))) \<and>
     (\<forall>i<length ic. \<forall>j<length ic. i \<noteq> j \<and> i_ref (ic ! i) > 0 \<and> i_ref (ic ! j) > 0 \<longrightarrow> ikey (ic ! i) \<noteq> ikey (ic ! j)) \<and>
     (\<forall>k\<in>#R. \<exists>i<length ic. i_ref (ic ! i) > 0 \<and> ikey (ic ! i) = k)"

text \<open>Clients take, copy, lock, unlock and drop references; a copy or a drop is of a reference the client has.\<close>

inductive icstep :: "fsys \<times> (nat \<times> nat) multiset \<Rightarrow> fsys \<times> (nat \<times> nat) multiset \<Rightarrow> bool" where
  get: "iget dev inum f = Inr (i, g) \<Longrightarrow> icstep (f, R) (g, add_mset (dev, inum) R)"
| dup: "i < length (f_ic f) \<Longrightarrow> i_ref (f_ic f ! i) > 0 \<Longrightarrow> icstep (f, R) (idup i f, add_mset (ikey (f_ic f ! i)) R)"
| lock: "i < length (f_ic f) \<Longrightarrow> ilock me i f = Inr g \<Longrightarrow> icstep (f, R) (g, R)"
| unlock: "i < length (f_ic f) \<Longrightarrow> iunlock me i f = Inr g \<Longrightarrow> icstep (f, R) (g, R)"
| put: "i < length (f_ic f) \<Longrightarrow> i_ref (f_ic f ! i) > 0 \<Longrightarrow> iput me i f = Inr g \<Longrightarrow>
    icstep (f, R) (g, R - {#ikey (f_ic f ! i)#})"

inductive icreach :: "fsys \<times> (nat \<times> nat) multiset \<Rightarrow> bool" where
  start: "icreach (iinit s, {#})"
| step: "icreach x \<Longrightarrow> icstep x y \<Longrightarrow> icreach y"

lemma upd_ic_nth: "i < length (f_ic f) \<Longrightarrow> f_ic (upd_ic i g f) ! j = (if j = i then g (f_ic f ! i) else f_ic f ! j)"
  by (simp add: upd_ic_def nth_list_update)

lemma length_upd_ic [simp]: "length (f_ic (upd_ic i g f)) = length (f_ic f)"
  by (simp add: upd_ic_def)

text \<open>An operation that leaves the reference count and the identity of every entry alone.\<close>

lemma refs_ok_same:
  assumes "refs_ok ic R" and "length jc = length ic"
    and same: "\<And>i. i < length ic \<Longrightarrow> i_ref (jc ! i) = i_ref (ic ! i) \<and> ikey (jc ! i) = ikey (ic ! i)"
  shows "refs_ok jc R"
proof -
  have "\<exists>i<length jc. i_ref (jc ! i) > 0 \<and> ikey (jc ! i) = k" if "k \<in># R" for k
    using assms that unfolding refs_ok_def by metis
  then show ?thesis using assms by (simp add: refs_ok_def)
qed

text \<open>Changing the count of the entry \<open>i\<close>, which holds the inode \<open>k\<close> before, or none, and after.\<close>

lemma refs_ok_count:
  assumes ok: "refs_ok ic R" and i: "i < length ic" and ref: "i_ref ip = int (count R' k)" and k: "ikey ip = k"
    and was: "i_ref (ic ! i) > 0 \<longrightarrow> ikey (ic ! i) = k" and others: "\<And>k'. k' \<noteq> k \<Longrightarrow> count R' k' = count R k'"
    and uniq: "\<And>j. j < length ic \<Longrightarrow> j \<noteq> i \<Longrightarrow> i_ref (ic ! j) > 0 \<Longrightarrow> ikey (ic ! j) \<noteq> k"
  shows "refs_ok (ic[i := ip]) R'"
  unfolding refs_ok_def
proof (intro conjI allI impI ballI)
  fix j assume j: "j < length (ic[i := ip])"
  show "i_ref (ic[i := ip] ! j) \<ge> 0" using ok i j ref by (cases "j = i") (auto simp: refs_ok_def)
  show "i_ref (ic[i := ip] ! j) = int (count R' (ikey (ic[i := ip] ! j)))" if "i_ref (ic[i := ip] ! j) > 0"
    using ok i j ref k others uniq[of j] that by (cases "j = i") (auto simp: refs_ok_def)
  fix l assume l: "l < length (ic[i := ip])" "j \<noteq> l \<and> i_ref (ic[i := ip] ! j) > 0 \<and> i_ref (ic[i := ip] ! l) > 0"
  show "ikey (ic[i := ip] ! j) \<noteq> ikey (ic[i := ip] ! l)"
    using ok i j k l uniq[of j] uniq[of l] by (cases "j = i"; cases "l = i") (auto simp: refs_ok_def)
next
  fix k' assume k': "k' \<in># R'"
  show "\<exists>j<length (ic[i := ip]). i_ref (ic[i := ip] ! j) > 0 \<and> ikey (ic[i := ip] ! j) = k'"
  proof (cases "k' = k")
    case True
    then show ?thesis using i ref k k' by (intro exI[of _ i]) simp
  next
    case False
    then have "k' \<in># R" using k' others[OF False] by (metis count_greater_zero_iff)
    then obtain j where j: "j < length ic" "i_ref (ic ! j) > 0" "ikey (ic ! j) = k'" using ok by (auto simp: refs_ok_def)
    then have "j \<noteq> i" using was False by auto
    with j show ?thesis by (intro exI[of _ j]) simp
  qed
qed

lemma iget_refs:
  assumes ok: "refs_ok (f_ic f) R" and run: "iget dev inum f = Inr (i, g)"
  shows "refs_ok (f_ic g) (add_mset (dev, inum) R)" and "i < length (f_ic f)" and "ikey (f_ic g ! i) = (dev, inum)"
    and "length (f_ic g) = length (f_ic f)" and "j \<noteq> i \<Longrightarrow> f_ic g ! j = f_ic f ! j"
    and "i_ref (f_ic f ! i) > 0 \<Longrightarrow> ikey (f_ic f ! i) = (dev, inum)"
proof -
  let ?P = "\<lambda>ip. i_ref ip > 0 \<and> i_dev ip = dev \<and> i_inum ip = inum"
  have goal: "refs_ok (f_ic g) (add_mset (dev, inum) R) \<and> i < length (f_ic f) \<and> ikey (f_ic g ! i) = (dev, inum) \<and>
    length (f_ic g) = length (f_ic f) \<and> (\<forall>j. j \<noteq> i \<longrightarrow> f_ic g ! j = f_ic f ! j) \<and> (i_ref (f_ic f ! i) > 0 \<longrightarrow> ikey (f_ic f ! i) = (dev, inum))"
  proof (cases "find_idx ?P (f_ic f)")
    case (Some l)
    then have l: "l = i" and g: "g = upd_ic i (\<lambda>ip. ip\<lparr>i_ref := i_ref ip + 1\<rparr>) f" using run by (auto simp: iget_def)
    note f = find_idx_SomeD[OF Some, unfolded l]
    have k: "ikey (f_ic f ! i) = (dev, inum)" using f(2) by (simp add: ikey_def)
    have "refs_ok ((f_ic f)[i := (f_ic f ! i)\<lparr>i_ref := i_ref (f_ic f ! i) + 1\<rparr>]) (add_mset (dev, inum) R)"
      using ok f k by (intro refs_ok_count[OF ok f(1), of _ _ "(dev, inum)"]) (auto simp: refs_ok_def ikey_def)
    then show ?thesis using f(1) k by (simp add: g upd_ic_nth) (simp add: upd_ic_def ikey_def)
  next
    case None
    then obtain l where l: "find_idx (\<lambda>ip. i_ref ip = 0) (f_ic f) = Some l"
      using run by (auto simp: iget_def split: option.splits)
    then have li: "l = i" and g: "g = upd_ic i (\<lambda>ip. ip\<lparr>i_dev := dev, i_inum := inum, i_ref := 1, i_valid := False\<rparr>) f"
      using run None by (auto simp: iget_def)
    note f = find_idx_SomeD[OF l, unfolded li]
    have no: "ikey (f_ic f ! j) \<noteq> (dev, inum)" if "j < length (f_ic f)" "i_ref (f_ic f ! j) > 0" for j
      using None that nth_mem[OF that(1)] by (auto simp: find_idx_None ikey_def)
    then have "(dev, inum) \<notin># R" using ok by (auto simp: refs_ok_def)
    then have "count R (dev, inum) = 0" by (simp add: not_in_iff)
    then have "refs_ok ((f_ic f)[i := (f_ic f ! i)\<lparr>i_dev := dev, i_inum := inum, i_ref := 1, i_valid := False\<rparr>]) (add_mset (dev, inum) R)"
      using f no by (intro refs_ok_count[OF ok f(1), of _ _ "(dev, inum)"]) (auto simp: ikey_def)
    then show ?thesis using f by (simp add: g upd_ic_nth) (simp add: upd_ic_def ikey_def)
  qed
  then show "refs_ok (f_ic g) (add_mset (dev, inum) R)" and "i < length (f_ic f)" and "ikey (f_ic g ! i) = (dev, inum)"
    and "length (f_ic g) = length (f_ic f)" and "j \<noteq> i \<Longrightarrow> f_ic g ! j = f_ic f ! j"
    and "i_ref (f_ic f ! i) > 0 \<Longrightarrow> ikey (f_ic f ! i) = (dev, inum)" by auto
qed

lemma ilock_refs:
  assumes "ilock me i f = Inr g" and "i < length (f_ic f)"
  shows "length (f_ic g) = length (f_ic f)" and "i_ref (f_ic g ! j) = i_ref (f_ic f ! j)" and "ikey (f_ic g ! j) = ikey (f_ic f ! j)"
  using assms
  by (auto simp: ilock_def bindE_Inr_iff Let_def upd_ic_def nth_list_update ikey_def load_dinode_def split: if_splits)

lemma iunlock_refs:
  assumes "iunlock me i f = Inr g" and "i < length (f_ic f)"
  shows "length (f_ic g) = length (f_ic f)" and "i_ref (f_ic g ! j) = i_ref (f_ic f ! j)" and "ikey (f_ic g ! j) = ikey (f_ic f ! j)"
  using assms by (auto simp: iunlock_def upd_ic_def nth_list_update ikey_def split: if_splits)

text \<open>\<open>itrunc\<close> keeps the identity and the count of its inode.\<close>

lemma trunc_directs_key:
  "foldE (trunc_direct sb) is (ip, s) = Inr (jp, t) \<Longrightarrow> ikey jp = ikey ip \<and> i_ref jp = i_ref ip \<and> i_lock jp = i_lock ip"
proof (induction "is" arbitrary: ip s)
  case (Cons i "is")
  then obtain kp u where k: "trunc_direct sb i (ip, s) = Inr (kp, u)" "foldE (trunc_direct sb) is (kp, u) = Inr (jp, t)"
    by (auto simp: bindE_Inr_iff)
  have "ikey kp = ikey ip \<and> i_ref kp = i_ref ip \<and> i_lock kp = i_lock ip"
    using k(1) by (auto simp: trunc_direct_def bindE_Inr_iff ikey_def split: if_splits)
  then show ?case using Cons.IH[OF k(2)] by simp
qed simp

lemma itrunc_key:
  assumes "itrunc sb ip s = Inr (jp, t)"
  shows "ikey jp = ikey ip \<and> i_ref jp = i_ref ip \<and> i_lock jp = i_lock ip"
proof (cases "foldE (trunc_direct sb) [0..<NDIRECT] (ip, s)")
  case (Inr x)
  obtain kp u where x: "x = (kp, u)" by (cases x)
  have "bindE (trunc_indirect sb kp u) (\<lambda>(ip, s). let ip = ip\<lparr>i_size := 0\<rparr> in bindE (iupdate sb ip s) (\<lambda>s. Inr (ip, s))) = Inr (jp, t)"
    using assms unfolding itrunc_def Inr x by simp
  then show ?thesis
    using trunc_directs_key[OF Inr[unfolded x]]
    by (auto simp: trunc_indirect_def Let_def bindE_Inr_iff ikey_def split: if_splits)
qed (use assms in \<open>simp add: itrunc_def\<close>)

lemma iput_free_key: "iput_free sb ip s = Inr (jp, t) \<Longrightarrow> ikey jp = ikey ip \<and> i_ref jp = i_ref ip"
  using itrunc_key by (fastforce simp: iput_free_def Let_def bindE_Inr_iff ikey_def)

lemma iput_refs:
  assumes run: "iput me i f = Inr g" and i: "i < length (f_ic f)"
  shows "\<exists>jp. f_ic g = (f_ic f)[i := jp] \<and> ikey jp = ikey (f_ic f ! i) \<and> i_ref jp = i_ref (f_ic f ! i) - 1"
proof -
  let ?ip = "\<lambda>lk. (f_ic f ! i)\<lparr>i_lock := lk\<rparr>"
  let ?r = "\<lambda>lk. if i_valid (?ip lk) \<and> i_nlink (?ip lk) = 0 \<and> i_ref (?ip lk) = 1 then iput_free (f_sb f) (?ip lk) (f_sto f)
         else Inr (?ip lk, f_sto f)"
  let ?g = "\<lambda>jp s. upd_ic i (\<lambda>_. jp\<lparr>i_lock := releasesleep (i_lock jp), i_ref := i_ref jp - 1\<rparr>) (f\<lparr>f_sto := s\<rparr>)"
  from run obtain lk x where x: "?r lk = Inr x" "(\<lambda>(jp, s). Inr (?g jp s)) x = (Inr g :: fsys res)"
    unfolding iput_def Let_def bindE_Inr_iff by blast
  obtain jp s where js: "x = (jp, s)" by (cases x)
  have j: "?r lk = Inr (jp, s)" and g: "g = ?g jp s" using x by (simp_all only: js prod.case sum.inject)
  have "ikey jp = ikey (f_ic f ! i) \<and> i_ref jp = i_ref (f_ic f ! i)"
    using j iput_free_key[of "f_sb f" "?ip lk" "f_sto f" jp s] by (auto simp: ikey_def split: if_splits)
  then show ?thesis
    by (intro exI[of _ "jp\<lparr>i_lock := releasesleep (i_lock jp), i_ref := i_ref jp - 1\<rparr>"]) (simp add: g upd_ic_def ikey_def)
qed

text \<open>
  \<open>refs_kept ic R jc Q\<close>: the counts are right afterwards, and an entry whose inode is still
  referenced keeps its inode.
\<close>

definition refs_kept :: "inode list \<Rightarrow> inode list \<Rightarrow> (nat \<times> nat) multiset \<Rightarrow> bool" where
  "refs_kept ic jc Q \<longleftrightarrow> refs_ok jc Q \<and> length jc = length ic \<and>
     (\<forall>i<length ic. i_ref (ic ! i) > 0 \<and> ikey (ic ! i) \<in># Q \<longrightarrow> i_ref (jc ! i) > 0 \<and> ikey (jc ! i) = ikey (ic ! i))"

lemma refs_kept_same:
  assumes "refs_ok ic R" and "length jc = length ic"
    and "\<And>i. i < length ic \<Longrightarrow> i_ref (jc ! i) = i_ref (ic ! i) \<and> ikey (jc ! i) = ikey (ic ! i)"
  shows "refs_kept ic jc R"
  using refs_ok_same[OF assms] assms(2,3) by (simp add: refs_kept_def)

lemma iget_kept:
  assumes ok: "refs_ok (f_ic f) R" and run: "iget dev inum f = Inr (l, g)"
  shows "refs_kept (f_ic f) (f_ic g) (add_mset (dev, inum) R)"
proof -
  note g = iget_refs[OF ok run]
  have "i_ref (f_ic g ! i) > 0 \<and> ikey (f_ic g ! i) = ikey (f_ic f ! i)" if i: "i < length (f_ic f)" "i_ref (f_ic f ! i) > 0" for i
  proof (cases "i = l")
    case True
    then have k: "ikey (f_ic g ! i) = ikey (f_ic f ! i)" using g(3,6) i by simp
    have "(dev, inum) \<in># add_mset (dev, inum) R" by simp
    then obtain j where j: "j < length (f_ic g)" "i_ref (f_ic g ! j) > 0" "ikey (f_ic g ! j) = (dev, inum)"
      using g(1) unfolding refs_ok_def by blast
    have "j = i"
    proof (rule ccontr)
      assume "j \<noteq> i"
      then have "i_ref (f_ic f ! j) > 0" "ikey (f_ic f ! j) = ikey (f_ic f ! i)" using j g(3,5) True k by auto
      then show False using ok i j(1) \<open>j \<noteq> i\<close> g(4) unfolding refs_ok_def by metis
    qed
    then show ?thesis using j(2) k by simp
  qed (use g(5) i in simp)
  then show ?thesis using g(1,4) by (simp add: refs_kept_def)
qed

lemma idup_kept:
  assumes ok: "refs_ok (f_ic f) R" and l: "l < length (f_ic f)" "i_ref (f_ic f ! l) > 0"
  shows "refs_kept (f_ic f) (f_ic (idup l f)) (add_mset (ikey (f_ic f ! l)) R)"
proof -
  have "refs_ok ((f_ic f)[l := (f_ic f ! l)\<lparr>i_ref := i_ref (f_ic f ! l) + 1\<rparr>]) (add_mset (ikey (f_ic f ! l)) R)"
    using ok l by (intro refs_ok_count[OF ok l(1), of _ _ "ikey (f_ic f ! l)"]) (auto simp: refs_ok_def ikey_def)
  then show ?thesis using l by (auto simp: refs_kept_def idup_def upd_ic_def nth_list_update ikey_def)
qed

lemma iput_kept:
  assumes ok: "refs_ok (f_ic f) R" and l: "l < length (f_ic f)" "i_ref (f_ic f ! l) > 0" and run: "iput me l f = Inr g"
  shows "refs_kept (f_ic f) (f_ic g) (R - {#ikey (f_ic f ! l)#})"
proof -
  let ?k = "ikey (f_ic f ! l)"
  from iput_refs[OF run l(1)] obtain jp where
    jp: "f_ic g = (f_ic f)[l := jp]" "ikey jp = ?k" "i_ref jp = i_ref (f_ic f ! l) - 1" by blast
  have cnt: "i_ref (f_ic f ! l) = int (count R ?k)" using ok l by (simp add: refs_ok_def)
  have c: "i_ref jp = int (count (R - {#?k#}) ?k)" using jp(3) cnt l(2) by (simp add: of_nat_diff)
  have uniq: "\<And>j. j < length (f_ic f) \<Longrightarrow> j \<noteq> l \<Longrightarrow> i_ref (f_ic f ! j) > 0 \<Longrightarrow> ikey (f_ic f ! j) \<noteq> ?k"
    using ok l unfolding refs_ok_def by blast
  have "refs_ok (f_ic g) (R - {#?k#})"
    unfolding jp(1) by (rule refs_ok_count[OF ok l(1) c jp(2) _ _ uniq]) simp_all
  moreover have "i_ref jp > 0" if "?k \<in># R - {#?k#}"
    using that cnt jp(3) by (simp add: in_diff_count)
  ultimately show ?thesis using jp l by (auto simp: refs_kept_def nth_list_update)
qed

inductive_cases icstepE: "icstep (f, R) (g, Q)"

lemma icstep_kept:
  assumes "icstep (f, R) (g, Q)" and ok: "refs_ok (f_ic f) R"
  shows "refs_kept (f_ic f) (f_ic g) Q"
  using assms(1)
  by (elim icstepE)
    (use iget_kept[OF ok] idup_kept[OF ok] iput_kept[OF ok] ilock_refs iunlock_refs in \<open>auto intro!: refs_kept_same[OF ok]\<close>)

lemma icreach_refs: "icreach x \<Longrightarrow> refs_ok (f_ic (fst x)) (snd x)"
proof (induction rule: icreach.induct)
  case (start s)
  then show ?case by (simp add: iinit_def refs_ok_def blank_inode_def)
next
  case (step x y)
  then show ?case using icstep_kept[of "fst x" "snd x" "fst y" "snd y"] by (simp add: refs_kept_def)
qed

section \<open>Properties\<close>


lemma demo_iget:
  "\<exists>f. iget 1 3 (iinit s) = Inr (0, f) \<and> length (f_ic f) = NINODE \<and> i_ref (f_ic f ! 0) = 1 \<and> ikey (f_ic f ! 0) = (1, 3)"
proof -
  have "find_idx (\<lambda>ip. i_ref ip > 0 \<and> i_dev ip = 1 \<and> i_inum ip = 3) (replicate NINODE blank_inode) = None"
    by (simp add: find_idx_None blank_inode_def)
  moreover have "find_idx (\<lambda>ip. i_ref ip = 0) (replicate NINODE blank_inode) = Some 0"
    by (simp add: find_idx_Some NINODE_def blank_inode_def)
  ultimately show ?thesis
    by (simp add: iget_def iinit_def upd_ic_def ikey_def) (simp add: NINODE_def)
qed


lemma inode_lock [simp]:
  "blk_of v (ip\<lparr>i_lock := lk\<rparr>) k = blk_of v ip k" "ind_of (ip\<lparr>i_lock := lk\<rparr>) = ind_of ip"
  "file_blocks v (ip\<lparr>i_lock := lk\<rparr>) = file_blocks v ip" "file_ok sb s (ip\<lparr>i_lock := lk\<rparr>) = file_ok sb s ip"
  by (auto simp: blk_of_def ind_of_def file_blocks_def file_ok_def layout_ok_def)

lemma on_disk_lock: "on_disk sb v inum (ip\<lparr>i_lock := lk\<rparr>) = (on_disk sb v inum ip)\<lparr>i_lock := lk\<rparr>"
  by (simp add: on_disk_def load_dinode_def)

text \<open>\<open>ilock\<close> returns the entry locked by the caller and equal to the inode on disk, with the disk and
  all other entries unchanged; it panics exactly when the entry has to be read and is free on disk.\<close>

theorem ilock_correct:
  assumes ok: "disk_ok (f_sb f) (f_sto f)" and idle: "sheld (f_sto f) = []" "sunsaved (f_sto f) = []" and room: "\<forall>b. \<not> s_full b (f_sto f)"
    and i: "i < length (f_ic f)" "i_ref (f_ic f ! i) \<ge> 1" "i_inum (f_ic f ! i) < sb_ninodes (f_sb f)"
    and free: "\<not> sl_locked (i_lock (f_ic f ! i))"
    and coherent: "i_valid (f_ic f ! i) \<longrightarrow> on_disk (f_sb f) (sblk (f_sto f)) (i_inum (f_ic f ! i)) (f_ic f ! i) = f_ic f ! i"
  shows "case ilock me i f of
      Inr g \<Rightarrow> holdingsleep me (i_lock (f_ic g ! i)) \<and> i_valid (f_ic g ! i) \<and> f_sto g = f_sto f \<and> f_sb g = f_sb f \<and>
        on_disk (f_sb f) (sblk (f_sto f)) (i_inum (f_ic f ! i)) (f_ic g ! i) = f_ic g ! i \<and>
        ikey (f_ic g ! i) = ikey (f_ic f ! i) \<and> i_ref (f_ic g ! i) = i_ref (f_ic f ! i) \<and> (\<forall>j. j \<noteq> i \<longrightarrow> f_ic g ! j = f_ic f ! j)
    | Inl e \<Rightarrow> e = Panic ''ilock: no type'' \<and> \<not> i_valid (f_ic f ! i) \<and>
        i_type (on_disk (f_sb f) (sblk (f_sto f)) (i_inum (f_ic f ! i)) (f_ic f ! i)) = 0"
proof -
  let ?ip = "f_ic f ! i" and ?s = "f_sto f" and ?b = "IBLOCK (i_inum (f_ic f ! i)) (f_sb f)"
  have b: "?b < snblk ?s" using IBLOCK_area[OF i(3)] ok by (auto simp: disk_ok_def meta_area_def)
  have rd: "s_bread ?b ?s = Inr (?s\<lparr>sheld := [?b]\<rparr>)" using idle room b by (simp add: s_bread_def)
  have rel: "s_brelse ?b (?s\<lparr>sheld := [?b]\<rparr>) = Inr ?s" using idle by (simp add: s_brelse_def)
  have aq: "acquiresleep me (i_lock ?ip) = Inr ((i_lock ?ip)\<lparr>sl_locked := True, sl_pid := me\<rparr>)"
    using free by (simp add: acquiresleep_def)
  show ?thesis
  proof (cases "i_valid ?ip")
    case True
    then show ?thesis
      using i coherent by (simp add: ilock_def aq upd_ic_def holdingsleep_def ikey_def on_disk_lock)
  next
    case False
    then show ?thesis
      using i by (simp add: ilock_def aq rd rel Let_def upd_ic_def holdingsleep_def ikey_def on_disk_def load_dinode_def)
  qed
qed

text \<open>A table with one entry in use, for the file of the small disk.\<close>

definition demo_sys :: fsys where
  "demo_sys = \<lparr>f_sb = demo_sb, f_sto = demo_fs, f_ic = [demo_file]\<rparr>"

lemma demo_sys_fields [simp]:
  "f_sb demo_sys = demo_sb" "f_sto demo_sys = demo_fs" "f_ic demo_sys = [demo_file]"
  "i_ref demo_file = 1" "i_valid demo_file" "i_nlink demo_file = 0" "\<not> sl_locked (i_lock demo_file)"
  by (simp_all add: demo_sys_def demo_inode_def initsleeplock_def)

lemma demo_room: "\<forall>b. \<not> s_full b demo_fs"
  using can_log_not_full[OF demo_fs_ok(2), of "{}" 0] by simp

theorem ilock_correct_witness:
  "\<exists>g. ilock 7 0 demo_sys = Inr g \<and> holdingsleep 7 (i_lock (f_ic g ! 0)) \<and> i_valid (f_ic g ! 0)"
proof -
  have "case ilock 7 0 demo_sys of
      Inr g \<Rightarrow> holdingsleep 7 (i_lock (f_ic g ! 0)) \<and> i_valid (f_ic g ! 0) | Inl e \<Rightarrow> \<not> i_valid demo_file"
    using ilock_correct[of demo_sys 0 7] demo_fs_ok(1) demo_room demo_file_fields(1)
    by (simp add: live_def split: sum.splits)
  then show ?thesis by (auto split: sum.splits)
qed

lemma iput_free_ok:
  assumes lv: "live sb s ip" and cl: "can_log s (insert (IBLOCK (i_inum ip) sb) (bmap_area sb)) k"
  shows "\<exists>jp t. iput_free sb ip s = Inr (jp, t) \<and> jp = (emptied ip)\<lparr>i_type := 0, i_valid := False\<rparr> \<and> disk_ok sb t \<and>
    sheld t = [] \<and> sunsaved t = [] \<and>
    (\<forall>b < sb_size sb. used sb (sblk t) b \<longleftrightarrow> used sb (sblk s) b \<and> b \<notin> file_blocks (sblk s) ip) \<and>
    (\<forall>b. b \<notin> bmap_area sb \<and> b \<notin> inode_area sb \<longrightarrow> sblk t b = sblk s b) \<and>
    (\<forall>j < sb_ninodes sb. \<forall>kp. if j = i_inum ip then i_type (on_disk sb (sblk t) j kp) = 0
       else on_disk sb (sblk t) j kp = on_disk sb (sblk s) j kp)"
proof -
  have l: "disk_ok sb s" "file_ok sb s ip" "sheld s = []" "sunsaved s = []" "i_inum ip < sb_ninodes sb" using lv by (simp_all add: live_def)
  let ?B = "insert (IBLOCK (i_inum ip) sb) (bmap_area sb)" and ?e = "emptied ip" and ?z = "(emptied ip)\<lparr>i_type := 0\<rparr>"
  from itrunc_ok[OF l cl subset_refl] obtain u where
    u: "frees sb (file_blocks (sblk s) ip) s u" "itrunc sb ip s = Inr (?e, iupdate_post sb ?e u)" "can_log u ?B k" by blast
  have ie: "i_inum ?e < sb_ninodes sb" "length (i_addrs ?e) = NDIRECT + 1" and iz: "i_inum ?z < sb_ninodes sb" "length (i_addrs ?z) = NDIRECT + 1"
    using l(5) by simp_all
  note p = iupdate_post_ok[OF freesD(1)[OF u(1)] ie]
  note q = iupdate_post_ok[OF p(4) iz]
  let ?t = "iupdate_post sb ?z (iupdate_post sb ?e u)"
  have "iupdate sb ?z (iupdate_post sb ?e u) = Inr ?t"
    by (rule iupdate_ok[OF p(4) p(9)[OF u(3)] iz(1)]) (use p(5,6) freesD(2,3)[OF u(1)] l(3,4) in simp_all)
  then have run: "iput_free sb ip s = Inr (?z\<lparr>i_valid := False\<rparr>, ?t)" by (simp add: iput_free_def u(2) Let_def)
  have ino: "if j = i_inum ip then i_type (on_disk sb (sblk ?t) j kp) = 0 else on_disk sb (sblk ?t) j kp = on_disk sb (sblk s) j kp"
    if "j < sb_ninodes sb" for j kp
  proof -
    have "IBLOCK j sb \<notin> bmap_area sb" using IBLOCK_area[OF that] l(1) by (auto simp: disk_ok_def)
    then have "on_disk sb (sblk u) j kp = on_disk sb (sblk s) j kp" using freesD(7)[OF u(1)] by (simp add: on_disk_def)
    then show ?thesis using p(1)[of j kp] q(1)[of j kp] by (cases "j = i_inum ip") simp_all
  qed
  have "used sb (sblk ?t) b \<longleftrightarrow> used sb (sblk s) b \<and> b \<notin> file_blocks (sblk s) ip" if "b < sb_size sb" for b
    using p(3)[OF that] q(3)[OF that] freesD(6)[OF u(1) that] by simp
  moreover have "sblk ?t b = sblk s b" if "b \<notin> bmap_area sb" "b \<notin> inode_area sb" for b
    using p(2)[OF that(2)] q(2)[OF that(2)] freesD(7)[OF u(1) that(1)] by simp
  ultimately show ?thesis
    using run ino q(4-6) p(5,6) freesD(2,3)[OF u(1)] l(3,4) by (intro exI[of _ "?z\<lparr>i_valid := False\<rparr>"] exI[of _ ?t]) simp
qed

text \<open>C19. Dropping the last reference to an inode without links frees it: its blocks become free and no
  others, its inode on disk is marked free and no other inode changes, no other data block changes,
  and the cache entry becomes free, invalid and unlocked while all others stay.\<close>

theorem iput_frees:
  assumes i: "i < length (f_ic f)" and last: "i_valid (f_ic f ! i)" "i_nlink (f_ic f ! i) = 0" "i_ref (f_ic f ! i) = 1"
    and free: "\<not> sl_locked (i_lock (f_ic f ! i))" and lv: "live (f_sb f) (f_sto f) (f_ic f ! i)"
    and cl: "can_log (f_sto f) (insert (IBLOCK (i_inum (f_ic f ! i)) (f_sb f)) (bmap_area (f_sb f))) k"
  shows "\<exists>g. iput me i f = Inr g \<and> i_ref (f_ic g ! i) = 0 \<and> \<not> i_valid (f_ic g ! i) \<and> \<not> sl_locked (i_lock (f_ic g ! i)) \<and>
    (\<forall>j. j \<noteq> i \<longrightarrow> f_ic g ! j = f_ic f ! j) \<and> disk_ok (f_sb f) (f_sto g) \<and>
    (\<forall>b < sb_size (f_sb f). used (f_sb f) (sblk (f_sto g)) b \<longleftrightarrow>
       used (f_sb f) (sblk (f_sto f)) b \<and> b \<notin> file_blocks (sblk (f_sto f)) (f_ic f ! i)) \<and>
    (\<forall>b. b \<notin> bmap_area (f_sb f) \<and> b \<notin> inode_area (f_sb f) \<longrightarrow> sblk (f_sto g) b = sblk (f_sto f) b) \<and>
    (\<forall>j < sb_ninodes (f_sb f). \<forall>kp. if j = i_inum (f_ic f ! i) then i_type (on_disk (f_sb f) (sblk (f_sto g)) j kp) = 0
       else on_disk (f_sb f) (sblk (f_sto g)) j kp = on_disk (f_sb f) (sblk (f_sto f)) j kp)"
proof -
  let ?lk = "(i_lock (f_ic f ! i))\<lparr>sl_locked := True, sl_pid := me\<rparr>"
  let ?ip = "(f_ic f ! i)\<lparr>i_lock := ?lk\<rparr>"
  have aq: "acquiresleep me (i_lock (f_ic f ! i)) = Inr ?lk" using free by (simp add: acquiresleep_def)
  have lv': "live (f_sb f) (f_sto f) ?ip" using lv by (simp add: live_def dense_def on_disk_lock)
  have cl': "can_log (f_sto f) (insert (IBLOCK (i_inum ?ip) (f_sb f)) (bmap_area (f_sb f))) k" using cl by simp
  from iput_free_ok[OF lv' cl'] obtain jp t where
    r: "iput_free (f_sb f) ?ip (f_sto f) = Inr (jp, t)" "jp = (emptied ?ip)\<lparr>i_type := 0, i_valid := False\<rparr>" "disk_ok (f_sb f) t"
      "\<forall>b < sb_size (f_sb f). used (f_sb f) (sblk t) b \<longleftrightarrow> used (f_sb f) (sblk (f_sto f)) b \<and> b \<notin> file_blocks (sblk (f_sto f)) ?ip"
      "\<forall>b. b \<notin> bmap_area (f_sb f) \<and> b \<notin> inode_area (f_sb f) \<longrightarrow> sblk t b = sblk (f_sto f) b"
      "\<forall>j < sb_ninodes (f_sb f). \<forall>kp. if j = i_inum ?ip then i_type (on_disk (f_sb f) (sblk t) j kp) = 0
         else on_disk (f_sb f) (sblk t) j kp = on_disk (f_sb f) (sblk (f_sto f)) j kp"
    by blast
  let ?g = "upd_ic i (\<lambda>_. jp\<lparr>i_lock := releasesleep (i_lock jp), i_ref := i_ref jp - 1\<rparr>) (f\<lparr>f_sto := t\<rparr>)"
  have "iput me i f = Inr ?g" using last by (simp add: iput_def aq r(1) Let_def)
  moreover have "i_ref jp = 1" "\<not> i_valid jp" using last(3) by (simp_all add: r(2) emptied_def)
  moreover have "f_sto ?g = t" by (simp add: upd_ic_def)
  ultimately show ?thesis
    using i r(3-6) by (intro exI[of _ ?g]) (simp add: upd_ic_nth releasesleep_def)
qed

theorem iput_frees_witness:
  "\<exists>g. iput 7 0 demo_sys = Inr g \<and> i_ref (f_ic g ! 0) = 0 \<and> \<not> used demo_sb (sblk (f_sto g)) 26"
proof -
  have "IBLOCK (i_inum demo_file) demo_sb = 22" by (simp add: demo_inode_fields)
  then have cl: "can_log demo_fs (insert (IBLOCK (i_inum demo_file) demo_sb) (bmap_area demo_sb)) 1"
    by (intro demo_fs_ok(2)) (simp_all add: demo_areas card_insert_if)
  have fb: "26 \<in> file_blocks (sblk demo_fs) demo_file"
    using demo_file_fields(6)[of 0 "sblk demo_fs"] unfolding file_blocks_def by (auto intro!: exI[of _ 0])
  have "26 < sb_size demo_sb" by (simp add: demo_sb_def)
  with iput_frees[of 0 demo_sys 1 7] demo_fs_ok(1) cl fb show ?thesis by auto
qed

section \<open>Allocating an inode\<close>

text \<open>The slot of a fresh inode: zeros and the type.\<close>

definition fresh_slot :: "u16 \<Rightarrow> nat \<Rightarrow> block \<Rightarrow> block" where
  "fresh_slot ty d bs = put16 (put_bytes bs d (replicate 64 0)) d ty"

lemma get16_bytes: "bs ! i = 0 \<Longrightarrow> bs ! (i + 1) = 0 \<Longrightarrow> get16 bs i = 0"
  by (simp add: get16_def)

lemma get32_bytes: "bs ! i = 0 \<Longrightarrow> bs ! (i + 1) = 0 \<Longrightarrow> bs ! (i + 2) = 0 \<Longrightarrow> bs ! (i + 3) = 0 \<Longrightarrow> get32 bs i = 0"
  by (simp add: get32_def)

lemma load_fresh_slot:
  assumes "d + 64 \<le> length bs"
  shows "load_dinode (fresh_slot ty d bs) d jp =
    jp\<lparr>i_type := ty, i_major := 0, i_minor := 0, i_nlink := 0, i_size := 0, i_addrs := replicate (NDIRECT + 1) 0\<rparr>"
proof -
  let ?z = "put_bytes bs d (replicate 64 0)"
  have z: "?z ! (d + k) = 0" if "k < 64" for k using that assms by (simp add: nth_put_bytes)
  have g16: "get16 ?z (d + k) = 0" if "k + 2 \<le> 64" for k using z[of k] z[of "k + 1"] that by (intro get16_bytes) (simp_all add: add.assoc)
  have g32: "get32 ?z (d + k) = 0" if "k + 4 \<le> 64" for k
    using z[of k] z[of "k + 1"] z[of "k + 2"] z[of "k + 3"] that by (intro get32_bytes) (simp_all add: add.assoc)
  have "words (fresh_slot ty d bs) (d + 12) 13 = replicate 13 0"
    using g32 by (intro nth_equalityI) (simp_all add: words_def fresh_slot_def get32_put16_other add.assoc del: replicate.simps)
  then show ?thesis
    using assms g16[of 2] g16[of 4] g16[of 6] g32[of 8] by (simp add: load_dinode_def) (simp add: fresh_slot_def field_other)
qed

lemma load_fresh_slot_other:
  assumes "d + 64 \<le> length bs" and "e + 64 \<le> length bs" and "e + 64 \<le> d \<or> d + 64 \<le> e"
  shows "load_dinode (fresh_slot ty d bs) e jp = load_dinode bs e jp"
proof -
  have same: "fresh_slot ty d bs ! (e + k) = bs ! (e + k)" if "k < 64" for k
    using assms that by (auto simp: fresh_slot_def nth_put16_other nth_put_bytes)
  have g16: "get16 (fresh_slot ty d bs) (e + k) = get16 bs (e + k)" if "k + 2 \<le> 64" for k
    using same[of k] same[of "k + 1"] that by (simp add: get16_def add.assoc)
  have g32: "get32 (fresh_slot ty d bs) (e + k) = get32 bs (e + k)" if "k + 4 \<le> 64" for k
    using same[of k] same[of "k + 1"] same[of "k + 2"] same[of "k + 3"] that by (simp add: get32_def add.assoc)
  have "words (fresh_slot ty d bs) (e + 12) 13 = words bs (e + 12) 13"
    using g32 by (intro nth_equalityI) (simp_all add: words_def add.assoc)
  then show ?thesis using g16[of 0] g16[of 2] g16[of 4] g16[of 6] g32[of 8] by (simp add: load_dinode_def)
qed

definition free_inode :: "fsys \<Rightarrow> nat \<Rightarrow> bool" where
  "free_inode f inum \<longleftrightarrow> get16 (sblk (f_sto f) (IBLOCK inum (f_sb f))) (dinode_at inum) = 0"

definition ialloc_post :: "u16 \<Rightarrow> nat \<Rightarrow> fsys \<Rightarrow> fsys" where
  "ialloc_post ty inum f = (let b = IBLOCK inum (f_sb f); s = f_sto f in
     f\<lparr>f_sto := s\<lparr>sblk := (sblk s)(b := fresh_slot ty (dinode_at inum) (sblk s b)),
                  slog := (slog s)\<lparr>l_lh := absorb b (l_lh (slog s))\<rparr>\<rparr>\<rparr>)"

lemma ialloc_from_ok:
  assumes ok: "disk_ok (f_sb f) (f_sto f)" and idle: "sheld (f_sto f) = []" "sunsaved (f_sto f) = []" and cl: "can_log (f_sto f) B k"
  shows "\<forall>inum\<in>set inums. inum < sb_ninodes (f_sb f) \<Longrightarrow> ialloc_from dev ty inums f =
    (case find (free_inode f) inums of None \<Rightarrow> Inl (Panic ''ialloc: no inodes'') | Some inum \<Rightarrow> iget dev inum (ialloc_post ty inum f))"
proof (induction inums)
  case (Cons inum inums)
  let ?b = "IBLOCK inum (f_sb f)" and ?s = "f_sto f" and ?d = "dinode_at inum"
  have "?b < snblk ?s" using IBLOCK_area[of inum "f_sb f"] Cons.prems ok by (auto simp: disk_ok_def meta_area_def)
  then have rd: "s_bread ?b ?s = Inr (?s\<lparr>sheld := [?b]\<rparr>)" using s_bread_eq[OF cl, of ?b] idle by simp
  show ?case
  proof (cases "free_inode f inum")
    case True
    have "s_log_write ?b (s_put ?b (fresh_slot ty ?d (sblk ?s ?b)) (?s\<lparr>sheld := [?b]\<rparr>)) = Inr ((f_sto (ialloc_post ty inum f))\<lparr>sheld := [?b]\<rparr>)"
      using can_log_not_log_full[OF cl] idle by (simp add: s_log_write_def s_put_def ialloc_post_def Let_def)
    moreover have "s_brelse ?b ((f_sto (ialloc_post ty inum f))\<lparr>sheld := [?b]\<rparr>) = Inr (f_sto (ialloc_post ty inum f))"
      using idle by (simp add: s_brelse_def ialloc_post_def Let_def)
    moreover have "f\<lparr>f_sto := f_sto (ialloc_post ty inum f)\<rparr> = ialloc_post ty inum f" by (simp add: ialloc_post_def Let_def)
    ultimately show ?thesis using True rd by (simp add: free_inode_def fresh_slot_def Let_def)
  next
    case False
    have "s_brelse ?b (?s\<lparr>sheld := [?b]\<rparr>) = Inr ?s" using idle by (simp add: s_brelse_def)
    moreover have "f\<lparr>f_sto := ?s\<rparr> = f" by simp
    ultimately show ?thesis using False rd Cons by (simp add: free_inode_def Let_def)
  qed
qed simp

lemma ialloc_post_ok:
  fixes ty :: u16
  assumes ok: "disk_ok (f_sb f) (f_sto f)" and inum: "inum < sb_ninodes (f_sb f)"
  defines "g \<equiv> ialloc_post ty inum f"
  shows "on_disk (f_sb f) (sblk (f_sto g)) j jp = (if j = inum
      then jp\<lparr>i_type := ty, i_major := 0, i_minor := 0, i_nlink := 0, i_size := 0, i_addrs := replicate (NDIRECT + 1) 0\<rparr>
      else on_disk (f_sb f) (sblk (f_sto f)) j jp)"
    and "b \<notin> inode_area (f_sb f) \<Longrightarrow> sblk (f_sto g) b = sblk (f_sto f) b" and "disk_ok (f_sb f) (f_sto g)"
    and "f_sb g = f_sb f" "f_ic g = f_ic f"
proof -
  let ?b = "IBLOCK inum (f_sb f)"
  have area: "?b \<in> inode_area (f_sb f)" by (rule IBLOCK_area[OF inum])
  have len: "length (sblk (f_sto f) b) = BSIZE" for b using ok by (simp add: disk_ok_def)
  show "on_disk (f_sb f) (sblk (f_sto g)) j jp = (if j = inum
      then jp\<lparr>i_type := ty, i_major := 0, i_minor := 0, i_nlink := 0, i_size := 0, i_addrs := replicate (NDIRECT + 1) 0\<rparr>
      else on_disk (f_sb f) (sblk (f_sto f)) j jp)"
    using dinode_slot[of inum] dinode_slot[of j] dinode_disjoint[of inum j] len
    by (auto simp: on_disk_def g_def ialloc_post_def Let_def load_fresh_slot load_fresh_slot_other IBLOCK_def)
  show eq: "b \<notin> inode_area (f_sb f) \<Longrightarrow> sblk (f_sto g) b = sblk (f_sto f) b" for b
    using area by (auto simp: g_def ialloc_post_def Let_def)
  show "f_sb g = f_sb f" "f_ic g = f_ic f" by (simp_all add: g_def ialloc_post_def Let_def)
  have lg: "log_area (slog (f_sto g)) = log_area (slog (f_sto f))" "meta_area (f_sb f) (slog (f_sto g)) = meta_area (f_sb f) (slog (f_sto f))" "snblk (f_sto g) = snblk (f_sto f)"
    by (simp_all add: g_def ialloc_post_def Let_def log_area_def meta_area_def)
  have "length (fresh_slot ty (dinode_at inum) (sblk (f_sto f) ?b)) = BSIZE"
    using dinode_slot[of inum] len by (simp add: fresh_slot_def)
  then have "length (sblk (f_sto g) b) = BSIZE" for b using len by (simp add: g_def ialloc_post_def Let_def)
  moreover have "used (f_sb f) (sblk (f_sto g)) b \<longleftrightarrow> used (f_sb f) (sblk (f_sto f)) b" if "b < sb_size (f_sb f)" for b
  proof -
    have "BBLOCK b (f_sb f) \<notin> inode_area (f_sb f)" using BBLOCK_area[OF that] ok by (auto simp: disk_ok_def)
    then show ?thesis using eq by (simp add: used_def)
  qed
  ultimately show "disk_ok (f_sb f) (f_sto g)" using ok lg by (auto simp: disk_ok_def subset_iff)
qed

text \<open>\<open>ialloc\<close> takes the lowest free inode number, initialises it on disk to an empty file of the given
  type, leaves every other inode and every data block unchanged, and returns a reference to it; it
  panics only when no inode is free or the inode cache is full.\<close>

theorem ialloc_correct:
  assumes "disk_ok (f_sb f) (f_sto f)" and "sheld (f_sto f) = []" and "sunsaved (f_sto f) = []" and "can_log (f_sto f) B k"
    and "refs_ok (f_ic f) R"
  shows "case ialloc dev ty f of
      Inr (i, g) \<Rightarrow> \<exists>inum. 1 \<le> inum \<and> inum < sb_ninodes (f_sb f) \<and> free_inode f inum \<and> (\<forall>j. 1 \<le> j \<and> j < inum \<longrightarrow> \<not> free_inode f j) \<and>
        ikey (f_ic g ! i) = (dev, inum) \<and> refs_ok (f_ic g) (add_mset (dev, inum) R) \<and> disk_ok (f_sb f) (f_sto g) \<and>
        (\<forall>j jp. on_disk (f_sb f) (sblk (f_sto g)) j jp = (if j = inum
           then jp\<lparr>i_type := ty, i_major := 0, i_minor := 0, i_nlink := 0, i_size := 0, i_addrs := replicate (NDIRECT + 1) 0\<rparr>
           else on_disk (f_sb f) (sblk (f_sto f)) j jp)) \<and>
        (\<forall>b. b \<notin> inode_area (f_sb f) \<longrightarrow> sblk (f_sto g) b = sblk (f_sto f) b)
    | Inl e \<Rightarrow> e = Panic ''ialloc: no inodes'' \<and> (\<forall>j. 1 \<le> j \<and> j < sb_ninodes (f_sb f) \<longrightarrow> \<not> free_inode f j) \<or>
        e = Panic ''iget: no inodes'' \<and> (\<forall>ip\<in>set (f_ic f). i_ref ip \<noteq> 0)"
proof -
  have run: "ialloc dev ty f = (case find (free_inode f) [1..<sb_ninodes (f_sb f)] of None \<Rightarrow> Inl (Panic ''ialloc: no inodes'')
      | Some inum \<Rightarrow> iget dev inum (ialloc_post ty inum f))"
    unfolding ialloc_def by (rule ialloc_from_ok[OF assms(1-4)]) simp
  show ?thesis
  proof (cases "find (free_inode f) [1..<sb_ninodes (f_sb f)]")
    case None
    have "ialloc dev ty f = Inl (Panic ''ialloc: no inodes'')" unfolding run None by simp
    then show ?thesis using None by (auto simp: find_None_iff)
  next
    case (Some inum)
    then obtain n where n: "n < sb_ninodes (f_sb f) - 1" "inum = 1 + n" "free_inode f inum" "\<forall>j<n. \<not> free_inode f (1 + j)"
      unfolding find_Some_iff by auto
    have run: "ialloc dev ty f = iget dev inum (ialloc_post ty inum f)" unfolding run Some by simp
    have lowest: "\<not> free_inode f j" if "1 \<le> j" "j < inum" for j using n(4)[rule_format, of "j - 1"] that n(2) by simp
    have inum: "1 \<le> inum" "inum < sb_ninodes (f_sb f)" using n by simp_all
    note p = ialloc_post_ok[OF assms(1) inum(2), where ty = ty]
    show ?thesis
    proof (cases "iget dev inum (ialloc_post ty inum f)")
      case (Inl e)
      then have "e = Panic ''iget: no inodes'' \<and> (\<forall>ip\<in>set (f_ic f). i_ref ip \<noteq> 0)"
        by (auto simp: iget_def p(5) find_idx_None split: option.splits)
      then show ?thesis by (simp add: run Inl)
    next
      case (Inr r)
      obtain i g where r: "r = (i, g)" by (cases r)
      have "refs_ok (f_ic (ialloc_post ty inum f)) R" using assms(5) by (simp add: p(5))
      note q = iget_refs[OF this Inr[unfolded r]]
      have "f_sto g = f_sto (ialloc_post ty inum f)" using Inr by (auto simp: r iget_def upd_ic_def split: option.splits)
      then show ?thesis using q(1,3) p(1-3) inum n(3) lowest by (auto simp: run Inr r)
    qed
  qed
qed

theorem ialloc_correct_witness:
  "\<exists>i g. ialloc ROOTDEV T_FILE (demo_sys\<lparr>f_ic := replicate NINODE blank_inode\<rparr>) = Inr (i, g) \<and> ikey (f_ic g ! i) = (ROOTDEV, 1)"
proof -
  let ?f = "demo_sys\<lparr>f_ic := replicate NINODE blank_inode\<rparr>"
  have ok: "disk_ok demo_sb demo_fs" "sheld demo_fs = []" "sunsaved demo_fs = []" using demo_fs_ok(1) by (simp_all add: live_def)
  have cl: "can_log demo_fs {} 1" by (rule demo_fs_ok(2)) simp_all
  have refs: "refs_ok (replicate NINODE blank_inode) {#}" by (simp add: refs_ok_def blank_inode_def)
  have b: "IBLOCK 1 demo_sb = 22" "sblk demo_fs 22 = store_dinode demo_file 192 (replicate BSIZE 0)" "dinode_at 1 = 64"
    by (simp_all add: demo_disk_def iupdate_post_def alloc_post_def Let_def BBLOCK_def IBLOCK_def demo_sb_def demo_inode_def demo_store_def dinode_at_def)
  have "get16 (store_dinode demo_file 192 (replicate BSIZE 0)) 64 = get16 (replicate BSIZE 0) 64"
    by (simp add: store_dinode_def field_other)
  also have "\<dots> = 0" by (simp add: get16_def)
  finally have z: "get16 (store_dinode demo_file 192 (replicate BSIZE 0)) 64 = 0" .
  have flds: "f_sto ?f = demo_fs" "f_sb ?f = demo_sb" by simp_all
  have f1: "free_inode ?f 1" unfolding free_inode_def flds b by (rule z)
  have res: "case ialloc ROOTDEV T_FILE ?f of
      Inr (i, g) \<Rightarrow> \<exists>inum. 1 \<le> inum \<and> (\<forall>j. 1 \<le> j \<and> j < inum \<longrightarrow> \<not> free_inode ?f j) \<and> ikey (f_ic g ! i) = (ROOTDEV, inum)
    | Inl e \<Rightarrow> (\<forall>j. 1 \<le> j \<and> j < sb_ninodes demo_sb \<longrightarrow> \<not> free_inode ?f j) \<or> (\<forall>ip\<in>set (f_ic ?f). i_ref ip \<noteq> 0)"
    using ialloc_correct[of ?f "{}" 1 "{#}" ROOTDEV T_FILE] ok cl refs by (auto split: sum.splits)
  show ?thesis
  proof (cases "ialloc ROOTDEV T_FILE ?f")
    case (Inl e)
    then have "(\<forall>j. 1 \<le> j \<and> j < 16 \<longrightarrow> \<not> free_inode ?f j) \<or> i_ref blank_inode \<noteq> 0"
      using res by (auto simp: demo_sb_def NINODE_def)
    then show ?thesis using f1 by (auto simp: blank_inode_def)
  next
    case (Inr r)
    obtain i g where r: "r = (i, g)" by (cases r)
    obtain inum where "1 \<le> inum" "\<forall>j. 1 \<le> j \<and> j < inum \<longrightarrow> \<not> free_inode ?f j" "ikey (f_ic g ! i) = (ROOTDEV, inum)"
      using res by (auto simp: Inr r)
    moreover have "\<not> 1 < inum" using calculation(2) f1 by auto
    ultimately show ?thesis using Inr r by auto
  qed
qed

end
