(* ===== verification/Dir.thy ===== *)
theory Dir
  imports Icache
begin

text \<open>
  Directories and path names (\<^verbatim>\<open>fs.c\<close>: \<open>namecmp\<close>, \<open>dirlookup\<close>, \<open>dirlink\<close>, \<open>skipelem\<close>, \<open>namex\<close>,
  \<open>namei\<close>, \<open>nameiparent\<close>; \<^verbatim>\<open>fs.h\<close>: \<open>struct dirent\<close>). A C string is the list of its bytes, the
  terminating zero left out; the array \<open>name\<close> is a list of 14 bytes. The results: \<open>dirlookup\<close> finds
  the first entry with the name; what \<open>dirlink\<close> adds is found and no other name is affected;
  \<open>skipelem\<close> splits off the first element of a path, so path lookup ends.
\<close>

abbreviation DIRSIZ :: nat where "DIRSIZ \<equiv> 14"
abbreviation SLASH :: u8 where "SLASH \<equiv> 47"

definition ROOTINO :: nat where "ROOTINO = 1"

section \<open>Names\<close>

text \<open>\<^verbatim>\<open>strncmp\<close> and \<^verbatim>\<open>strncpy\<close> (\<^verbatim>\<open>string.c\<close>) on strings given as lists.\<close>

definition hdz :: "u8 list \<Rightarrow> u8" where
  "hdz xs = (case xs of [] \<Rightarrow> 0 | x # _ \<Rightarrow> x)"

fun strncmp_l :: "u8 list \<Rightarrow> u8 list \<Rightarrow> nat \<Rightarrow> int" where
  "strncmp_l p q 0 = 0"
| "strncmp_l p q (Suc n) =
     (if hdz p \<noteq> 0 \<and> hdz p = hdz q then strncmp_l (tl p) (tl q) n else int (unat (hdz p)) - int (unat (hdz q)))"

fun strncpy_l :: "u8 list \<Rightarrow> nat \<Rightarrow> u8 list" where
  "strncpy_l t 0 = []"
| "strncpy_l t (Suc n) = (if hdz t = 0 then replicate (Suc n) 0 else hdz t # strncpy_l (tl t) n)"

definition namecmp :: "u8 list \<Rightarrow> u8 list \<Rightarrow> int" where
  "namecmp s t = strncmp_l s t DIRSIZ"

section \<open>Directory entries\<close>

definition dirent_bytes :: "u16 \<Rightarrow> u8 list \<Rightarrow> u8 list" where
  "dirent_bytes inum name = put16 [0, 0] 0 inum @ name"

text \<open>\<open>readi\<close> and \<open>writei\<close> on the inode at index \<open>dp\<close> of the cache.\<close>

definition readi_at :: "devops list \<Rightarrow> nat \<Rightarrow> u32 \<Rightarrow> u32 \<Rightarrow> fsys \<Rightarrow> ((int \<times> u8 list) \<times> fsys) res" where
  "readi_at dv dp off n f =
     bindE (readi dv (f_sb f) off n (f_ic f ! dp) (f_sto f)) (\<lambda>(r, ip, s). Inr (r, upd_ic dp (\<lambda>_. ip) (f\<lparr>f_sto := s\<rparr>)))"

definition writei_at :: "devops list \<Rightarrow> nat \<Rightarrow> u8 list \<Rightarrow> u32 \<Rightarrow> u32 \<Rightarrow> fsys \<Rightarrow> (int \<times> fsys) res" where
  "writei_at dv dp src off n f =
     bindE (writei dv (f_sb f) src off n (f_ic f ! dp) (f_sto f)) (\<lambda>(r, ip, s). Inr (r, upd_ic dp (\<lambda>_. ip) (f\<lparr>f_sto := s\<rparr>)))"

text \<open>
  The loop of \<open>dirlookup\<close>; the result is the inode and the offset stored through \<open>poff\<close>. The offset
  cannot wrap: a read at the last 16 bytes below \<open>2 ^ 32\<close> is refused by \<open>readi\<close>.
\<close>

function dirlookup_from :: "devops list \<Rightarrow> nat \<Rightarrow> u8 list \<Rightarrow> nat \<Rightarrow> fsys \<Rightarrow> ((nat \<times> nat) option \<times> fsys) res" where
  "dirlookup_from dv dp name off f =
     (if off < unat (i_size (f_ic f ! dp)) then
        bindE (readi_at dv dp (of_nat off) 16 f) (\<lambda>((n, bs), f).
        if n \<noteq> 16 then Inl (Panic ''dirlookup read'')
        else if get16 bs 0 \<noteq> 0 \<and> namecmp name (get_bytes bs 2 DIRSIZ) = 0 then
          bindE (iget (i_dev (f_ic f ! dp)) (unat (get16 bs 0)) f) (\<lambda>(i, f). Inr (Some (i, off), f))
        else dirlookup_from dv dp name (off + 16) f)
      else Inr (None, f))"
  by pat_completeness auto
termination
proof (relation "measure (\<lambda>(dv, dp, name, off, f). 2 ^ 32 - off)")
  fix dp off and f :: fsys
  assume "off < unat (i_size (f_ic f ! dp))"
  then have "off < 2 ^ 32" using unat_u32_lt[of "i_size (f_ic f ! dp)"] by simp
  then show "((dv, dp, name, off + 16, g), dv, dp, name, off, f) \<in> measure (\<lambda>(dv, dp, name, off, f). 2 ^ 32 - off)" for dv name and g :: fsys
    by simp
qed simp

declare dirlookup_from.simps [simp del]

definition dirlookup :: "devops list \<Rightarrow> nat \<Rightarrow> u8 list \<Rightarrow> fsys \<Rightarrow> ((nat \<times> nat) option \<times> fsys) res" where
  "dirlookup dv dp name f =
     (if i_type (f_ic f ! dp) \<noteq> T_DIR then Inl (Panic ''dirlookup not DIR'') else dirlookup_from dv dp name 0 f)"

text \<open>The search of \<open>dirlink\<close> for an empty entry: its offset, or the size of the directory.\<close>

function dirlink_slot :: "devops list \<Rightarrow> nat \<Rightarrow> nat \<Rightarrow> fsys \<Rightarrow> (nat \<times> fsys) res" where
  "dirlink_slot dv dp off f =
     (if off < unat (i_size (f_ic f ! dp)) then
        bindE (readi_at dv dp (of_nat off) 16 f) (\<lambda>((n, bs), f).
        if n \<noteq> 16 then Inl (Panic ''dirlink read'')
        else if get16 bs 0 = 0 then Inr (off, f)
        else dirlink_slot dv dp (off + 16) f)
      else Inr (off, f))"
  by pat_completeness auto
termination
proof (relation "measure (\<lambda>(dv, dp, off, f). 2 ^ 32 - off)")
  fix dp off and f :: fsys
  assume "off < unat (i_size (f_ic f ! dp))"
  then have "off < 2 ^ 32" using unat_u32_lt[of "i_size (f_ic f ! dp)"] by simp
  then show "((dv, dp, off + 16, g), dv, dp, off, f) \<in> measure (\<lambda>(dv, dp, off, f). 2 ^ 32 - off)" for dv and g :: fsys
    by simp
qed simp

declare dirlink_slot.simps [simp del]

definition dirlink :: "devops list \<Rightarrow> nat \<Rightarrow> nat \<Rightarrow> u8 list \<Rightarrow> nat \<Rightarrow> fsys \<Rightarrow> (int \<times> fsys) res" where
  "dirlink dv me dp name inum f =
     bindE (dirlookup dv dp name f) (\<lambda>(r, f).
     case r of
       Some (ip, _) \<Rightarrow> bindE (iput me ip f) (\<lambda>f. Inr (- 1, f))
     | None \<Rightarrow>
         bindE (dirlink_slot dv dp 0 f) (\<lambda>(off, f).
         bindE (writei_at dv dp (dirent_bytes (of_nat inum) (strncpy_l name DIRSIZ)) (of_nat off) 16 f) (\<lambda>(n, f).
         if n \<noteq> 16 then Inl (Panic ''dirlink'') else Inr (0, f))))"

section \<open>Paths\<close>

definition skipelem :: "u8 list \<Rightarrow> u8 list \<Rightarrow> (u8 list \<times> u8 list) option" where
  "skipelem path name =
     (let path = dropWhile (\<lambda>c. c = SLASH) path in
      if path = [] then None
      else let elem = takeWhile (\<lambda>c. c \<noteq> SLASH) path;
               path = dropWhile (\<lambda>c. c \<noteq> SLASH) path;
               name = (if length elem \<ge> DIRSIZ then put_bytes name 0 (take DIRSIZ elem) else put_bytes name 0 (elem @ [0]))
           in Some (dropWhile (\<lambda>c. c = SLASH) path, name))"

lemma skipelem_shorter:
  assumes "skipelem path name = Some (rest, name')" shows "length rest < length path"
proof -
  let ?p = "dropWhile (\<lambda>c. c = SLASH) path"
  have p: "?p \<noteq> []" and r: "rest = dropWhile (\<lambda>c. c = SLASH) (dropWhile (\<lambda>c. c \<noteq> SLASH) ?p)"
    using assms by (auto simp: skipelem_def Let_def split: if_splits)
  have "hd ?p \<noteq> SLASH" using hd_dropWhile[OF p] .
  then have "dropWhile (\<lambda>c. c \<noteq> SLASH) ?p = dropWhile (\<lambda>c. c \<noteq> SLASH) (tl ?p)"
    using p by (cases ?p) auto
  then have "length rest \<le> length (tl ?p)"
    unfolding r by (metis (no_types, lifting) length_dropWhile_le order_trans)
  also have "\<dots> < length ?p" using p by simp
  also have "\<dots> \<le> length path" by (rule length_dropWhile_le)
  finally show ?thesis .
qed

text \<open>The loop of \<open>namex\<close>; the result is the inode, if any, and the array \<open>name\<close>.\<close>

function namex_loop :: "devops list \<Rightarrow> nat \<Rightarrow> bool \<Rightarrow> u8 list \<Rightarrow> u8 list \<Rightarrow> nat \<Rightarrow> fsys \<Rightarrow> (nat option \<times> u8 list \<times> fsys) res" where
  "namex_loop dv me parent path name ip f =
     (case skipelem path name of
        None \<Rightarrow> if parent then bindE (iput me ip f) (\<lambda>f. Inr (None, name, f)) else Inr (Some ip, name, f)
      | Some (path, name) \<Rightarrow>
          bindE (ilock me ip f) (\<lambda>f.
          if i_type (f_ic f ! ip) \<noteq> T_DIR then bindE (iunlockput me ip f) (\<lambda>f. Inr (None, name, f))
          else if parent \<and> path = [] then bindE (iunlock me ip f) (\<lambda>f. Inr (Some ip, name, f))
          else bindE (dirlookup dv ip name f) (\<lambda>(r, f).
            case r of
              None \<Rightarrow> bindE (iunlockput me ip f) (\<lambda>f. Inr (None, name, f))
            | Some (next, _) \<Rightarrow> bindE (iunlockput me ip f) (\<lambda>f. namex_loop dv me parent path name next f))))"
  by pat_completeness auto
termination
  by (relation "measure (\<lambda>(dv, me, parent, path, name, ip, f). length path)") (auto dest: skipelem_shorter)

declare namex_loop.simps [simp del]

definition namex :: "devops list \<Rightarrow> nat \<Rightarrow> nat \<Rightarrow> u8 list \<Rightarrow> bool \<Rightarrow> u8 list \<Rightarrow> fsys \<Rightarrow> (nat option \<times> u8 list \<times> fsys) res" where
  "namex dv me cwd path parent name f =
     bindE (if hdz path = SLASH then iget ROOTDEV ROOTINO f else Inr (cwd, idup cwd f)) (\<lambda>(ip, f).
     namex_loop dv me parent path name ip f)"

definition namei :: "devops list \<Rightarrow> nat \<Rightarrow> nat \<Rightarrow> u8 list \<Rightarrow> fsys \<Rightarrow> (nat option \<times> fsys) res" where
  "namei dv me cwd path f = bindE (namex dv me cwd path False (replicate DIRSIZ 0) f) (\<lambda>(r, _, f). Inr (r, f))"

definition nameiparent :: "devops list \<Rightarrow> nat \<Rightarrow> nat \<Rightarrow> u8 list \<Rightarrow> u8 list \<Rightarrow> fsys \<Rightarrow> (nat option \<times> u8 list \<times> fsys) res" where
  "nameiparent dv me cwd path name f = namex dv me cwd path True name f"

section \<open>Comparing and copying names\<close>

text \<open>The name an array of bytes stands for: at most 14 bytes, up to the first zero.\<close>

definition dname :: "u8 list \<Rightarrow> u8 list" where
  "dname xs = takeWhile (\<lambda>c. c \<noteq> 0) (take DIRSIZ xs)"

lemma hdz_tl: "hdz xs \<noteq> 0 \<Longrightarrow> xs = hdz xs # tl xs"
  by (cases xs) (auto simp: hdz_def)

lemma strncmp_l_eq_0:
  "(strncmp_l p q n = 0) = (takeWhile (\<lambda>c. c \<noteq> 0) (take n p) = takeWhile (\<lambda>c. c \<noteq> 0) (take n q))"
proof (induction n arbitrary: p q)
  case (Suc n)
  show ?case
  proof (cases "hdz p \<noteq> 0 \<and> hdz p = hdz q")
    case True
    then obtain c p' q' where "p = c # p'" "q = c # q'" "c \<noteq> 0" using hdz_tl by metis
    then show ?thesis using Suc by (simp add: hdz_def)
  next
    case False
    have "int (unat (hdz p)) - int (unat (hdz q)) = 0 \<longleftrightarrow> hdz p = hdz q"
      unfolding word_eq_unat_iff by linarith
    then have "strncmp_l p q (Suc n) = 0 \<longleftrightarrow> hdz p = hdz q" using False by (simp only: strncmp_l.simps if_False)
    then show ?thesis using False by (cases p; cases q) (auto simp: hdz_def)
  qed
qed simp

lemma namecmp_eq_0: "namecmp s t = 0 \<longleftrightarrow> dname s = dname t"
  by (simp add: namecmp_def dname_def strncmp_l_eq_0)

lemma strncpy_l_take: "take n (takeWhile (\<lambda>c. c \<noteq> 0) t) @ replicate (n - length (takeWhile (\<lambda>c. c \<noteq> 0) t)) 0 = strncpy_l t n"
proof (induction n arbitrary: t)
  case (Suc n)
  then show ?case by (cases t) (auto simp: hdz_def)
qed simp

lemma length_strncpy_l [simp]: "length (strncpy_l t n) = n"
  by (induction n arbitrary: t) auto

lemma takeWhile_take_comm: "takeWhile P (take n xs) = take n (takeWhile P xs)"
  by (induction xs arbitrary: n) (auto simp: take_Cons split: nat.splits)

lemma dname_strncpy [simp]: "dname (strncpy_l t DIRSIZ) = dname t"
proof -
  have "takeWhile (\<lambda>c. c \<noteq> 0) (strncpy_l t n) = take n (takeWhile (\<lambda>c. c \<noteq> 0) t)" for n
  proof (induction n arbitrary: t)
    case (Suc n)
    then show ?case by (cases t) (auto simp: hdz_def)
  qed simp
  then show ?thesis by (simp add: dname_def takeWhile_take_comm)
qed

text \<open>On memory, the routines of \<^verbatim>\<open>string.c\<close> compute the same.\<close>

lemma strncmp_memory: "strncmp m p q n = strncmp_l (map m [p..<p + n]) (map m [q..<q + n]) n"
proof (induction n arbitrary: p q)
  case (Suc n)
  have "map m [x..<x + Suc n] = m x # map m [x + 1..<x + 1 + n]" for x
    by (simp add: upt_conv_Cons[of x "Suc (x + n)"] del: upt_Suc)
  then show ?case using Suc[of "p + 1" "q + 1"] by (simp add: hdz_def del: upt_Suc)
qed simp

section \<open>What a directory contains\<close>

text \<open>Entry \<open>k\<close> of a directory with bytes \<open>c\<close>: the 16 bytes, the inode number and the name.\<close>

definition ebytes :: "u8 list \<Rightarrow> nat \<Rightarrow> u8 list" where
  "ebytes c k = take 16 (drop (16 * k) c)"

definition matches :: "u8 list \<Rightarrow> u8 list \<Rightarrow> nat \<Rightarrow> bool" where
  "matches c name k \<longleftrightarrow> get16 (ebytes c k) 0 \<noteq> 0 \<and> dname name = dname (get_bytes (ebytes c k) 2 DIRSIZ)"

definition dir_find :: "u8 list \<Rightarrow> u8 list \<Rightarrow> nat option" where
  "dir_find c name = find (matches c name) [0..<length c div 16]"

text \<open>The inode number a name stands for in a directory with bytes \<open>c\<close>.\<close>

definition dir_map :: "u8 list \<Rightarrow> u8 list \<Rightarrow> nat option" where
  "dir_map c name = map_option (\<lambda>k. unat (get16 (ebytes c k) 0)) (dir_find c name)"

definition dir_bytes :: "nat \<Rightarrow> fsys \<Rightarrow> u8 list" where
  "dir_bytes dp f = content (sblk (f_sto f)) (f_ic f ! dp)"

definition dir_ok :: "nat \<Rightarrow> fsys \<Rightarrow> bool" where
  "dir_ok dp f \<longleftrightarrow> dp < length (f_ic f) \<and> live (f_sb f) (f_sto f) (f_ic f ! dp) \<and> i_type (f_ic f ! dp) = T_DIR \<and>
     unat (i_size (f_ic f ! dp)) mod 16 = 0"

lemma length_dir_bytes: "length (dir_bytes dp f) = unat (i_size (f_ic f ! dp))"
  by (simp add: dir_bytes_def)

lemma upd_ic_same: "upd_ic dp (\<lambda>_. f_ic f ! dp) f = f"
  by (simp add: upd_ic_def)

lemma dir_size:
  assumes "dir_ok dp f" and "k < length (dir_bytes dp f) div 16"
  shows "16 * k + 16 \<le> length (dir_bytes dp f)" and "length (dir_bytes dp f) \<le> MAXFILE * BSIZE"
proof -
  show "length (dir_bytes dp f) \<le> MAXFILE * BSIZE" using assms(1) by (simp add: dir_ok_def live_def dense_def length_dir_bytes)
  have "length (dir_bytes dp f) mod 16 = 0" using assms(1) by (simp add: dir_ok_def length_dir_bytes)
  then show "16 * k + 16 \<le> length (dir_bytes dp f)" using assms(2) by (simp add: mod_eq_0_iff_dvd)
qed

lemma unat_off: "n \<le> MAXFILE * BSIZE \<Longrightarrow> unat (of_nat n :: u32) = n"
  by (simp add: unat_of_nat take_bit_nat_eq_self)

lemma readi_entry:
  assumes ok: "dir_ok dp f" and room: "\<forall>b. \<not> s_full b (f_sto f)" and k: "k < length (dir_bytes dp f) div 16"
  shows "readi_at dv dp (of_nat (16 * k)) 16 f = Inr ((16, ebytes (dir_bytes dp f) k), f)"
proof -
  let ?ip = "f_ic f ! dp"
  note sz = dir_size[OF ok k]
  have lv: "live (f_sb f) (f_sto f) ?ip" and ty: "i_type ?ip \<noteq> T_DEV" using ok by (simp_all add: dir_ok_def T_DIR_def T_DEV_def)
  have u: "unat (of_nat (16 * k) :: u32) = 16 * k" using sz by (intro unat_off) linarith
  have "readi dv (f_sb f) (of_nat (16 * k)) 16 ?ip (f_sto f) = Inr ((16, ebytes (dir_bytes dp f) k), ?ip, f_sto f)"
    using readi_ok[OF lv ty room, of dv "of_nat (16 * k)" 16] sz
    by (simp only: u) (simp add: ebytes_def dir_bytes_def length_dir_bytes[unfolded dir_bytes_def])
  then show ?thesis by (simp add: readi_at_def upd_ic_same)
qed

lemma find_upt_step: "a < n \<Longrightarrow> find P [a..<n] = (if P a then Some a else find P [Suc a..<n])"
  by (simp add: upt_conv_Cons)

lemma dirlookup_from_ok:
  assumes ok: "dir_ok dp f" and room: "\<forall>b. \<not> s_full b (f_sto f)"
  shows "k \<le> length (dir_bytes dp f) div 16 \<Longrightarrow> dirlookup_from dv dp name (16 * k) f =
    (case find (matches (dir_bytes dp f) name) [k..<length (dir_bytes dp f) div 16] of
       None \<Rightarrow> Inr (None, f)
     | Some k \<Rightarrow> bindE (iget (i_dev (f_ic f ! dp)) (unat (get16 (ebytes (dir_bytes dp f) k) 0)) f) (\<lambda>(i, f). Inr (Some (i, 16 * k), f)))"
proof (induction "length (dir_bytes dp f) div 16 - k" arbitrary: k rule: less_induct)
  case less
  let ?c = "dir_bytes dp f" and ?n = "length (dir_bytes dp f) div 16"
  have sz: "unat (i_size (f_ic f ! dp)) = 16 * ?n" using ok by (simp add: dir_ok_def length_dir_bytes mod_eq_0_iff_dvd)
  show ?case
  proof (cases "k < ?n")
    case False
    then show ?thesis using less.prems sz by (subst dirlookup_from.simps) simp
  next
    case True
    have m: "get16 (ebytes ?c k) 0 \<noteq> 0 \<and> namecmp name (get_bytes (ebytes ?c k) 2 DIRSIZ) = 0 \<longleftrightarrow> matches ?c name k"
      by (simp add: matches_def namecmp_eq_0)
    have lt: "16 * k < unat (i_size (f_ic f ! dp))" using True sz by simp
    have next_k: "16 * k + 16 = 16 * Suc k" by simp
    have step: "dirlookup_from dv dp name (16 * k) f =
       (if matches ?c name k then bindE (iget (i_dev (f_ic f ! dp)) (unat (get16 (ebytes ?c k) 0)) f) (\<lambda>(i, f). Inr (Some (i, 16 * k), f))
        else dirlookup_from dv dp name (16 * Suc k) f)"
      unfolding m[symmetric]
      by (subst dirlookup_from.simps) (simp only: lt if_True readi_entry[OF ok room True] bindE_simps prod.case simp_thms if_False next_k)
    show ?thesis
      using less.hyps[of "Suc k"] True by (simp only: step find_upt_step[OF True]) simp
  qed
qed

lemma dirlookup_ok:
  assumes "dir_ok dp f" and "\<forall>b. \<not> s_full b (f_sto f)"
  shows "dirlookup dv dp name f =
    (case dir_find (dir_bytes dp f) name of
       None \<Rightarrow> Inr (None, f)
     | Some k \<Rightarrow> bindE (iget (i_dev (f_ic f ! dp)) (unat (get16 (ebytes (dir_bytes dp f) k) 0)) f) (\<lambda>(i, f). Inr (Some (i, 16 * k), f)))"
  using dirlookup_from_ok[OF assms, of 0] assms(1) by (simp add: dirlookup_def dir_ok_def dir_find_def)

definition empty_slot :: "u8 list \<Rightarrow> nat" where
  "empty_slot c = (case find (\<lambda>k. get16 (ebytes c k) 0 = 0) [0..<length c div 16] of None \<Rightarrow> length c div 16 | Some k \<Rightarrow> k)"

lemma dirlink_slot_ok:
  assumes ok: "dir_ok dp f" and room: "\<forall>b. \<not> s_full b (f_sto f)"
  shows "k \<le> length (dir_bytes dp f) div 16 \<Longrightarrow> dirlink_slot dv dp (16 * k) f =
    Inr (16 * (case find (\<lambda>k. get16 (ebytes (dir_bytes dp f) k) 0 = 0) [k..<length (dir_bytes dp f) div 16] of
       None \<Rightarrow> length (dir_bytes dp f) div 16 | Some k \<Rightarrow> k), f)"
proof (induction "length (dir_bytes dp f) div 16 - k" arbitrary: k rule: less_induct)
  case less
  let ?c = "dir_bytes dp f" and ?n = "length (dir_bytes dp f) div 16"
  have sz: "unat (i_size (f_ic f ! dp)) = 16 * ?n" using ok by (simp add: dir_ok_def length_dir_bytes mod_eq_0_iff_dvd)
  show ?case
  proof (cases "k < ?n")
    case False
    then show ?thesis using less.prems sz by (subst dirlink_slot.simps) simp
  next
    case True
    have lt: "16 * k < unat (i_size (f_ic f ! dp))" using True sz by simp
    have next_k: "16 * k + 16 = 16 * Suc k" by simp
    have step: "dirlink_slot dv dp (16 * k) f = (if get16 (ebytes ?c k) 0 = 0 then Inr (16 * k, f) else dirlink_slot dv dp (16 * Suc k) f)"
      by (subst dirlink_slot.simps) (simp only: lt if_True readi_entry[OF ok room True] bindE_simps prod.case simp_thms if_False next_k)
    show ?thesis
      using less.hyps[of "Suc k"] True by (simp only: step find_upt_step[OF True]) simp
  qed
qed

section \<open>Adding an entry\<close>

definition put_entry :: "u8 list \<Rightarrow> nat \<Rightarrow> u8 list \<Rightarrow> u8 list" where
  "put_entry c k de = take (16 * k) c @ de @ drop (16 * k + 16) c"

lemma ebytes_put_entry:
  assumes "length de = 16" and "16 * k \<le> length c"
  shows "ebytes (put_entry c k de) j = (if j = k then de else ebytes c j)"
proof -
  have len: "length (take (16 * k) c) = 16 * k" using assms(2) by simp
  consider "j = k" | "j < k" | "k < j" by linarith
  then show ?thesis
  proof cases
    case 1
    then show ?thesis using assms len by (simp add: ebytes_def put_entry_def)
  next
    case 2
    then have "16 * j + 16 \<le> 16 * k" by simp
    then have "take 16 (drop (16 * j) (take (16 * k) c)) = take 16 (drop (16 * j) c)" by (simp add: drop_take min_def)
    then show ?thesis using 2 len by (simp add: ebytes_def put_entry_def drop_take)
  next
    case 3
    then have le: "16 * k + 16 \<le> 16 * j" by simp
    then have "drop (16 * j) (put_entry c k de) = drop (16 * j) c"
      using assms(1) len by (simp add: put_entry_def)
    then show ?thesis using 3 by (simp add: ebytes_def)
  qed
qed

lemma length_put_entry: "length de = 16 \<Longrightarrow> 16 * k \<le> length c \<Longrightarrow> length (put_entry c k de) = max (length c) (16 * k + 16)"
  by (auto simp: put_entry_def)

lemma length_put_entry_div:
  assumes "length de = 16" and "length c = 16 * n" and "k \<le> n"
  shows "length (put_entry c k de) div 16 = max n (Suc k)"
proof -
  have "length (put_entry c k de) = 16 * max n (Suc k)" using assms by (simp add: length_put_entry nat_mult_max_right)
  then show ?thesis by simp
qed

lemma dirent_bytes_fields:
  assumes "length nm = DIRSIZ"
  shows "length (dirent_bytes w nm) = 16" and "get16 (dirent_bytes w nm) 0 = w" and "get_bytes (dirent_bytes w nm) 2 DIRSIZ = nm"
proof -
  show "length (dirent_bytes w nm) = 16" using assms by (simp add: dirent_bytes_def)
  have "get16 (dirent_bytes w nm) 0 = get16 (put16 [0, 0] 0 w) 0" by (simp add: get16_def dirent_bytes_def nth_append)
  then show "get16 (dirent_bytes w nm) 0 = w" by simp
  show "get_bytes (dirent_bytes w nm) 2 DIRSIZ = nm" using assms by (simp add: get_bytes_def dirent_bytes_def)
qed

lemma empty_slot_ok:
  shows "empty_slot c \<le> length c div 16" and "empty_slot c < length c div 16 \<Longrightarrow> get16 (ebytes c (empty_slot c)) 0 = 0"
proof -
  have "empty_slot c \<le> length c div 16 \<and> (empty_slot c < length c div 16 \<longrightarrow> get16 (ebytes c (empty_slot c)) 0 = 0)"
  proof (cases "find (\<lambda>k. get16 (ebytes c k) 0 = 0) [0..<length c div 16]")
    case (Some k)
    then have "empty_slot c = k" by (simp add: empty_slot_def)
    then show ?thesis using Some by (auto simp: find_Some_iff)
  qed (simp add: empty_slot_def)
  then show "empty_slot c \<le> length c div 16" and "empty_slot c < length c div 16 \<Longrightarrow> get16 (ebytes c (empty_slot c)) 0 = 0" by blast+
qed

lemma find_snoc: "find P (xs @ [x]) = (case find P xs of None \<Rightarrow> if P x then Some x else None | Some y \<Rightarrow> Some y)"
  by (induction xs) auto

text \<open>The map of names after an entry has been put in the first empty slot.\<close>

lemma dir_map_put_entry:
  assumes len: "length c = 16 * n" and fresh: "dir_find c name = None" and nm: "length nm = DIRSIZ" "dname nm = dname name" and w: "w \<noteq> 0"
  shows "dir_map (put_entry c (empty_slot c) (dirent_bytes w nm)) other = (if dname other = dname name then Some (unat w) else dir_map c other)"
proof -
  let ?k = "empty_slot c" and ?de = "dirent_bytes w nm"
  let ?c = "put_entry c ?k ?de"
  have n: "length c div 16 = n" using len by simp
  have k: "?k \<le> n" "16 * ?k \<le> length c" and hole: "?k < n \<Longrightarrow> get16 (ebytes c ?k) 0 = 0"
    using empty_slot_ok[of c] len by (simp_all add: n)
  note de = dirent_bytes_fields[OF nm(1), of w] and eb = ebytes_put_entry[OF dirent_bytes_fields(1)[OF nm(1)] k(2)]
  have m: "matches ?c x j \<longleftrightarrow> (if j = ?k then dname x = dname name else matches c x j)" for x j
    using w de(2,3) nm(2) by (simp add: matches_def eb)
  have no: "\<not> matches c x ?k" if "?k < n" for x using hole[OF that] by (simp add: matches_def)
  have nn: "length ?c div 16 = max n (Suc ?k)" by (rule length_put_entry_div[OF de(1) len k(1)])
  have none: "\<not> matches c x j" if "dname x = dname name" "j < n" for x j
    using fresh that by (auto simp: dir_find_def find_None_iff matches_def n)
  show ?thesis
  proof (cases "dname other = dname name")
    case True
    have "find (matches ?c other) [0..<max n (Suc ?k)] = Some ?k"
      unfolding find_Some_iff
    proof (intro exI[of _ ?k] conjI allI impI)
      show "\<not> matches ?c other ([0..<max n (Suc ?k)] ! j)" if "j < ?k" for j using none[OF True, of j] that k(1) m by simp
    qed (use True m in simp_all)
    then show ?thesis using True de(2) by (simp add: dir_map_def dir_find_def nn eb)
  next
    case False
    have mm: "matches ?c other j \<longleftrightarrow> matches c other j" if "j < n" for j using m no that False by auto
    have fc: "find (matches ?c other) [0..<n] = find (matches c other) [0..<n]"
      using mm by (intro find_cong) auto
    have "find (matches ?c other) [0..<max n (Suc ?k)] = find (matches c other) [0..<n]"
    proof (cases "?k < n")
      case True
      then have "max n (Suc ?k) = n" by simp
      then show ?thesis using fc by simp
    next
      case f: False
      then have "?k = n" "max n (Suc ?k) = Suc n" using k(1) by simp_all
      then show ?thesis using m[of other n] False fc by (simp add: find_snoc split: option.splits)
    qed
    moreover have "ebytes ?c j = ebytes c j" if "find (matches c other) [0..<n] = Some j" for j
      using that no by (auto simp: find_Some_iff eb)
    ultimately show ?thesis
      using False by (cases "find (matches c other) [0..<n]") (auto simp: dir_map_def dir_find_def nn n)
  qed
qed

lemma pages_entry: "pages (16 * k) 16 = 1"
proof -
  have "(16 * k + 15) div (16 * 32) = ((16 * k + 15) div 16) div 32" "16 * k div (16 * 32) = (16 * k div 16) div 32"
    by (rule div_mult2_eq)+
  then show ?thesis by (simp add: pages_def)
qed

lemma dirlink_ok:
  assumes ok: "dir_ok dp f" and fresh: "dir_find (dir_bytes dp f) name = None"
    and cl: "can_log (f_sto f) (reserve (insert (IBLOCK (i_inum (f_ic f ! dp)) (f_sb f)) (bmap_area (f_sb f))) (f_ic f ! dp)) (1 + slack (f_ic f ! dp))"
    and fr: "1 + slack (f_ic f ! dp) \<le> free_blocks (f_sb f) (f_sto f)"
    and sz: "16 * empty_slot (dir_bytes dp f) + 16 \<le> MAXFILE * BSIZE"
  shows "\<exists>g. dirlink dv me dp name inum f = Inr (0, g) \<and> dir_ok dp g \<and> (\<forall>j. j \<noteq> dp \<longrightarrow> f_ic g ! j = f_ic f ! j) \<and>
    dir_bytes dp g = put_entry (dir_bytes dp f) (empty_slot (dir_bytes dp f)) (dirent_bytes (of_nat inum) (strncpy_l name DIRSIZ))"
proof -
  let ?c = "dir_bytes dp f" and ?ip = "f_ic f ! dp" and ?de = "dirent_bytes (of_nat inum) (strncpy_l name DIRSIZ)"
  let ?k = "empty_slot (dir_bytes dp f)" and ?off = "of_nat (16 * empty_slot (dir_bytes dp f)) :: u32"
  have room: "\<forall>b. \<not> s_full b (f_sto f)" using can_log_not_full[OF cl] by blast
  have lk: "dirlookup dv dp name f = Inr (None, f)" using dirlookup_ok[OF ok room] fresh by simp
  have slot: "dirlink_slot dv dp 0 f = Inr (16 * ?k, f)" using dirlink_slot_ok[OF ok room, of 0] by (simp add: empty_slot_def)
  have d: "dp < length (f_ic f)" "live (f_sb f) (f_sto f) ?ip" "i_type ?ip \<noteq> T_DEV" "i_type ?ip = T_DIR" "unat (i_size ?ip) mod 16 = 0"
    using ok by (simp_all add: dir_ok_def T_DIR_def T_DEV_def)
  have len: "length ?de = unat (16 :: u32)" using dirent_bytes_fields(1)[of "strncpy_l name DIRSIZ"] by simp
  have o: "unat ?off = 16 * ?k" using sz by (intro unat_off) linarith
  have le: "16 * ?k \<le> unat (i_size ?ip)"
    using empty_slot_ok(1)[of ?c] d(5) by (simp add: length_dir_bytes mod_eq_0_iff_dvd)
  have u16: "unat (16 :: u32) = 16" by simp
  from writei_ok[OF d(2,3) len, of ?off dv, unfolded o u16 pages_entry, OF le sz cl fr] obtain ip' t where
    w: "writei dv (f_sb f) ?de ?off 16 ?ip (f_sto f) = Inr (int 16, ip', t)" "live (f_sb f) t ip'"
      "ip' = ?ip\<lparr>i_addrs := i_addrs ip', i_size := i_size ip'\<rparr>"
      "content (sblk t) ip' = take (16 * ?k) (content (sblk (f_sto f)) ?ip) @ ?de @ drop (16 * ?k + 16) (content (sblk (f_sto f)) ?ip)"
    by blast
  have ct: "content (sblk t) ip' = put_entry ?c ?k ?de" using w(4) by (simp add: put_entry_def dir_bytes_def)
  let ?g = "upd_ic dp (\<lambda>_. ip') (f\<lparr>f_sto := t\<rparr>)"
  have "i_type ip' = T_DIR" by (subst w(3)) (simp add: d(4))
  moreover have "unat (i_size ip') mod 16 = 0"
  proof -
    have "unat (i_size ip') = length (put_entry ?c ?k ?de)" using ct length_content by metis
    also have "\<dots> = max (length ?c) (16 * ?k + 16)" using len le by (intro length_put_entry) (simp_all add: length_dir_bytes)
    finally show ?thesis using d(5) by (auto simp: max_def length_dir_bytes)
  qed
  ultimately have "dir_ok dp ?g" using d(1) w(2) by (simp add: dir_ok_def upd_ic_nth) (simp add: upd_ic_def)
  moreover have "dir_bytes dp ?g = put_entry ?c ?k ?de" using ct d(1) by (simp add: dir_bytes_def upd_ic_nth) (simp add: upd_ic_def)
  moreover have "dirlink dv me dp name inum f = Inr (0, ?g)" using w(1) by (simp add: dirlink_def lk slot writei_at_def)
  ultimately show ?thesis using d(1) by (intro exI[of _ ?g]) (simp add: upd_ic_nth)
qed

section \<open>Properties\<close>

text \<open>C22. Looking a name up in a directory follows the map of names to inode numbers that the bytes of the
  directory denote: an absent name gives no inode and changes nothing; a present one gives a reference
  from \<open>iget\<close> to the inode of the first entry with that name, and the offset of that entry.
\<close>

theorem dirlookup_correct:
  assumes "dir_ok dp f" and "\<forall>b. \<not> s_full b (f_sto f)"
  shows "case dir_map (dir_bytes dp f) name of
      None \<Rightarrow> dirlookup dv dp name f = Inr (None, f)
    | Some inum \<Rightarrow> \<exists>k < length (dir_bytes dp f) div 16. inum \<noteq> 0 \<and> matches (dir_bytes dp f) name k \<and> (\<forall>j < k. \<not> matches (dir_bytes dp f) name j) \<and>
        dirlookup dv dp name f = bindE (iget (i_dev (f_ic f ! dp)) inum f) (\<lambda>(i, g). Inr (Some (i, 16 * k), g))"
proof (cases "dir_find (dir_bytes dp f) name")
  case None
  then show ?thesis using dirlookup_ok[OF assms] by (simp add: dir_map_def)
next
  case (Some k)
  then have "k < length (dir_bytes dp f) div 16 \<and> matches (dir_bytes dp f) name k \<and> (\<forall>j < k. \<not> matches (dir_bytes dp f) name j)"
    by (auto simp: dir_find_def find_Some_iff)
  moreover from this have "unat (get16 (ebytes (dir_bytes dp f) k) 0) \<noteq> 0" by (simp add: matches_def unsigned_eq_0_iff)
  ultimately show ?thesis using dirlookup_ok[OF assms, of dv name] Some by (auto simp: dir_map_def)
qed

text \<open>C14. \<open>dirlink\<close> writes what \<open>dirlookup\<close> reads: in a directory without the name, with room in the log and
  on the disk, it returns 0, and afterwards the name (up to its first 14 bytes) denotes the inode number
  while every other name denotes what it did before, whether an empty entry was reused or the directory grew.
\<close>

theorem dirlink_roundtrip:
  assumes ok: "dir_ok dp f" and fresh: "dir_map (dir_bytes dp f) name = None" and inum: "0 < inum" "inum < 2 ^ 16"
    and cl: "can_log (f_sto f) (reserve (insert (IBLOCK (i_inum (f_ic f ! dp)) (f_sb f)) (bmap_area (f_sb f))) (f_ic f ! dp)) (1 + slack (f_ic f ! dp))"
    and fr: "1 + slack (f_ic f ! dp) \<le> free_blocks (f_sb f) (f_sto f)"
    and sz: "16 * empty_slot (dir_bytes dp f) + 16 \<le> MAXFILE * BSIZE"
  shows "\<exists>g. dirlink dv me dp name inum f = Inr (0, g) \<and> dir_ok dp g \<and>
    (\<forall>other. dir_map (dir_bytes dp g) other = (if dname other = dname name then Some inum else dir_map (dir_bytes dp f) other))"
proof -
  have fr': "dir_find (dir_bytes dp f) name = None" using fresh by (simp add: dir_map_def)
  obtain n where n: "length (dir_bytes dp f) = 16 * n" using ok by (auto simp: dir_ok_def length_dir_bytes mod_eq_0_iff_dvd)
  have w: "unat (of_nat inum :: u16) = inum" using inum(2) by (simp add: unat_of_nat take_bit_nat_eq_self)
  then have "(of_nat inum :: u16) \<noteq> 0" using inum(1) by (metis unat_0 less_irrefl)
  from dir_map_put_entry[OF n fr' length_strncpy_l dname_strncpy this] dirlink_ok[OF ok fr' cl fr sz, of dv me inum] w
  show ?thesis by auto
qed

lemma takeWhile_nonempty: "xs \<noteq> [] \<Longrightarrow> P (hd xs) \<Longrightarrow> takeWhile P xs \<noteq> []"
  by (cases xs) auto

text \<open>\<open>skipelem\<close> takes the first element off a path: it returns no element exactly for paths of slashes
  only, and otherwise the text after the element and after the slashes that end it, which is shorter,
  with the first 14 bytes of the element in \<open>name\<close>.
\<close>

theorem skipelem_splits:
  assumes "length name = DIRSIZ" and "0 \<notin> set path"
  shows "case skipelem path name of
      None \<Rightarrow> set path \<subseteq> {SLASH}
    | Some (rest, name') \<Rightarrow> length rest < length path \<and> length name' = DIRSIZ \<and>
        (\<exists>a e b. path = a @ e @ b @ rest \<and> set a \<subseteq> {SLASH} \<and> e \<noteq> [] \<and> SLASH \<notin> set e \<and> set b \<subseteq> {SLASH} \<and>
          (rest \<noteq> [] \<longrightarrow> b \<noteq> [] \<and> hd rest \<noteq> SLASH) \<and> dname name' = take DIRSIZ e)"
proof (cases "skipelem path name")
  case None
  then have "dropWhile (\<lambda>c. c = SLASH) path = []" by (simp add: skipelem_def Let_def split: if_splits)
  then show ?thesis using None by auto
next
  case (Some r)
  obtain rest name' where r: "r = (rest, name')" by (cases r)
  let ?p = "dropWhile (\<lambda>c. c = SLASH) path" and ?a = "takeWhile (\<lambda>c. c = SLASH) path"
  let ?e = "takeWhile (\<lambda>c. c \<noteq> SLASH) ?p" and ?q = "dropWhile (\<lambda>c. c \<noteq> SLASH) ?p"
  let ?b = "takeWhile (\<lambda>c. c = SLASH) ?q"
  have p: "?p \<noteq> []" and rest: "rest = dropWhile (\<lambda>c. c = SLASH) ?q"
    and nm: "name' = (if length ?e \<ge> DIRSIZ then put_bytes name 0 (take DIRSIZ ?e) else put_bytes name 0 (?e @ [0]))"
    using Some r by (auto simp: skipelem_def Let_def split: if_splits)
  have sub: "set ?e \<subseteq> set path" using set_takeWhileD set_dropWhileD by fastforce
  then have nz: "\<forall>c \<in> set (take n ?e). c \<noteq> 0" for n using assms(2) set_take_subset by fastforce
  have "dname name' = take DIRSIZ ?e"
    using assms(1) nz[of DIRSIZ] nz[of "length ?e"] by (auto simp: nm dname_def put_bytes_def takeWhile_append2)
  moreover have "path = ?a @ ?e @ ?b @ rest" by (simp add: rest)
  moreover have "set ?a \<subseteq> {SLASH}" "set ?b \<subseteq> {SLASH}" "SLASH \<notin> set ?e" by (auto dest: set_takeWhileD)
  moreover have "?e \<noteq> []" using takeWhile_nonempty[OF p, of "\<lambda>c. c \<noteq> SLASH"] hd_dropWhile[OF p] by blast
  moreover have "?b \<noteq> [] \<and> hd rest \<noteq> SLASH" if "rest \<noteq> []"
  proof -
    have q: "?q \<noteq> []" using that unfolding rest by (metis dropWhile.simps(1))
    then have "hd ?q = SLASH" using hd_dropWhile[OF q] by blast
    then have "?b \<noteq> []" by (rule takeWhile_nonempty[OF q])
    moreover have "hd rest \<noteq> SLASH" using that hd_dropWhile unfolding rest by blast
    ultimately show ?thesis ..
  qed
  moreover have "length name' = DIRSIZ" using assms(1) by (auto simp: nm put_bytes_def)
  moreover have "length rest < length path" using Some r by (auto dest: skipelem_shorter)
  ultimately show ?thesis using Some r by auto
qed

theorem skipelem_splits_witness:
  "skipelem [47, 47, 97, 98, 47, 99] (replicate DIRSIZ 1) = Some ([99], put_bytes (replicate DIRSIZ 1) 0 [97, 98, 0]) \<and>
   dname (put_bytes (replicate DIRSIZ 1) 0 [97, 98, 0]) = [97, 98]"
proof -
  have e: "skipelem [47, 47, 97, 98, 47, 99] (replicate DIRSIZ 1) = Some ([99], put_bytes (replicate DIRSIZ 1) 0 [97, 98, 0])"
    by (simp add: skipelem_def)
  have "\<exists>a e b. [47, 47, 97, 98, 47, 99 :: u8] = a @ e @ b @ [99] \<and> set a \<subseteq> {SLASH} \<and> e \<noteq> [] \<and> SLASH \<notin> set e \<and> set b \<subseteq> {SLASH} \<and>
      dname (put_bytes (replicate DIRSIZ 1) 0 [97, 98, 0]) = take DIRSIZ e"
    using skipelem_splits[of "replicate DIRSIZ 1" "[47, 47, 97, 98, 47, 99]"] unfolding e by fastforce
  moreover have "dname (put_bytes (replicate DIRSIZ 1) 0 [97, 98, 0]) = [97, 98]" by (simp add: dname_def put_bytes_def take_Cons')
  ultimately show ?thesis using e by blast
qed

text \<open>The small disk with its directory open in slot 0 of the inode cache.\<close>

definition demo_dir_sys :: fsys where
  "demo_dir_sys = \<lparr>f_sb = demo_sb, f_sto = demo_disk T_DIR 16, f_ic = [demo_inode T_DIR 16]\<rparr>"

lemma demo_dir_ok:
  "dir_ok 0 demo_dir_sys" "can_log (f_sto demo_dir_sys) {22, 25} 2" "dir_bytes 0 demo_dir_sys = replicate 16 0"
  "dir_map (dir_bytes 0 demo_dir_sys) name = None" "empty_slot (dir_bytes 0 demo_dir_sys) = 0"
proof -
  note live = demo_disk_live[where sz = 16 and ty = T_DIR]
  show "dir_ok 0 demo_dir_sys" using live(1) by (simp add: dir_ok_def demo_dir_sys_def demo_inode_fields)
  show "can_log (f_sto demo_dir_sys) {22, 25} 2" using live(2)[of "{22, 25}" 2] by (simp add: demo_dir_sys_def card_insert_if)
  show c: "dir_bytes 0 demo_dir_sys = replicate 16 0" using live(4) by (simp add: dir_bytes_def demo_dir_sys_def)
  have "get16 (ebytes (replicate 16 0) 0) 0 = 0" by (simp add: ebytes_def get16_def)
  then show "dir_map (dir_bytes 0 demo_dir_sys) name = None" "empty_slot (dir_bytes 0 demo_dir_sys) = 0"
    by (simp_all add: c dir_map_def dir_find_def matches_def empty_slot_def)
qed

theorem dirlookup_correct_witness:
  "dir_ok 0 demo_dir_sys \<and> dirlookup [] 0 [97] demo_dir_sys = Inr (None, demo_dir_sys)"
proof -
  have "\<forall>b. \<not> s_full b (f_sto demo_dir_sys)" using can_log_not_full[OF demo_dir_ok(2)] by blast
  from dirlookup_correct[OF demo_dir_ok(1) this, where name = "[97]" and dv = "[]"] show ?thesis by (simp add: demo_dir_ok(1,4))
qed

theorem dirlink_roundtrip_witness:
  "\<exists>g. dirlink [] 1 0 [97] 9 demo_dir_sys = Inr (0, g) \<and> dir_map (dir_bytes 0 g) [97] = Some 9 \<and> dir_map (dir_bytes 0 g) [98] = None"
proof -
  have r: "reserve (insert (IBLOCK (i_inum (f_ic demo_dir_sys ! 0)) (f_sb demo_dir_sys)) (bmap_area (f_sb demo_dir_sys))) (f_ic demo_dir_sys ! 0) = {22, 25}"
    "slack (f_ic demo_dir_sys ! 0) = 1" "free_blocks (f_sb demo_dir_sys) (f_sto demo_dir_sys) = 13"
    using demo_disk_live(3)[where sz = 16 and ty = T_DIR] by (simp_all add: demo_dir_sys_def demo_inode_fields reserve_def demo_areas)
  have cl: "can_log (f_sto demo_dir_sys) {22, 25} (Suc (Suc 0))" using demo_dir_ok(2) by (simp add: numeral_2_eq_2)
  have n: "dname [97] \<noteq> dname [98]" by (simp add: dname_def)
  from dirlink_roundtrip[OF demo_dir_ok(1) demo_dir_ok(4), where inum = 9 and name = "[97]" and dv = "[]" and me = 1] n show ?thesis
    using cl by (auto simp: r demo_dir_ok(4,5))
qed

end
