(* ===== verification/Refpool.thy ===== *)
theory Refpool
  imports Prelude "HOL-Library.Multiset"
begin

text \<open>
  The contract of a pool of reference-counted resources, which the kernel implements several times:
  physical pages (\<^verbatim>\<open>kalloc.c\<close>), open files (\<^verbatim>\<open>file.c\<close>). A resource is handed out with one reference,
  references are duplicated and dropped by those who hold one, and the resource returns to the pool
  with its last reference. The multiset of references held is not part of the kernel's state; the
  counters have to agree with it. The lemmas of the locale hold for every history of requests.
\<close>

datatype 'r pool_op = Get | Dup 'r | Drop 'r

text \<open>
  A history of requests. A client duplicates or drops only references that are held, so other such
  requests do not occur and are skipped.
\<close>

fun run_pool :: "('s \<Rightarrow> ('r option \<times> 's) res) \<Rightarrow> ('r \<Rightarrow> 's \<Rightarrow> 's res) \<Rightarrow> ('r \<Rightarrow> 's \<Rightarrow> 's res) \<Rightarrow>
    'r pool_op list \<Rightarrow> 's \<times> 'r multiset \<Rightarrow> ('s \<times> 'r multiset) res" where
  "run_pool alloc dup drp [] p = Inr p"
| "run_pool alloc dup drp (Get # ops) (s, R) =
     bindE (alloc s) (\<lambda>(r, t). run_pool alloc dup drp ops (t, case r of None \<Rightarrow> R | Some x \<Rightarrow> add_mset x R))"
| "run_pool alloc dup drp (Dup x # ops) (s, R) =
     (if x \<in># R then bindE (dup x s) (\<lambda>t. run_pool alloc dup drp ops (t, add_mset x R)) else run_pool alloc dup drp ops (s, R))"
| "run_pool alloc dup drp (Drop x # ops) (s, R) =
     (if x \<in># R then bindE (drp x s) (\<lambda>t. run_pool alloc dup drp ops (t, R - {#x#})) else run_pool alloc dup drp ops (s, R))"

locale ref_pool =
  fixes ok :: "'s \<Rightarrow> 'r multiset \<Rightarrow> bool"
    and capacity :: "'r set"
    and alloc :: "'s \<Rightarrow> ('r option \<times> 's) res"
    and dup :: "'r \<Rightarrow> 's \<Rightarrow> 's res"
    and drp :: "'r \<Rightarrow> 's \<Rightarrow> 's res"
  assumes held_in_pool: "ok s R \<Longrightarrow> set_mset R \<subseteq> capacity"
    and alloc_some: "ok s R \<Longrightarrow> \<not> capacity \<subseteq> set_mset R \<Longrightarrow> \<exists>x t. alloc s = Inr (Some x, t) \<and> x \<in> capacity \<and> x \<notin># R \<and> ok t (add_mset x R)"
    and alloc_none: "ok s R \<Longrightarrow> capacity \<subseteq> set_mset R \<Longrightarrow> \<exists>t. alloc s = Inr (None, t) \<and> ok t R"
    and dup_ok: "ok s R \<Longrightarrow> x \<in># R \<Longrightarrow> \<exists>t. dup x s = Inr t \<and> ok t (add_mset x R)"
    and drp_ok: "ok s R \<Longrightarrow> x \<in># R \<Longrightarrow> \<exists>t. drp x s = Inr t \<and> ok t (R - {#x#})"
begin

lemma alloc_cases:
  assumes "ok s R"
  obtains x t where "alloc s = Inr (Some x, t)" "x \<notin># R" "ok t (add_mset x R)"
  | t where "alloc s = Inr (None, t)" "capacity \<subseteq> set_mset R" "ok t R"
  using alloc_some[OF assms] alloc_none[OF assms] by blast

text \<open>No history of requests fails, and it leaves counters that agree with the references held.\<close>

lemma history_ok: "ok s R \<Longrightarrow> \<exists>t Q. run_pool alloc dup drp ops (s, R) = Inr (t, Q) \<and> ok t Q"
proof (induction ops arbitrary: s R)
  case (Cons a ops)
  show ?case
  proof (cases a)
    case Get
    then show ?thesis using alloc_cases[OF Cons.prems] Cons.IH by (fastforce elim: alloc_cases)
  next
    case (Dup x)
    then show ?thesis using dup_ok[OF Cons.prems, of x] Cons by auto
  next
    case (Drop x)
    then show ?thesis using drp_ok[OF Cons.prems, of x] Cons by auto
  qed
qed auto

text \<open>What is handed out after any history is held by nobody, and nothing is handed out only when all of the pool is held.\<close>

lemma handed_out_fresh:
  assumes "ok s R" and "run_pool alloc dup drp ops (s, R) = Inr (t, Q)" and "alloc t = Inr (r, u)"
  shows "case r of None \<Rightarrow> capacity \<subseteq> set_mset Q | Some x \<Rightarrow> x \<notin># Q"
proof -
  have "ok t Q" using history_ok[OF assms(1), of ops] assms(2) by auto
  then show ?thesis by (rule alloc_cases) (use assms(3) in auto)
qed

end

end
