(* ===== verification/Kalloc.thy ===== *)
theory Kalloc
  imports Refpool Bytes
begin

text \<open>
  The physical page allocator (\<^verbatim>\<open>kalloc.c\<close>, first part) with its reference counts. Physical memory is
  a function from page frames to their 4096 bytes; the free list runs through the first word of the
  free pages, as in the code, and a pointer is the kernel virtual address of a page. The kernel's
  symbols \<open>end\<close> and \<open>data\<close>, which the linker script defines, are fields of the machine. The record is
  extended by later components.
\<close>

section \<open>Addresses\<close>

abbreviation PGSIZE :: nat where "PGSIZE \<equiv> 4096"

definition KERNBASE :: u32 where "KERNBASE = 0x80000000"
definition PHYSTOP :: u32 where "PHYSTOP = 0xE000000"

definition NPDATAMAP :: nat where "NPDATAMAP = 57344"

definition V2P :: "u32 \<Rightarrow> u32" where "V2P a = a - KERNBASE"
definition P2V :: "u32 \<Rightarrow> u32" where "P2V a = a + KERNBASE"

definition PGROUNDDOWN :: "u32 \<Rightarrow> u32" where
  "PGROUNDDOWN a = a AND NOT 0xFFF"

definition PGROUNDUP :: "u32 \<Rightarrow> u32" where
  "PGROUNDUP sz = (sz + 0xFFF) AND NOT 0xFFF"

text \<open>The page frame a kernel pointer points into.\<close>

definition frame :: "u32 \<Rightarrow> nat" where
  "frame v = unat (V2P v) div PGSIZE"

section \<open>State and operations\<close>

record mach =
  m_pg :: "nat \<Rightarrow> u8 list"
  m_freelist :: u32
  m_ref :: "nat \<Rightarrow> int"
  m_la :: "nat \<Rightarrow> u32"
  m_use_lock :: bool
  m_end :: u32
  m_data :: u32

definition upd_pg :: "nat \<Rightarrow> (u8 list \<Rightarrow> u8 list) \<Rightarrow> 'a mach_scheme \<Rightarrow> 'a mach_scheme" where
  "upd_pg f g s = s\<lparr>m_pg := (m_pg s)(f := g (m_pg s f))\<rparr>"

definition get_ref_pa :: "u32 \<Rightarrow> 'a mach_scheme \<Rightarrow> int res" where
  "get_ref_pa pa s =
     (if PHYSTOP < pa then Inl (Panic ''get_ref_pa: above PHYSTOP'')
      else if unat pa div PGSIZE \<ge> NPDATAMAP then Inl (Fault ''phys_page_data'')
      else Inr (m_ref s (unat pa div PGSIZE)))"

definition inc_ref_pa :: "u32 \<Rightarrow> 'a mach_scheme \<Rightarrow> (int \<times> 'a mach_scheme) res" where
  "inc_ref_pa pa s =
     (if PHYSTOP < pa then Inl (Panic ''inc_ref_pa: above PHYSTOP'')
      else if unat pa div PGSIZE \<ge> NPDATAMAP then Inl (Fault ''phys_page_data'')
      else let c = m_ref s (unat pa div PGSIZE) + 1 in Inr (c, s\<lparr>m_ref := (m_ref s)(unat pa div PGSIZE := c)\<rparr>))"

definition dec_ref_pa :: "u32 \<Rightarrow> 'a mach_scheme \<Rightarrow> (int \<times> 'a mach_scheme) res" where
  "dec_ref_pa pa s =
     (if PHYSTOP < pa then Inl (Panic ''dec_ref_pa: above PHYSTOP'')
      else if unat pa div PGSIZE \<ge> NPDATAMAP then Inl (Fault ''phys_page_data'')
      else let c = m_ref s (unat pa div PGSIZE) - 1 in
        if c < 0 then Inl (Panic ''dec_ref_pa: decrementing no ref'')
        else Inr (c, s\<lparr>m_ref := (m_ref s)(unat pa div PGSIZE := c)\<rparr>))"

definition kfree :: "u32 \<Rightarrow> 'a mach_scheme \<Rightarrow> 'a mach_scheme res" where
  "kfree v s =
     (if unat v mod PGSIZE \<noteq> 0 \<or> v < m_end s \<or> PHYSTOP \<le> V2P v then Inl (Panic ''kfree'')
      else bindE (get_ref_pa (V2P v) s) (\<lambda>r.
           let s = (if r = 1 then upd_pg (frame v) (\<lambda>_. replicate PGSIZE 1) s else s) in
           bindE (get_ref_pa (V2P v) s) (\<lambda>r.
           bindE (if r \<noteq> 0 then bindE (dec_ref_pa (V2P v) s) (\<lambda>(_, s). Inr s) else Inr s) (\<lambda>s.
           bindE (get_ref_pa (V2P v) s) (\<lambda>r.
           if r = 0 then Inr ((upd_pg (frame v) (\<lambda>p. put32 p 0 (m_freelist s)) s)\<lparr>m_freelist := v\<rparr>)
           else Inr s)))))"

text \<open>The result is the pointer, 0 when there is no free page.\<close>

definition kalloc :: "'a mach_scheme \<Rightarrow> (u32 \<times> 'a mach_scheme) res" where
  "kalloc s =
     (let r = m_freelist s in
      if r \<noteq> 0 then
        let s = s\<lparr>m_freelist := get32 (m_pg s (frame r)) (unat r mod PGSIZE)\<rparr> in
        bindE (inc_ref_pa (V2P r) s) (\<lambda>(c, s). if c \<noteq> 1 then Inl (Panic ''kalloc: inc_ref_pa'') else Inr (r, s))
      else Inr (r, s))"

definition reset_and_free_pa_pd :: "u32 \<Rightarrow> 'a mach_scheme \<Rightarrow> 'a mach_scheme res" where
  "reset_and_free_pa_pd pa s =
     (let f = unat pa div PGSIZE in
      if f \<ge> NPDATAMAP then Inl (Fault ''phys_page_data'')
      else kfree (P2V pa) (s\<lparr>m_la := (m_la s)(f := 0), m_ref := (m_ref s)(f := 1)\<rparr>))"

text \<open>
  The loop of \<open>freerange\<close>. It ends because \<open>kfree\<close> refuses addresses above \<open>PHYSTOP\<close>, before the
  pointer can wrap around.
\<close>

lemma V2P_below:
  assumes "V2P v < PHYSTOP"
  shows "0x80000000 \<le> unat v" and "unat v < 0x8E000000" and "unat (V2P v) = unat v - 0x80000000"
proof -
  have lt: "unat (V2P v) < 0xE000000" using assms by (simp add: PHYSTOP_def word_less_nat_alt)
  have e: "unat (V2P v) = (unat v + 0x80000000) mod 0x100000000" by (simp add: V2P_def KERNBASE_def unat_sub_mod)
  show ge: "0x80000000 \<le> unat v"
  proof (rule ccontr)
    assume "\<not> 0x80000000 \<le> unat v"
    then show False using e lt by (simp add: mod_less)
  qed
  have "unat v < 0x100000000" using unat_u32_lt[of v] by simp
  then show "unat (V2P v) = unat v - 0x80000000" using e ge by (simp add: le_mod_geq)
  then show "unat v < 0x8E000000" using lt ge by linarith
qed

lemma kfree_below: "kfree v s = Inr t \<Longrightarrow> V2P v < PHYSTOP"
  by (auto simp: kfree_def split: if_splits)

function freerange_from :: "u32 \<Rightarrow> u32 \<Rightarrow> 'a mach_scheme \<Rightarrow> 'a mach_scheme res" where
  "freerange_from p vend s = (if p + 0x1000 \<le> vend then bindE (kfree p s) (\<lambda>s. freerange_from (p + 0x1000) vend s) else Inr s)"
  by pat_completeness auto
termination
proof (relation "measure (\<lambda>(p, vend, s). 2 ^ 32 - unat p)")
  fix p vend :: u32 and s t :: "'a mach_scheme"
  assume "kfree p s = Inr t"
  then have "unat p < 0x8E000000" by (rule V2P_below(2)[OF kfree_below])
  then show "((p + 0x1000, vend, t), p, vend, s) \<in> measure (\<lambda>(p, vend, s). 2 ^ 32 - unat p)"
    by (simp add: unat_add_mod)
qed simp

declare freerange_from.simps [simp del]

definition freerange :: "u32 \<Rightarrow> u32 \<Rightarrow> 'a mach_scheme \<Rightarrow> 'a mach_scheme res" where
  "freerange vstart vend s = freerange_from (PGROUNDUP vstart) vend s"

definition kinit1 :: "u32 \<Rightarrow> u32 \<Rightarrow> 'a mach_scheme \<Rightarrow> 'a mach_scheme res" where
  "kinit1 vstart vend s = freerange vstart vend (s\<lparr>m_use_lock := False\<rparr>)"

definition kinit2 :: "u32 \<Rightarrow> u32 \<Rightarrow> 'a mach_scheme \<Rightarrow> 'a mach_scheme res" where
  "kinit2 vstart vend s = bindE (freerange vstart vend s) (\<lambda>s. Inr (s\<lparr>m_use_lock := True\<rparr>))"

section \<open>Frames and their addresses\<close>

definition page_addr :: "nat \<Rightarrow> u32" where
  "page_addr f = P2V (of_nat (f * PGSIZE))"

lemma unat_page_pa: "f < NPDATAMAP \<Longrightarrow> unat (of_nat (f * PGSIZE) :: u32) = f * PGSIZE"
  by (simp add: NPDATAMAP_def unat_of_nat take_bit_nat_eq_self del: of_nat_mult)

lemma V2P_P2V [simp]: "V2P (P2V a) = a" "P2V (V2P a) = a"
  by (simp_all add: V2P_def P2V_def)

lemma V2P_page_addr: "V2P (page_addr f) = of_nat (f * PGSIZE)"
  by (simp add: page_addr_def del: of_nat_mult)

lemma unat_page_addr: "f < NPDATAMAP \<Longrightarrow> unat (page_addr f) = 0x80000000 + f * PGSIZE"
  using unat_page_pa[of f] by (simp add: page_addr_def P2V_def KERNBASE_def NPDATAMAP_def unat_add_mod del: of_nat_mult)

lemma page_addr_props:
  assumes "f < NPDATAMAP"
  shows "frame (page_addr f) = f" and "unat (page_addr f) mod PGSIZE = 0" and "page_addr f \<noteq> 0"
    and "V2P (page_addr f) < PHYSTOP" and "unat (V2P (page_addr f)) div PGSIZE = f"
proof -
  show "frame (page_addr f) = f" "unat (V2P (page_addr f)) div PGSIZE = f"
    using unat_page_pa[OF assms] by (simp_all add: frame_def V2P_page_addr del: of_nat_mult)
  have "(0x80000000 + f * PGSIZE) mod PGSIZE = (0x80000 * PGSIZE + f * PGSIZE) mod PGSIZE" by simp
  also have "\<dots> = 0" by (metis add_mult_distrib mod_mult_self2_is_0)
  finally show "unat (page_addr f) mod PGSIZE = 0" using unat_page_addr[OF assms] by simp
  show "page_addr f \<noteq> 0" using unat_page_addr[OF assms] by (metis unat_0 add_is_0 zero_neq_numeral)
  show "V2P (page_addr f) < PHYSTOP"
    using unat_page_pa[OF assms] assms by (simp add: V2P_page_addr word_less_nat_alt PHYSTOP_def NPDATAMAP_def del: of_nat_mult)
qed

lemma page_addr_le: "V2P v < PHYSTOP \<Longrightarrow> v \<le> PHYSTOP \<longleftrightarrow> False"
  using V2P_below(1)[of v] by (simp add: word_le_nat_alt PHYSTOP_def)

text \<open>The reference counters on the address of a page.\<close>

lemma ref_ops:
  assumes "f < NPDATAMAP"
  shows "get_ref_pa (V2P (page_addr f)) s = Inr (m_ref s f)"
    and "inc_ref_pa (V2P (page_addr f)) s = Inr (m_ref s f + 1, s\<lparr>m_ref := (m_ref s)(f := m_ref s f + 1)\<rparr>)"
    and "dec_ref_pa (V2P (page_addr f)) s =
      (if m_ref s f < 1 then Inl (Panic ''dec_ref_pa: decrementing no ref'') else Inr (m_ref s f - 1, s\<lparr>m_ref := (m_ref s)(f := m_ref s f - 1)\<rparr>))"
proof -
  have "\<not> PHYSTOP < V2P (page_addr f)" using page_addr_props(4)[OF assms] by simp
  then show "get_ref_pa (V2P (page_addr f)) s = Inr (m_ref s f)"
    and "inc_ref_pa (V2P (page_addr f)) s = Inr (m_ref s f + 1, s\<lparr>m_ref := (m_ref s)(f := m_ref s f + 1)\<rparr>)"
    and "dec_ref_pa (V2P (page_addr f)) s =
      (if m_ref s f < 1 then Inl (Panic ''dec_ref_pa: decrementing no ref'') else Inr (m_ref s f - 1, s\<lparr>m_ref := (m_ref s)(f := m_ref s f - 1)\<rparr>))"
    using assms page_addr_props(5)[OF assms] by (simp_all add: get_ref_pa_def inc_ref_pa_def dec_ref_pa_def Let_def)
qed

section \<open>The free list\<close>

fun chain :: "(nat \<Rightarrow> u8 list) \<Rightarrow> u32 \<Rightarrow> nat list \<Rightarrow> bool" where
  "chain pg p [] \<longleftrightarrow> p = 0"
| "chain pg p (f # fs) \<longleftrightarrow> p = page_addr f \<and> chain pg (get32 (pg f) 0) fs"

lemma chain_other: "f \<notin> set fs \<Longrightarrow> chain (pg(f := x)) p fs = chain pg p fs"
  by (induction fs arbitrary: p) auto

definition managed :: "'a mach_scheme \<Rightarrow> nat \<Rightarrow> bool" where
  "managed s f \<longleftrightarrow> m_end s \<le> page_addr f \<and> f < NPDATAMAP"

text \<open>
  The invariant of the allocator: \<open>M\<close> is the set of page frames given to it and \<open>R\<close> the references
  held. Every counter is the number of references to its page, and the free list holds, once each,
  the frames without references.
\<close>

definition pool_ok :: "nat set \<Rightarrow> 'a mach_scheme \<Rightarrow> nat multiset \<Rightarrow> bool" where
  "pool_ok M s R \<longleftrightarrow> set_mset R \<subseteq> M \<and> (\<forall>f \<in> M. managed s f) \<and> (\<forall>f. length (m_pg s f) = PGSIZE) \<and>
     (\<forall>f. m_ref s f = int (count R f)) \<and> (\<exists>fs. distinct fs \<and> set fs = M - set_mset R \<and> chain (m_pg s) (m_freelist s) fs)"

lemma pool_okD:
  assumes "pool_ok M s R"
  shows "f \<in># R \<Longrightarrow> f \<in> M" and "f \<in> M \<Longrightarrow> f < NPDATAMAP" and "f \<in> M \<Longrightarrow> m_end s \<le> page_addr f"
    and "length (m_pg s f) = PGSIZE" and "m_ref s f = int (count R f)"
  using assms by (auto simp: pool_ok_def managed_def)

lemma kalloc_ok:
  assumes ok: "pool_ok M s R"
  shows "if M \<subseteq> set_mset R then kalloc s = Inr (0, s)
    else \<exists>f p. f \<in> M \<and> f \<notin># R \<and> kalloc s = Inr (page_addr f, s\<lparr>m_freelist := p, m_ref := (m_ref s)(f := 1)\<rparr>) \<and>
      pool_ok M (s\<lparr>m_freelist := p, m_ref := (m_ref s)(f := 1)\<rparr>) (add_mset f R)"
proof -
  obtain fs where fs: "distinct fs" "set fs = M - set_mset R" "chain (m_pg s) (m_freelist s) fs"
    using ok by (auto simp: pool_ok_def)
  show ?thesis
  proof (cases fs)
    case Nil
    then show ?thesis using fs by (auto simp: kalloc_def)
  next
    case (Cons f gs)
    let ?p = "get32 (m_pg s f) 0"
    let ?t = "s\<lparr>m_freelist := ?p, m_ref := (m_ref s)(f := 1)\<rparr>"
    have f: "f \<in> M" "f \<notin># R" "m_freelist s = page_addr f" "f < NPDATAMAP" "m_ref s f = 0"
      using fs Cons pool_okD[OF ok, of f] by (auto simp: count_eq_zero_iff)
    have "kalloc s = Inr (page_addr f, ?t)"
      using f page_addr_props[OF f(4)] by (simp add: kalloc_def Let_def ref_ops[OF f(4)])
    moreover have "pool_ok M ?t (add_mset f R)"
      using ok fs Cons f by (auto simp: pool_ok_def managed_def count_eq_zero_iff intro!: exI[of _ gs])
    ultimately show ?thesis using f(1,2) by auto
  qed
qed

text \<open>\<open>kfree\<close> on the address of a page, whatever its count.\<close>

lemma kfree_eq:
  assumes f: "f < NPDATAMAP" and e: "m_end s \<le> page_addr f" and pos: "0 \<le> m_ref s f"
  shows "kfree (page_addr f) s =
    Inr (if 1 < m_ref s f then s\<lparr>m_ref := (m_ref s)(f := m_ref s f - 1)\<rparr>
         else s\<lparr>m_pg := (m_pg s)(f := put32 (if m_ref s f = 1 then replicate PGSIZE 1 else m_pg s f) 0 (m_freelist s)),
                m_freelist := page_addr f, m_ref := (m_ref s)(f := 0)\<rparr>)"
proof -
  note a = page_addr_props[OF f] and r = ref_ops[OF f]
  have pre: "unat (page_addr f) mod PGSIZE = 0" "(page_addr f < m_end s) = False" "(PHYSTOP \<le> V2P (page_addr f)) = False"
    using a(2,4) e by (simp_all add: not_less not_le)
  consider "m_ref s f = 0" | "m_ref s f = 1" | "1 < m_ref s f" using pos by linarith
  then show ?thesis
  proof cases
    case 1
    then have "(m_ref s)(f := 0) = m_ref s" by auto
    then show ?thesis using 1 a(1) by (simp add: kfree_def pre r upd_pg_def del: replicate.simps)
  qed (use a(1) in \<open>simp_all add: kfree_def pre r upd_pg_def del: replicate.simps\<close>)
qed

text \<open>\<open>kfree\<close> by the holder of a reference.\<close>

lemma kfree_ok:
  assumes ok: "pool_ok M s R" and f: "f \<in># R"
  shows "\<exists>t. kfree (page_addr f) s = Inr t \<and> pool_ok M t (R - {#f#}) \<and> (\<forall>g. g \<noteq> f \<or> 1 < count R f \<longrightarrow> m_pg t g = m_pg s g) \<and>
    t = s\<lparr>m_pg := m_pg t, m_freelist := m_freelist t, m_ref := (m_ref s)(f := m_ref s f - 1)\<rparr>"
proof -
  note d = pool_okD[OF ok]
  have n: "f \<in> M" "f < NPDATAMAP" "m_end s \<le> page_addr f" "m_ref s f = int (count R f)" "0 < count R f"
    using d(1,2,3,5) f by auto
  have kf: "kfree (page_addr f) s =
    Inr (if 1 < m_ref s f then s\<lparr>m_ref := (m_ref s)(f := m_ref s f - 1)\<rparr>
         else s\<lparr>m_pg := (m_pg s)(f := put32 (if m_ref s f = 1 then replicate PGSIZE 1 else m_pg s f) 0 (m_freelist s)),
                m_freelist := page_addr f, m_ref := (m_ref s)(f := 0)\<rparr>)"
    by (rule kfree_eq) (use n in auto)
  obtain fs where fs: "distinct fs" "set fs = M - set_mset R" "chain (m_pg s) (m_freelist s) fs"
    using ok by (auto simp: pool_ok_def)
  have cnt: "count (R - {#f#}) g = (if g = f then count R f - 1 else count R g)" for g by simp
  show ?thesis
  proof (cases "1 < count R f")
    case True
    have e: "set_mset (R - {#f#}) = set_mset R"
      using True f by (intro set_eqI) (simp add: in_diff_count, auto)
    have "pool_ok M (s\<lparr>m_ref := (m_ref s)(f := m_ref s f - 1)\<rparr>) (R - {#f#})"
      using ok True n(4) unfolding pool_ok_def e cnt by (auto simp: managed_def)
    then show ?thesis using True n(4) by (simp add: kf)
  next
    case False
    then have one: "count R f = 1" using n(5) by linarith
    have z: "set_mset (R - {#f#}) = set_mset R - {f}" using one f by (intro set_eqI) (simp add: in_diff_count, auto)
    have nf: "f \<notin> set fs" using f unfolding fs(2) by blast
    let ?x = "put32 (replicate PGSIZE 1) 0 (m_freelist s)"
    let ?t = "s\<lparr>m_pg := (m_pg s)(f := ?x), m_freelist := page_addr f, m_ref := (m_ref s)(f := 0)\<rparr>"
    have "get32 ?x 0 = m_freelist s" by (rule get32_put32_same) simp
    then have ch: "chain ((m_pg s)(f := ?x)) (page_addr f) (f # fs)" using fs(3) chain_other[OF nf] by simp
    have st: "set (f # fs) = M - set_mset (R - {#f#})" using fs(2) z n(1) f by auto
    have len: "length ?x = PGSIZE" by simp
    have "pool_ok M ?t (R - {#f#})"
      unfolding pool_ok_def
    proof (intro conjI exI[of _ "f # fs"])
      show "distinct (f # fs)" using fs(1) nf by simp
      show "set_mset (R - {#f#}) \<subseteq> M" using d(1) z by auto
    qed (use ok ch st len one cnt in \<open>auto simp: pool_ok_def managed_def\<close>)
    then show ?thesis using one n(4) by (simp add: kf)
  qed
qed

section \<open>The pool of pages\<close>

definition page_get :: "'a mach_scheme \<Rightarrow> (nat option \<times> 'a mach_scheme) res" where
  "page_get s = bindE (kalloc s) (\<lambda>(p, t). Inr (if p = 0 then None else Some (frame p), t))"

definition page_dup :: "nat \<Rightarrow> 'a mach_scheme \<Rightarrow> 'a mach_scheme res" where
  "page_dup f s = bindE (inc_ref_pa (V2P (page_addr f)) s) (\<lambda>(_, t). Inr t)"

definition page_drop :: "nat \<Rightarrow> 'a mach_scheme \<Rightarrow> 'a mach_scheme res" where
  "page_drop f s = kfree (page_addr f) s"

lemma inc_ref_ok:
  assumes ok: "pool_ok M s R" and f: "f \<in># R"
  shows "pool_ok M (s\<lparr>m_ref := (m_ref s)(f := m_ref s f + 1)\<rparr>) (add_mset f R)"
proof -
  have "insert f (set_mset R) = set_mset R" "f \<in> M" using f pool_okD(1)[OF ok] by auto
  then show ?thesis using ok by (auto simp: pool_ok_def managed_def)
qed

interpretation kpages: ref_pool "pool_ok M" M page_get page_dup page_drop for M
proof unfold_locales
  fix s :: "'a mach_scheme" and R x
  assume ok: "pool_ok M s R"
  show "set_mset R \<subseteq> M" using ok by (simp add: pool_ok_def)
  show "\<exists>x t. page_get s = Inr (Some x, t) \<and> x \<in> M \<and> x \<notin># R \<and> pool_ok M t (add_mset x R)" if "\<not> M \<subseteq> set_mset R"
    using kalloc_ok[OF ok] that pool_okD(2)[OF ok] by (auto simp: page_get_def page_addr_props)
  show "\<exists>t. page_get s = Inr (None, t) \<and> pool_ok M t R" if "M \<subseteq> set_mset R"
    using kalloc_ok[OF ok] that ok by (auto simp: page_get_def)
  show "\<exists>t. page_dup x s = Inr t \<and> pool_ok M t (add_mset x R)" if "x \<in># R"
    using inc_ref_ok[OF ok that] pool_okD(1,2)[OF ok] that by (simp add: page_dup_def ref_ops)
  show "\<exists>t. page_drop x s = Inr t \<and> pool_ok M t (R - {#x#})" if "x \<in># R"
    using kfree_ok[OF ok that] by (auto simp: page_drop_def)
qed

section \<open>Start-up\<close>

lemma unat_round: "unat (a AND NOT 0xFFF :: u32) = unat a div PGSIZE * PGSIZE"
proof -
  have m: "(0xFFF :: u32) = mask 12" by (simp add: mask_eq_exp_minus_1)
  have "a AND NOT (mask 12) = push_bit 12 (drop_bit 12 a)"
    by (rule bit_word_eqI) (auto simp: bit_simps)
  then have "unat (a AND NOT 0xFFF) = take_bit 32 (push_bit 12 (drop_bit 12 (unat a)))"
    unfolding m using unat_u32_lt[of a] by (simp add: unsigned_push_bit_eq unsigned_drop_bit_eq take_bit_nat_eq_self)
  also have "\<dots> = push_bit 12 (drop_bit 12 (unat a))"
  proof (rule take_bit_nat_eq_self)
    have "push_bit 12 (drop_bit 12 (unat a)) \<le> unat a" by (simp add: push_bit_eq_mult drop_bit_eq_div)
    then show "push_bit 12 (drop_bit 12 (unat a)) < 2 ^ 32" using unat_u32_lt[of a] by simp
  qed
  finally show ?thesis by (simp add: push_bit_eq_mult drop_bit_eq_div)
qed

lemma unat_page_offset: "unat (va - PGROUNDDOWN va) = unat va mod PGSIZE"
proof -
  have d: "unat (PGROUNDDOWN va) = unat va div PGSIZE * PGSIZE" by (simp only: PGROUNDDOWN_def unat_round)
  then have "PGROUNDDOWN va \<le> va" by (simp add: word_le_nat_alt)
  then have "unat (va - PGROUNDDOWN va) = unat va - unat (PGROUNDDOWN va)" by (rule unat_sub)
  then show ?thesis by (simp add: d minus_div_mult_eq_mod)
qed

lemma pool_ok_give:
  assumes ok: "pool_ok M s R" and f: "f \<notin> M" "managed s f"
  shows "\<exists>t. kfree (page_addr f) s = Inr t \<and> pool_ok (insert f M) t R \<and> m_end t = m_end s"
proof -
  have n: "f \<notin># R" "m_ref s f = 0" "f < NPDATAMAP" "m_end s \<le> page_addr f"
    using pool_okD(1,5)[OF ok, of f] f by (auto simp: managed_def count_eq_zero_iff)
  obtain fs where fs: "distinct fs" "set fs = M - set_mset R" "chain (m_pg s) (m_freelist s) fs"
    using ok by (auto simp: pool_ok_def)
  let ?x = "put32 (m_pg s f) 0 (m_freelist s)"
  let ?t = "s\<lparr>m_pg := (m_pg s)(f := ?x), m_freelist := page_addr f, m_ref := (m_ref s)(f := 0)\<rparr>"
  have k: "kfree (page_addr f) s = Inr ?t" using kfree_eq[OF n(3,4)] n(2) by simp
  have nf: "f \<notin> set fs" using f(1) unfolding fs(2) by blast
  have len: "length (m_pg s f) = PGSIZE" by (rule pool_okD(4)[OF ok])
  then have "get32 ?x 0 = m_freelist s" by (intro get32_put32_same) simp
  then have ch: "chain ((m_pg s)(f := ?x)) (page_addr f) (f # fs)" using fs(3) chain_other[OF nf] by simp
  have "set (f # fs) = insert f M - set_mset R" using fs(2) n(1) by auto
  then have "pool_ok (insert f M) ?t R"
    unfolding pool_ok_def by (intro conjI exI[of _ "f # fs"]) (use ok fs(1) nf ch f n len in \<open>auto simp: pool_ok_def managed_def\<close>)
  then show ?thesis using k by simp
qed

lemma unat_page_addr_le: "f \<le> NPDATAMAP \<Longrightarrow> unat (page_addr f) = 0x80000000 + f * PGSIZE"
  by (simp add: page_addr_def P2V_def KERNBASE_def NPDATAMAP_def unat_add_mod unat_of_nat take_bit_nat_eq_self del: of_nat_mult)

lemma page_addr_Suc: "page_addr (Suc f) = page_addr f + 0x1000"
  by (simp add: page_addr_def P2V_def algebra_simps)

lemma freerange_from_ok:
  assumes "a \<le> b" "b \<le> NPDATAMAP" and "pool_ok M s R" and "M \<inter> {a..<b} = {}" and "\<forall>f \<in> {a..<b}. managed s f"
  shows "\<exists>t. freerange_from (page_addr a) (page_addr b) s = Inr t \<and> pool_ok (M \<union> {a..<b}) t R \<and> m_end t = m_end s"
  using assms
proof (induction "b - a" arbitrary: a M s)
  case 0
  then have "\<not> page_addr a + 0x1000 \<le> page_addr b"
    by (simp add: word_le_nat_alt unat_page_addr_le NPDATAMAP_def unat_add_mod)
  then show ?case using 0 by (subst freerange_from.simps) simp
next
  case (Suc n)
  then have ab: "a < b" "n = b - Suc a" by simp_all
  have le: "page_addr a + 0x1000 \<le> page_addr b"
    using ab(1) Suc.prems(2) by (simp add: page_addr_Suc[symmetric] word_le_nat_alt unat_page_addr_le)
  have "a \<in> {a..<b}" using ab(1) by simp
  then have notin: "a \<notin> M" and mg: "managed s a" using Suc.prems(4,5) by blast+
  obtain t where t: "kfree (page_addr a) s = Inr t" "pool_ok (insert a M) t R" "m_end t = m_end s"
    using pool_ok_give[OF Suc.prems(3) notin mg] by blast
  have "\<exists>u. freerange_from (page_addr (Suc a)) (page_addr b) t = Inr u \<and> pool_ok (insert a M \<union> {Suc a..<b}) u R \<and> m_end u = m_end t"
    by (rule Suc.hyps(1)[OF ab(2)]) (use Suc.prems ab t in \<open>auto simp: managed_def\<close>)
  moreover have "insert a M \<union> {Suc a..<b} = M \<union> {a..<b}" using ab(1) by auto
  ultimately show ?case using le t by (subst freerange_from.simps) (simp add: page_addr_Suc)
qed

text \<open>The first page at or above the end of the kernel.\<close>

lemma first_page:
  assumes "KERNBASE \<le> e" and "e \<le> page_addr 1024"
  shows "\<exists>a \<le> 1024. PGROUNDUP e = page_addr a \<and> (\<forall>f < NPDATAMAP. e \<le> page_addr f \<longleftrightarrow> a \<le> f)"
proof -
  have ge: "0x80000000 \<le> unat e" and le: "unat e \<le> 0x80000000 + 1024 * PGSIZE"
    using assms by (simp_all add: KERNBASE_def word_le_nat_alt unat_page_addr_le NPDATAMAP_def)
  let ?a = "(unat e - 0x80000000 + 4095) div PGSIZE"
  have a: "?a \<le> 1024" using le by simp
  have "unat (e + 0xFFF) = unat e + 4095" using le by (simp add: unat_add_mod)
  also have "\<dots> = (unat e - 0x80000000 + 4095) + 0x80000 * PGSIZE" using ge by simp
  finally have "unat (e + 0xFFF) div PGSIZE = 0x80000 + ?a" by (simp only: div_mult_self1 zero_neq_numeral)
  then have "unat (PGROUNDUP e) = (0x80000 + ?a) * PGSIZE" by (simp only: PGROUNDUP_def unat_round)
  also have "\<dots> = unat (page_addr ?a)" using a by (simp add: unat_page_addr_le NPDATAMAP_def)
  finally have "PGROUNDUP e = page_addr ?a" by (simp add: word_eq_unat_iff)
  moreover have "e \<le> page_addr f \<longleftrightarrow> ?a \<le> f" if "f < NPDATAMAP" for f
  proof -
    have "e \<le> page_addr f \<longleftrightarrow> unat e - 0x80000000 \<le> f * PGSIZE"
      using that ge by (simp add: word_le_nat_alt unat_page_addr le_diff_conv add.commute)
    also have "\<dots> \<longleftrightarrow> ?a < Suc f" unfolding div_less_iff_less_mult[of PGSIZE, simplified] by auto
    finally show ?thesis by (simp add: less_Suc_eq_le)
  qed
  ultimately show ?thesis using a by blast
qed

lemma kinit_ok:
  assumes e: "KERNBASE \<le> m_end s" "m_end s \<le> P2V 0x400000" and z: "m_freelist s = 0" "\<forall>f. m_ref s f = 0" "\<forall>f. length (m_pg s f) = PGSIZE"
  shows "\<exists>t. bindE (kinit1 (m_end s) (P2V 0x400000) s) (kinit2 (P2V 0x400000) (P2V PHYSTOP)) = Inr t \<and> pool_ok {f. managed s f} t {#} \<and> m_end t = m_end s"
proof -
  have pa: "P2V 0x400000 = page_addr 1024" "P2V PHYSTOP = page_addr NPDATAMAP" by (simp_all add: page_addr_def PHYSTOP_def NPDATAMAP_def)
  obtain a where a: "a \<le> 1024" "PGROUNDUP (m_end s) = page_addr a" "\<forall>f < NPDATAMAP. m_end s \<le> page_addr f \<longleftrightarrow> a \<le> f"
    using first_page[OF e(1)] e(2) unfolding pa by blast
  have r: "PGROUNDUP (page_addr 1024) = page_addr 1024" by (simp add: page_addr_def P2V_def KERNBASE_def PGROUNDUP_def)
  have n: "1024 \<le> NPDATAMAP" by (simp add: NPDATAMAP_def)
  let ?s = "s\<lparr>m_use_lock := False\<rparr>"
  have "pool_ok {} ?s {#}" using z by (simp add: pool_ok_def)
  from freerange_from_ok[OF a(1) n this] obtain t where
    t: "freerange_from (page_addr a) (page_addr 1024) ?s = Inr t" "pool_ok {a..<1024} t {#}" "m_end t = m_end s"
    using a(3) n by (auto simp: managed_def)
  from freerange_from_ok[OF n order_refl t(2)] obtain u where
    u: "freerange_from (page_addr 1024) (page_addr NPDATAMAP) t = Inr u" "pool_ok ({a..<1024} \<union> {1024..<NPDATAMAP}) u {#}" "m_end u = m_end t"
    using a(1,3) t(3) by (auto simp: managed_def)
  have "{a..<1024} \<union> {1024..<NPDATAMAP} = {f. managed s f}" using a(1,3) n by (auto simp: managed_def)
  then have "pool_ok {f. managed s f} (u\<lparr>m_use_lock := True\<rparr>) {#}" using u(2) by (simp add: pool_ok_def managed_def)
  then show ?thesis using t(1,3) u(1,3) by (simp add: kinit1_def kinit2_def freerange_def pa r a(2))
qed

text \<open>C5. From boot, where \<open>kinit1\<close> and \<open>kinit2\<close> return and put every whole page between the end of the
  kernel and \<open>PHYSTOP\<close> on the free list, no history of allocations, duplicated references and frees by
  holders ever panics; every counter is the number of references held; and what \<open>kalloc\<close> hands out next
  is a page outside the kernel to which nobody holds a reference, failing only when every page is held.
\<close>

theorem page_pool_safe:
  assumes "KERNBASE \<le> m_end s" and "m_end s \<le> P2V 0x400000" and "m_freelist s = 0" and "\<forall>f. m_ref s f = 0" and "\<forall>f. length (m_pg s f) = PGSIZE"
  shows "\<exists>t u R. bindE (kinit1 (m_end s) (P2V 0x400000) s) (kinit2 (P2V 0x400000) (P2V PHYSTOP)) = Inr t \<and>
    run_pool page_get page_dup page_drop ops (t, {#}) = Inr (u, R) \<and> (\<forall>f. m_ref u f = int (count R f)) \<and>
    (case page_get u of
       Inl e \<Rightarrow> False
     | Inr (None, _) \<Rightarrow> {f. managed s f} = set_mset R
     | Inr (Some f, _) \<Rightarrow> managed s f \<and> f \<notin># R)"
proof -
  obtain t where t: "bindE (kinit1 (m_end s) (P2V 0x400000) s) (kinit2 (P2V 0x400000) (P2V PHYSTOP)) = Inr t" "pool_ok {f. managed s f} t {#}"
    using kinit_ok[OF assms] by blast
  obtain u R where u: "run_pool page_get page_dup page_drop ops (t, {#}) = Inr (u, R)" "pool_ok {f. managed s f} u R"
    using kpages.history_ok[OF t(2), of ops] by blast
  have "case page_get u of Inl e \<Rightarrow> False | Inr (None, _) \<Rightarrow> {f. managed s f} = set_mset R | Inr (Some f, _) \<Rightarrow> managed s f \<and> f \<notin># R"
    using kpages.alloc_some[OF u(2)] kpages.alloc_none[OF u(2)] kpages.held_in_pool[OF u(2)]
    by (cases "{f. managed s f} \<subseteq> set_mset R") auto
  then show ?thesis using t(1) u pool_okD(5)[OF u(2)] by blast
qed

definition demo_mach :: mach where
  "demo_mach = \<lparr>m_pg = \<lambda>_. replicate PGSIZE 0, m_freelist = 0, m_ref = \<lambda>_. 0, m_la = \<lambda>_. 0, m_use_lock = False,
     m_end = 0x80115000, m_data = 0x80108000\<rparr>"

theorem page_pool_safe_witness:
  "\<exists>t u R. bindE (kinit1 (m_end demo_mach) (P2V 0x400000) demo_mach) (kinit2 (P2V 0x400000) (P2V PHYSTOP)) = Inr t \<and>
    run_pool page_get page_dup page_drop [Get, Get, Dup 5000, Drop 5000, Get] (t, {#}) = Inr (u, R) \<and> (\<forall>f. m_ref u f = int (count R f))"
  using page_pool_safe[of demo_mach "[Get, Get, Dup 5000, Drop 5000, Get]"]
  by (fastforce simp: demo_mach_def KERNBASE_def P2V_def word_le_nat_alt)

end
