(* ===== verification/Vm.thy ===== *)
theory Vm
  imports Kalloc
begin

text \<open>
  Page tables and address spaces (\<^verbatim>\<open>vm.c\<close>) over the physical memory of the page allocator. A page
  directory is given by its kernel address, a pointer to a page table entry by the frame of the table
  and the index in it. The two operations of the swap file that this code calls are arguments
  (\<open>swapops\<close>), because they live in a larger state; the translation caches of the processor and the
  segment registers are not modelled, so \<open>flush_tlb\<close> and \<open>lcr3\<close> do nothing. Loop counters that cannot
  wrap are natural numbers.
\<close>

section \<open>Page table entries\<close>

definition PTE_P :: u32 where "PTE_P = 0x001"
definition PTE_W :: u32 where "PTE_W = 0x002"
definition PTE_U :: u32 where "PTE_U = 0x004"
definition PTE_A :: u32 where "PTE_A = 0x020"
definition PTE_C :: u32 where "PTE_C = 0x200"
definition PTE_S :: u32 where "PTE_S = 0x400"

definition PTE_ADDR :: "u32 \<Rightarrow> u32" where "PTE_ADDR pte = pte AND NOT 0xFFF"
definition PTE_FLAGS :: "u32 \<Rightarrow> u32" where "PTE_FLAGS pte = pte AND 0xFFF"

definition PDX :: "u32 \<Rightarrow> nat" where "PDX va = unat (drop_bit 22 va AND 0x3FF)"
definition PTX :: "u32 \<Rightarrow> nat" where "PTX va = unat (drop_bit 12 va AND 0x3FF)"

definition NPDENTRIES :: nat where "NPDENTRIES = 1024"

definition on :: "u32 \<Rightarrow> u32 \<Rightarrow> bool" where
  "on e bits \<longleftrightarrow> e AND bits \<noteq> 0"

type_synonym pte_ptr = "nat \<times> nat"

definition ent :: "'a mach_scheme \<Rightarrow> nat \<Rightarrow> nat \<Rightarrow> u32" where
  "ent s f i = get32 (m_pg s f) (4 * i)"

definition set_ent :: "nat \<Rightarrow> nat \<Rightarrow> u32 \<Rightarrow> 'a mach_scheme \<Rightarrow> 'a mach_scheme" where
  "set_ent f i w s = upd_pg f (\<lambda>p. put32 p (4 * i) w) s"

definition rd_pte :: "pte_ptr \<Rightarrow> 'a mach_scheme \<Rightarrow> u32" where
  "rd_pte pte s = ent s (fst pte) (snd pte)"

definition wr_pte :: "pte_ptr \<Rightarrow> u32 \<Rightarrow> 'a mach_scheme \<Rightarrow> 'a mach_scheme" where
  "wr_pte pte w s = set_ent (fst pte) (snd pte) w s"

definition zero_page :: "u8 list" where
  "zero_page = replicate PGSIZE 0"

section \<open>Walking and mapping\<close>

definition walkpgdir :: "u32 \<Rightarrow> u32 \<Rightarrow> bool \<Rightarrow> 'a mach_scheme \<Rightarrow> (pte_ptr option \<times> 'a mach_scheme) res" where
  "walkpgdir pgdir va alloc s =
     (let pde = ent s (frame pgdir) (PDX va) in
      if on pde PTE_P then Inr (Some (frame (P2V (PTE_ADDR pde)), PTX va), s)
      else if \<not> alloc then Inr (None, s)
      else bindE (kalloc s) (\<lambda>(pgtab, s).
        if pgtab = 0 then Inr (None, s)
        else let s = upd_pg (frame pgtab) (\<lambda>_. zero_page) s;
                 s = set_ent (frame pgdir) (PDX va) (V2P pgtab OR PTE_P OR PTE_W OR PTE_U) s
             in Inr (Some (frame pgtab, PTX va), s)))"

definition set_la :: "u32 \<Rightarrow> u32 \<Rightarrow> 'a mach_scheme \<Rightarrow> 'a mach_scheme res" where
  "set_la pa la s =
     (if PHYSTOP < pa then Inl (Panic ''get_ref_pa: above PHYSTOP'')
      else if unat pa div PGSIZE \<ge> NPDATAMAP then Inl (Fault ''phys_page_data'')
      else Inr (s\<lparr>m_la := (m_la s)(unat pa div PGSIZE := la)\<rparr>))"

definition mappage :: "u32 \<Rightarrow> pte_ptr \<Rightarrow> u32 \<Rightarrow> u32 \<Rightarrow> 'a mach_scheme \<Rightarrow> 'a mach_scheme res" where
  "mappage la pte pa perm s =
     (let e = rd_pte pte s in
      if on e PTE_P \<and> \<not> on e PTE_C \<and> \<not> on e PTE_S then Inl (Panic ''remap'')
      else let s = wr_pte pte (pa OR perm OR PTE_P) s in
        if la < KERNBASE then set_la pa la s else Inr s)"

text \<open>
  The loop of \<open>mappages\<close> runs until the page \<open>a\<close> equals \<open>last\<close>; both are page aligned, so it takes
  as many further steps as there are pages between them, modulo \<open>2 ^ 32\<close>.
\<close>

fun mappages_loop :: "u32 \<Rightarrow> nat \<Rightarrow> u32 \<Rightarrow> u32 \<Rightarrow> u32 \<Rightarrow> 'a mach_scheme \<Rightarrow> (int \<times> 'a mach_scheme) res" where
  "mappages_loop pgdir n a pa perm s =
     bindE (walkpgdir pgdir a True s) (\<lambda>(pte, s).
     case pte of
       None \<Rightarrow> Inr (- 1, s)
     | Some pte \<Rightarrow>
         bindE (mappage a pte pa perm s) (\<lambda>s.
         case n of 0 \<Rightarrow> Inr (0, s) | Suc n \<Rightarrow> mappages_loop pgdir n (a + 0x1000) (pa + 0x1000) perm s))"

declare mappages_loop.simps [simp del]

definition mappages :: "u32 \<Rightarrow> u32 \<Rightarrow> u32 \<Rightarrow> u32 \<Rightarrow> u32 \<Rightarrow> 'a mach_scheme \<Rightarrow> (int \<times> 'a mach_scheme) res" where
  "mappages pgdir va sz pa perm s =
     (let a = PGROUNDDOWN va; last = PGROUNDDOWN (va + sz - 1)
      in mappages_loop pgdir (unat (last - a) div PGSIZE) a pa perm s)"

section \<open>Releasing memory\<close>

text \<open>The operations of the swap file that page tables need: restoring a page, and dropping a reference to one.\<close>

record 'a swapops =
  sw_read :: "u32 \<Rightarrow> pte_ptr \<Rightarrow> 'a mach_scheme \<Rightarrow> 'a mach_scheme res"
  sw_free :: "u32 \<Rightarrow> u32 \<Rightarrow> pte_ptr \<Rightarrow> 'a mach_scheme \<Rightarrow> 'a mach_scheme res"

text \<open>
  The loop of \<open>deallocuvm\<close>. When \<open>a\<close> wraps around at \<open>2 ^ 32\<close> the code starts again at address 0 and
  never gets past \<open>oldsz\<close>; sizes up to \<open>KERNBASE\<close> stay away from that.
\<close>

function deallocuvm_loop :: "'a swapops \<Rightarrow> u32 \<Rightarrow> nat \<Rightarrow> nat \<Rightarrow> 'a mach_scheme \<Rightarrow> 'a mach_scheme res" where
  "deallocuvm_loop sw pgdir a oldsz s =
     (if 2 ^ 32 \<le> a then Inl (Hang ''deallocuvm'')
      else if a < oldsz then
        bindE (walkpgdir pgdir (of_nat a) False s) (\<lambda>(pte, s).
        case pte of
          None \<Rightarrow> deallocuvm_loop sw pgdir ((a div 2 ^ 22 + 1) * 2 ^ 22) oldsz s
        | Some pte \<Rightarrow>
            let pa = PTE_ADDR (rd_pte pte s) in
            bindE (if on (rd_pte pte s) PTE_P then
                     if pa = 0 then Inl (Panic ''deallocuvm'')
                     else bindE (kfree (P2V pa) s) (\<lambda>s. Inr (wr_pte pte 0 s))
                   else if on (rd_pte pte s) PTE_S then
                     if pa = 0 then Inl (Panic ''deallocuvm'')
                     else bindE (sw_free sw (P2V pa) (of_nat a) pte s) (\<lambda>s. Inr (wr_pte pte 0 s))
                   else Inr s)
              (\<lambda>s. deallocuvm_loop sw pgdir (a + PGSIZE) oldsz s))
      else Inr s)"
  by pat_completeness auto
termination
proof (relation "measure (\<lambda>(sw, pgdir, a, oldsz, s). oldsz - a)")
  fix a oldsz :: nat
  assume "a < oldsz"
  moreover have "a < (a div 2 ^ 22 + 1) * 2 ^ 22"
    by (metis add.commute dividend_less_times_div mult.commute mult_Suc plus_1_eq_Suc zero_less_numeral zero_less_power)
  ultimately show "((sw, pgdir, (a div 2 ^ 22 + 1) * 2 ^ 22, oldsz, t), sw, pgdir, a, oldsz, s) \<in> measure (\<lambda>(sw, pgdir, a, oldsz, s). oldsz - a)"
    for sw :: "'a swapops" and pgdir :: u32 and s t :: "'a mach_scheme" by simp
qed simp_all

declare deallocuvm_loop.simps [simp del]

definition deallocuvm :: "'a swapops \<Rightarrow> u32 \<Rightarrow> u32 \<Rightarrow> u32 \<Rightarrow> 'a mach_scheme \<Rightarrow> (u32 \<times> 'a mach_scheme) res" where
  "deallocuvm sw pgdir oldsz newsz s =
     (if oldsz \<le> newsz then Inr (oldsz, s)
      else bindE (deallocuvm_loop sw pgdir (unat (PGROUNDUP newsz)) (unat oldsz) s) (\<lambda>s. Inr (newsz, s)))"

definition free_table :: "u32 \<Rightarrow> nat \<Rightarrow> 'a mach_scheme \<Rightarrow> 'a mach_scheme res" where
  "free_table pgdir i s =
     (let pde = ent s (frame pgdir) i in if on pde PTE_P then kfree (P2V (PTE_ADDR pde)) s else Inr s)"

definition freevm :: "'a swapops \<Rightarrow> u32 \<Rightarrow> 'a mach_scheme \<Rightarrow> 'a mach_scheme res" where
  "freevm sw pgdir s =
     (if pgdir = 0 then Inl (Panic ''freevm: no pgdir'')
      else bindE (deallocuvm sw pgdir KERNBASE 0 s) (\<lambda>(_, s).
           bindE (foldE (free_table pgdir) [0..<NPDENTRIES] s) (\<lambda>s.
           kfree pgdir s)))"

section \<open>Building address spaces\<close>

definition EXTMEM :: u32 where "EXTMEM = 0x100000"
definition DEVSPACE :: u32 where "DEVSPACE = 0xFE000000"
definition KERNLINK :: u32 where "KERNLINK = KERNBASE + EXTMEM"

record kmap_entry =
  k_virt :: u32
  k_start :: u32
  k_end :: u32
  k_perm :: u32

definition kmap :: "'a mach_scheme \<Rightarrow> kmap_entry list" where
  "kmap s = [\<lparr>k_virt = KERNBASE, k_start = 0, k_end = EXTMEM, k_perm = PTE_W\<rparr>,
             \<lparr>k_virt = KERNLINK, k_start = V2P KERNLINK, k_end = V2P (m_data s), k_perm = 0\<rparr>,
             \<lparr>k_virt = m_data s, k_start = V2P (m_data s), k_end = PHYSTOP, k_perm = PTE_W\<rparr>,
             \<lparr>k_virt = DEVSPACE, k_start = DEVSPACE, k_end = 0, k_perm = PTE_W\<rparr>]"

fun setupkvm_loop :: "'a swapops \<Rightarrow> u32 \<Rightarrow> kmap_entry list \<Rightarrow> 'a mach_scheme \<Rightarrow> (u32 \<times> 'a mach_scheme) res" where
  "setupkvm_loop sw pgdir [] s = Inr (pgdir, s)"
| "setupkvm_loop sw pgdir (k # ks) s =
     bindE (mappages pgdir (k_virt k) (k_end k - k_start k) (k_start k) (k_perm k) s) (\<lambda>(r, s).
     if r < 0 then bindE (freevm sw pgdir s) (\<lambda>s. Inr (0, s)) else setupkvm_loop sw pgdir ks s)"

definition setupkvm :: "'a swapops \<Rightarrow> 'a mach_scheme \<Rightarrow> (u32 \<times> 'a mach_scheme) res" where
  "setupkvm sw s =
     bindE (kalloc s) (\<lambda>(pgdir, s).
     if pgdir = 0 then Inr (0, s)
     else let s = upd_pg (frame pgdir) (\<lambda>_. zero_page) s in
       if DEVSPACE < P2V PHYSTOP then Inl (Panic ''PHYSTOP too high'')
       else setupkvm_loop sw pgdir (kmap s) s)"

text \<open>\<open>inituvm\<close> ignores that the allocation may fail, and then stores through a null pointer.\<close>

definition inituvm :: "u32 \<Rightarrow> u8 list \<Rightarrow> u32 \<Rightarrow> 'a mach_scheme \<Rightarrow> 'a mach_scheme res" where
  "inituvm pgdir init sz s =
     (if 0x1000 \<le> sz then Inl (Panic ''inituvm: more than a page'')
      else bindE (kalloc s) (\<lambda>(mem, s).
           if mem = 0 then Inl (Fault ''inituvm'')
           else let s = upd_pg (frame mem) (\<lambda>_. zero_page) s in
             bindE (mappages pgdir 0 0x1000 (V2P mem) (PTE_W OR PTE_U) s) (\<lambda>(_, s).
             Inr (upd_pg (frame mem) (\<lambda>p. put_bytes p 0 (take (unat sz) init)) s))))"

text \<open>
  The loop of \<open>loaduvm\<close>; \<open>rd\<close> is \<open>readi\<close> on the inode: the count it returns and the bytes read, given
  the offset and the length.
\<close>

function loaduvm_loop :: "(u32 \<Rightarrow> u32 \<Rightarrow> 'a mach_scheme \<Rightarrow> ((int \<times> u8 list) \<times> 'a mach_scheme) res) \<Rightarrow>
    u32 \<Rightarrow> u32 \<Rightarrow> u32 \<Rightarrow> nat \<Rightarrow> nat \<Rightarrow> 'a mach_scheme \<Rightarrow> (int \<times> 'a mach_scheme) res" where
  "loaduvm_loop rd pgdir addr offset i sz s =
     (if i < sz then
        bindE (walkpgdir pgdir (addr + of_nat i) False s) (\<lambda>(pte, s).
        case pte of
          None \<Rightarrow> Inl (Panic ''loaduvm: address should exist'')
        | Some pte \<Rightarrow>
            let pa = PTE_ADDR (rd_pte pte s); n = min (sz - i) PGSIZE in
            bindE (rd (offset + of_nat i) (of_nat n) s) (\<lambda>((r, bs), s).
            let s = upd_pg (frame (P2V pa)) (\<lambda>p. put_bytes p 0 bs) s in
            if r \<noteq> int n then Inr (- 1, s) else loaduvm_loop rd pgdir addr offset (i + PGSIZE) sz s))
      else Inr (0, s))"
  by pat_completeness auto
termination
  by (relation "measure (\<lambda>(rd, pgdir, addr, offset, i, sz, s). sz - i)") auto

declare loaduvm_loop.simps [simp del]

definition loaduvm :: "(u32 \<Rightarrow> u32 \<Rightarrow> 'a mach_scheme \<Rightarrow> ((int \<times> u8 list) \<times> 'a mach_scheme) res) \<Rightarrow>
    u32 \<Rightarrow> u32 \<Rightarrow> u32 \<Rightarrow> u32 \<Rightarrow> 'a mach_scheme \<Rightarrow> (int \<times> 'a mach_scheme) res" where
  "loaduvm rd pgdir addr offset sz s =
     (if unat addr mod PGSIZE \<noteq> 0 then Inl (Panic ''loaduvm: addr must be page aligned'')
      else loaduvm_loop rd pgdir addr offset 0 (unat sz) s)"

function allocuvm_loop :: "'a swapops \<Rightarrow> u32 \<Rightarrow> nat \<Rightarrow> u32 \<Rightarrow> u32 \<Rightarrow> 'a mach_scheme \<Rightarrow> (u32 \<times> 'a mach_scheme) res" where
  "allocuvm_loop sw pgdir a oldsz newsz s =
     (if a < unat newsz then
        bindE (kalloc s) (\<lambda>(mem, s).
        if mem = 0 then bindE (deallocuvm sw pgdir newsz oldsz s) (\<lambda>(_, s). Inr (0, s))
        else let s = upd_pg (frame mem) (\<lambda>_. zero_page) s in
          bindE (mappages pgdir (of_nat a) 0x1000 (V2P mem) (PTE_W OR PTE_U) s) (\<lambda>(r, s).
          if r < 0 then
            bindE (deallocuvm sw pgdir newsz oldsz s) (\<lambda>(_, s). bindE (kfree mem s) (\<lambda>s. Inr (0, s)))
          else allocuvm_loop sw pgdir (a + PGSIZE) oldsz newsz s))
      else Inr (newsz, s))"
  by pat_completeness auto
termination
  by (relation "measure (\<lambda>(sw, pgdir, a, oldsz, newsz, s). unat newsz - a)") auto

declare allocuvm_loop.simps [simp del]

definition allocuvm :: "'a swapops \<Rightarrow> u32 \<Rightarrow> u32 \<Rightarrow> u32 \<Rightarrow> 'a mach_scheme \<Rightarrow> (u32 \<times> 'a mach_scheme) res" where
  "allocuvm sw pgdir oldsz newsz s =
     (if KERNBASE \<le> newsz then Inr (0, s)
      else if newsz < oldsz then Inr (oldsz, s)
      else allocuvm_loop sw pgdir (unat (PGROUNDUP oldsz)) oldsz newsz s)"

definition clearpteu :: "u32 \<Rightarrow> u32 \<Rightarrow> 'a mach_scheme \<Rightarrow> 'a mach_scheme res" where
  "clearpteu pgdir uva s =
     bindE (walkpgdir pgdir uva False s) (\<lambda>(pte, s).
     case pte of
       None \<Rightarrow> Inl (Panic ''clearpteu'')
     | Some pte \<Rightarrow> Inr (wr_pte pte (rd_pte pte s AND NOT PTE_U) s))"

section \<open>Copy on write\<close>

definition swaprestore :: "'a swapops \<Rightarrow> u32 \<Rightarrow> pte_ptr \<Rightarrow> 'a mach_scheme \<Rightarrow> (int \<times> 'a mach_scheme) res" where
  "swaprestore sw va pte s = bindE (sw_read sw va pte s) (\<lambda>s. Inr (0, s))"

function copyuvm_loop :: "'a swapops \<Rightarrow> u32 \<Rightarrow> u32 \<Rightarrow> nat \<Rightarrow> nat \<Rightarrow> 'a mach_scheme \<Rightarrow> (u32 \<times> 'a mach_scheme) res" where
  "copyuvm_loop sw pgdir d i sz s =
     (if i < sz then
        bindE (walkpgdir pgdir (of_nat i) False s) (\<lambda>(pte, s).
        case pte of
          None \<Rightarrow> Inl (Panic ''copyuvm: pte should exist'')
        | Some pte \<Rightarrow>
            bindE (if on (rd_pte pte s) PTE_S then bindE (swaprestore sw (of_nat i) pte s) (\<lambda>(_, s). Inr s) else Inr s) (\<lambda>s.
            if \<not> on (rd_pte pte s) PTE_P then copyuvm_loop sw pgdir d (i + PGSIZE) sz s
            else let s = wr_pte pte ((rd_pte pte s AND NOT PTE_W) OR PTE_C) s;
                     pa = PTE_ADDR (rd_pte pte s); flags = PTE_FLAGS (rd_pte pte s) in
              bindE (mappages d (of_nat i) 0x1000 pa flags s) (\<lambda>(r, s).
              if r < 0 then bindE (freevm sw d s) (\<lambda>s. Inr (0, s))
              else bindE (inc_ref_pa pa s) (\<lambda>(_, s). copyuvm_loop sw pgdir d (i + PGSIZE) sz s))))
      else Inr (d, s))"
  by pat_completeness auto
termination
  by (relation "measure (\<lambda>(sw, pgdir, d, i, sz, s). sz - i)") auto

declare copyuvm_loop.simps [simp del]

definition copyuvm :: "'a swapops \<Rightarrow> u32 \<Rightarrow> u32 \<Rightarrow> 'a mach_scheme \<Rightarrow> (u32 \<times> 'a mach_scheme) res" where
  "copyuvm sw pgdir sz s =
     bindE (setupkvm sw s) (\<lambda>(d, s).
     if d = 0 then Inr (0, s) else copyuvm_loop sw pgdir d PGSIZE (unat sz) s)"

definition copy_on_write :: "u32 \<Rightarrow> pte_ptr \<Rightarrow> u32 \<Rightarrow> 'a mach_scheme \<Rightarrow> (int \<times> 'a mach_scheme) res" where
  "copy_on_write va pte pgdir s =
     (let pa = PTE_ADDR (rd_pte pte s) in
      bindE (get_ref_pa pa s) (\<lambda>refcount.
      if refcount = 1 then
        let s = wr_pte pte (rd_pte pte s AND NOT PTE_C) s;
            s = wr_pte pte (rd_pte pte s OR PTE_W) s
        in Inr (0, s)
      else
        bindE (kalloc s) (\<lambda>(mem, s).
        if mem = 0 then Inr (- 1, s)
        else let s = upd_pg (frame mem) (\<lambda>_. m_pg s (frame (P2V pa))) s in
          bindE (mappages pgdir va 0x1000 (V2P mem) (PTE_W OR PTE_U) s) (\<lambda>(r, s).
          if r < 0 then bindE (kfree mem s) (\<lambda>s. Inr (- 1, s))
          else let s = wr_pte pte (rd_pte pte s AND NOT PTE_C) s in
            bindE (dec_ref_pa pa s) (\<lambda>(_, s). Inr (0, s))))))"

definition uva2ka :: "'a swapops \<Rightarrow> u32 \<Rightarrow> u32 \<Rightarrow> 'a mach_scheme \<Rightarrow> (u32 \<times> 'a mach_scheme) res" where
  "uva2ka sw pgdir uva s =
     bindE (walkpgdir pgdir uva False s) (\<lambda>(pte, s).
     case pte of
       None \<Rightarrow> Inl (Fault ''uva2ka'')
     | Some pte \<Rightarrow>
         if \<not> on (rd_pte pte s) PTE_P then Inr (0, s)
         else if \<not> on (rd_pte pte s) PTE_U then Inr (0, s)
         else bindE (if on (rd_pte pte s) PTE_S then swaprestore sw uva pte s else Inr (0, s)) (\<lambda>(r, s).
           if r < 0 then Inr (0, s)
           else bindE (if on (rd_pte pte s) PTE_C then copy_on_write uva pte pgdir s else Inr (0, s)) (\<lambda>(r, s).
             if r < 0 then Inr (0, s) else Inr (P2V (PTE_ADDR (rd_pte pte s)), s))))"

function copyout :: "'a swapops \<Rightarrow> u32 \<Rightarrow> u32 \<Rightarrow> u8 list \<Rightarrow> 'a mach_scheme \<Rightarrow> (int \<times> 'a mach_scheme) res" where
  "copyout sw pgdir va buf s =
     (if buf = [] then Inr (0, s)
      else let va0 = PGROUNDDOWN va in
        bindE (uva2ka sw pgdir va0 s) (\<lambda>(pa0, s).
        if pa0 = 0 then Inr (- 1, s)
        else let n = min (PGSIZE - unat (va - va0)) (length buf);
                 s = upd_pg (frame pa0) (\<lambda>p. put_bytes p (unat (va - va0)) (take n buf)) s
             in copyout sw pgdir (va0 + 0x1000) (drop n buf) s))"
  by pat_completeness auto
termination
  by (relation "measure (\<lambda>(sw, pgdir, va, buf, s). length buf)") (auto simp: unat_page_offset min_def not_le)

declare copyout.simps [simp del]

section \<open>Page faults\<close>

definition lazyalloc :: "u32 \<Rightarrow> u32 \<Rightarrow> 'a mach_scheme \<Rightarrow> (int \<times> 'a mach_scheme) res" where
  "lazyalloc va pgdir s =
     bindE (kalloc s) (\<lambda>(mem, s).
     if mem = 0 then Inr (- 1, s)
     else let s = upd_pg (frame mem) (\<lambda>_. zero_page) s in
       bindE (mappages pgdir va 0x1000 (V2P mem) (PTE_W OR PTE_U) s) (\<lambda>(r, s).
       if r < 0 then bindE (kfree mem s) (\<lambda>s. Inr (- 1, s)) else Inr (0, s)))"

text \<open>The process is given by its size and its page directory.\<close>

definition handle_pagefault :: "'a swapops \<Rightarrow> u32 \<Rightarrow> u32 \<Rightarrow> u32 \<Rightarrow> u32 \<Rightarrow> 'a mach_scheme \<Rightarrow> (int \<times> 'a mach_scheme) res" where
  "handle_pagefault sw p_sz pgdir addr err s =
     (let va = PGROUNDDOWN addr in
      if va = 0 then Inr (- 1, s)
      else if KERNBASE \<le> va then Inr (- 1, s)
      else if p_sz < va then Inr (- 1, s)
      else bindE (walkpgdir pgdir va False s) (\<lambda>(pte, s).
        case pte of
          None \<Rightarrow> lazyalloc va pgdir s
        | Some pte \<Rightarrow>
            bindE (if on (rd_pte pte s) PTE_S then bindE (swaprestore sw va pte s) (\<lambda>(r, s). Inr (max (- 1) r, s)) else Inr (- 1, s)) (\<lambda>(result, s).
            bindE (if on (rd_pte pte s) PTE_C \<and> on err PTE_W
                   then bindE (copy_on_write va pte pgdir s) (\<lambda>(r, s). Inr (max result r, s)) else Inr (result, s)) (\<lambda>(result, s).
            if result \<noteq> 0 then lazyalloc va pgdir s else Inr (result, s)))))"

end
