(* ===== verification/AddrSpace.thy ===== *)
theory AddrSpace
  imports Vm
begin

text \<open>
  Correctness of the page table code of \<^verbatim>\<open>vm.c\<close>. The page tables of an address space denote a function
  from page numbers to page table entries (\<open>pte_at\<close>); the invariant says that page directories and
  page tables are held once and are nobody else's page, and that the reference count of every page
  frame is the number of table entries that map it plus the references held elsewhere.
\<close>

section \<open>Entries as bits\<close>

lemma on_bits [simp]:
  "on e PTE_P \<longleftrightarrow> bit e 0" "on e PTE_W \<longleftrightarrow> bit e 1" "on e PTE_U \<longleftrightarrow> bit e 2" "on e PTE_A \<longleftrightarrow> bit e 5"
  "on e PTE_C \<longleftrightarrow> bit e 9" "on e PTE_S \<longleftrightarrow> bit e 10"
  using and_exp_eq_0_iff_not_bit[of e 0] and_exp_eq_0_iff_not_bit[of e 1] and_exp_eq_0_iff_not_bit[of e 2]
    and_exp_eq_0_iff_not_bit[of e 5] and_exp_eq_0_iff_not_bit[of e 9] and_exp_eq_0_iff_not_bit[of e 10]
  by (simp_all add: on_def PTE_P_def PTE_W_def PTE_U_def PTE_A_def PTE_C_def PTE_S_def)

lemma flag_bits [simp]:
  "bit PTE_P n \<longleftrightarrow> n = 0" "bit PTE_W n \<longleftrightarrow> n = 1" "bit PTE_U n \<longleftrightarrow> n = 2" "bit PTE_C n \<longleftrightarrow> n = 9"
  using bit_exp_iff[where 'a = u32, of 0 n] bit_exp_iff[where 'a = u32, of 1 n] bit_exp_iff[where 'a = u32, of 2 n] bit_exp_iff[where 'a = u32, of 9 n]
  by (auto simp: PTE_P_def PTE_W_def PTE_U_def PTE_C_def)

text \<open>The page frame an entry points to.\<close>

definition pf :: "u32 \<Rightarrow> nat" where
  "pf e = unat e div PGSIZE"

lemma unat_drop: "unat (drop_bit n w) = unat w div 2 ^ n"
  unfolding unat_drop_bit_eq by (rule drop_bit_eq_div)

lemma pf_drop: "pf e = unat (drop_bit 12 e)"
  by (simp only: pf_def unat_drop) simp

lemma pf_eqI: "(\<And>n. 12 \<le> n \<Longrightarrow> n < 32 \<Longrightarrow> bit e n = bit e' n) \<Longrightarrow> pf e = pf e'"
  unfolding pf_drop
proof (rule arg_cong[where f = unat], rule bit_word_eqI)
  fix n assume "\<And>n. 12 \<le> n \<Longrightarrow> n < 32 \<Longrightarrow> bit e n = bit e' n" "n < LENGTH(32)"
  then show "bit (drop_bit 12 e) n = bit (drop_bit 12 e') n"
    by (cases "12 + n < 32") (auto simp: bit_drop_bit_eq dest: bit_imp_le_length)
qed

lemma pf_lt: "pf e < 2 ^ 20"
  using unat_u32_lt[of e] by (simp add: pf_def)

definition small :: "u32 \<Rightarrow> bool" where
  "small w \<longleftrightarrow> (\<forall>n \<ge> 12. \<not> bit w n)"

lemma small_flags [simp]: "small PTE_W" "small PTE_U" "small PTE_P" "small 0" "small x \<Longrightarrow> small y \<Longrightarrow> small (x OR y)" "small (PTE_FLAGS e)"
proof -
  have m: "(0xFFF :: u32) = mask 12" by (simp add: mask_eq_exp_minus_1)
  show "small (PTE_FLAGS e)" unfolding small_def PTE_FLAGS_def m by (auto simp: bit_simps)
qed (auto simp: small_def bit_simps)

lemma page_pa_bits: "bit (of_nat (f * PGSIZE) :: u32) n \<longleftrightarrow> 12 \<le> n \<and> n < 32 \<and> bit f (n - 12)"
proof -
  have "(of_nat (f * PGSIZE) :: u32) = push_bit 12 (of_nat f)" by (simp add: push_bit_eq_mult)
  then show ?thesis by (auto simp: bit_simps)
qed

lemma pf_make: "f < 2 ^ 20 \<Longrightarrow> small w \<Longrightarrow> pf (of_nat (f * PGSIZE) OR w) = f"
proof -
  assume f: "f < 2 ^ 20" and w: "small w"
  have "pf (of_nat (f * PGSIZE) OR w) = pf (of_nat (f * PGSIZE))"
    by (rule pf_eqI) (use w in \<open>auto simp: bit_simps small_def\<close>)
  then show ?thesis using f by (simp add: pf_def unat_of_nat take_bit_nat_eq_self del: of_nat_mult)
qed

lemma PTE_ADDR_pf: "PTE_ADDR e = of_nat (pf e * PGSIZE)"
proof -
  have "unat (PTE_ADDR e) = pf e * PGSIZE" unfolding PTE_ADDR_def unat_round by (simp add: pf_def)
  moreover have "pf e * PGSIZE < 2 ^ 32" using pf_lt[of e] by simp
  ultimately show ?thesis by (simp add: word_eq_unat_iff unat_of_nat take_bit_nat_eq_self del: of_nat_mult)
qed

lemma P2V_page_addr: "P2V (of_nat (f * PGSIZE)) = page_addr f"
  by (simp add: page_addr_def)

lemma entry_split: "e = PTE_ADDR e OR PTE_FLAGS e"
  by (rule bit_word_eqI) (auto simp: PTE_ADDR_def PTE_FLAGS_def bit_simps)

section \<open>Page numbers\<close>

definition pgno :: "u32 \<Rightarrow> nat" where
  "pgno va = unat va div PGSIZE"

lemma and_0x3FF: "unat (w AND 0x3FF :: u32) = unat w mod 1024"
proof -
  have "(0x3FF :: u32) = mask 10" by (simp add: mask_eq_exp_minus_1)
  then have "w AND 0x3FF = take_bit 10 w" by (simp only: take_bit_eq_mask)
  then show ?thesis by (simp only: unsigned_take_bit_eq) (simp add: take_bit_eq_mod)
qed

lemma PDX_pgno: "PDX va = pgno va div 1024" and PTX_pgno: "PTX va = pgno va mod 1024"
proof -
  have "unat va div 4194304 mod 1024 = unat va div 4194304" using unat_u32_lt[of va] by (simp add: mod_less)
  then show "PDX va = pgno va div 1024"
    by (simp only: PDX_def pgno_def and_0x3FF unat_drop) (simp add: div_mult2_eq[symmetric])
  show "PTX va = pgno va mod 1024" by (simp only: PTX_def pgno_def and_0x3FF unat_drop) simp
qed

lemma pgno_bounds: "pgno va < 2 ^ 20" "PDX va < 1024" "PTX va < 1024"
  using unat_u32_lt[of va] by (simp_all add: PDX_pgno PTX_pgno pgno_def)

section \<open>What page tables denote\<close>

definition tbl :: "'a mach_scheme \<Rightarrow> nat \<Rightarrow> nat \<Rightarrow> nat option" where
  "tbl s d i = (if bit (ent s d i) 0 then Some (pf (ent s d i)) else None)"

text \<open>The entry for page number \<open>p\<close>; where there is no page table, the empty entry.\<close>

definition pte_at :: "'a mach_scheme \<Rightarrow> nat \<Rightarrow> nat \<Rightarrow> u32" where
  "pte_at s d p = (case tbl s d (p div 1024) of None \<Rightarrow> 0 | Some t \<Rightarrow> ent s t (p mod 1024))"

definition UPAGES :: nat where "UPAGES = 524288"

lemma mod_index: "q mod 1024 < NPDENTRIES"
  by (simp add: NPDENTRIES_def)

lemma page_bounds: "p < UPAGES \<Longrightarrow> p < 2 ^ 20" "p < 2 ^ 20 \<Longrightarrow> p div 1024 < NPDENTRIES"
  by (simp_all add: UPAGES_def NPDENTRIES_def)

definition um :: "u32 \<Rightarrow> nat multiset" where
  "um e = (if bit e 0 then {#pf e#} else {#})"

definition tm :: "nat option \<Rightarrow> nat multiset" where
  "tm x = (case x of None \<Rightarrow> {#} | Some t \<Rightarrow> {#t#})"

text \<open>
  For a set \<open>D\<close> of page directories: the frames that hold page directories and tables, and the frames
  that user entries map, as often as they are mapped.
\<close>

definition pts :: "nat set \<Rightarrow> 'a mach_scheme \<Rightarrow> nat multiset" where
  "pts D s = (\<Sum>d\<in>D. {#d#} + (\<Sum>i<NPDENTRIES. tm (tbl s d i)))"

definition urefs :: "nat set \<Rightarrow> 'a mach_scheme \<Rightarrow> nat multiset" where
  "urefs D s = (\<Sum>d\<in>D. \<Sum>p<UPAGES. um (pte_at s d p))"

definition tables_ok :: "nat set \<Rightarrow> nat set \<Rightarrow> 'a mach_scheme \<Rightarrow> nat multiset \<Rightarrow> bool" where
  "tables_ok M D s R \<longleftrightarrow> finite D \<and> pool_ok M s R \<and>
     (\<forall>f \<in># pts D s. count (pts D s) f = 1 \<and> count R f = 1 \<and> f \<notin># urefs D s) \<and> set_mset (urefs D s) \<subseteq> set_mset R"

subsection \<open>Sums\<close>

lemma sum_point_update:
  fixes g h :: "'x \<Rightarrow> 'y multiset"
  assumes "finite A" "a \<in> A" "\<And>x. x \<in> A \<Longrightarrow> x \<noteq> a \<Longrightarrow> h x = g x"
  shows "sum h A + g a = sum g A + h a"
proof -
  have "sum h (A - {a}) = sum g (A - {a})" using assms(3) by (intro sum.cong) auto
  then show ?thesis using sum.remove[OF assms(1,2), of h] sum.remove[OF assms(1,2), of g] by (simp add: ac_simps)
qed

lemma sum_two_le:
  fixes g :: "'x \<Rightarrow> nat"
  assumes "finite A" "x \<in> A" "y \<in> A" "x \<noteq> y"
  shows "g x + g y \<le> sum g A"
proof -
  have "sum g {x, y} \<le> sum g A" using assms by (intro sum_mono2) auto
  then show ?thesis using assms(4) by simp
qed

lemma in_sum: "finite A \<Longrightarrow> x \<in># sum g A \<longleftrightarrow> (\<exists>a\<in>A. x \<in># g a)"
  by (induction A rule: finite_induct) auto

lemma urefs_cong: "(\<And>d p. d \<in> D \<Longrightarrow> p < UPAGES \<Longrightarrow> pte_at s' d p = pte_at s d p) \<Longrightarrow> urefs D s' = urefs D s"
  unfolding urefs_def by (intro sum.cong) auto

lemma pts_cong: "(\<And>d i. d \<in> D \<Longrightarrow> i < NPDENTRIES \<Longrightarrow> tbl s' d i = tbl s d i) \<Longrightarrow> pts D s' = pts D s"
  unfolding pts_def by (intro sum.cong) auto

lemma urefs_update:
  assumes "finite D" "d \<in> D" "p < UPAGES"
    and u: "\<And>d' p'. d' \<in> D \<Longrightarrow> p' < UPAGES \<Longrightarrow> pte_at s' d' p' = (if d' = d \<and> p' = p then w else pte_at s d' p')"
  shows "urefs D s' + um (pte_at s d p) = urefs D s + um w"
proof -
  let ?g = "\<lambda>s d. \<Sum>p<UPAGES. um (pte_at s d p)"
  have "urefs D s' + ?g s d = urefs D s + ?g s' d"
    unfolding urefs_def by (rule sum_point_update[OF assms(1,2)]) (use u in \<open>auto intro!: sum.cong\<close>)
  moreover have "?g s' d + um (pte_at s d p) = ?g s d + um (pte_at s' d p)"
    by (rule sum_point_update) (use assms u in auto)
  moreover have "pte_at s' d p = w" using assms u by simp
  ultimately have "urefs D s' + ?g s d + um (pte_at s d p) = urefs D s + (?g s d + um w)"
    by (metis add.assoc)
  then show ?thesis by (simp add: ac_simps)
qed

lemma pts_new:
  assumes "finite D" "d \<in> D" "i < NPDENTRIES" "tbl s d i = None"
    and u: "\<And>d' i'. d' \<in> D \<Longrightarrow> i' < NPDENTRIES \<Longrightarrow> tbl s' d' i' = (if d' = d \<and> i' = i then Some t else tbl s d' i')"
  shows "pts D s' = add_mset t (pts D s)"
proof -
  let ?g = "\<lambda>s d. {#d#} + (\<Sum>i<NPDENTRIES. tm (tbl s d i))"
  have "pts D s' + ?g s d = pts D s + ?g s' d"
    unfolding pts_def by (rule sum_point_update[OF assms(1,2)]) (use u in \<open>auto intro!: sum.cong\<close>)
  moreover have "(\<Sum>i<NPDENTRIES. tm (tbl s' d i)) + tm (tbl s d i) = (\<Sum>i<NPDENTRIES. tm (tbl s d i)) + tm (tbl s' d i)"
    by (rule sum_point_update) (use assms u in auto)
  moreover have "tm (tbl s d i) = {#}" "tm (tbl s' d i) = {#t#}" using assms u by (simp_all add: tm_def)
  ultimately show ?thesis by (simp add: ac_simps)
qed

subsection \<open>Frames of tables\<close>

lemma dir_in_pts: "finite D \<Longrightarrow> d \<in> D \<Longrightarrow> d \<in># pts D s"
  by (auto simp: pts_def in_sum)

lemma tbl_in_pts: "finite D \<Longrightarrow> d \<in> D \<Longrightarrow> i < NPDENTRIES \<Longrightarrow> tbl s d i = Some t \<Longrightarrow> t \<in># pts D s"
proof -
  assume a: "finite D" "d \<in> D" "i < NPDENTRIES" "tbl s d i = Some t"
  then have "t \<in># (\<Sum>i<NPDENTRIES. tm (tbl s d i))" unfolding in_sum[OF finite_lessThan] by (intro bexI[of _ i]) (simp_all add: tm_def)
  then show ?thesis unfolding pts_def in_sum[OF a(1)] using a(2) by auto
qed

lemma tables_okD:
  assumes "tables_ok M D s R"
  shows "finite D" "pool_ok M s R" "f \<in># pts D s \<Longrightarrow> count (pts D s) f = 1" "f \<in># pts D s \<Longrightarrow> count R f = 1" "f \<in># pts D s \<Longrightarrow> f \<notin># urefs D s"
    "f \<in># pts D s \<Longrightarrow> f \<in># R" "length (m_pg s f) = PGSIZE" "f \<in># R \<Longrightarrow> f < NPDATAMAP" "f \<in># urefs D s \<Longrightarrow> f \<in># R"
proof -
  show "finite D" "pool_ok M s R" "f \<in># pts D s \<Longrightarrow> count (pts D s) f = 1" "f \<in># pts D s \<Longrightarrow> count R f = 1" "f \<in># pts D s \<Longrightarrow> f \<notin># urefs D s" "f \<in># urefs D s \<Longrightarrow> f \<in># R"
    using assms by (auto simp: tables_ok_def)
  show "f \<in># pts D s \<Longrightarrow> f \<in># R" using assms by (metis tables_ok_def count_eq_zero_iff zero_neq_one)
  show "length (m_pg s f) = PGSIZE" "f \<in># R \<Longrightarrow> f < NPDATAMAP"
    using pool_okD[of M s R] assms by (auto simp: tables_ok_def)
qed

lemma table_unique:
  assumes ok: "tables_ok M D s R" and d: "d \<in> D" "i < NPDENTRIES" "tbl s d i = Some t"
  shows "t \<notin> D" and "d' \<in> D \<Longrightarrow> i' < NPDENTRIES \<Longrightarrow> tbl s d' i' = Some t \<Longrightarrow> d' = d \<and> i' = i"
proof -
  note fin = tables_okD(1)[OF ok]
  let ?h = "\<lambda>d. count {#d#} t + (\<Sum>i<NPDENTRIES. count (tm (tbl s d i)) t)"
  have one: "sum ?h D = 1"
    using tables_okD(3)[OF ok tbl_in_pts[OF fin d]] unfolding pts_def count_sum count_union .
  have h1: "1 \<le> (\<Sum>i<NPDENTRIES. count (tm (tbl s d' i)) t)" if "i' < NPDENTRIES" "tbl s d' i' = Some t" for d' i'
    using member_le_sum[of i' "{..<NPDENTRIES}" "\<lambda>i. count (tm (tbl s d' i)) t"] that by (simp add: tm_def)
  show "t \<notin> D"
  proof
    assume t: "t \<in> D"
    show False
    proof (cases "t = d")
      case True
      have "?h d \<le> sum ?h D" by (rule member_le_sum[OF d(1)]) (use fin in auto)
      then show False using one h1[OF d(2,3)] True by simp
    next
      case False
      have "?h d + ?h t \<le> sum ?h D" by (rule sum_two_le[OF fin d(1) t]) (use False in simp)
      then show False using one h1[OF d(2,3)] by simp
    qed
  qed
  assume a: "d' \<in> D" "i' < NPDENTRIES" "tbl s d' i' = Some t"
  show "d' = d \<and> i' = i"
  proof (rule ccontr)
    assume ne: "\<not> (d' = d \<and> i' = i)"
    show False
    proof (cases "d' = d")
      case True
      then have "count (tm (tbl s d i)) t + count (tm (tbl s d i')) t \<le> (\<Sum>i<NPDENTRIES. count (tm (tbl s d i)) t)"
        by (intro sum_two_le) (use ne d a in auto)
      moreover have "?h d \<le> sum ?h D" by (rule member_le_sum[OF d(1)]) (use fin in auto)
      ultimately show False using one d a True by (simp add: tm_def)
    next
      case False
      have "?h d + ?h d' \<le> sum ?h D" by (rule sum_two_le[OF fin d(1) a(1)]) (use False in simp)
      then show False using one h1[OF d(2,3)] h1[OF a(2,3)] by simp
    qed
  qed
qed

section \<open>Changing memory\<close>

lemma upd_pg_simps [simp]:
  "m_pg (upd_pg f g s) = (m_pg s)(f := g (m_pg s f))" "m_ref (upd_pg f g s) = m_ref s" "m_freelist (upd_pg f g s) = m_freelist s"
  "m_end (upd_pg f g s) = m_end s" "m_data (upd_pg f g s) = m_data s" "m_la (upd_pg f g s) = m_la s" "mach.more (upd_pg f g s) = mach.more s"
  by (simp_all add: upd_pg_def)

lemma ent_set_ent:
  assumes "length (m_pg s f) = PGSIZE" "i < 1024" "i' < 1024"
  shows "ent (set_ent f i w s) f' i' = (if f' = f \<and> i' = i then w else ent s f' i')"
proof (cases "i' = i")
  case False
  then have "4 * i' + 4 \<le> 4 * i \<or> 4 * i + 4 \<le> 4 * i'" by linarith
  then show ?thesis using False by (auto simp: ent_def set_ent_def get32_put32_other)
qed (use assms in \<open>auto simp: ent_def set_ent_def\<close>)

lemma pool_ok_page:
  assumes ok: "pool_ok M s R" and f: "f \<in># R" and g: "length (g (m_pg s f)) = PGSIZE"
  shows "pool_ok M (upd_pg f g s) R"
proof -
  obtain fs where fs: "distinct fs" "set fs = M - set_mset R" "chain (m_pg s) (m_freelist s) fs"
    using ok by (auto simp: pool_ok_def)
  have "f \<notin> set fs" using f unfolding fs(2) by blast
  then have "chain ((m_pg s)(f := g (m_pg s f))) (m_freelist s) fs" using fs(3) by (simp add: chain_other)
  then show ?thesis using ok fs g unfolding pool_ok_def by (auto simp: managed_def)
qed

text \<open>The page tables are read from their own frames only.\<close>

lemma outside_tables:
  assumes fin: "finite D" and same: "\<forall>f \<in># pts D s. m_pg s' f = m_pg s f"
  shows "d \<in> D \<Longrightarrow> i < NPDENTRIES \<Longrightarrow> tbl s' d i = tbl s d i" and "d \<in> D \<Longrightarrow> q < 2 ^ 20 \<Longrightarrow> pte_at s' d q = pte_at s d q"
    and "pts D s' = pts D s" and "urefs D s' = urefs D s"
proof -
  have e: "ent s' t i = ent s t i" if "t \<in># pts D s" for t i
    using that same by (simp add: ent_def)
  show t: "tbl s' d i = tbl s d i" if "d \<in> D" "i < NPDENTRIES" for d i
    using e[OF dir_in_pts[OF fin that(1)]] by (simp add: tbl_def)
  show p: "pte_at s' d q = pte_at s d q" if "d \<in> D" "q < 2 ^ 20" for d q
  proof (cases "tbl s d (q div 1024)")
    case (Some u)
    then show ?thesis
      using t[OF that(1) page_bounds(2)[OF that(2)]] e[OF tbl_in_pts[OF fin that(1) page_bounds(2)[OF that(2)] Some]] by (simp add: pte_at_def)
  qed (use t[OF that(1) page_bounds(2)[OF that(2)]] in \<open>simp add: pte_at_def\<close>)
  show "pts D s' = pts D s" by (rule pts_cong[OF t])
  show "urefs D s' = urefs D s" by (rule urefs_cong) (rule p, assumption, rule page_bounds(1))
qed

text \<open>Writing a page that is not a page table.\<close>

lemma page_write:
  assumes ok: "tables_ok M D s R" and f: "f \<in># R" "f \<notin># pts D s" and g: "length (g (m_pg s f)) = PGSIZE"
  shows "d \<in> D \<Longrightarrow> i < NPDENTRIES \<Longrightarrow> tbl (upd_pg f g s) d i = tbl s d i"
    and "d \<in> D \<Longrightarrow> p < 2 ^ 20 \<Longrightarrow> pte_at (upd_pg f g s) d p = pte_at s d p"
    and "tables_ok M D (upd_pg f g s) R"
proof -
  have "\<forall>h \<in># pts D s. m_pg (upd_pg f g s) h = m_pg s h" using f(2) by auto
  note o = outside_tables[OF tables_okD(1)[OF ok] this]
  show "d \<in> D \<Longrightarrow> i < NPDENTRIES \<Longrightarrow> tbl (upd_pg f g s) d i = tbl s d i" by (rule o(1))
  show "d \<in> D \<Longrightarrow> p < 2 ^ 20 \<Longrightarrow> pte_at (upd_pg f g s) d p = pte_at s d p" by (rule o(2))
  have "pool_ok M (upd_pg f g s) R" by (rule pool_ok_page[where g = g, OF tables_okD(2)[OF ok] f(1) g])
  then show "tables_ok M D (upd_pg f g s) R" using ok unfolding tables_ok_def o(3,4) by blast
qed

lemma div_mod_eqI: "(a :: nat) div n = b div n \<Longrightarrow> a mod n = b mod n \<Longrightarrow> a = b"
  by (metis div_mult_mod_eq)

text \<open>Writing an entry of a page table.\<close>

lemma entry_write:
  assumes ok: "tables_ok M D s R" and d: "d \<in> D" "p < 2 ^ 20" "tbl s d (p div 1024) = Some t" and w: "bit w 0 \<and> p < UPAGES \<longrightarrow> pf w \<notin># pts D s \<and> pf w \<in># R"
  shows "d' \<in> D \<Longrightarrow> i < NPDENTRIES \<Longrightarrow> tbl (set_ent t (p mod 1024) w s) d' i = tbl s d' i"
    and "d' \<in> D \<Longrightarrow> q < 2 ^ 20 \<Longrightarrow> pte_at (set_ent t (p mod 1024) w s) d' q = (if d' = d \<and> q = p then w else pte_at s d' q)"
    and "tables_ok M D (set_ent t (p mod 1024) w s) R"
    and "pts D (set_ent t (p mod 1024) w s) = pts D s"
    and "urefs D (set_ent t (p mod 1024) w s) + (if p < UPAGES then um (pte_at s d p) else {#}) = urefs D s + (if p < UPAGES then um w else {#})"
proof -
  let ?s = "set_ent t (p mod 1024) w s"
  note fin = tables_okD(1)[OF ok]
  have pi: "p div 1024 < NPDENTRIES" by (rule page_bounds(2)[OF d(2)])
  note tp = tbl_in_pts[OF fin d(1) pi d(3)] and un = table_unique[OF ok d(1) pi d(3)]
  have e: "ent ?s f j = (if f = t \<and> j = p mod 1024 then w else ent s f j)" if "j < NPDENTRIES" for f j
    using that tables_okD(7)[OF ok] by (simp add: ent_set_ent NPDENTRIES_def)
  show T: "tbl ?s d' i = tbl s d' i" if "d' \<in> D" "i < NPDENTRIES" for d' i
    using that un(1) e by (auto simp: tbl_def)
  show P: "pte_at ?s d' q = (if d' = d \<and> q = p then w else pte_at s d' q)" if "d' \<in> D" "q < 2 ^ 20" for d' q
  proof -
    have qi: "q div 1024 < NPDENTRIES" by (rule page_bounds(2)[OF that(2)])
    show ?thesis
    proof (cases "tbl s d' (q div 1024)")
      case None
      then have "\<not> (d' = d \<and> q = p)" using d(3) by auto
      then show ?thesis using None T[OF that(1) qi] by (auto simp: pte_at_def)
    next
      case (Some u)
      have "u = t \<and> q mod 1024 = p mod 1024 \<longleftrightarrow> d' = d \<and> q = p"
      proof
        assume a: "u = t \<and> q mod 1024 = p mod 1024"
        then have "d' = d" "q div 1024 = p div 1024" using un(2)[OF that(1) qi] Some by auto
        then show "d' = d \<and> q = p" using a div_mod_eqI[of q 1024 p] by blast
      qed (use Some d(3) in auto)
      then show ?thesis using Some T[OF that(1) qi] e[of "q mod 1024" u, OF mod_index] by (simp add: pte_at_def)
    qed
  qed
  show pt: "pts D ?s = pts D s" by (rule pts_cong[OF T])
  show ur: "urefs D ?s + (if p < UPAGES then um (pte_at s d p) else {#}) = urefs D s + (if p < UPAGES then um w else {#})"
  proof (cases "p < UPAGES")
    case True
    then show ?thesis using urefs_update[OF fin d(1) True, of ?s w s] P page_bounds(1) by simp
  next
    case False
    then have "urefs D ?s = urefs D s" using P page_bounds(1) by (intro urefs_cong) auto
    then show ?thesis using False by simp
  qed
  have po: "pool_ok M ?s R" unfolding set_ent_def
    by (rule pool_ok_page[OF tables_okD(2)[OF ok] tables_okD(6)[OF ok tp]]) (simp add: tables_okD(7)[OF ok])
  have in_ur: "f \<in># urefs D s + (if p < UPAGES then um w else {#})" if "f \<in># urefs D ?s" for f
    using that ur by (metis union_iff)
  have "f \<notin># urefs D ?s" if f: "f \<in># pts D s" for f
    using in_ur[of f] tables_okD(5)[OF ok f] w f by (auto simp: um_def split: if_splits)
  moreover have "f \<in># R" if "f \<in># urefs D ?s" for f
    using in_ur[OF that] tables_okD(9)[OF ok, of f] w by (auto simp: um_def split: if_splits)
  ultimately show "tables_ok M D ?s R" using ok po pt by (auto simp: tables_ok_def)
qed

section \<open>Growing page tables\<close>

lemma views_cong:
  assumes "m_pg s' = m_pg s" shows "tbl s' = tbl s" and "pte_at s' = pte_at s"
proof -
  have e: "ent s' = ent s" using assms by (intro ext) (simp add: ent_def)
  then show b: "tbl s' = tbl s" by (intro ext) (simp add: tbl_def)
  then show "pte_at s' = pte_at s" by (intro ext) (simp only: pte_at_def e)
qed

lemma aggregates_cong:
  assumes "m_pg s' = m_pg s" shows "pts D s' = pts D s" and "urefs D s' = urefs D s"
  unfolding pts_def urefs_def views_cong[OF assms] by (rule refl)+

lemma tables_ok_alloc:
  assumes "tables_ok M D s R" and "m_pg s' = m_pg s" and "pool_ok M s' (add_mset f R)" and "f \<notin># R"
  shows "tables_ok M D s' (add_mset f R)"
proof -
  have "f \<notin># pts D s" using tables_okD(6)[OF assms(1)] assms(4) by blast
  then show ?thesis using assms(1,3) aggregates_cong[OF assms(2)] by (auto simp: tables_ok_def)
qed

text \<open>
  What holds after page tables have been extended by the frames \<open>T\<close>: old tables stay, pages that are
  not tables are untouched, and so are the parts of the machine that are not memory.
\<close>

definition grown :: "nat set \<Rightarrow> nat set \<Rightarrow> 'a mach_scheme \<Rightarrow> nat multiset \<Rightarrow> 'a mach_scheme \<Rightarrow> nat multiset \<Rightarrow> bool" where
  "grown M D s R s' T \<longleftrightarrow> tables_ok M D s' (R + T) \<and> pts D s' = pts D s + T \<and> (\<forall>f. f \<notin># pts D s' \<longrightarrow> m_pg s' f = m_pg s f) \<and>
     (\<forall>d \<in> D. \<forall>i < NPDENTRIES. tbl s d i \<noteq> None \<longrightarrow> tbl s' d i = tbl s d i) \<and>
     m_end s' = m_end s \<and> m_data s' = m_data s \<and> mach.more s' = mach.more s"

lemma grown_refl: "tables_ok M D s R \<Longrightarrow> grown M D s R s {#}"
  by (simp add: grown_def)

lemma grown_trans:
  assumes "grown M D s R s' T" and "grown M D s' (R + T) s'' T'"
  shows "grown M D s R s'' (T + T')"
proof -
  have "tbl s'' d i = tbl s d i" if "d \<in> D" "i < NPDENTRIES" "tbl s d i \<noteq> None" for d i
    using that assms by (simp add: grown_def)
  then show ?thesis using assms by (auto simp: grown_def ac_simps)
qed

lemma zero_page_facts: "length zero_page = PGSIZE" "i < 1024 \<Longrightarrow> get32 zero_page (4 * i) = 0"
  by (simp_all add: zero_page_def get32_def)

lemma new_table:
  assumes ok: "tables_ok M D s R" and d: "d \<in> D" "i < NPDENTRIES" "tbl s d i = None" and f: "f \<in># R" "f \<notin># pts D s" "f \<notin># urefs D s" "count R f = 1"
    and w: "bit w 0" "pf w = f"
  defines "s' \<equiv> set_ent d i w (upd_pg f (\<lambda>_. zero_page) s)"
  shows "d' \<in> D \<Longrightarrow> j < NPDENTRIES \<Longrightarrow> tbl s' d' j = (if d' = d \<and> j = i then Some f else tbl s d' j)"
    and "d' \<in> D \<Longrightarrow> q < 2 ^ 20 \<Longrightarrow> pte_at s' d' q = pte_at s d' q"
    and "pts D s' = add_mset f (pts D s)" and "urefs D s' = urefs D s" and "tables_ok M D s' R"
proof -
  let ?s = "upd_pg f (\<lambda>_. zero_page) s"
  note fin = tables_okD(1)[OF ok]
  note pw = page_write[where g = "\<lambda>_. zero_page", OF ok f(1,2) zero_page_facts(1)]
  have df: "d \<noteq> f" using dir_in_pts[OF fin d(1)] f(2) by blast
  have e: "ent s' g j = (if g = d \<and> j = i then w else ent ?s g j)" if "j < NPDENTRIES" for g j
    unfolding s'_def by (rule ent_set_ent) (use that d(2) tables_okD(7)[OF pw(3)] in \<open>auto simp: NPDENTRIES_def\<close>)
  show T: "tbl s' d' j = (if d' = d \<and> j = i then Some f else tbl s d' j)" if "d' \<in> D" "j < NPDENTRIES" for d' j
  proof (cases "d' = d \<and> j = i")
    case False
    then have "ent s' d' j = ent ?s d' j" using e[OF that(2), of d'] by (simp only: if_False)
    then have "tbl s' d' j = tbl ?s d' j" by (simp only: tbl_def)
    then show ?thesis using pw(1)[OF that] False by auto
  qed (use e[OF that(2)] w in \<open>simp add: tbl_def\<close>)
  show P: "pte_at s' d' q = pte_at s d' q" if "d' \<in> D" "q < 2 ^ 20" for d' q
  proof -
    have qi: "q div 1024 < NPDENTRIES" by (rule page_bounds(2)[OF that(2)])
    show ?thesis
    proof (cases "d' = d \<and> q div 1024 = i")
      case True
      then have "pte_at s' d' q = ent ?s f (q mod 1024)" using T[OF that(1) qi] df e[of "q mod 1024" f, OF mod_index] by (simp add: pte_at_def)
      also have "\<dots> = 0" by (simp add: ent_def zero_page_facts(2))
      finally show ?thesis using True d(3) by (simp add: pte_at_def)
    next
      case False
      show ?thesis
      proof (cases "tbl s d' (q div 1024)")
        case None
        then show ?thesis using False T[OF that(1) qi] by (auto simp: pte_at_def)
      next
        case (Some u)
        have "u \<in># pts D s" by (rule tbl_in_pts[OF fin that(1) qi Some])
        then have "u \<noteq> f" "u \<noteq> d" using f(2) table_unique(1)[OF ok that(1) qi Some] d(1) by auto
        then have "ent s' u (q mod 1024) = ent s u (q mod 1024)" using e[of "q mod 1024" u, OF mod_index] by (simp add: ent_def)
        then show ?thesis using False T[OF that(1) qi] Some by (auto simp: pte_at_def)
      qed
    qed
  qed
  show pt: "pts D s' = add_mset f (pts D s)" by (rule pts_new[OF fin d T])
  show ur: "urefs D s' = urefs D s" by (rule urefs_cong) (rule P, assumption, rule page_bounds(1))
  have "pool_ok M s' R" unfolding s'_def set_ent_def
    by (rule pool_ok_page[OF tables_okD(2)[OF pw(3)] tables_okD(6)[OF ok dir_in_pts[OF fin d(1)]]]) (use tables_okD(7)[OF pw(3)] in simp)
  moreover have "count (pts D s) f = 0" using f(2) by (simp add: count_eq_zero_iff)
  ultimately show "tables_ok M D s' R"
    using ok f by (auto simp: tables_ok_def pt ur)
qed

lemma walk_alloc:
  assumes ok: "tables_ok M D s R" and d: "d \<in> D"
  obtains (none) "walkpgdir (page_addr d) va True s = Inr (None, s)" "M \<subseteq> set_mset R" "tbl s d (PDX va) = None"
  | (some) t s' T where "walkpgdir (page_addr d) va True s = Inr (Some (t, PTX va), s')" "grown M D s R s' T"
      "\<forall>d' \<in> D. \<forall>q < 2 ^ 20. pte_at s' d' q = pte_at s d' q" "urefs D s' = urefs D s" "tbl s' d (PDX va) = Some t"
      "tbl s d (PDX va) \<noteq> None \<Longrightarrow> T = {#}"
proof -
  note fin = tables_okD(1)[OF ok]
  have dR: "d \<in># R" "d < NPDATAMAP" using tables_okD(6,8)[OF ok] dir_in_pts[OF fin d] by blast+
  have fr: "frame (page_addr d) = d" by (rule page_addr_props(1)[OF dR(2)])
  have ix: "PDX va < NPDENTRIES" using pgno_bounds(2)[of va] by (simp add: NPDENTRIES_def)
  show thesis
  proof (cases "tbl s d (PDX va)")
    case (Some t)
    then have b: "bit (ent s d (PDX va)) 0" "t = pf (ent s d (PDX va))" by (auto simp: tbl_def split: if_splits)
    have "t < NPDATAMAP" using tables_okD(6,8)[OF ok] tbl_in_pts[OF fin d ix Some] by blast
    then have "walkpgdir (page_addr d) va True s = Inr (Some (t, PTX va), s)"
      using b by (simp add: walkpgdir_def fr PTE_ADDR_pf P2V_page_addr page_addr_props(1) del: of_nat_mult)
    then show thesis using grown_refl[OF ok] Some by (intro some) auto
  next
    case None
    then have b: "\<not> bit (ent s d (PDX va)) 0" by (auto simp: tbl_def split: if_splits)
    show thesis
    proof (cases "M \<subseteq> set_mset R")
      case True
      then have "kalloc s = Inr (0, s)" using kalloc_ok[OF tables_okD(2)[OF ok]] by simp
      then have "walkpgdir (page_addr d) va True s = Inr (None, s)" using b by (simp add: walkpgdir_def fr)
      then show thesis using True None by (rule none)
    next
      case False
      then obtain f p where f: "f \<in> M" "f \<notin># R" "kalloc s = Inr (page_addr f, s\<lparr>m_freelist := p, m_ref := (m_ref s)(f := 1)\<rparr>)"
        "pool_ok M (s\<lparr>m_freelist := p, m_ref := (m_ref s)(f := 1)\<rparr>) (add_mset f R)"
        using kalloc_ok[OF tables_okD(2)[OF ok]] by auto
      let ?s = "s\<lparr>m_freelist := p, m_ref := (m_ref s)(f := 1)\<rparr>"
      let ?w = "V2P (page_addr f) OR PTE_P OR PTE_W OR PTE_U"
      have ok1: "tables_ok M D ?s (add_mset f R)" by (rule tables_ok_alloc[OF ok _ f(4,2)]) simp
      have fl: "f < NPDATAMAP" using pool_okD(2)[OF f(4) f(1)] .
      have w: "bit ?w 0" "pf ?w = f"
        using pf_make[of f "PTE_P OR PTE_W OR PTE_U"] fl by (simp_all add: V2P_page_addr bit_simps NPDATAMAP_def or.assoc del: of_nat_mult)
      have fp: "f \<notin># pts D ?s" using tables_okD(6)[OF ok] f(2) by (auto simp: aggregates_cong[of ?s s])
      have fu: "f \<notin># urefs D ?s" using tables_okD(9)[OF ok] f(2) by (auto simp: aggregates_cong[of ?s s])
      have c: "count (add_mset f R) f = 1" using f(2) by (simp add: count_eq_zero_iff)
      have tn: "tbl ?s d (PDX va) = None" using None by (simp add: views_cong[of ?s s])
      note nt = new_table[where w = ?w, OF ok1 d ix tn _ fp fu c w]
      let ?t = "set_ent d (PDX va) ?w (upd_pg f (\<lambda>_. zero_page) ?s)"
      have g: "grown M D s R ?t {#f#}"
        unfolding grown_def
      proof (intro conjI allI impI ballI)
        show "tables_ok M D ?t (R + {#f#})" using nt(5) by simp
        show "pts D ?t = pts D s + {#f#}" using nt(3) by (simp add: aggregates_cong[of ?s s])
        show "m_pg ?t g = m_pg s g" if "g \<notin># pts D ?t" for g
          using that nt(3) dir_in_pts[OF fin d, of ?s] by (auto simp: set_ent_def)
        show "tbl ?t d' i = tbl s d' i" if "d' \<in> D" "i < NPDENTRIES" "tbl s d' i \<noteq> None" for d' i
          using nt(1)[OF _ that(1,2)] that(3) None by (auto simp: views_cong[of ?s s])
      qed (simp_all add: set_ent_def)
      have "walkpgdir (page_addr d) va True s = Inr (Some (f, PTX va), ?t)"
        using b f(3) page_addr_props(1,3)[OF fl] by (simp add: walkpgdir_def fr Let_def)
      moreover have "\<forall>d' \<in> D. \<forall>q < 2 ^ 20. pte_at ?t d' q = pte_at s d' q" using nt(2) by (auto simp: views_cong[of ?s s])
      moreover have "urefs D ?t = urefs D s" using nt(4) by (simp add: aggregates_cong[of ?s s])
      moreover have "tbl ?t d (PDX va) = Some f" using nt(1)[OF _ d ix] by simp
      ultimately show thesis by (rule some[OF _ g]) (use None in simp)
    qed
  qed
qed

section \<open>Mapping a page\<close>

lemma user_page: "va < KERNBASE \<longleftrightarrow> pgno va < UPAGES"
proof -
  have "va < KERNBASE \<longleftrightarrow> unat va < 524288 * PGSIZE" by (simp add: word_less_nat_alt KERNBASE_def)
  also have "\<dots> \<longleftrightarrow> pgno va < UPAGES" unfolding pgno_def UPAGES_def by (rule div_less_iff_less_mult[symmetric]) simp
  finally show ?thesis .
qed

lemma set_la_ok:
  assumes "f < NPDATAMAP"
  shows "set_la (of_nat (f * PGSIZE)) la s = Inr (s\<lparr>m_la := (m_la s)(f := la)\<rparr>)"
proof -
  have "unat (of_nat (f * PGSIZE) :: u32) = f * PGSIZE" by (rule unat_page_pa[OF assms])
  then have "\<not> PHYSTOP < of_nat (f * PGSIZE)" and "unat (of_nat (f * PGSIZE) :: u32) div PGSIZE = f"
    using assms by (simp_all add: word_less_nat_alt PHYSTOP_def NPDATAMAP_def del: of_nat_mult)
  then show ?thesis using assms by (simp add: set_la_def del: of_nat_mult)
qed

text \<open>An entry may be replaced when it is empty, not present, or marked copy-on-write or swapped.\<close>

definition replaceable :: "u32 \<Rightarrow> bool" where
  "replaceable e \<longleftrightarrow> \<not> (bit e 0 \<and> \<not> bit e 9 \<and> \<not> bit e 10)"

lemma grown_fresh:
  assumes "grown M D s R s' T" and "f \<in># R" and "f \<notin># pts D s"
  shows "f \<notin># pts D s'"
proof
  assume a: "f \<in># pts D s'"
  then have "f \<in># T" using assms by (auto simp: grown_def)
  then have "0 < count T f" "0 < count R f" using assms(2) by auto
  moreover have "tables_ok M D s' (R + T)" using assms(1) by (simp add: grown_def)
  then have "count (R + T) f = 1" by (rule tables_okD(4)[OF _ a])
  ultimately show False unfolding count_union by linarith
qed

lemma map_step:
  assumes ok: "tables_ok M D s R" and d: "d \<in> D" and rep: "replaceable (pte_at s d (pgno a))"
    and user: "a < KERNBASE \<Longrightarrow> pa = of_nat (f * PGSIZE) \<and> f \<in># R \<and> f \<notin># pts D s \<and> small perm"
  obtains (none) "walkpgdir (page_addr d) a True s = Inr (None, s)" "M \<subseteq> set_mset R" "tbl s d (PDX a) = None"
  | (some) pte s1 s' T where "walkpgdir (page_addr d) a True s = Inr (Some pte, s1)" "mappage a pte pa perm s1 = Inr s'" "grown M D s R s' T"
      "\<forall>d' \<in> D. \<forall>q < 2 ^ 20. pte_at s' d' q = (if d' = d \<and> q = pgno a then pa OR perm OR PTE_P else pte_at s d' q)"
      "urefs D s' + (if a < KERNBASE then um (pte_at s d (pgno a)) else {#}) = urefs D s + (if a < KERNBASE then {#f#} else {#})"
      "tbl s d (PDX a) \<noteq> None \<Longrightarrow> T = {#}" "pte = (the (tbl s' d (PDX a)), PTX a)" "tbl s' d (PDX a) \<noteq> None"
proof (rule walk_alloc[OF ok d, of a])
  assume "walkpgdir (page_addr d) a True s = Inr (None, s)" "M \<subseteq> set_mset R" "tbl s d (PDX a) = None"
  then show thesis by (rule none)
next
  fix t s1 T
  assume w: "walkpgdir (page_addr d) a True s = Inr (Some (t, PTX a), s1)" "grown M D s R s1 T"
    "\<forall>d' \<in> D. \<forall>q < 2 ^ 20. pte_at s1 d' q = pte_at s d' q" "urefs D s1 = urefs D s" "tbl s1 d (PDX a) = Some t"
    "tbl s d (PDX a) \<noteq> None \<Longrightarrow> T = {#}"
  let ?p = "pgno a" and ?w = "pa OR perm OR PTE_P"
  have ok1: "tables_ok M D s1 (R + T)" using w(2) by (simp add: grown_def)
  have p: "?p < 2 ^ 20" by (rule pgno_bounds(1))
  have t: "tbl s1 d (?p div 1024) = Some t" using w(5) by (simp add: PDX_pgno)
  have b: "bit ?w 0" by (simp add: bit_simps)
  have fl: "f < NPDATAMAP" if "a < KERNBASE" using user[OF that] tables_okD(8)[OF ok] by blast
  have pw: "pf ?w = f" if "a < KERNBASE"
    using user[OF that] pf_make[of f "perm OR PTE_P"] fl[OF that] by (simp add: NPDATAMAP_def del: of_nat_mult)
  have wok: "bit ?w 0 \<and> ?p < UPAGES \<longrightarrow> pf ?w \<notin># pts D s1 \<and> pf ?w \<in># R + T"
    using user pw grown_fresh[OF w(2), of f] by (simp add: user_page)
  let ?s' = "set_ent t (?p mod 1024) ?w s1"
  note ew = entry_write[where w = ?w, OF ok1 d p t wok]
  have old: "rd_pte (t, ?p mod 1024) s1 = pte_at s d ?p"
  proof -
    have "rd_pte (t, ?p mod 1024) s1 = pte_at s1 d ?p" using t by (simp add: rd_pte_def pte_at_def)
    then show ?thesis using w(3) d p by simp
  qed
  let ?s2 = "if a < KERNBASE then ?s'\<lparr>m_la := (m_la ?s')(f := a)\<rparr> else ?s'"
  have pg: "m_pg ?s2 = m_pg ?s'" by simp
  have mp: "mappage a (t, PTX a) pa perm s1 = Inr ?s2"
    using rep user fl by (auto simp: mappage_def old replaceable_def Let_def wr_pte_def PTX_pgno set_la_ok simp del: of_nat_mult)
  have po: "pool_ok M ?s2 (R + T)" using tables_okD(2)[OF ew(3)] by (simp add: pool_ok_def managed_def)
  then have ok2: "tables_ok M D ?s2 (R + T)" using ew(3) by (simp add: tables_ok_def aggregates_cong[OF pg])
  have "m_pg ?s2 g = m_pg s g" if g: "g \<notin># pts D ?s2" for g
  proof -
    have "g \<notin># pts D s1" using g ew(4) aggregates_cong[OF pg, of D] by simp
    moreover have "t \<in># pts D s1" by (rule tbl_in_pts[OF tables_okD(1)[OF ok] d page_bounds(2)[OF p] t])
    ultimately show ?thesis using w(2) by (auto simp: grown_def set_ent_def)
  qed
  moreover have "tbl ?s2 d' i = tbl s d' i" if "d' \<in> D" "i < NPDENTRIES" "tbl s d' i \<noteq> None" for d' i
    using w(2) that ew(1)[OF that(1,2)] by (simp add: grown_def views_cong[OF pg])
  ultimately have gr: "grown M D s R ?s2 T"
    using w(2) ok2 ew(4) by (auto simp: grown_def aggregates_cong[OF pg] set_ent_def)
  have pt: "\<forall>d' \<in> D. \<forall>q < 2 ^ 20. pte_at ?s2 d' q = (if d' = d \<and> q = ?p then ?w else pte_at s d' q)"
    using ew(2) w(3) by (auto simp: views_cong[OF pg])
  have ur: "urefs D ?s2 + (if a < KERNBASE then um (pte_at s d ?p) else {#}) = urefs D s + (if a < KERNBASE then {#f#} else {#})"
  proof -
    have o: "pte_at s1 d ?p = pte_at s d ?p" using w(3) d p by simp
    have "um ?w = {#f#}" if "a < KERNBASE" using pw[OF that] b by (simp add: um_def)
    then show ?thesis using ew(5) unfolding aggregates_cong(2)[OF pg] user_page[symmetric] o w(4) by (cases "a < KERNBASE") simp_all
  qed
  have tb: "tbl ?s2 d (PDX a) = Some t"
    using ew(1)[OF d page_bounds(2)[OF p]] t by (simp add: PDX_pgno views_cong[OF pg])
  show thesis by (rule some[OF w(1) mp gr pt ur w(6)]) (use tb in simp_all)
qed

definition aligned :: "u32 \<Rightarrow> bool" where
  "aligned va \<longleftrightarrow> unat va mod PGSIZE = 0"

lemma aligned_round: "aligned va \<Longrightarrow> PGROUNDDOWN va = va"
proof -
  assume "aligned va"
  then have "unat (PGROUNDDOWN va) = unat va" unfolding PGROUNDDOWN_def unat_round aligned_def by (simp add: mod_eq_0_iff_dvd)
  then show ?thesis by (simp add: word_eq_unat_iff)
qed

lemma one_page:
  assumes "aligned va"
  shows "mappages pgdir va 0x1000 pa perm s = mappages_loop pgdir 0 va pa perm s"
proof -
  obtain k where k: "unat va = k * PGSIZE" using assms by (metis aligned_def mod_eq_0_iff_dvd dvd_def mult.commute)
  then have "k < 2 ^ 20" using unat_u32_lt[of va] by simp
  then have "unat (va + 0xFFF) = k * PGSIZE + 4095" using k by (simp add: unat_add_mod)
  then have "unat (PGROUNDDOWN (va + 0xFFF)) = unat va"
    unfolding PGROUNDDOWN_def unat_round k by simp
  then have "PGROUNDDOWN (va + 0x1000 - 1) = va" by (simp add: word_eq_unat_iff add.commute)
  then show ?thesis by (simp add: mappages_def aligned_round[OF assms])
qed

text \<open>Mapping one user page.\<close>

lemma map_page:
  assumes ok: "tables_ok M D s R" and d: "d \<in> D" and va: "aligned va" "va < KERNBASE" and rep: "replaceable (pte_at s d (pgno va))"
    and f: "f \<in># R" "f \<notin># pts D s" and perm: "small perm"
  obtains (none) "mappages (page_addr d) va 0x1000 (of_nat (f * PGSIZE)) perm s = Inr (- 1, s)" "M \<subseteq> set_mset R" "tbl s d (PDX va) = None"
  | (some) s' T where "mappages (page_addr d) va 0x1000 (of_nat (f * PGSIZE)) perm s = Inr (0, s')" "grown M D s R s' T"
      "\<forall>d' \<in> D. \<forall>q < 2 ^ 20. pte_at s' d' q = (if d' = d \<and> q = pgno va then of_nat (f * PGSIZE) OR perm OR PTE_P else pte_at s d' q)"
      "urefs D s' + um (pte_at s d (pgno va)) = add_mset f (urefs D s)" "tbl s d (PDX va) \<noteq> None \<Longrightarrow> T = {#}"
proof (rule map_step[OF ok d rep, of "of_nat (f * PGSIZE)" f perm])
  assume "walkpgdir (page_addr d) va True s = Inr (None, s)" "M \<subseteq> set_mset R" "tbl s d (PDX va) = None"
  then show thesis by (intro none) (simp_all add: one_page[OF va(1)] mappages_loop.simps)
next
  fix pte s1 s' T
  assume a: "walkpgdir (page_addr d) va True s = Inr (Some pte, s1)" "mappage va pte (of_nat (f * PGSIZE)) perm s1 = Inr s'" "grown M D s R s' T"
    "\<forall>d' \<in> D. \<forall>q < 2 ^ 20. pte_at s' d' q = (if d' = d \<and> q = pgno va then of_nat (f * PGSIZE) OR perm OR PTE_P else pte_at s d' q)"
    "urefs D s' + (if va < KERNBASE then um (pte_at s d (pgno va)) else {#}) = urefs D s + (if va < KERNBASE then {#f#} else {#})"
    "tbl s d (PDX va) \<noteq> None \<Longrightarrow> T = {#}"
  have "mappages (page_addr d) va 0x1000 (of_nat (f * PGSIZE)) perm s = Inr (0, s')"
    using a(1,2) by (simp add: one_page[OF va(1)] mappages_loop.simps del: of_nat_mult)
  then show thesis by (rule some[OF _ a(3,4) _ a(6)]) (use a(5) va(2) in simp)
qed (use f perm in simp_all)

section \<open>The invariant of all address spaces\<close>

text \<open>
  \<open>Q\<close> are the references to pages that are held outside page tables: kernel stacks, pipe buffers, and
  pages that an operation has allocated and not mapped yet.
\<close>

definition vm_ok :: "nat set \<Rightarrow> nat set \<Rightarrow> nat multiset \<Rightarrow> 'a mach_scheme \<Rightarrow> bool" where
  "vm_ok M D Q s \<longleftrightarrow> tables_ok M D s (pts D s + urefs D s + Q)"

lemma vm_okD: "vm_ok M D Q s \<Longrightarrow> tables_ok M D s (pts D s + urefs D s + Q)"
  by (simp add: vm_ok_def)

lemma mapped_frame:
  assumes "vm_ok M D Q s" and "d \<in> D" and "p < UPAGES" and "bit (pte_at s d p) 0"
  shows "pf (pte_at s d p) \<in># urefs D s" and "pf (pte_at s d p) \<notin># pts D s" and "pf (pte_at s d p) < NPDATAMAP"
proof -
  have fin: "finite D" using assms(1) by (simp add: vm_ok_def tables_ok_def)
  have "pf (pte_at s d p) \<in># um (pte_at s d p)" using assms(4) by (simp add: um_def)
  then have "pf (pte_at s d p) \<in># (\<Sum>p<UPAGES. um (pte_at s d p))" unfolding in_sum[OF finite_lessThan] using assms(3) by blast
  then show u: "pf (pte_at s d p) \<in># urefs D s" unfolding urefs_def in_sum[OF fin] using assms(2) by blast
  then show "pf (pte_at s d p) \<notin># pts D s" "pf (pte_at s d p) < NPDATAMAP"
    using tables_okD(5,8)[OF vm_okD[OF assms(1)]] by auto
qed

section \<open>Copy on write\<close>

lemma dec_ref_ok:
  assumes ok: "pool_ok M s R" and f: "1 < count R f"
  shows "pool_ok M (s\<lparr>m_ref := (m_ref s)(f := m_ref s f - 1)\<rparr>) (R - {#f#})"
proof -
  have "f \<in># R" using f by (metis not_less_zero count_eq_zero_iff)
  then have "set_mset (R - {#f#}) = set_mset R"
    using f by (intro set_eqI) (simp add: in_diff_count, auto)
  moreover have "count (R - {#f#}) g = (if g = f then count R f - 1 else count R g)" for g by simp
  ultimately show ?thesis using ok f unfolding pool_ok_def by (auto simp: managed_def)
qed

lemma pte_pointer:
  assumes "bit (pte_at s d (pgno va)) 0"
  obtains t where "tbl s d (PDX va) = Some t" and "rd_pte (t, PTX va) s = pte_at s d (pgno va)"
  using assms by (auto simp: pte_at_def rd_pte_def PDX_pgno PTX_pgno split: option.splits)

lemma user_bound: "va < KERNBASE \<Longrightarrow> pgno va < UPAGES"
  by (simp add: user_page)

text \<open>The last reference: the page becomes writable in place.\<close>

lemma cow_last:
  assumes ok: "vm_ok M D Q s" and d: "d \<in> D" and va: "va < KERNBASE" and e: "bit (pte_at s d (pgno va)) 0" and t: "tbl s d (PDX va) = Some t"
  defines "w \<equiv> (pte_at s d (pgno va) AND NOT PTE_C) OR PTE_W"
  shows "pf w = pf (pte_at s d (pgno va))" and "vm_ok M D Q (set_ent t (PTX va) w s)"
    and "d' \<in> D \<Longrightarrow> q < 2 ^ 20 \<Longrightarrow> pte_at (set_ent t (PTX va) w s) d' q = (if d' = d \<and> q = pgno va then w else pte_at s d' q)"
    and "h \<notin># pts D s \<Longrightarrow> m_pg (set_ent t (PTX va) w s) h = m_pg s h"
    and "pts D (set_ent t (PTX va) w s) = pts D s" and "urefs D (set_ent t (PTX va) w s) = urefs D s"
proof -
  let ?p = "pgno va" and ?e = "pte_at s d (pgno va)"
  have t': "tbl s d (?p div 1024) = Some t" using t by (simp add: PDX_pgno)
  have pb: "?p < 2 ^ 20" by (rule pgno_bounds(1))
  show pw: "pf w = pf ?e" unfolding w_def by (rule pf_eqI) (auto simp: bit_simps)
  have bw: "bit w 0" using e by (auto simp: w_def bit_simps)
  note mf = mapped_frame[OF ok d user_bound[OF va] e]
  have c: "bit w 0 \<and> ?p < UPAGES \<longrightarrow> pf w \<notin># pts D s \<and> pf w \<in># pts D s + urefs D s + Q" using mf pw by simp
  note ew = entry_write[OF vm_okD[OF ok] d pb t' c, folded PTX_pgno]
  show "d' \<in> D \<Longrightarrow> q < 2 ^ 20 \<Longrightarrow> pte_at (set_ent t (PTX va) w s) d' q = (if d' = d \<and> q = ?p then w else pte_at s d' q)"
    by (rule ew(2))
  show pt: "pts D (set_ent t (PTX va) w s) = pts D s" by (rule ew(4))
  have "um w = um ?e" using bw e pw by (simp add: um_def)
  then show ur: "urefs D (set_ent t (PTX va) w s) = urefs D s" using ew(5) user_bound[OF va] by simp
  show "vm_ok M D Q (set_ent t (PTX va) w s)" using ew(3) by (simp add: vm_ok_def pt ur)
  have "t \<in># pts D s" using tbl_in_pts[OF tables_okD(1)[OF vm_okD[OF ok]] d page_bounds(2)[OF pb] t'] .
  then show "h \<notin># pts D s \<Longrightarrow> m_pg (set_ent t (PTX va) w s) h = m_pg s h" by (auto simp: set_ent_def)
qed

text \<open>A page taken from the allocator and filled with the bytes \<open>c\<close>.\<close>

definition filled :: "nat set \<Rightarrow> nat set \<Rightarrow> 'a mach_scheme \<Rightarrow> nat multiset \<Rightarrow> nat \<Rightarrow> u8 list \<Rightarrow> 'a mach_scheme \<Rightarrow> bool" where
  "filled M D s R g c s' \<longleftrightarrow> tables_ok M D s' (add_mset g R) \<and> pts D s' = pts D s \<and> urefs D s' = urefs D s \<and>
     (\<forall>d \<in> D. \<forall>i < NPDENTRIES. tbl s' d i = tbl s d i) \<and> (\<forall>d \<in> D. \<forall>q < 2 ^ 20. pte_at s' d q = pte_at s d q) \<and>
     m_pg s' g = c \<and> (\<forall>h. h \<noteq> g \<longrightarrow> m_pg s' h = m_pg s h) \<and> m_end s' = m_end s \<and> m_data s' = m_data s \<and> mach.more s' = mach.more s"

lemma filledD:
  assumes "filled M D s R g c s'"
  shows "tables_ok M D s' (add_mset g R)" "pts D s' = pts D s" "urefs D s' = urefs D s" "d \<in> D \<Longrightarrow> i < NPDENTRIES \<Longrightarrow> tbl s' d i = tbl s d i"
    "d \<in> D \<Longrightarrow> q < 2 ^ 20 \<Longrightarrow> pte_at s' d q = pte_at s d q" "m_pg s' g = c" "h \<noteq> g \<Longrightarrow> m_pg s' h = m_pg s h"
  using assms unfolding filled_def by blast+

lemma alloc_page:
  assumes ok: "tables_ok M D s R"
  obtains (none) "M \<subseteq> set_mset R" "kalloc s = Inr (0, s)"
  | (some) g s1 where "g \<in> M" "g \<notin># R" "g < NPDATAMAP" "kalloc s = Inr (page_addr g, s1)" "m_pg s1 = m_pg s"
      "\<And>c. length c = PGSIZE \<Longrightarrow> filled M D s R g c (upd_pg g (\<lambda>_. c) s1)"
proof (cases "M \<subseteq> set_mset R")
  case True
  then show thesis using kalloc_ok[OF tables_okD(2)[OF ok]] by (intro none) simp_all
next
  case False
  then obtain g p where g: "g \<in> M" "g \<notin># R" "kalloc s = Inr (page_addr g, s\<lparr>m_freelist := p, m_ref := (m_ref s)(g := 1)\<rparr>)"
    "pool_ok M (s\<lparr>m_freelist := p, m_ref := (m_ref s)(g := 1)\<rparr>) (add_mset g R)"
    using kalloc_ok[OF tables_okD(2)[OF ok]] by auto
  let ?s1 = "s\<lparr>m_freelist := p, m_ref := (m_ref s)(g := 1)\<rparr>"
  have same: "m_pg ?s1 = m_pg s" by simp
  have ok1: "tables_ok M D ?s1 (add_mset g R)" by (rule tables_ok_alloc[OF ok same g(4,2)])
  have gR: "g \<in># add_mset g R" by simp
  have gp: "g \<notin># pts D ?s1" using g(2) tables_okD(6)[OF ok] by (auto simp: aggregates_cong[OF same])
  have "filled M D s R g c (upd_pg g (\<lambda>_. c) ?s1)" if c: "length c = PGSIZE" for c
  proof -
    let ?s2 = "upd_pg g (\<lambda>_. c) ?s1"
    note pw = page_write[where g = "\<lambda>_. c", OF ok1 gR gp c]
    have T: "tbl ?s2 d i = tbl s d i" if "d \<in> D" "i < NPDENTRIES" for d i using pw(1)[OF that] by (simp only: views_cong[OF same])
    have P: "pte_at ?s2 d q = pte_at s d q" if "d \<in> D" "q < 2 ^ 20" for d q using pw(2)[OF that] by (simp only: views_cong[OF same])
    show ?thesis unfolding filled_def
    proof (intro conjI ballI allI impI)
      show "pts D ?s2 = pts D s" by (rule pts_cong[OF T])
      show "urefs D ?s2 = urefs D s" by (rule urefs_cong) (rule P, assumption, rule page_bounds(1))
    qed (simp_all add: pw(3) T P)
  qed
  then show thesis using g pool_okD(2)[OF g(4,1)] same by (intro some)
qed

text \<open>A shared page: it is copied, and the entry moved to the copy.\<close>

lemma cow_entry:
  assumes "g < NPDATAMAP" defines "w \<equiv> of_nat (g * PGSIZE) OR (PTE_W OR PTE_U) OR PTE_P"
  shows "w AND NOT PTE_C = w" and "um w = {#g#}" and "pf w = g" and "bit w 0" "bit w 1" "bit w 2" "\<not> bit w 9"
proof -
  show "w AND NOT PTE_C = w" unfolding w_def by (rule bit_word_eqI) (auto simp: bit_and_iff bit_or_iff bit_not_iff page_pa_bits simp del: of_nat_mult)
  show p: "pf w = g" unfolding w_def by (rule pf_make) (use assms(1) in \<open>simp_all add: NPDATAMAP_def\<close>)
  show b: "bit w 0" "bit w 1" "bit w 2" "\<not> bit w 9" unfolding w_def by (simp_all add: bit_or_iff page_pa_bits del: of_nat_mult)
  show "um w = {#g#}" using p b by (simp add: um_def)
qed

lemma drop_ref:
  assumes ok: "tables_ok M D s R" and R: "R = add_mset f (pts D s + urefs D s + Q)" and f: "f \<notin># pts D s" "1 < count R f"
  shows "\<exists>s'. dec_ref_pa (V2P (page_addr f)) s = Inr (m_ref s f - 1, s') \<and> vm_ok M D Q s' \<and> m_pg s' = m_pg s"
proof -
  let ?s = "s\<lparr>m_ref := (m_ref s)(f := m_ref s f - 1)\<rparr>"
  have fR: "f \<in># R" "m_ref s f = int (count R f)" using R pool_okD(5)[OF tables_okD(2)[OF ok]] by auto
  have same: "m_pg ?s = m_pg s" by simp
  have "pool_ok M ?s (R - {#f#})" by (rule dec_ref_ok[OF tables_okD(2)[OF ok] f(2)])
  then have po: "pool_ok M ?s (pts D s + urefs D s + Q)" by (simp add: R)
  have "count (pts D s + urefs D s + Q) h = 1" if "h \<in># pts D s" for h
    using tables_okD(4)[OF ok that] f(1) that by (auto simp: R split: if_splits)
  then have "vm_ok M D Q ?s"
    using po ok unfolding vm_ok_def tables_ok_def aggregates_cong[OF same] by auto
  moreover have "dec_ref_pa (V2P (page_addr f)) s = Inr (m_ref s f - 1, ?s)"
    using ref_ops(3)[OF tables_okD(8)[OF ok fR(1)], of s] f(2) fR(2) by simp
  ultimately show ?thesis using same by blast
qed

text \<open>The new entry is written and the old page released.\<close>

lemma cow_finish:
  assumes ok: "vm_ok M D Q s" and d: "d \<in> D" and va: "va < KERNBASE" and e: "bit (pte_at s d (pgno va)) 0"
    and t: "tbl s d (PDX va) = Some t" and sh: "1 < count (pts D s + urefs D s + Q) (pf (pte_at s d (pgno va)))"
    and g: "g \<notin># pts D s + urefs D s + Q" "g < NPDATAMAP"
    and s2: "filled M D s (pts D s + urefs D s + Q) g c s2" and s3: "grown M D s2 (add_mset g (pts D s + urefs D s + Q)) s3 {#}"
      "\<forall>d' \<in> D. \<forall>q < 2 ^ 20. pte_at s3 d' q = (if d' = d \<and> q = pgno va then of_nat (g * PGSIZE) OR (PTE_W OR PTE_U) OR PTE_P else pte_at s2 d' q)"
      "urefs D s3 + um (pte_at s2 d (pgno va)) = add_mset g (urefs D s2)"
  shows "\<exists>s'. dec_ref_pa (V2P (page_addr (pf (pte_at s d (pgno va))))) (wr_pte (t, PTX va) (rd_pte (t, PTX va) s3 AND NOT PTE_C) s3)
      = Inr (m_ref s3 (pf (pte_at s d (pgno va))) - 1, s') \<and> vm_ok M D Q s' \<and>
      pts D s' = pts D s \<and> urefs D s' + {#pf (pte_at s d (pgno va))#} = add_mset g (urefs D s) \<and>
      (\<forall>d' \<in> D. \<forall>q < 2 ^ 20. pte_at s' d' q = (if d' = d \<and> q = pgno va then of_nat (g * PGSIZE) OR (PTE_W OR PTE_U) OR PTE_P else pte_at s d' q)) \<and>
      m_pg s' g = c \<and> (\<forall>h. h \<notin># pts D s \<and> h \<noteq> g \<longrightarrow> m_pg s' h = m_pg s h)"
proof -
  let ?p = "pgno va" and ?f = "pf (pte_at s d (pgno va))" and ?R = "pts D s + urefs D s + Q"
  let ?w = "of_nat (g * PGSIZE) OR (PTE_W OR PTE_U) OR PTE_P"
  note fl = filledD[OF s2] and ce = cow_entry[OF g(2)] and mf = mapped_frame[OF ok d user_bound[OF va] e]
  have pb: "?p < 2 ^ 20" "PDX va < NPDENTRIES" using pgno_bounds[of va] by (simp_all add: NPDENTRIES_def)
  have ok3: "tables_ok M D s3 (add_mset g ?R)" and pt3: "pts D s3 = pts D s" using s3(1) fl(2) by (simp_all add: grown_def)
  have t3: "tbl s3 d (?p div 1024) = Some t"
    using s3(1) fl(4)[OF d pb(2)] t d pb(2) unfolding grown_def PDX_pgno[symmetric] by auto
  have old3: "pte_at s3 d ?p = ?w" using s3(2) d pb(1) by simp
  then have rd3: "rd_pte (t, PTX va) s3 = ?w" using t3 by (simp add: rd_pte_def pte_at_def PTX_pgno del: of_nat_mult)
  have g3: "g \<notin># pts D s3" using g(1) pt3 by simp
  have c: "bit ?w 0 \<and> ?p < UPAGES \<longrightarrow> pf ?w \<notin># pts D s3 \<and> pf ?w \<in># add_mset g ?R" using g3 ce(3) by simp
  note ew = entry_write[OF ok3 d pb(1) t3 c, folded PTX_pgno]
  let ?s4 = "set_ent t (PTX va) ?w s3"
  have ur4: "add_mset ?f (urefs D ?s4) = add_mset g (urefs D s)"
    using ew(5) user_bound[OF va] old3 s3(3) fl(3) fl(5)[OF d pb(1)] e by (simp add: um_def)
  have R4: "add_mset g ?R = add_mset ?f (pts D ?s4 + urefs D ?s4 + Q)"
  proof -
    have "add_mset g ?R = pts D s + add_mset g (urefs D s) + Q" by simp
    also have "\<dots> = pts D ?s4 + add_mset ?f (urefs D ?s4) + Q" by (simp only: ur4 ew(4) pt3)
    finally show ?thesis by simp
  qed
  have f4: "?f \<notin># pts D ?s4" using mf(2) by (simp only: ew(4) pt3 not_False_eq_True)
  have f5: "1 < count (add_mset g ?R) ?f" using sh unfolding count_add_mset by presburger
  obtain s' where s': "dec_ref_pa (V2P (page_addr ?f)) ?s4 = Inr (m_ref ?s4 ?f - 1, s')" "vm_ok M D Q s'" "m_pg s' = m_pg ?s4"
    using drop_ref[OF ew(3) R4 f4 f5] by blast
  have t_in: "t \<in># pts D s" using tbl_in_pts[OF tables_okD(1)[OF ok3] d page_bounds(2)[OF pb(1)] t3] pt3 by simp
  have pg3: "m_pg s3 h = m_pg s2 h" if "h \<notin># pts D s" for h using s3(1) pt3 that by (simp add: grown_def)
  have "m_pg s' h = m_pg s3 h" if "h \<notin># pts D s" for h using that t_in s'(3) by (auto simp: set_ent_def)
  then have pg: "m_pg s' h = m_pg s2 h" if "h \<notin># pts D s" for h using that pg3 by simp
  have "\<forall>d' \<in> D. \<forall>q < 2 ^ 20. pte_at s' d' q = (if d' = d \<and> q = ?p then ?w else pte_at s d' q)"
    using ew(2) s3(2) fl(5) by (auto simp: views_cong[OF s'(3)])
  moreover have "m_pg s' g = c" using pg[of g] g(1) fl(6) by simp
  moreover have "\<forall>h. h \<notin># pts D s \<and> h \<noteq> g \<longrightarrow> m_pg s' h = m_pg s h" using pg fl(7) by auto
  moreover have "pts D s' = pts D s" "urefs D s' + {#?f#} = add_mset g (urefs D s)"
    using ew(4) pt3 ur4 by (simp_all add: aggregates_cong[OF s'(3)])
  moreover have "wr_pte (t, PTX va) (rd_pte (t, PTX va) s3 AND NOT PTE_C) s3 = ?s4" by (simp only: rd3 ce(1) wr_pte_def fst_conv snd_conv)
  moreover have "m_ref ?s4 = m_ref s3" by (simp add: set_ent_def)
  ultimately show ?thesis using s'(1,2) by (intro exI[of _ s']) simp
qed

lemma cow_shared:
  assumes ok: "vm_ok M D Q s" and d: "d \<in> D" and va: "aligned va" "va < KERNBASE" and e: "bit (pte_at s d (pgno va)) 0" "bit (pte_at s d (pgno va)) 9"
    and t: "tbl s d (PDX va) = Some t" and sh: "count (pts D s + urefs D s + Q) (pf (pte_at s d (pgno va))) \<noteq> 1"
  shows "(if M \<subseteq> set_mset (pts D s + urefs D s + Q) then copy_on_write va (t, PTX va) (page_addr d) s = Inr (- 1, s)
    else \<exists>g s'. g \<notin># pts D s + urefs D s + Q \<and> g < NPDATAMAP \<and> copy_on_write va (t, PTX va) (page_addr d) s = Inr (0, s') \<and> vm_ok M D Q s' \<and>
      pts D s' = pts D s \<and> urefs D s' + {#pf (pte_at s d (pgno va))#} = add_mset g (urefs D s) \<and>
      (\<forall>d' \<in> D. \<forall>q < 2 ^ 20. pte_at s' d' q = (if d' = d \<and> q = pgno va then of_nat (g * PGSIZE) OR (PTE_W OR PTE_U) OR PTE_P else pte_at s d' q)) \<and>
      m_pg s' g = m_pg s (pf (pte_at s d (pgno va))) \<and> (\<forall>h. h \<notin># pts D s \<and> h \<noteq> g \<longrightarrow> m_pg s' h = m_pg s h))"
proof -
  let ?p = "pgno va" and ?e = "pte_at s d (pgno va)" and ?f = "pf (pte_at s d (pgno va))" and ?R = "pts D s + urefs D s + Q"
  note tok = vm_okD[OF ok] and mf = mapped_frame[OF ok d user_bound[OF va(2)] e(1)]
  note po = tables_okD(2)[OF tok]
  have rd: "rd_pte (t, PTX va) s = ?e" using t by (simp add: pte_at_def rd_pte_def PDX_pgno PTX_pgno)
  have pa: "PTE_ADDR ?e = V2P (page_addr ?f)" by (simp only: PTE_ADDR_pf V2P_page_addr)
  have "0 < count (urefs D s) ?f" using mf(1) by simp
  then have cnt: "1 < count ?R ?f" using sh unfolding count_union by linarith
  have rc: "m_ref s ?f \<noteq> 1" using pool_okD(5)[OF po, of ?f] sh by (metis of_nat_eq_1_iff)
  note fr = page_addr_props(1)[OF mf(3)] and ro = ref_ops(1)[OF mf(3)]
  show ?thesis
  proof (rule alloc_page[OF tok])
    assume "M \<subseteq> set_mset ?R" "kalloc s = Inr (0, s)"
    then show ?thesis using rc by (simp add: copy_on_write_def rd pa ro Let_def)
  next
    fix g s1
    assume g: "g \<in> M" "g \<notin># ?R" "g < NPDATAMAP" "kalloc s = Inr (page_addr g, s1)" "m_pg s1 = m_pg s"
      "\<And>c. length c = PGSIZE \<Longrightarrow> filled M D s ?R g c (upd_pg g (\<lambda>_. c) s1)"
    let ?s2 = "upd_pg g (\<lambda>_. m_pg s ?f) s1" and ?w = "of_nat (g * PGSIZE) OR (PTE_W OR PTE_U) OR PTE_P"
    note s2 = g(6)[of "m_pg s ?f", OF tables_okD(7)[OF tok]]
    note fl = filledD[OF s2]
    have pb: "?p < 2 ^ 20" "PDX va < NPDENTRIES" using pgno_bounds[of va] by (simp_all add: NPDENTRIES_def)
    have rep: "replaceable (pte_at ?s2 d ?p)" using fl(5)[OF d pb(1)] e(2) by (simp add: replaceable_def)
    have g2: "g \<in># add_mset g ?R" "g \<notin># pts D ?s2" using g(2) fl(2) by auto
    obtain s3 where s3: "mappages (page_addr d) va 0x1000 (of_nat (g * PGSIZE)) (PTE_W OR PTE_U) ?s2 = Inr (0, s3)" "grown M D ?s2 (add_mset g ?R) s3 {#}"
      "\<forall>d' \<in> D. \<forall>q < 2 ^ 20. pte_at s3 d' q = (if d' = d \<and> q = ?p then ?w else pte_at ?s2 d' q)"
      "urefs D s3 + um (pte_at ?s2 d ?p) = add_mset g (urefs D ?s2)"
      by (rule map_page[where perm = "PTE_W OR PTE_U", OF fl(1) d va rep g2]) (use fl(4)[OF d pb(2)] t in auto)
    from cow_finish[OF ok d va(2) e(1) t cnt g(2,3) s2 s3(2,3,4)] obtain s' where s':
      "dec_ref_pa (V2P (page_addr ?f)) (wr_pte (t, PTX va) (rd_pte (t, PTX va) s3 AND NOT PTE_C) s3) = Inr (m_ref s3 ?f - 1, s')" "vm_ok M D Q s'"
      "pts D s' = pts D s" "urefs D s' + {#?f#} = add_mset g (urefs D s)"
      "\<forall>d' \<in> D. \<forall>q < 2 ^ 20. pte_at s' d' q = (if d' = d \<and> q = ?p then ?w else pte_at s d' q)"
      "m_pg s' g = m_pg s ?f" "\<forall>h. h \<notin># pts D s \<and> h \<noteq> g \<longrightarrow> m_pg s' h = m_pg s h" by blast
    have "copy_on_write va (t, PTX va) (page_addr d) s = Inr (0, s')"
      using rc g(4,5) page_addr_props(1,3)[OF g(3)] s3(1) s'(1)
      by (simp add: copy_on_write_def rd pa ro fr V2P_page_addr[symmetric] del: of_nat_mult)
    moreover have "\<not> M \<subseteq> set_mset ?R" using g(1,2) by blast
    ultimately show ?thesis using g(2,3) s'(2-) by auto
  qed
qed

end
