(* ===== verification/Pgfault.thy ===== *)
theory Pgfault
  imports AddrSpace
begin

text \<open>
  What the page fault handler (\<open>handle_pagefault\<close> of \<^verbatim>\<open>vm.c\<close>) does for a process: a write to a page that
  is shared copy-on-write gives the process a private copy and leaves every other address space as it
  is; a fault on a page that was never touched maps a page of zeros; and a fault on a page that is
  present without being copy-on-write, such as the guard page below the stack, panics.
\<close>

section \<open>Looking up an entry\<close>

lemma walk_present:
  assumes ok: "tables_ok M D s R" and d: "d \<in> D" and t: "tbl s d (PDX va) = Some t"
  shows "walkpgdir (page_addr d) va al s = Inr (Some (t, PTX va), s)" and "rd_pte (t, PTX va) s = pte_at s d (pgno va)"
proof -
  note fin = tables_okD(1)[OF ok]
  have ix: "PDX va < NPDENTRIES" using pgno_bounds(2)[of va] by (simp add: NPDENTRIES_def)
  have "d < NPDATAMAP" "t < NPDATAMAP" using tables_okD(6,8)[OF ok] dir_in_pts[OF fin d] tbl_in_pts[OF fin d ix t] by blast+
  moreover have "bit (ent s d (PDX va)) 0" "pf (ent s d (PDX va)) = t" using t by (auto simp: tbl_def split: if_splits)
  ultimately show "walkpgdir (page_addr d) va al s = Inr (Some (t, PTX va), s)"
    by (simp add: walkpgdir_def page_addr_props(1) PTE_ADDR_pf P2V_page_addr del: of_nat_mult)
  show "rd_pte (t, PTX va) s = pte_at s d (pgno va)" using t by (simp add: rd_pte_def pte_at_def PDX_pgno PTX_pgno)
qed

lemma walk_absent:
  assumes ok: "tables_ok M D s R" and d: "d \<in> D" and t: "tbl s d (PDX va) = None"
  shows "walkpgdir (page_addr d) va False s = Inr (None, s)"
proof -
  have "d < NPDATAMAP" using tables_okD(6,8)[OF ok] dir_in_pts[OF tables_okD(1)[OF ok] d] by blast
  then show ?thesis using t by (auto simp: walkpgdir_def page_addr_props(1) tbl_def split: if_splits)
qed

lemma put32_put32: "put32 (put32 p i a) i b = put32 p i b"
  by (intro nth_equalityI) (simp_all add: put32_def nth_upd)

lemma set_ent_twice: "set_ent t j b (set_ent t j a s) = set_ent t j b s"
  by (simp add: set_ent_def upd_pg_def put32_put32)

section \<open>Write to a copy-on-write page\<close>

text \<open>
  The page at number \<open>p\<close> of space \<open>d\<close> has become private: one reference, writable, not marked, with the
  bytes it had; every other page of every address space is mapped as before and has the bytes it had.
\<close>

definition made_private :: "nat set \<Rightarrow> nat multiset \<Rightarrow> nat \<Rightarrow> nat \<Rightarrow> 'a mach_scheme \<Rightarrow> 'a mach_scheme \<Rightarrow> bool" where
  "made_private D Q d p s s' \<longleftrightarrow>
     (let e = pte_at s' d p in bit e 0 \<and> bit e 1 \<and> \<not> bit e 9 \<and> count (pts D s' + urefs D s' + Q) (pf e) = 1 \<and> m_pg s' (pf e) = m_pg s (pf (pte_at s d p))) \<and>
     (\<forall>d' \<in> D. \<forall>q < UPAGES. (d', q) \<noteq> (d, p) \<longrightarrow>
        pte_at s' d' q = pte_at s d' q \<and> (bit (pte_at s d' q) 0 \<longrightarrow> m_pg s' (pf (pte_at s d' q)) = m_pg s (pf (pte_at s d' q))))"

lemma cow_private:
  assumes ok: "vm_ok M D Q s" and d: "d \<in> D" and va: "aligned va" "va < KERNBASE" and e: "bit (pte_at s d (pgno va)) 0" "bit (pte_at s d (pgno va)) 9"
    and t: "tbl s d (PDX va) = Some t"
  shows "\<exists>r s'. copy_on_write va (t, PTX va) (page_addr d) s = Inr (r, s') \<and> vm_ok M D Q s' \<and>
    (if r = 0 then made_private D Q d (pgno va) s s' else r = - 1 \<and> s' = s \<and> M \<subseteq> set_mset (pts D s + urefs D s + Q))"
proof -
  let ?p = "pgno va" and ?e = "pte_at s d (pgno va)" and ?R = "pts D s + urefs D s + Q"
  note tok = vm_okD[OF ok] and up = user_bound[OF va(2)]
  note mf = mapped_frame[OF ok d up e(1)] and rd = walk_present(2)[OF tok d t]
  have bound: "q < 2 ^ 20" if "q < UPAGES" for q by (rule page_bounds(1)[OF that])
  have user: "pf (pte_at s d' q) \<notin># pts D s" if "d' \<in> D" "q < UPAGES" "bit (pte_at s d' q) 0" for d' q
    by (rule mapped_frame(2)[OF ok that])
  show ?thesis
  proof (cases "count ?R (pf ?e) = 1")
    case True
    let ?w = "(?e AND NOT PTE_C) OR PTE_W" and ?s = "set_ent t (PTX va) ((?e AND NOT PTE_C) OR PTE_W) s"
    note cl = cow_last[OF ok d va(2) e(1) t]
    have "m_ref s (pf ?e) = 1" using pool_okD(5)[OF tables_okD(2)[OF tok]] True by simp
    have two: "wr_pte (t, PTX va) (rd_pte (t, PTX va) (wr_pte (t, PTX va) (?e AND NOT PTE_C) s) OR PTE_W) (wr_pte (t, PTX va) (?e AND NOT PTE_C) s) = ?s"
      by (simp add: wr_pte_def rd_pte_def set_ent_twice ent_set_ent tables_okD(7)[OF tok] pgno_bounds(3))
    have c: "copy_on_write va (t, PTX va) (page_addr d) s = Inr (0, ?s)"
      using \<open>m_ref s (pf ?e) = 1\<close> two ref_ops(1)[OF mf(3), of s] by (simp add: copy_on_write_def rd PTE_ADDR_pf V2P_page_addr Let_def del: of_nat_mult)
    have "bit ?w 0" "bit ?w 1" "\<not> bit ?w 9" using e by (auto simp: bit_and_iff bit_or_iff bit_not_iff)
    then have "made_private D Q d ?p s ?s"
      using True cl mf(2) user d bound up unfolding made_private_def Let_def by auto
    then show ?thesis using c cl(2) by auto
  next
    case False
    show ?thesis
    proof (cases "M \<subseteq> set_mset ?R")
      case True
      then show ?thesis using cow_shared[OF ok d va e t False] ok by auto
    next
      case nf: False
      from cow_shared[OF ok d va e t False] nf obtain g s' where
        g: "g \<notin># ?R" "g < NPDATAMAP" "copy_on_write va (t, PTX va) (page_addr d) s = Inr (0, s')" "vm_ok M D Q s'" "pts D s' = pts D s"
        "urefs D s' + {#pf ?e#} = add_mset g (urefs D s)"
        "\<forall>d' \<in> D. \<forall>q < 2 ^ 20. pte_at s' d' q = (if d' = d \<and> q = ?p then of_nat (g * PGSIZE) OR (PTE_W OR PTE_U) OR PTE_P else pte_at s d' q)"
        "m_pg s' g = m_pg s (pf ?e)" "\<forall>h. h \<notin># pts D s \<and> h \<noteq> g \<longrightarrow> m_pg s' h = m_pg s h" by auto
      let ?w = "of_nat (g * PGSIZE) OR (PTE_W OR PTE_U) OR PTE_P :: u32"
      note ce = cow_entry[OF g(2)]
      have w: "pte_at s' d ?p = ?w" using g(7) d bound[OF up] by simp
      have ne: "g \<noteq> pf ?e" using g(1) mf(1) by auto
      have "count (urefs D s' + {#pf ?e#}) g = count (add_mset g (urefs D s)) g" by (simp only: g(6))
      then have one: "count (pts D s' + urefs D s' + Q) g = 1" using g(1,5) ne by (simp add: count_eq_zero_iff)
      have "m_pg s' (pf (pte_at s d' q)) = m_pg s (pf (pte_at s d' q))" if "d' \<in> D" "q < UPAGES" "bit (pte_at s d' q) 0" for d' q
        using g(1,9) user[OF that] mapped_frame(1)[OF ok that] by auto
      then have "made_private D Q d ?p s s'"
        using w ce one g(7,8) bound unfolding made_private_def Let_def by auto
      then show ?thesis using g(3,4) by auto
    qed
  qed
qed

lemma round_page: "aligned (PGROUNDDOWN addr)" "pgno (PGROUNDDOWN addr) = pgno addr"
proof -
  have "unat (PGROUNDDOWN addr) = pgno addr * PGSIZE" unfolding PGROUNDDOWN_def unat_round pgno_def by simp
  then show "aligned (PGROUNDDOWN addr)" "pgno (PGROUNDDOWN addr) = pgno addr" by (simp_all add: aligned_def pgno_def)
qed

lemma fault_address:
  assumes "0x1000 \<le> addr" and "addr < KERNBASE"
  shows "PGROUNDDOWN addr \<noteq> 0" and "PGROUNDDOWN addr < KERNBASE" and "\<not> KERNBASE \<le> PGROUNDDOWN addr"
proof -
  have e: "unat (PGROUNDDOWN addr) = unat addr div PGSIZE * PGSIZE" unfolding PGROUNDDOWN_def unat_round by simp
  have "PGSIZE \<le> unat addr" using assms(1) by (simp add: word_le_nat_alt)
  then have "0 < unat addr div PGSIZE" by (simp add: div_greater_zero_iff)
  then have "unat (PGROUNDDOWN addr) \<noteq> 0" unfolding e by simp
  then show "PGROUNDDOWN addr \<noteq> 0" by (metis unat_0)
  show lt: "PGROUNDDOWN addr < KERNBASE" using assms(2) by (simp add: user_page round_page)
  then show "\<not> KERNBASE \<le> PGROUNDDOWN addr" by simp
qed

text \<open>C3. A write fault on a present copy-on-write page of a process is resolved by the handler: it returns
  0 and the process owns the page alone, writable, with the bytes it had, while no other entry of any
  address space and no byte behind one changes; or, only when every page of memory is in use, it
  returns -1 and nothing at all has changed. In both cases all reference counts stay exact.
\<close>

theorem pagefault_cow_isolates:
  assumes ok: "vm_ok M D Q s" and d: "d \<in> D" and a: "0x1000 \<le> addr" "addr < KERNBASE" "PGROUNDDOWN addr \<le> sz"
    and e: "bit (pte_at s d (pgno addr)) 0" "bit (pte_at s d (pgno addr)) 9" "\<not> bit (pte_at s d (pgno addr)) 10" and w: "on err PTE_W"
  shows "\<exists>r s'. handle_pagefault sw sz (page_addr d) addr err s = Inr (r, s') \<and> vm_ok M D Q s' \<and>
    (if r = 0 then made_private D Q d (pgno addr) s s' else r = - 1 \<and> s' = s \<and> M \<subseteq> set_mset (pts D s + urefs D s + Q))"
proof -
  let ?va = "PGROUNDDOWN addr"
  note fa = fault_address[OF a(1,2)] and rp = round_page[of addr]
  have e': "bit (pte_at s d (pgno ?va)) 0" "bit (pte_at s d (pgno ?va)) 9" using e by (simp_all add: rp)
  obtain t where t: "tbl s d (PDX ?va) = Some t" using pte_pointer[OF e'(1)] by blast
  note wk = walk_present[OF vm_okD[OF ok] d t]
  obtain r s' where c: "copy_on_write ?va (t, PTX ?va) (page_addr d) s = Inr (r, s')" "vm_ok M D Q s'"
    "if r = 0 then made_private D Q d (pgno ?va) s s' else r = - 1 \<and> s' = s \<and> M \<subseteq> set_mset (pts D s + urefs D s + Q)"
    using cow_private[OF ok d rp(1) fa(2) e' t] by blast
  have sz: "\<not> sz < ?va" using a(3) by simp
  have "handle_pagefault sw sz (page_addr d) addr err s = (if r = 0 then Inr (0, s') else lazyalloc ?va (page_addr d) s')"
    using c(1,3) e w fa sz by (auto simp: handle_pagefault_def Let_def wk rp split: if_splits)
  moreover have "lazyalloc ?va (page_addr d) s' = Inr (- 1, s')" if "r \<noteq> 0"
    using c(3) that kalloc_ok[OF tables_okD(2)[OF vm_okD[OF ok]]] by (simp add: lazyalloc_def)
  ultimately show ?thesis using c(2,3) by (auto simp: rp split: if_splits)
qed

section \<open>Pages that were never touched\<close>

text \<open>Giving back a page that no table mentions.\<close>

lemma release_page:
  assumes ok: "tables_ok M D s (add_mset g R)" and g: "g \<notin># pts D s" "g \<notin># urefs D s" "g \<notin># R"
  shows "\<exists>s'. kfree (page_addr g) s = Inr s' \<and> tables_ok M D s' R \<and> (\<forall>d \<in> D. \<forall>q < 2 ^ 20. pte_at s' d q = pte_at s d q) \<and>
    (\<forall>d \<in> D. \<forall>i < NPDENTRIES. tbl s' d i = tbl s d i) \<and> pts D s' = pts D s \<and> urefs D s' = urefs D s \<and> (\<forall>h. h \<noteq> g \<longrightarrow> m_pg s' h = m_pg s h)"
proof -
  obtain s' where k: "kfree (page_addr g) s = Inr s'" "pool_ok M s' R" "\<forall>h. h \<noteq> g \<longrightarrow> m_pg s' h = m_pg s h"
    using kfree_ok[OF tables_okD(2)[OF ok], of g] by auto
  have "\<forall>h \<in># pts D s. m_pg s' h = m_pg s h" using g(1) k(3) by auto
  note o = outside_tables[OF tables_okD(1)[OF ok] this]
  have "tables_ok M D s' R"
    using ok k(2) g unfolding tables_ok_def o(3,4) by (auto split: if_splits)
  then show ?thesis using k(1,3) o by blast
qed

text \<open>Nothing visible has changed: same entries, same bytes behind present entries.\<close>

definition unchanged :: "nat set \<Rightarrow> 'a mach_scheme \<Rightarrow> 'a mach_scheme \<Rightarrow> bool" where
  "unchanged D s s' \<longleftrightarrow> (\<forall>d \<in> D. \<forall>q < UPAGES.
     pte_at s' d q = pte_at s d q \<and> (bit (pte_at s d q) 0 \<longrightarrow> m_pg s' (pf (pte_at s d q)) = m_pg s (pf (pte_at s d q))))"

definition fresh_mapped :: "nat set \<Rightarrow> nat multiset \<Rightarrow> nat \<Rightarrow> nat \<Rightarrow> u8 list \<Rightarrow> 'a mach_scheme \<Rightarrow> 'a mach_scheme \<Rightarrow> bool" where
  "fresh_mapped D Q d p c s s' \<longleftrightarrow>
     (let e = pte_at s' d p in bit e 0 \<and> bit e 1 \<and> bit e 2 \<and> count (pts D s' + urefs D s' + Q) (pf e) = 1 \<and> m_pg s' (pf e) = c) \<and>
     (\<forall>d' \<in> D. \<forall>q < UPAGES. (d', q) \<noteq> (d, p) \<longrightarrow>
        pte_at s' d' q = pte_at s d' q \<and> (bit (pte_at s d' q) 0 \<longrightarrow> m_pg s' (pf (pte_at s d' q)) = m_pg s (pf (pte_at s d' q))))"

text \<open>A filled page that has been mapped where nothing was.\<close>

lemma mapped_fresh:
  assumes ok: "vm_ok M D Q s" and d: "d \<in> D" and p: "p < UPAGES" and e: "\<not> bit (pte_at s d p) 0"
    and g: "g \<notin># pts D s + urefs D s + Q" "g < NPDATAMAP" and s2: "filled M D s (pts D s + urefs D s + Q) g c s2"
    and m: "grown M D s2 (add_mset g (pts D s + urefs D s + Q)) s' T"
      "\<forall>d' \<in> D. \<forall>q < 2 ^ 20. pte_at s' d' q = (if d' = d \<and> q = p then of_nat (g * PGSIZE) OR (PTE_W OR PTE_U) OR PTE_P else pte_at s2 d' q)"
      "urefs D s' + um (pte_at s2 d p) = add_mset g (urefs D s2)"
  shows "vm_ok M D Q s'" and "fresh_mapped D Q d p c s s'"
proof -
  let ?R = "pts D s + urefs D s + Q"
  note fl = filledD[OF s2] and ce = cow_entry[OF g(2)] and pb = page_bounds(1)[OF p]
  have pt: "pts D s' = pts D s + T" and ur: "urefs D s' = add_mset g (urefs D s)"
    using m(1,3) fl(2,3) fl(5)[OF d pb] e by (simp_all add: grown_def um_def)
  have R': "add_mset g ?R + T = pts D s' + urefs D s' + Q" by (simp add: pt ur ac_simps)
  show "vm_ok M D Q s'" using m(1) unfolding vm_ok_def grown_def R' by blast
  have g2: "g \<in># add_mset g ?R" "g \<notin># pts D s2" using g(1) fl(2) by auto
  have gp: "g \<notin># pts D s'" by (rule grown_fresh[OF m(1) g2])
  have pg: "m_pg s' h = m_pg s2 h" if "h \<notin># pts D s'" for h using m(1) that by (simp add: grown_def)
  have "count (pts D s' + urefs D s' + Q) g = 1" using gp g(1) by (simp add: ur count_eq_zero_iff)
  moreover have "m_pg s' g = c" using pg[OF gp] fl(6) by simp
  moreover have "pte_at s' d p = of_nat (g * PGSIZE) OR (PTE_W OR PTE_U) OR PTE_P" using m(2) d pb by simp
  moreover have "pte_at s' d' q = pte_at s d' q" if "d' \<in> D" "q < UPAGES" "(d', q) \<noteq> (d, p)" for d' q
    using m(2) fl(5) that page_bounds(1) by auto
  moreover have "m_pg s' (pf (pte_at s d' q)) = m_pg s (pf (pte_at s d' q))" if dq: "d' \<in> D" "q < UPAGES" "bit (pte_at s d' q) 0" for d' q
  proof -
    have k: "pf (pte_at s d' q) \<in># add_mset g ?R" "pf (pte_at s d' q) \<notin># pts D s2" "pf (pte_at s d' q) \<noteq> g"
      using mapped_frame[OF ok dq] g(1) fl(2) by auto
    show ?thesis using pg[OF grown_fresh[OF m(1) k(1,2)]] fl(7)[OF k(3)] by simp
  qed
  ultimately show "fresh_mapped D Q d p c s s'" unfolding fresh_mapped_def Let_def using ce by auto
qed

lemma lazyalloc_ok:
  assumes ok: "vm_ok M D Q s" and d: "d \<in> D" and va: "aligned va" "va < KERNBASE" and e: "\<not> bit (pte_at s d (pgno va)) 0"
  shows "\<exists>r s'. lazyalloc va (page_addr d) s = Inr (r, s') \<and> vm_ok M D Q s' \<and>
    (if r = 0 then fresh_mapped D Q d (pgno va) zero_page s s' else r = - 1 \<and> unchanged D s s')"
proof -
  let ?R = "pts D s + urefs D s + Q" and ?p = "pgno va"
  note tok = vm_okD[OF ok]
  have keep: "pf (pte_at s d' q) \<notin># pts D s \<and> pf (pte_at s d' q) \<in># ?R" if "d' \<in> D" "q < UPAGES" "bit (pte_at s d' q) 0" for d' q
    using mapped_frame[OF ok that] by simp
  have pb: "?p < 2 ^ 20" by (rule pgno_bounds(1))
  show ?thesis
  proof (rule alloc_page[OF tok])
    assume "M \<subseteq> set_mset ?R" "kalloc s = Inr (0, s)"
    then show ?thesis using ok by (simp add: lazyalloc_def unchanged_def)
  next
    fix g s1
    assume g: "g \<in> M" "g \<notin># ?R" "g < NPDATAMAP" "kalloc s = Inr (page_addr g, s1)" "m_pg s1 = m_pg s"
      "\<And>c. length c = PGSIZE \<Longrightarrow> filled M D s ?R g c (upd_pg g (\<lambda>_. c) s1)"
    let ?s2 = "upd_pg g (\<lambda>_. zero_page) s1"
    note fl = filledD[OF g(6)[OF zero_page_facts(1)]]
    have rep: "replaceable (pte_at ?s2 d ?p)" using fl(5)[OF d pb] e by (simp add: replaceable_def)
    have g2: "g \<in># add_mset g ?R" "g \<notin># pts D ?s2" using g(2) fl(2) by auto
    have gf: "page_addr g \<noteq> 0" "frame (page_addr g) = g" using page_addr_props[OF g(3)] by auto
    show ?thesis
    proof (rule map_page[where perm = "PTE_W OR PTE_U", OF fl(1) d va rep g2])
      assume m: "mappages (page_addr d) va 0x1000 (of_nat (g * PGSIZE)) (PTE_W OR PTE_U) ?s2 = Inr (- 1, ?s2)"
      have gu: "g \<notin># urefs D ?s2" using g(2) fl(3) by simp
      obtain s' where k: "kfree (page_addr g) ?s2 = Inr s'" "tables_ok M D s' ?R" "\<forall>d \<in> D. \<forall>q < 2 ^ 20. pte_at s' d q = pte_at ?s2 d q"
        "pts D s' = pts D ?s2" "urefs D s' = urefs D ?s2" "\<forall>h. h \<noteq> g \<longrightarrow> m_pg s' h = m_pg ?s2 h"
        using release_page[OF fl(1) g2(2) gu g(2)] by blast
      have "lazyalloc va (page_addr d) s = Inr (- 1, s')"
        using g(4) gf m k(1) by (simp add: lazyalloc_def V2P_page_addr del: of_nat_mult)
      moreover have "vm_ok M D Q s'" using k(2,4,5) fl(2,3) by (simp add: vm_ok_def)
      moreover have "unchanged D s s'"
        unfolding unchanged_def
      proof (intro ballI allI impI conjI)
        fix d' q assume dq: "d' \<in> D" "q < UPAGES"
        show "pte_at s' d' q = pte_at s d' q" using k(3) fl(5) dq page_bounds(1) by simp
        show "m_pg s' (pf (pte_at s d' q)) = m_pg s (pf (pte_at s d' q))" if "bit (pte_at s d' q) 0"
          using keep[OF dq that] g(2) k(6) fl(7) by (metis)
      qed
      ultimately show ?thesis by auto
    next
      fix s' T
      assume m: "mappages (page_addr d) va 0x1000 (of_nat (g * PGSIZE)) (PTE_W OR PTE_U) ?s2 = Inr (0, s')" "grown M D ?s2 (add_mset g ?R) s' T"
        "\<forall>d' \<in> D. \<forall>q < 2 ^ 20. pte_at s' d' q = (if d' = d \<and> q = ?p then of_nat (g * PGSIZE) OR (PTE_W OR PTE_U) OR PTE_P else pte_at ?s2 d' q)"
        "urefs D s' + um (pte_at ?s2 d ?p) = add_mset g (urefs D ?s2)"
      note mf = mapped_fresh[OF ok d user_bound[OF va(2)] e g(2,3) g(6)[OF zero_page_facts(1)] m(2-4)]
      have "lazyalloc va (page_addr d) s = Inr (0, s')"
        using g(4) gf m(1) by (simp add: lazyalloc_def V2P_page_addr del: of_nat_mult)
      then show ?thesis using mf by auto
    qed simp
  qed
qed

text \<open>C8. A fault on a user page that is neither present nor swapped out gets a page of zeros: the handler
  returns 0 and the page is mapped, writable, for this process alone and reads as zeros, with every
  other page as it was; or it returns -1 for want of memory and no mapping and no mapped byte changes.
\<close>

theorem pagefault_lazy_zero:
  assumes ok: "vm_ok M D Q s" and d: "d \<in> D" and a: "0x1000 \<le> addr" "addr < KERNBASE" "PGROUNDDOWN addr \<le> sz"
    and e: "\<not> bit (pte_at s d (pgno addr)) 0" "\<not> bit (pte_at s d (pgno addr)) 9" "\<not> bit (pte_at s d (pgno addr)) 10"
  shows "\<exists>r s'. handle_pagefault sw sz (page_addr d) addr err s = Inr (r, s') \<and> vm_ok M D Q s' \<and>
    (if r = 0 then fresh_mapped D Q d (pgno addr) zero_page s s' else r = - 1 \<and> unchanged D s s')"
proof -
  let ?va = "PGROUNDDOWN addr"
  note fa = fault_address[OF a(1,2)] and rp = round_page[of addr]
  have sz: "\<not> sz < ?va" using a(3) by simp
  have "handle_pagefault sw sz (page_addr d) addr err s = lazyalloc ?va (page_addr d) s"
  proof (cases "tbl s d (PDX ?va)")
    case None
    then show ?thesis using walk_absent[OF vm_okD[OF ok] d None] fa sz by (simp add: handle_pagefault_def Let_def)
  next
    case (Some t)
    note wk = walk_present[OF vm_okD[OF ok] d Some]
    show ?thesis using e fa sz by (simp add: handle_pagefault_def Let_def wk rp)
  qed
  then show ?thesis using lazyalloc_ok[OF ok d rp(1) fa(2), unfolded rp(2), OF e(1)] by (simp only:)
qed

text \<open>C35. A fault on a user page that is present and not copy-on-write, which happens when a process touches
  the guard page below its stack (its entry has lost \<open>PTE_U\<close>), is treated like an untouched page and
  ends in the panic \<open>remap\<close>: a user program can stop the kernel.
\<close>

theorem pagefault_guard_panics:
  assumes ok: "vm_ok M D Q s" and d: "d \<in> D" and a: "0x1000 \<le> addr" "addr < KERNBASE" "PGROUNDDOWN addr \<le> sz"
    and e: "bit (pte_at s d (pgno addr)) 0" "\<not> bit (pte_at s d (pgno addr)) 9" "\<not> bit (pte_at s d (pgno addr)) 10"
    and free: "\<not> M \<subseteq> set_mset (pts D s + urefs D s + Q)"
  shows "handle_pagefault sw sz (page_addr d) addr err s = Inl (Panic ''remap'')"
proof -
  let ?va = "PGROUNDDOWN addr" and ?R = "pts D s + urefs D s + Q"
  note fa = fault_address[OF a(1,2)] and rp = round_page[of addr] and tok = vm_okD[OF ok]
  have sz: "\<not> sz < ?va" using a(3) by simp
  obtain t where t: "tbl s d (PDX ?va) = Some t" using pte_pointer[of s d ?va] e(1) rp(2) by metis
  note wk = walk_present[OF tok d t]
  have "lazyalloc ?va (page_addr d) s = Inl (Panic ''remap'')"
  proof (rule alloc_page[OF tok])
    fix g s1
    assume g: "g \<notin># ?R" "g < NPDATAMAP" "kalloc s = Inr (page_addr g, s1)" "\<And>c. length c = PGSIZE \<Longrightarrow> filled M D s ?R g c (upd_pg g (\<lambda>_. c) s1)"
    let ?s2 = "upd_pg g (\<lambda>_. zero_page) s1"
    note fl = filledD[OF g(4)[OF zero_page_facts(1)]]
    have pb: "pgno ?va < 2 ^ 20" "PDX ?va < NPDENTRIES" using pgno_bounds[of ?va] by (simp_all add: NPDENTRIES_def)
    have "tbl ?s2 d (PDX ?va) = Some t" using fl(4)[OF d pb(2)] t by simp
    note wk2 = walk_present[OF fl(1) d this]
    have "mappages (page_addr d) ?va 0x1000 (V2P (page_addr g)) (PTE_W OR PTE_U) ?s2 = Inl (Panic ''remap'')"
      using e fl(5)[OF d pb(1)] by (simp add: one_page[OF rp(1)] mappages_loop.simps wk2 mappage_def rp)
    then show ?thesis using g(3) page_addr_props(1,3)[OF g(2)] by (simp add: lazyalloc_def)
  qed (use free in simp)
  then show ?thesis using e fa sz by (simp add: handle_pagefault_def Let_def wk rp)
qed

section \<open>A small machine\<close>

text \<open>
  Frames 2 to 5 belong to the allocator: 2 is a page directory, 3 its page table, 4 a page mapped at
  page number 1 with the entry \<open>e\<close>, and 5 is free.
\<close>

definition demo_vm :: "u32 \<Rightarrow> mach" where
  "demo_vm e = demo_mach\<lparr>m_pg := (\<lambda>_. zero_page)(2 := put32 zero_page 0 0x3007, 3 := put32 zero_page 4 e),
     m_freelist := page_addr 5, m_ref := (\<lambda>_. 0)(2 := 1, 3 := 1, 4 := 1), m_end := 0x80002000\<rparr>"

lemma demo_ent:
  "i < 1024 \<Longrightarrow> ent (demo_vm e) 2 i = (if i = 0 then 0x3007 else 0)" "i < 1024 \<Longrightarrow> ent (demo_vm e) 3 i = (if i = 1 then e else 0)"
proof -
  have "get32 (put32 zero_page (4 * k) w) (4 * i) = (if i = k then w else 0)" if "i < 1024" "k < 1024" for i k w
  proof (cases "i = k")
    case False
    then have "4 * i + 4 \<le> 4 * k \<or> 4 * k + 4 \<le> 4 * i" by linarith
    then show ?thesis using False that by (simp add: get32_put32_other zero_page_facts)
  qed (use that in \<open>simp add: zero_page_facts\<close>)
  from this[of i 0] this[of i 1] show "i < 1024 \<Longrightarrow> ent (demo_vm e) 2 i = (if i = 0 then 0x3007 else 0)" "i < 1024 \<Longrightarrow> ent (demo_vm e) 3 i = (if i = 1 then e else 0)"
    by (simp_all add: ent_def demo_vm_def)
qed

lemma demo_views:
  "i < NPDENTRIES \<Longrightarrow> tbl (demo_vm e) 2 i = (if i = 0 then Some 3 else None)" "p < 2 ^ 20 \<Longrightarrow> pte_at (demo_vm e) 2 p = (if p = 1 then e else 0)"
proof -
  show t: "tbl (demo_vm e) 2 i = (if i = 0 then Some 3 else None)" if "i < NPDENTRIES" for i
    using that demo_ent(1)[of i e] by (cases "i = 0") (simp_all add: tbl_def NPDENTRIES_def pf_def bit_simps)
  show "pte_at (demo_vm e) 2 p = (if p = 1 then e else 0)" if "p < 2 ^ 20"
  proof -
    show ?thesis
    proof (cases "p < 1024")
      case True
      then show ?thesis using t[OF page_bounds(2)[OF that]] demo_ent(2)[OF True, of e] by (simp add: pte_at_def)
    next
      case False
      then have "p div 1024 \<noteq> 0" by simp
      then show ?thesis using False t[OF page_bounds(2)[OF that]] by (simp add: pte_at_def)
    qed
  qed
qed

lemma demo_sums:
  assumes "bit e 0" "pf e = 4"
  shows "pts {2} (demo_vm e) = {#2, 3#}" "urefs {2} (demo_vm e) = {#4#}"
proof -
  have n: "0 < NPDENTRIES" "1 < UPAGES" by (simp_all add: NPDENTRIES_def UPAGES_def)
  have "(\<Sum>i<NPDENTRIES. tm (tbl (demo_vm e) 2 i)) = (\<Sum>i<NPDENTRIES. if i = 0 then {#3#} else {#})"
    by (rule sum.cong) (auto simp: demo_views tm_def)
  then show "pts {2} (demo_vm e) = {#2, 3#}" using n by (simp add: pts_def)
  have "(\<Sum>p<UPAGES. um (pte_at (demo_vm e) 2 p)) = (\<Sum>p<UPAGES. if p = 1 then {#4#} else {#})"
    using demo_views(2)[OF page_bounds(1), of _ e] assms by (intro sum.cong) (simp_all add: um_def)
  then show "urefs {2} (demo_vm e) = {#4#}" using n by (simp add: urefs_def)
qed

lemma demo_vm_ok:
  assumes "bit e 0" "pf e = 4"
  shows "vm_ok {2, 3, 4, 5} {2} {#} (demo_vm e)" "\<not> {2, 3, 4, 5} \<subseteq> set_mset (pts {2} (demo_vm e) + urefs {2} (demo_vm e) + {#})"
proof -
  note sums = demo_sums[OF assms]
  have "chain (m_pg (demo_vm e)) (m_freelist (demo_vm e)) [5]" by (simp add: demo_vm_def get32_def zero_page_def)
  moreover have "length (m_pg (demo_vm e) f) = PGSIZE" for f by (simp add: demo_vm_def zero_page_facts)
  moreover have "managed (demo_vm e) f" if "f \<in> {2, 3, 4, 5}" for f
    using that by (auto simp: managed_def demo_vm_def page_addr_def P2V_def KERNBASE_def NPDATAMAP_def)
  moreover have "m_ref (demo_vm e) f = int (count {#4, 2, 3#} f)" for f by (simp add: demo_vm_def)
  ultimately have "pool_ok {2, 3, 4, 5} (demo_vm e) {#4, 2, 3#}"
    unfolding pool_ok_def by (intro conjI exI[of _ "[5]"]) auto
  then show "vm_ok {2, 3, 4, 5} {2} {#} (demo_vm e)" by (simp add: vm_ok_def tables_ok_def sums)
  show "\<not> {2, 3, 4, 5} \<subseteq> set_mset (pts {2} (demo_vm e) + urefs {2} (demo_vm e) + {#})" by (simp add: sums)
qed

definition demo_swap :: "unit swapops" where
  "demo_swap = \<lparr>sw_read = \<lambda>_ _ s. Inr s, sw_free = \<lambda>_ _ _ s. Inr s\<rparr>"

lemma demo_pages: "pgno 0x1234 = 1" "pgno 0x2345 = 2" "pte_at (demo_vm e) 2 1 = e" "pte_at (demo_vm e) 2 2 = 0"
  by (simp_all add: pgno_def demo_views)

theorem pagefault_cow_isolates_witness:
  "\<exists>r s'. handle_pagefault demo_swap 0x3000 (page_addr 2) 0x1234 7 (demo_vm 0x4205) = Inr (r, s') \<and> vm_ok {2, 3, 4, 5} {2} {#} s' \<and>
     r = 0 \<and> made_private {2} {#} 2 1 (demo_vm 0x4205) s'"
proof -
  have e: "bit (0x4205 :: u32) 0" "bit (0x4205 :: u32) 9" "\<not> bit (0x4205 :: u32) 10" "pf 0x4205 = 4" by (simp_all add: bit_simps pf_def)
  have a: "(0x1000 :: u32) \<le> 0x1234" "0x1234 < KERNBASE" "PGROUNDDOWN 0x1234 \<le> 0x3000" "on 7 PTE_W"
    by (simp_all add: KERNBASE_def PGROUNDDOWN_def bit_simps)
  note ok = demo_vm_ok[OF e(1,4)]
  have "(2 :: nat) \<in> {2}" by simp
  from pagefault_cow_isolates[OF ok(1) this a(1-3) _ _ _ a(4), of demo_swap, unfolded demo_pages, OF e(1-3)] ok(2) show ?thesis
    by (metis (no_types, lifting))
qed

theorem pagefault_lazy_zero_witness:
  "\<exists>r s'. handle_pagefault demo_swap 0x3000 (page_addr 2) 0x2345 4 (demo_vm 0x4007) = Inr (r, s') \<and> vm_ok {2, 3, 4, 5} {2} {#} s' \<and>
     (if r = 0 then fresh_mapped {2} {#} 2 2 zero_page (demo_vm 0x4007) s' else r = - 1 \<and> unchanged {2} (demo_vm 0x4007) s')"
proof -
  have e: "bit (0x4007 :: u32) 0" "pf 0x4007 = 4" by (simp_all add: bit_simps pf_def)
  have a: "(0x1000 :: u32) \<le> 0x2345" "0x2345 < KERNBASE" "PGROUNDDOWN 0x2345 \<le> 0x3000"
    by (simp_all add: KERNBASE_def PGROUNDDOWN_def)
  have "(2 :: nat) \<in> {2}" by simp
  from pagefault_lazy_zero[OF demo_vm_ok(1)[OF e] this a, of demo_swap 4, unfolded demo_pages] show ?thesis by simp
qed

theorem pagefault_guard_panics_witness:
  "handle_pagefault demo_swap 0x3000 (page_addr 2) 0x1234 7 (demo_vm 0x4003) = Inl (Panic ''remap'')"
proof -
  have e: "bit (0x4003 :: u32) 0" "\<not> bit (0x4003 :: u32) 9" "\<not> bit (0x4003 :: u32) 10" "pf 0x4003 = 4" by (simp_all add: bit_simps pf_def)
  have a: "(0x1000 :: u32) \<le> 0x1234" "0x1234 < KERNBASE" "PGROUNDDOWN 0x1234 \<le> 0x3000"
    by (simp_all add: KERNBASE_def PGROUNDDOWN_def)
  note ok = demo_vm_ok[OF e(1,4)]
  have "(2 :: nat) \<in> {2}" by simp
  from pagefault_guard_panics[OF ok(1) this a, unfolded demo_pages, OF e(1-3) ok(2)] show ?thesis .
qed

end
