(* ===== verification/Freevm.thy ===== *)
theory Freevm
  imports Pgfault
begin

text \<open>
  Releasing memory: \<open>deallocuvm\<close> takes the pages of a range out of an address space and \<open>freevm\<close> gives
  back everything an address space holds, its page tables and directory included; the pages it shares
  with other address spaces stay theirs.
\<close>

section \<open>One page\<close>

lemma kfree_set_ent:
  assumes f: "f < NPDATAMAP" "m_end s \<le> page_addr f" "0 \<le> m_ref s f" and ne: "t \<noteq> f" and k: "kfree (page_addr f) s = Inr s'"
  shows "kfree (page_addr f) (set_ent t j w s) = Inr (set_ent t j w s')"
proof -
  have tw: "(m_pg s)(t := x, f := y) = (m_pg s)(f := y, t := x)" for x y using ne by (simp add: fun_upd_twist)
  have "kfree (page_addr f) (set_ent t j w s) =
    Inr (if 1 < m_ref s f then (set_ent t j w s)\<lparr>m_ref := (m_ref s)(f := m_ref s f - 1)\<rparr>
         else (set_ent t j w s)\<lparr>m_pg := (m_pg (set_ent t j w s))(f := put32 (if m_ref s f = 1 then replicate PGSIZE 1 else m_pg s f) 0 (m_freelist s)),
                m_freelist := page_addr f, m_ref := (m_ref s)(f := 0)\<rparr>)"
    using kfree_eq[of f "set_ent t j w s"] f ne by (simp add: set_ent_def)
  moreover have "s' = (if 1 < m_ref s f then s\<lparr>m_ref := (m_ref s)(f := m_ref s f - 1)\<rparr>
         else s\<lparr>m_pg := (m_pg s)(f := put32 (if m_ref s f = 1 then replicate PGSIZE 1 else m_pg s f) 0 (m_freelist s)),
                m_freelist := page_addr f, m_ref := (m_ref s)(f := 0)\<rparr>)"
    using kfree_eq[OF f] k by simp
  ultimately show ?thesis using ne by (simp add: set_ent_def upd_pg_def tw)
qed

text \<open>A reference is given back; the page may still be mapped elsewhere.\<close>

lemma release_ref:
  assumes ok: "tables_ok M D s (add_mset f R)" and f: "f \<notin># pts D s" "f \<in># urefs D s \<Longrightarrow> f \<in># R"
  shows "\<exists>s'. kfree (page_addr f) s = Inr s' \<and> tables_ok M D s' R \<and> (\<forall>d \<in> D. \<forall>q < 2 ^ 20. pte_at s' d q = pte_at s d q) \<and>
    (\<forall>d \<in> D. \<forall>i < NPDENTRIES. tbl s' d i = tbl s d i) \<and> pts D s' = pts D s \<and> urefs D s' = urefs D s \<and> (\<forall>h. h \<noteq> f \<or> f \<in># R \<longrightarrow> m_pg s' h = m_pg s h) \<and>
    m_end s' = m_end s \<and> m_data s' = m_data s \<and> mach.more s' = mach.more s"
proof -
  obtain s' where k: "kfree (page_addr f) s = Inr s'" "pool_ok M s' R" "\<forall>h. h \<noteq> f \<or> 1 < count (add_mset f R) f \<longrightarrow> m_pg s' h = m_pg s h"
    "s' = s\<lparr>m_pg := m_pg s', m_freelist := m_freelist s', m_ref := (m_ref s)(f := m_ref s f - 1)\<rparr>"
    using kfree_ok[OF tables_okD(2)[OF ok], of f] by auto
  have same: "m_end s' = m_end s" "m_data s' = m_data s" "mach.more s' = mach.more s" by (subst k(4), simp)+
  have "\<forall>h \<in># pts D s. m_pg s' h = m_pg s h" using f(1) k(3) by auto
  note o = outside_tables[OF tables_okD(1)[OF ok] this]
  have "set_mset (urefs D s) \<subseteq> set_mset R" using tables_okD(9)[OF ok] f(2) by auto
  then have "tables_ok M D s' R" using ok k(2) f(1) unfolding tables_ok_def o(3,4) by (auto split: if_splits)
  moreover have "m_pg s' h = m_pg s h" if "h \<noteq> f \<or> f \<in># R" for h using that k(3) by auto
  ultimately show ?thesis using k(1) o same by blast
qed

text \<open>A present entry is cleared and its page released.\<close>

lemma unmap_page:
  assumes ok: "vm_ok M D Q s" and d: "d \<in> D" and p: "p < UPAGES" and e: "bit (pte_at s d p) 0" and t: "tbl s d (p div 1024) = Some t"
  shows "\<exists>s1 s'. kfree (page_addr (pf (pte_at s d p))) s = Inr s1 \<and> s' = set_ent t (p mod 1024) 0 s1 \<and> vm_ok M D Q s' \<and>
    (\<forall>d' \<in> D. \<forall>q < 2 ^ 20. pte_at s' d' q = (if d' = d \<and> q = p then 0 else pte_at s d' q)) \<and>
    (\<forall>d' \<in> D. \<forall>i < NPDENTRIES. tbl s' d' i = tbl s d' i) \<and> pts D s' = pts D s \<and>
    (\<forall>h. h \<notin># pts D s \<and> (h \<noteq> pf (pte_at s d p) \<or> h \<in># urefs D s' + Q) \<longrightarrow> m_pg s' h = m_pg s h)"
proof -
  let ?f = "pf (pte_at s d p)" and ?R = "pts D s + urefs D s + Q" and ?s0 = "set_ent t (p mod 1024) 0 s"
  note tok = vm_okD[OF ok] and mf = mapped_frame[OF ok d p e] and pb = page_bounds(1)[OF p]
  have z: "bit (0 :: u32) 0 \<and> p < UPAGES \<longrightarrow> pf 0 \<notin># pts D s \<and> pf 0 \<in># ?R" by simp
  note ew = entry_write[OF tok d pb t z]
  have ur: "add_mset ?f (urefs D ?s0) = urefs D s" using ew(5) p e by (simp add: um_def)
  have R: "?R = add_mset ?f (pts D s + urefs D ?s0 + Q)" unfolding ur[symmetric] by simp
  have tin: "t \<in># pts D s" by (rule tbl_in_pts[OF tables_okD(1)[OF tok] d page_bounds(2)[OF pb] t])
  have ne: "t \<noteq> ?f" using tin mf(2) by blast
  have f0: "?f \<notin># pts D ?s0" "?f \<in># urefs D ?s0 \<Longrightarrow> ?f \<in># pts D s + urefs D ?s0 + Q" using mf(2) ew(4) by simp_all
  obtain s' where s': "kfree (page_addr ?f) ?s0 = Inr s'" "tables_ok M D s' (pts D s + urefs D ?s0 + Q)"
    "\<forall>d \<in> D. \<forall>q < 2 ^ 20. pte_at s' d q = pte_at ?s0 d q" "\<forall>d \<in> D. \<forall>i < NPDENTRIES. tbl s' d i = tbl ?s0 d i" "pts D s' = pts D ?s0" "urefs D s' = urefs D ?s0"
    "\<forall>h. h \<noteq> ?f \<or> ?f \<in># pts D s + urefs D ?s0 + Q \<longrightarrow> m_pg s' h = m_pg ?s0 h"
    using release_ref[OF ew(3)[unfolded R] f0] by blast
  have fR: "?f \<in># ?R" using mf(1) by simp
  have n: "m_end s \<le> page_addr ?f" "0 \<le> m_ref s ?f" using pool_okD[OF tables_okD(2)[OF tok]] fR by auto
  obtain s1 where s1: "kfree (page_addr ?f) s = Inr s1" using kfree_ok[OF tables_okD(2)[OF tok] fR] by blast
  have eq: "s' = set_ent t (p mod 1024) 0 s1" using kfree_set_ent[OF mf(3) n ne s1] s'(1) by simp
  have "m_pg s' h = m_pg s h" if "h \<notin># pts D s" "h \<noteq> ?f \<or> h \<in># urefs D s' + Q" for h
    using that s'(6,7) tin by (auto simp: set_ent_def)
  moreover have "vm_ok M D Q s'" using s'(2) by (simp add: vm_ok_def s'(5,6) ew(4))
  ultimately show ?thesis using s1 eq ew(1,2,4) s'(3,4,5) by (intro exI[of _ s1] exI[of _ s']) auto
qed

section \<open>A range of pages\<close>

lemma page_number: "k < 2 ^ 20 \<Longrightarrow> pgno (of_nat (k * PGSIZE)) = k" "k < 2 ^ 20 \<Longrightarrow> unat (of_nat (k * PGSIZE) :: u32) = k * PGSIZE"
  by (simp_all add: pgno_def unat_of_nat take_bit_nat_eq_self del: of_nat_mult)

lemma page_walk: "k < 2 ^ 20 \<Longrightarrow> PDX (of_nat (k * PGSIZE)) = k div 1024" "k < 2 ^ 20 \<Longrightarrow> PTX (of_nat (k * PGSIZE)) = k mod 1024"
  by (simp_all add: PDX_pgno PTX_pgno page_number(1) del: of_nat_mult)

lemma P2V_pf: "P2V (PTE_ADDR e) = page_addr (pf e)"
  by (simp add: PTE_ADDR_pf P2V_page_addr del: of_nat_mult)

lemma PTE_ADDR_nonzero: "pf e \<noteq> 0 \<Longrightarrow> PTE_ADDR e \<noteq> 0"
proof -
  assume a: "pf e \<noteq> 0"
  have "unat (of_nat (pf e * PGSIZE) :: u32) = pf e * PGSIZE" by (rule page_number(2)[OF pf_lt])
  then have "unat (PTE_ADDR e) \<noteq> 0" using a unfolding PTE_ADDR_pf by simp
  then show ?thesis by (metis unat_0)
qed

text \<open>
  The state \<open>s'\<close> is \<open>s\<close> with the present entries of space \<open>d\<close> at the page numbers in \<open>P\<close> cleared, and no
  byte of a page that is still mapped changed.
\<close>

definition unmapped :: "nat set \<Rightarrow> nat \<Rightarrow> nat set \<Rightarrow> 'a mach_scheme \<Rightarrow> 'a mach_scheme \<Rightarrow> bool" where
  "unmapped D d P s s' \<longleftrightarrow>
     (\<forall>d' \<in> D. \<forall>q < 2 ^ 20. pte_at s' d' q = (if d' = d \<and> q \<in> P \<and> bit (pte_at s d q) 0 then 0 else pte_at s d' q)) \<and>
     (\<forall>d' \<in> D. \<forall>i < NPDENTRIES. tbl s' d' i = tbl s d' i) \<and> pts D s' = pts D s \<and>
     (\<forall>d' \<in> D. \<forall>q < UPAGES. bit (pte_at s' d' q) 0 \<longrightarrow> m_pg s' (pf (pte_at s' d' q)) = m_pg s (pf (pte_at s' d' q)))"

lemma unmappedI:
  assumes "\<And>d' q. d' \<in> D \<Longrightarrow> q < 2 ^ 20 \<Longrightarrow> pte_at s' d' q = (if d' = d \<and> q \<in> P \<and> bit (pte_at s d q) 0 then 0 else pte_at s d' q)"
    and "\<And>d' i. d' \<in> D \<Longrightarrow> i < NPDENTRIES \<Longrightarrow> tbl s' d' i = tbl s d' i" and "pts D s' = pts D s"
    and "\<And>d' q. d' \<in> D \<Longrightarrow> q < UPAGES \<Longrightarrow> bit (pte_at s' d' q) 0 \<Longrightarrow> m_pg s' (pf (pte_at s' d' q)) = m_pg s (pf (pte_at s' d' q))"
  shows "unmapped D d P s s'"
  using assms unfolding unmapped_def by blast

lemma unmappedD:
  assumes "unmapped D d P s s'"
  shows "d' \<in> D \<Longrightarrow> q < 2 ^ 20 \<Longrightarrow> pte_at s' d' q = (if d' = d \<and> q \<in> P \<and> bit (pte_at s d q) 0 then 0 else pte_at s d' q)"
    and "d' \<in> D \<Longrightarrow> i < NPDENTRIES \<Longrightarrow> tbl s' d' i = tbl s d' i" and "pts D s' = pts D s"
    and "d' \<in> D \<Longrightarrow> q < UPAGES \<Longrightarrow> bit (pte_at s' d' q) 0 \<Longrightarrow> m_pg s' (pf (pte_at s' d' q)) = m_pg s (pf (pte_at s' d' q))"
  using assms unfolding unmapped_def by blast+

lemma unmapped_refl: "(\<And>q. q \<in> P \<Longrightarrow> q < 2 ^ 20 \<Longrightarrow> \<not> bit (pte_at s d q) 0) \<Longrightarrow> unmapped D d P s s"
  by (rule unmappedI) auto

lemma unmapped_trans:
  assumes a: "unmapped D d P s s1" and b: "unmapped D d P' s1 s2"
  shows "unmapped D d (P \<union> P') s s2"
proof (rule unmappedI)
  fix d' and q :: nat assume dq: "d' \<in> D" "q < 2 ^ 20"
  show "pte_at s2 d' q = (if d' = d \<and> q \<in> P \<union> P' \<and> bit (pte_at s d q) 0 then 0 else pte_at s d' q)"
    using unmappedD(1)[OF a dq] unmappedD(1)[OF b dq] by (auto split: if_splits)
next
  fix d' q assume dq: "d' \<in> D" "q < UPAGES" "bit (pte_at s2 d' q) 0"
  have "pte_at s2 d' q = pte_at s1 d' q"
    using unmappedD(1)[OF b dq(1) page_bounds(1)[OF dq(2)]] dq(3) by (auto split: if_splits)
  then show "m_pg s2 (pf (pte_at s2 d' q)) = m_pg s (pf (pte_at s2 d' q))"
    using unmappedD(4)[OF b dq] unmappedD(4)[OF a dq(1,2)] dq(3) by simp
qed (use unmappedD(2,3)[OF a] unmappedD(2,3)[OF b] in auto)

lemma unmap_one:
  assumes ok: "vm_ok M D Q s" and d: "d \<in> D" and p: "p < UPAGES" and e: "bit (pte_at s d p) 0" and t: "tbl s d (p div 1024) = Some t"
  shows "\<exists>s1. kfree (page_addr (pf (pte_at s d p))) s = Inr s1 \<and> vm_ok M D Q (set_ent t (p mod 1024) 0 s1) \<and> unmapped D d {p} s (set_ent t (p mod 1024) 0 s1)"
proof -
  obtain s1 where s1: "kfree (page_addr (pf (pte_at s d p))) s = Inr s1" and v: "vm_ok M D Q (set_ent t (p mod 1024) 0 s1)"
    and P: "\<forall>d' \<in> D. \<forall>q < 2 ^ 20. pte_at (set_ent t (p mod 1024) 0 s1) d' q = (if d' = d \<and> q = p then 0 else pte_at s d' q)"
    and T: "\<forall>d' \<in> D. \<forall>i < NPDENTRIES. tbl (set_ent t (p mod 1024) 0 s1) d' i = tbl s d' i" "pts D (set_ent t (p mod 1024) 0 s1) = pts D s"
    and B: "\<forall>h. h \<notin># pts D s \<and> (h \<noteq> pf (pte_at s d p) \<or> h \<in># urefs D (set_ent t (p mod 1024) 0 s1) + Q) \<longrightarrow> m_pg (set_ent t (p mod 1024) 0 s1) h = m_pg s h"
    using unmap_page[OF assms] by blast
  have "unmapped D d {p} s (set_ent t (p mod 1024) 0 s1)"
  proof (rule unmappedI)
    fix d' q assume dq: "d' \<in> D" "q < UPAGES" "bit (pte_at (set_ent t (p mod 1024) 0 s1) d' q) 0"
    show "m_pg (set_ent t (p mod 1024) 0 s1) (pf (pte_at (set_ent t (p mod 1024) 0 s1) d' q)) = m_pg s (pf (pte_at (set_ent t (p mod 1024) 0 s1) d' q))"
      using B mapped_frame(1,2)[OF v dq] T(2) by auto
  qed (use P T e in auto)
  then show ?thesis using s1 v by blast
qed

lemma dealloc_skip:
  assumes ok: "vm_ok M D Q s" and d: "d \<in> D" and k: "k < UPAGES" "k * PGSIZE < oldsz" and t: "tbl s d (k div 1024) = None"
  shows "deallocuvm_loop sw (page_addr d) (k * PGSIZE) oldsz s = deallocuvm_loop sw (page_addr d) ((k div 1024 + 1) * 1024 * PGSIZE) oldsz s"
    and "k \<le> q \<Longrightarrow> q < (k div 1024 + 1) * 1024 \<Longrightarrow> pte_at s d q = 0"
proof -
  note kb = page_bounds(1)[OF k(1)]
  have w: "walkpgdir (page_addr d) (of_nat (k * PGSIZE)) False s = Inr (None, s)"
    by (rule walk_absent[OF ok[unfolded vm_ok_def] d]) (use t kb in \<open>simp add: page_walk del: of_nat_mult\<close>)
  have "(k * PGSIZE div 2 ^ 22 + 1) * 2 ^ 22 = (k div 1024 + 1) * 1024 * PGSIZE"
    using div_mult2_eq[of "k * PGSIZE" PGSIZE 1024] by simp
  moreover have "\<not> 2 ^ 32 \<le> k * PGSIZE" using k(1) by (simp add: UPAGES_def)
  ultimately show "deallocuvm_loop sw (page_addr d) (k * PGSIZE) oldsz s = deallocuvm_loop sw (page_addr d) ((k div 1024 + 1) * 1024 * PGSIZE) oldsz s"
    using k(2) by (subst deallocuvm_loop.simps) (simp only: w bindE_simps prod.case option.case if_True if_False)
  assume q: "k \<le> q" "q < (k div 1024 + 1) * 1024"
  then have "q div 1024 = k div 1024" by (metis add.commute div_le_mono le_antisym less_mult_imp_div_less less_Suc_eq_le plus_1_eq_Suc)
  then show "pte_at s d q = 0" using t by (simp add: pte_at_def)
qed

lemma dealloc_page:
  assumes ok: "vm_ok M D Q s" and d: "d \<in> D" and k: "k < UPAGES" "k * PGSIZE < oldsz" and t: "tbl s d (k div 1024) = Some t"
    and z: "0 \<notin> M" and sw: "bit (pte_at s d k) 10 \<longrightarrow> bit (pte_at s d k) 0"
  shows "\<exists>s1. deallocuvm_loop sw (page_addr d) (k * PGSIZE) oldsz s = deallocuvm_loop sw (page_addr d) ((k + 1) * PGSIZE) oldsz s1 \<and>
    vm_ok M D Q s1 \<and> unmapped D d {k} s s1"
proof -
  note kb = page_bounds(1)[OF k(1)]
  have w: "walkpgdir (page_addr d) (of_nat (k * PGSIZE)) False s = Inr (Some (t, k mod 1024), s)" "rd_pte (t, k mod 1024) s = pte_at s d k"
    using walk_present[OF ok[unfolded vm_ok_def] d, of "of_nat (k * PGSIZE)" t] t kb by (simp_all only: page_walk page_number)
  have nx: "k * PGSIZE + PGSIZE = (k + 1) * PGSIZE" by simp
  have sm: "(2 ^ 32 \<le> k * PGSIZE) = False" "(k * PGSIZE < oldsz) = True" using k by (simp_all add: UPAGES_def)
  note unf = deallocuvm_loop.simps[of sw "page_addr d" "k * PGSIZE" oldsz s, unfolded sm w(1) bindE_simps prod.case option.case if_True if_False w(2) Let_def nx on_bits]
  show ?thesis
  proof (cases "bit (pte_at s d k) 0")
    case False
    moreover have "unmapped D d {k} s s" by (rule unmapped_refl) (use False in auto)
    ultimately show ?thesis using sw ok by (intro exI[of _ s]) (simp add: unf)
  next
    case True
    obtain s1 where s1: "kfree (page_addr (pf (pte_at s d k))) s = Inr s1"
      "vm_ok M D Q (set_ent t (k mod 1024) 0 s1)" "unmapped D d {k} s (set_ent t (k mod 1024) 0 s1)"
      using unmap_one[OF ok d k(1) True t] by blast
    have "pf (pte_at s d k) \<in> M"
      using pool_okD(1)[OF tables_okD(2)[OF vm_okD[OF ok]]] tables_okD(9)[OF vm_okD[OF ok] mapped_frame(1)[OF ok d k(1) True]] by blast
    then have "pf (pte_at s d k) \<noteq> 0" using z by (intro notI) simp
    then show ?thesis using s1 True PTE_ADDR_nonzero
      by (intro exI[of _ "set_ent t (k mod 1024) 0 s1"]) (simp add: unf P2V_pf wr_pte_def del: of_nat_mult)
  qed
qed

lemma dealloc_loop_ok:
  assumes "vm_ok M D Q s" and "d \<in> D" and "0 \<notin> M" and "oldsz \<le> UPAGES * PGSIZE" and "\<forall>q < UPAGES. bit (pte_at s d q) 10 \<longrightarrow> bit (pte_at s d q) 0"
    and "k \<le> UPAGES"
  shows "\<exists>s'. deallocuvm_loop sw (page_addr d) (k * PGSIZE) oldsz s = Inr s' \<and> vm_ok M D Q s' \<and> unmapped D d {q. k \<le> q \<and> q * PGSIZE < oldsz} s s'"
  using assms
proof (induction "oldsz - k * PGSIZE" arbitrary: k s rule: less_induct)
  case less
  note ok = less.prems(1) and d = less.prems(2)
  have small: "\<not> 2 ^ 32 \<le> k * PGSIZE" using less.prems(6) by (simp add: UPAGES_def)
  show ?case
  proof (cases "k * PGSIZE < oldsz")
    case False
    have "unmapped D d {q. k \<le> q \<and> q * PGSIZE < oldsz} s s" by (rule unmapped_refl) (use False in auto)
    then show ?thesis using False ok small by (subst deallocuvm_loop.simps) simp
  next
    case True
    then have ku: "k < UPAGES" using less.prems(4) by (simp add: UPAGES_def)
    then have kb: "k < 2 ^ 20" by (rule page_bounds(1))
    show ?thesis
    proof (cases "tbl s d (k div 1024)")
      case None
      let ?k = "(k div 1024 + 1) * 1024"
      note sk = dealloc_skip[OF ok d ku True None]
      have "k < ?k" "?k \<le> UPAGES" using ku by (simp_all add: UPAGES_def)
      then have "oldsz - ?k * PGSIZE < oldsz - k * PGSIZE" using True by (intro diff_less_mono2 mult_strict_right_mono) simp_all
      from less.hyps[OF this ok d less.prems(3,4,5) \<open>?k \<le> UPAGES\<close>]
      obtain s' where s': "deallocuvm_loop sw (page_addr d) (?k * PGSIZE) oldsz s = Inr s'" "vm_ok M D Q s'"
        "unmapped D d {q. ?k \<le> q \<and> q * PGSIZE < oldsz} s s'" by blast
      have "unmapped D d ({q. k \<le> q \<and> q < ?k \<and> q * PGSIZE < oldsz} \<union> {q. ?k \<le> q \<and> q * PGSIZE < oldsz}) s s'"
        by (rule unmapped_trans[OF unmapped_refl s'(3)]) (use sk(2) in auto)
      moreover have "{q. k \<le> q \<and> q < ?k \<and> q * PGSIZE < oldsz} \<union> {q. ?k \<le> q \<and> q * PGSIZE < oldsz} = {q. k \<le> q \<and> q * PGSIZE < oldsz}"
        using \<open>k < ?k\<close> by auto
      ultimately have "unmapped D d {q. k \<le> q \<and> q * PGSIZE < oldsz} s s'" by metis
      then show ?thesis using s'(1,2) sk(1)[of sw] by metis
    next
      case (Some t)
      obtain s1 where s1: "deallocuvm_loop sw (page_addr d) (k * PGSIZE) oldsz s = deallocuvm_loop sw (page_addr d) ((k + 1) * PGSIZE) oldsz s1"
        "vm_ok M D Q s1" "unmapped D d {k} s s1"
        using dealloc_page[OF ok d ku True Some less.prems(3)] less.prems(5) ku by blast
      have r: "\<forall>q < UPAGES. bit (pte_at s1 d q) 10 \<longrightarrow> bit (pte_at s1 d q) 0"
        using unmappedD(1)[OF s1(3) d page_bounds(1)] less.prems(5) by auto
      have "oldsz - (k + 1) * PGSIZE < oldsz - k * PGSIZE" "k + 1 \<le> UPAGES" using True ku by (auto intro!: diff_less_mono2)
      from less.hyps[OF this(1) s1(2) d less.prems(3,4) r this(2)]
      obtain s' where s': "deallocuvm_loop sw (page_addr d) ((k + 1) * PGSIZE) oldsz s1 = Inr s'" "vm_ok M D Q s'"
        "unmapped D d {q. k + 1 \<le> q \<and> q * PGSIZE < oldsz} s1 s'" by blast
      have "{k} \<union> {q. k + 1 \<le> q \<and> q * PGSIZE < oldsz} = {q. k \<le> q \<and> q * PGSIZE < oldsz}" using True by auto
      then have "unmapped D d {q. k \<le> q \<and> q * PGSIZE < oldsz} s s'" using unmapped_trans[OF s1(3) s'(3)] by metis
      then show ?thesis using s'(1,2) s1(1) by metis
    qed
  qed
qed

section \<open>A whole address space\<close>

lemma release_extra:
  assumes ok: "vm_ok M D (add_mset f Q) s"
  shows "\<exists>s'. kfree (page_addr f) s = Inr s' \<and> vm_ok M D Q s' \<and> unchanged D s s' \<and> (\<forall>h. h \<noteq> f \<longrightarrow> m_pg s' h = m_pg s h)"
proof -
  let ?R = "pts D s + urefs D s + Q"
  have R: "pts D s + urefs D s + add_mset f Q = add_mset f ?R" by simp
  note tok = vm_okD[OF ok, unfolded R]
  have np: "f \<notin># pts D s"
  proof
    assume a: "f \<in># pts D s"
    then have "0 < count (pts D s) f" unfolding count_greater_zero_iff .
    then show False using tables_okD(4)[OF tok a] by (simp add: count_union del: count_greater_zero_iff)
  qed
  obtain s' where s': "kfree (page_addr f) s = Inr s'" "tables_ok M D s' ?R" "\<forall>d \<in> D. \<forall>q < 2 ^ 20. pte_at s' d q = pte_at s d q"
    "pts D s' = pts D s" "urefs D s' = urefs D s" "\<forall>h. h \<noteq> f \<or> f \<in># ?R \<longrightarrow> m_pg s' h = m_pg s h"
    using release_ref[OF tok np] by auto
  have "m_pg s' (pf (pte_at s d q)) = m_pg s (pf (pte_at s d q))" if "d \<in> D" "q < UPAGES" "bit (pte_at s d q) 0" for d q
    using s'(6) mapped_frame(1)[OF ok that] by auto
  then have "unchanged D s s'" using s'(3) page_bounds(1) by (simp add: unchanged_def)
  moreover have "vm_ok M D Q s'" using s'(2) by (simp add: vm_ok_def s'(4,5))
  ultimately show ?thesis using s'(1,6) by blast
qed

lemma unchanged_trans: "unchanged D s s1 \<Longrightarrow> unchanged D s1 s2 \<Longrightarrow> unchanged D s s2"
  by (simp add: unchanged_def)

lemma tbl_bytes: "m_pg s' d = m_pg s d \<Longrightarrow> tbl s' d i = tbl s d i" "m_pg s' d = m_pg s d \<Longrightarrow> ent s' d i = ent s d i"
  by (simp_all add: tbl_def ent_def)

lemma free_tables_ok:
  assumes "vm_ok M D (add_mset d Q + (\<Sum>i\<leftarrow>is. tm (tbl s d i))) s" and "\<forall>i \<in> set is. tbl s d i \<noteq> Some d"
  shows "\<exists>s'. foldE (free_table (page_addr d)) is s = Inr s' \<and> vm_ok M D (add_mset d Q) s' \<and> unchanged D s s'"
  using assms
proof (induction "is" arbitrary: s)
  case Nil
  then show ?case by (simp add: unchanged_def)
next
  case (Cons i "is")
  have "d \<in># pts D s + urefs D s + (add_mset d Q + (\<Sum>i\<leftarrow>i # is. tm (tbl s d i)))" by simp
  then have d: "d < NPDATAMAP" by (rule tables_okD(8)[OF vm_okD[OF Cons.prems(1)]])
  show ?case
  proof (cases "tbl s d i")
    case None
    then have "free_table (page_addr d) i s = Inr s" using d
      by (auto simp: free_table_def page_addr_props(1) tbl_def Let_def split: if_splits)
    moreover have "vm_ok M D (add_mset d Q + (\<Sum>i\<leftarrow>is. tm (tbl s d i))) s" using Cons.prems(1) None by (simp add: tm_def)
    ultimately show ?thesis using Cons.IH[of s] Cons.prems(2) by simp
  next
    case (Some t)
    then have e: "bit (ent s d i) 0" "pf (ent s d i) = t" by (auto simp: tbl_def split: if_splits)
    have "vm_ok M D (add_mset t (add_mset d Q + (\<Sum>i\<leftarrow>is. tm (tbl s d i)))) s" using Cons.prems(1) Some by (simp add: tm_def)
    from release_extra[OF this] obtain s1 where s1: "kfree (page_addr t) s = Inr s1"
      "vm_ok M D (add_mset d Q + (\<Sum>i\<leftarrow>is. tm (tbl s d i))) s1" "unchanged D s s1" "\<forall>h. h \<noteq> t \<longrightarrow> m_pg s1 h = m_pg s h" by blast
    have "free_table (page_addr d) i s = Inr s1" using s1(1) e d by (simp add: free_table_def page_addr_props(1) Let_def P2V_pf)
    moreover have "m_pg s1 d = m_pg s d" using s1(4) Cons.prems(2) Some by auto
    note same = tbl_bytes(1)[OF this]
    obtain s' where "foldE (free_table (page_addr d)) is s1 = Inr s'" "vm_ok M D (add_mset d Q) s'" "unchanged D s1 s'"
      using Cons.IH[of s1] s1(2) Cons.prems(2) by (auto simp: same)
    ultimately show ?thesis using unchanged_trans[OF s1(3)] by auto
  qed
qed

text \<open>A space with no user page left can be handed over to the caller, table by table.\<close>

lemma drop_space:
  assumes ok: "vm_ok M D Q s" and d: "d \<in> D" and none: "\<forall>q < UPAGES. \<not> bit (pte_at s d q) 0"
  shows "vm_ok M (D - {d}) (add_mset d Q + (\<Sum>i\<leftarrow>[0..<NPDENTRIES]. tm (tbl s d i))) s"
proof -
  note tok = vm_okD[OF ok] and fin = tables_okD(1)[OF vm_okD[OF ok]]
  have "(\<Sum>p<UPAGES. um (pte_at s d p)) = {#}" using none by (intro sum.neutral) (simp add: um_def)
  then have ur: "urefs D s = urefs (D - {d}) s" unfolding urefs_def sum.remove[OF fin d] by simp
  have tl: "(\<Sum>i\<leftarrow>[0..<NPDENTRIES]. tm (tbl s d i)) = (\<Sum>i<NPDENTRIES. tm (tbl s d i))"
    by (simp add: interv_sum_list_conv_sum_set_nat atLeast0LessThan)
  have pt: "pts D s = add_mset d (\<Sum>i<NPDENTRIES. tm (tbl s d i)) + pts (D - {d}) s" unfolding pts_def sum.remove[OF fin d] by simp
  have R: "pts (D - {d}) s + urefs (D - {d}) s + (add_mset d Q + (\<Sum>i<NPDENTRIES. tm (tbl s d i))) = pts D s + urefs D s + Q"
    unfolding pt ur by simp
  have "count (pts (D - {d}) s) f = 1" if "f \<in># pts (D - {d}) s" for f
  proof -
    have "0 < count (pts (D - {d}) s) f" using that unfolding count_greater_zero_iff .
    moreover have "count (pts D s) f = 1" using tables_okD(3)[OF tok, of f] that by (simp add: pt)
    ultimately show ?thesis unfolding pt count_union by linarith
  qed
  moreover have "f \<in># pts D s" if "f \<in># pts (D - {d}) s" for f using that by (simp add: pt)
  ultimately have "tables_ok M (D - {d}) s (pts D s + urefs D s + Q)"
    using tok unfolding tables_ok_def ur[symmetric] by blast
  then show ?thesis unfolding vm_ok_def tl R .
qed



end
