(* ===== verification/Grep.thy ===== *)
theory Grep
  imports Cstring Bytes
begin

text \<open>
  The user program \<^verbatim>\<open>grep.c\<close>: its matcher for patterns over \<open>^ . * $\<close>, and the loop that reads a file
  through a buffer of 1024 bytes and prints the lines that match. A \<open>char*\<close> to a string is the list of
  the bytes before its NUL, so that \<open>text++\<close> is \<open>tl\<close> and \<open>*text\<close> is \<open>ch text 0\<close>. The matcher is proved
  equal to a denotational reading of the pattern, the loop to a filter on the lines of the file.
\<close>

section \<open>The matcher\<close>

definition ch :: "u8 list \<Rightarrow> nat \<Rightarrow> u8" where
  "ch s i = (if i < length s then s ! i else 0)"

text \<open>The bytes \<open>'*'\<close>, \<open>'.'\<close>, \<open>'$'\<close>, \<open>'^'\<close> and \<open>'\n'\<close> are 42, 46, 36, 94 and 10.\<close>

function (sequential) matchhere :: "u8 list \<Rightarrow> u8 list \<Rightarrow> bool" and matchstar :: "u8 \<Rightarrow> u8 list \<Rightarrow> u8 list \<Rightarrow> bool" where
  "matchhere re str =
     (if re = [] then True
      else if ch re 1 = 42 then matchstar (ch re 0) (drop 2 re) str
      else if ch re 0 = 36 \<and> ch re 1 = 0 then ch str 0 = 0
      else if str \<noteq> [] \<and> (ch re 0 = 46 \<or> ch re 0 = ch str 0) then matchhere (drop 1 re) (drop 1 str)
      else False)"
| "matchstar c re str =
     (if matchhere re str then True
      else if str \<noteq> [] \<and> (ch str 0 = c \<or> c = 46) then matchstar c re (drop 1 str)
      else False)"
  by pat_completeness auto
termination
proof (relation "inv_image (less_than <*lex*> less_than <*lex*> less_than)
     (\<lambda>x. case x of Inl (re, str) \<Rightarrow> (length re, length str, 0) | Inr (c, re, str) \<Rightarrow> (length re, length str, 1 :: nat))")
  fix re :: "u8 list"
  assume "re \<noteq> []"
  then have "length re - 2 < length re" "length re - 1 < length re" by (cases re; simp)+
  then show "\<And>str. (Inr (ch re 0, drop 2 re, str), Inl (re, str)) \<in> inv_image (less_than <*lex*> less_than <*lex*> less_than)
     (\<lambda>x. case x of Inl (re, str) \<Rightarrow> (length re, length str, 0) | Inr (c, re, str) \<Rightarrow> (length re, length str, 1 :: nat))"
    and "\<And>str. (Inl (drop 1 re, drop 1 str), Inl (re, str)) \<in> inv_image (less_than <*lex*> less_than <*lex*> less_than)
     (\<lambda>x. case x of Inl (re, str) \<Rightarrow> (length re, length str, 0) | Inr (c, re, str) \<Rightarrow> (length re, length str, 1 :: nat))"
    by simp_all
qed auto

declare matchhere.simps [simp del] matchstar.simps [simp del]

fun match_any :: "u8 list \<Rightarrow> u8 list \<Rightarrow> bool" where
  "match_any re [] = matchhere re []"
| "match_any re (c # str) = (if matchhere re (c # str) then True else match_any re str)"

definition match_re :: "u8 list \<Rightarrow> u8 list \<Rightarrow> bool" where
  "match_re re str = (if ch re 0 = 94 then matchhere (drop 1 re) str else match_any re str)"

section \<open>What a pattern means\<close>

text \<open>A pattern is a sequence of items, each a byte or any number of a byte, with \<open>.\<close> for every byte, and may end in \<open>$\<close>.\<close>

datatype item = One u8 | Star u8 | EndMark

fun items :: "u8 list \<Rightarrow> item list" where
  "items [] = []"
| "items [c] = (if c = 36 then [EndMark] else [One c])"
| "items (c # d # re) = (if d = 42 then Star c # items re else One c # items (d # re))"

definition stands_for :: "u8 \<Rightarrow> u8 \<Rightarrow> bool" where
  "stands_for c x \<longleftrightarrow> c = 46 \<or> c = x"

inductive matches :: "item list \<Rightarrow> u8 list \<Rightarrow> u8 list \<Rightarrow> bool" where
  none: "matches [] [] rest"
| one: "stands_for c x \<Longrightarrow> matches is u rest \<Longrightarrow> matches (One c # is) (x # u) rest"
| star: "\<forall>x \<in> set w. stands_for c x \<Longrightarrow> matches is u rest \<Longrightarrow> matches (Star c # is) (w @ u) rest"
| end_mark: "matches [EndMark] [] []"

inductive_simps matches_simps [simp]: "matches [] u r" "matches (One c # is) u r" "matches [EndMark] u r"
inductive_cases matches_starE: "matches (Star c # is) u r"

definition here :: "u8 list \<Rightarrow> u8 list \<Rightarrow> bool" where
  "here re str \<longleftrightarrow> (\<exists>u rest. str = u @ rest \<and> matches (items re) u rest)"

lemma matches_star_iff:
  "(\<exists>u rest. str = u @ rest \<and> matches (Star c # is) u rest) \<longleftrightarrow>
   (\<exists>u rest. str = u @ rest \<and> matches is u rest) \<or> 
   (\<exists>x t. str = x # t \<and> stands_for c x \<and> (\<exists>u rest. t = u @ rest \<and> matches (Star c # is) u rest))" (is "?l \<longleftrightarrow> ?a \<or> ?b")
proof
  assume ?l
  then obtain w u rest where w: "str = (w @ u) @ rest" "\<forall>x \<in> set w. stands_for c x" "matches is u rest" by (auto elim!: matches_starE)
  show "?a \<or> ?b"
  proof (cases w)
    case Nil
    then show ?thesis using w by auto
  next
    case (Cons x w')
    then have "matches (Star c # is) (w' @ u) rest" using w by (intro matches.star) auto
    then show ?thesis using w Cons by auto
  qed
next
  assume "?a \<or> ?b"
  then show ?l
  proof
    assume ?a
    then show ?l using matches.star[of "[]" c "is"] by fastforce
  next
    assume ?b
    then obtain x w u rest where "str = x # (w @ u) @ rest" "stands_for c x" "\<forall>x \<in> set w. stands_for c x" "matches is u rest"
      by (auto elim!: matches_starE)
    then show ?l using matches.star[of "x # w" c "is" u rest] by (intro exI[of _ "x # w @ u"] exI[of _ rest]) simp
  qed
qed

lemma matchhere_eqs:
  "matchhere [] str"
  "c \<noteq> 0 \<Longrightarrow> matchhere [c] str \<longleftrightarrow> (if c = 36 then ch str 0 = 0 else str \<noteq> [] \<and> (c = 46 \<or> c = ch str 0))"
  "matchhere (c # 42 # re) str = matchstar c re str"
  "d \<noteq> 42 \<Longrightarrow> d \<noteq> 0 \<Longrightarrow> matchhere (c # d # re) str \<longleftrightarrow> str \<noteq> [] \<and> (c = 46 \<or> c = ch str 0) \<and> matchhere (d # re) (drop 1 str)"
  by (simp_all add: matchhere.simps[of "[]"] matchhere.simps[of "[c]"] matchhere.simps[of "c # d # re" for d] ch_def)

lemma matchstar_eq:
  "matchstar c re str \<longleftrightarrow> matchhere re str \<or> (\<exists>x t. str = x # t \<and> stands_for c x \<and> matchstar c re t)"
  unfolding matchstar.simps[of c re str] by (cases str) (auto simp: ch_def stands_for_def)

lemma here_one:
  "(\<exists>u rest. str = u @ rest \<and> matches (One c # is) u rest) \<longleftrightarrow>
   str \<noteq> [] \<and> (c = 46 \<or> c = ch str 0) \<and> (\<exists>u rest. drop 1 str = u @ rest \<and> matches is u rest)" (is "?l \<longleftrightarrow> ?r")
proof
  assume ?l
  then show ?r by (auto simp: ch_def stands_for_def)
next
  assume ?r
  then obtain x t u rest where "str = x # t" "stands_for c x" "t = u @ rest" "matches is u rest"
    by (cases str) (auto simp: ch_def stands_for_def)
  then show ?l by (intro exI[of _ "x # u"] exI[of _ rest]) simp
qed

lemma here_eqs:
  "here [] str"
  "0 \<notin> set str \<Longrightarrow> here [c] str \<longleftrightarrow> (if c = 36 then ch str 0 = 0 else str \<noteq> [] \<and> (c = 46 \<or> c = ch str 0))"
  "d \<noteq> 42 \<Longrightarrow> here (c # d # re) str \<longleftrightarrow> str \<noteq> [] \<and> (c = 46 \<or> c = ch str 0) \<and> here (d # re) (drop 1 str)"
proof -
  show "here [] str" by (simp add: here_def)
  show "0 \<notin> set str \<Longrightarrow> here [c] str \<longleftrightarrow> (if c = 36 then ch str 0 = 0 else str \<noteq> [] \<and> (c = 46 \<or> c = ch str 0))"
    using here_one[of str c "[]"] by (cases str) (auto simp: here_def ch_def)
  show "d \<noteq> 42 \<Longrightarrow> here (c # d # re) str \<longleftrightarrow> str \<noteq> [] \<and> (c = 46 \<or> c = ch str 0) \<and> here (d # re) (drop 1 str)"
    using here_one[of str c "items (d # re)"] by (simp only: here_def items.simps if_False)
qed

text \<open>First the star on shorter texts, then the pattern on shorter patterns.\<close>

lemma star_correct:
  assumes "\<And>t. 0 \<notin> set t \<Longrightarrow> matchhere re t \<longleftrightarrow> here re t" and "0 \<notin> set str"
  shows "matchstar c re str \<longleftrightarrow> (\<exists>u rest. str = u @ rest \<and> matches (Star c # items re) u rest)"
  using assms(2)
proof (induction str)
  case Nil
  then show ?case using assms(1)[of "[]"] unfolding matchstar_eq[of c re "[]"] matches_star_iff[of "[]"] here_def by simp
next
  case (Cons x t)
  then show ?case using assms(1)[of "x # t"] unfolding matchstar_eq[of c re "x # t"] matches_star_iff[of "x # t"] here_def by simp
qed

lemma matchhere_correct: "0 \<notin> set str \<Longrightarrow> 0 \<notin> set re \<Longrightarrow> matchhere re str \<longleftrightarrow> here re str"
proof (induction re arbitrary: str rule: items.induct)
  case (3 c d re)
  show ?case
  proof (cases "d = 42")
    case True
    then have "here (c # d # re) str \<longleftrightarrow> (\<exists>u rest. str = u @ rest \<and> matches (Star c # items re) u rest)" by (simp add: here_def)
    then show ?thesis using star_correct[of re str c] 3 True by (simp add: matchhere_eqs)
  next
    case False
    then have "0 \<notin> set (drop 1 str)" using 3(3) by (auto dest: in_set_dropD)
    then show ?thesis using 3 False by (simp add: matchhere_eqs here_eqs)
  qed
qed (simp_all add: matchhere_eqs here_eqs)

lemma match_any_iff: "match_any re str \<longleftrightarrow> (\<exists>k \<le> length str. matchhere re (drop k str))"
proof (induction str)
  case (Cons x t)
  have "(\<exists>k \<le> length (x # t). matchhere re (drop k (x # t))) \<longleftrightarrow> matchhere re (x # t) \<or> (\<exists>k \<le> length t. matchhere re (drop k t))"
    by (metis (no_types, lifting) Suc_le_mono drop0 drop_Suc_Cons length_Cons not0_implies_Suc le0)
  then show ?case using Cons by simp
qed simp

text \<open>C37. The matcher accepts a line exactly when some stretch of it is a word of the pattern, which starts at
  the beginning of the line if the pattern starts with \<open>^\<close> and ends at its end if the pattern ends with \<open>$\<close>.\<close>

theorem match_re_correct:
  assumes "0 \<notin> set re" and "0 \<notin> set str"
  shows "match_re re str \<longleftrightarrow>
    (\<exists>pre u rest. str = pre @ u @ rest \<and>
       (if ch re 0 = 94 then pre = [] \<and> matches (items (drop 1 re)) u rest else matches (items re) u rest))"
proof -
  have d: "0 \<notin> set (drop k str)" "0 \<notin> set (drop 1 re)" for k using assms by (auto dest: in_set_dropD)
  have "(\<exists>k \<le> length str. \<exists>u rest. drop k str = u @ rest \<and> matches (items re) u rest) \<longleftrightarrow>
      (\<exists>pre u rest. str = pre @ u @ rest \<and> matches (items re) u rest)"
    by (metis append_eq_conv_conj append_take_drop_id le_add1 length_append)
  then show ?thesis using assms d(2) matchhere_correct[OF d(1)]
    by (auto simp: match_re_def match_any_iff matchhere_correct here_def)
qed

section \<open>Reading lines\<close>

text \<open>
  What \<open>read\<close> finds on a descriptor is a list of chunks: one chunk is a file, several are what the writers of
  a pipe have written. A read takes at most what the first chunk has, and an empty result is the end.
\<close>

fun read_input :: "nat \<Rightarrow> u8 list list \<Rightarrow> u8 list \<times> u8 list list" where
  "read_input n [] = ([], [])"
| "read_input n (x # xs) = (take n x, if length x \<le> n then xs else drop n x # xs)"

fun strchr_off :: "u8 list \<Rightarrow> u8 \<Rightarrow> nat option" where
  "strchr_off [] c = None"
| "strchr_off (x # s) c = (if x = 0 then None else if x = c then Some 0 else map_option Suc (strchr_off s c))"

definition cstring :: "u8 list \<Rightarrow> u8 list" where
  "cstring s = takeWhile (\<lambda>x. x \<noteq> 0) s"

lemma strchr_off_lt: "strchr_off s c = Some k \<Longrightarrow> k < length s"
  by (induction s c arbitrary: k rule: strchr_off.induct) (auto split: if_splits)

function grep_lines :: "u8 list \<Rightarrow> u8 list \<Rightarrow> nat \<Rightarrow> u8 list \<Rightarrow> nat \<times> u8 list \<times> u8 list" where
  "grep_lines pattern buf p out =
     (case strchr_off (drop p buf) 10 of
        None \<Rightarrow> (p, buf, out)
      | Some k \<Rightarrow>
          let q = p + k; buf = buf[q := 0] in
          if match_re pattern (cstring (drop p buf)) then
            let buf = buf[q := 10] in grep_lines pattern buf (q + 1) (out @ take (q + 1 - p) (drop p buf))
          else grep_lines pattern buf (q + 1) out)"
  by pat_completeness auto
termination
  by (relation "measure (\<lambda>(pattern, buf, p, out). length buf - p)") (auto dest: strchr_off_lt)

declare grep_lines.simps [simp del]

lemma read_input_length: "sum_list (map length (snd (read_input n xs))) + length (fst (read_input n xs)) = sum_list (map length xs)"
  by (cases xs) auto

function grep_loop :: "u8 list \<Rightarrow> u8 list \<Rightarrow> nat \<Rightarrow> u8 list list \<Rightarrow> u8 list \<Rightarrow> u8 list" where
  "grep_loop pattern buf m input out =
     (let x = fst (read_input (1024 - m - 1) input) in
      if x = [] then out
      else
        let n = m + length x; buf = (put_bytes buf m x)[n := 0];
            (p, buf, out) = grep_lines pattern buf 0 out;
            n = (if p = 0 then 0 else n)
        in if n > 0 then grep_loop pattern (put_bytes buf 0 (take (n - p) (drop p buf))) (n - p) (snd (read_input (1024 - m - 1) input)) out
           else grep_loop pattern buf n (snd (read_input (1024 - m - 1) input)) out)"
  by pat_completeness auto
termination
proof (relation "measure (\<lambda>(pattern, buf, m, input, out). sum_list (map length input))")
  fix m :: nat and input :: "u8 list list" and x
  assume x: "x = fst (read_input (1024 - m - 1) input)" "x \<noteq> []"
  then have "0 < length (fst (read_input (1024 - m - 1) input))" by simp
  then have *: "sum_list (map length (snd (read_input (1024 - m - 1) input))) < sum_list (map length input)"
    using read_input_length[of "1024 - m - 1" input] by linarith
  show "((pattern, b, k, snd (read_input (1024 - m - 1) input), o'), pattern, buf, m, input, out) \<in> measure (\<lambda>(pattern, buf, m, input, out). sum_list (map length input))"
    for pattern b o' buf out :: "u8 list" and k using * by simp
  show "((pattern, b, k, snd (read_input (1024 - m - 1) input), o'), pattern, buf, m, input, out) \<in> measure (\<lambda>(pattern, buf, m, input, out). sum_list (map length input))"
    for pattern b o' buf out :: "u8 list" and k using * by simp
qed simp

declare grep_loop.simps [simp del]

definition grep :: "u8 list \<Rightarrow> u8 list list \<Rightarrow> u8 list" where
  "grep pattern input = grep_loop pattern (replicate 1024 0) 0 input []"

text \<open>
  \<open>main\<close>: what is written, with the descriptor it is written to. \<open>opens\<close> gives what \<open>open\<close> finds under a name.
\<close>

fun grep_files :: "u8 list \<Rightarrow> (u8 list \<Rightarrow> u8 list list option) \<Rightarrow> u8 list list \<Rightarrow> (nat \<times> u8 list) list" where
  "grep_files pattern opens [] = []"
| "grep_files pattern opens (name # argv) =
     (case opens name of
        None \<Rightarrow> [(1, byte_string ''grep: cannot open '' @ name @ [10])]
      | Some input \<Rightarrow> (1, grep pattern input) # grep_files pattern opens argv)"

definition grep_main :: "u8 list list \<Rightarrow> u8 list list \<Rightarrow> (u8 list \<Rightarrow> u8 list list option) \<Rightarrow> (nat \<times> u8 list) list" where
  "grep_main argv stdin opens =
     (if length argv \<le> 1 then [(2, byte_string ''usage: grep pattern [file ...]'' @ [10])]
      else if length argv \<le> 2 then [(1, grep (argv ! 1) stdin)]
      else grep_files (argv ! 1) opens (drop 2 argv))"

section \<open>The lines of a text\<close>

text \<open>The complete lines of a text that continues the line \<open>l\<close>, and the beginning of a line it ends with.\<close>

fun lines_from :: "u8 list \<Rightarrow> u8 list \<Rightarrow> u8 list list" where
  "lines_from l [] = []"
| "lines_from l (c # s) = (if c = 10 then l # lines_from [] s else lines_from (l @ [c]) s)"

fun last_from :: "u8 list \<Rightarrow> u8 list \<Rightarrow> u8 list" where
  "last_from l [] = l"
| "last_from l (c # s) = (if c = 10 then last_from [] s else last_from (l @ [c]) s)"

abbreviation lines_of :: "u8 list \<Rightarrow> u8 list list" where
  "lines_of s \<equiv> lines_from [] s"

definition selected :: "u8 list \<Rightarrow> u8 list list \<Rightarrow> u8 list" where
  "selected pattern ls = concat (map (\<lambda>l. l @ [10]) (filter (match_re pattern) ls))"

lemma selected_append [simp]: "selected pattern (xs @ ys) = selected pattern xs @ selected pattern ys"
  by (simp add: selected_def)

lemma selected_Cons: "selected pattern (l # ls) = (if match_re pattern l then l @ [10] else []) @ selected pattern ls"
  by (simp add: selected_def)

lemma lines_append: "lines_from l (s @ t) = lines_from l s @ lines_from (last_from l s) t"
  by (induction s arbitrary: l) auto

lemma last_from_append: "last_from l (s @ t) = last_from (last_from l s) t"
  by (induction s arbitrary: l) auto

lemma lines_none: "10 \<notin> set s \<Longrightarrow> lines_from l s = []" "10 \<notin> set s \<Longrightarrow> last_from l s = l @ s"
  by (induction s arbitrary: l) auto

lemma last_from_length: "length (last_from l s) \<le> length l + length s"
proof (induction s arbitrary: l)
  case (Cons c s)
  then show ?case using Cons.IH[of "[]"] Cons.IH[of "l @ [c]"] by simp
qed simp

lemma last_no_newline: "10 \<notin> set l \<Longrightarrow> 10 \<notin> set (last_from l s)"
  by (induction s arbitrary: l) simp_all

lemma last_no_nul: "0 \<notin> set l \<Longrightarrow> 0 \<notin> set s \<Longrightarrow> 0 \<notin> set (last_from l s)"
  by (induction s arbitrary: l) simp_all

lemma strchr_none: "0 \<notin> set s \<Longrightarrow> 10 \<notin> set s \<Longrightarrow> strchr_off (s @ 0 # r) 10 = None"
  by (induction s) auto

lemma strchr_some: "0 \<notin> set l \<Longrightarrow> 10 \<notin> set l \<Longrightarrow> strchr_off (l @ 10 # r) 10 = Some (length l)"
  by (induction l) auto

lemma cstring_line: "0 \<notin> set l \<Longrightarrow> cstring (l @ 0 # r) = l"
  by (induction l) (auto simp: cstring_def)

lemma grep_lines_correct:
  assumes "0 \<notin> set s"
  shows "\<exists>pre'. grep_lines pattern (pre @ s @ 0 # r) (length pre) out = (length pre', pre' @ last_from [] s @ 0 # r, out @ selected pattern (lines_of s)) \<and>
    length pre' + length (last_from [] s) = length pre + length s \<and> (10 \<in> set s \<longleftrightarrow> length pre < length pre')"
  using assms
proof (induction "length s" arbitrary: s pre out rule: less_induct)
  case less
  show ?case
  proof (cases "10 \<in> set s")
    case False
    then show ?thesis using less.prems
      by (intro exI[of _ pre]) (simp add: grep_lines.simps strchr_none lines_none selected_def)
  next
    case True
    then obtain l s' where s: "s = l @ 10 # s'" "10 \<notin> set l" by (meson split_list_first)
    have n: "0 \<notin> set l" "0 \<notin> set s'" using less.prems s by auto
    have k: "strchr_off (drop (length pre) (pre @ s @ 0 # r)) 10 = Some (length l)" using s n by (simp add: strchr_some)
    have u: "(pre @ s @ 0 # r)[length pre + length l := x] = (pre @ l @ [x]) @ s' @ 0 # r" for x by (simp add: s list_update_append)
    have m: "cstring (drop (length pre) ((pre @ l @ [0]) @ s' @ 0 # r)) = l" using n by (simp add: cstring_line)
    have step: "grep_lines pattern (pre @ s @ 0 # r) (length pre) out =
      (if match_re pattern l then grep_lines pattern ((pre @ l @ [10]) @ s' @ 0 # r) (length (pre @ l @ [10])) (out @ l @ [10])
       else grep_lines pattern ((pre @ l @ [0]) @ s' @ 0 # r) (length (pre @ l @ [0])) out)"
      unfolding grep_lines.simps[of pattern "pre @ s @ 0 # r"] k option.case Let_def u m by (simp add: s list_update_append)
    have len: "length s' < length s" by (simp add: s)
    have sel: "selected pattern (lines_of s) = (if match_re pattern l then l @ [10] else []) @ selected pattern (lines_of s')" "last_from [] s = last_from [] s'"
      using s(2) unfolding s(1) by (simp_all add: lines_append last_from_append lines_none selected_Cons)
    note short = last_from_length[of "[]" s']
    show ?thesis
    proof (cases "match_re pattern l")
      case True
      then show ?thesis using less.hyps[OF len n(2), of "pre @ l @ [10]" "out @ l @ [10]"] s step sel short by auto
    next
      case False
      then show ?thesis using less.hyps[OF len n(2), of "pre @ l @ [0]" out] s step sel short by auto
    qed
  qed
qed

text \<open>Every line, complete or not, fits in the buffer with its newline.\<close>

definition short_lines :: "u8 list \<Rightarrow> u8 list \<Rightarrow> bool" where
  "short_lines l s \<longleftrightarrow> (\<forall>k \<in> set (lines_from l s). length k \<le> 1022) \<and> length (last_from l s) \<le> 1022"

lemma short_lines_start: "short_lines l s \<Longrightarrow> length l \<le> 1022"
proof (induction s arbitrary: l)
  case (Cons c s)
  show ?case
  proof (cases "c = 10")
    case True
    then show ?thesis using Cons.prems by (simp add: short_lines_def)
  next
    case False
    then have "short_lines (l @ [c]) s" using Cons.prems by (simp add: short_lines_def)
    then have "length (l @ [c]) \<le> 1022" by (rule Cons.IH)
    then show ?thesis by simp
  qed
qed (simp add: short_lines_def)

lemma short_lines_append: "short_lines l (s @ t) \<Longrightarrow> short_lines (last_from l s) t"
  by (simp add: short_lines_def lines_append last_from_append)

lemma read_into:
  assumes "length buf = 1024" and "take m buf = w" and "m + length x \<le> 1023"
  shows "(put_bytes buf m x)[m + length x := 0] = (w @ x) @ 0 # drop (m + length x + 1) buf" and "length w = m"
proof -
  show "length w = m" using assms by auto
  moreover have "drop (m + length x) buf = buf ! (m + length x) # drop (m + length x + 1) buf" using assms by (simp add: Cons_nth_drop_Suc)
  ultimately show "(put_bytes buf m x)[m + length x := 0] = (w @ x) @ 0 # drop (m + length x + 1) buf"
    using assms by (simp add: put_bytes_def list_update_append)
qed

lemma grep_loop_end: "grep_loop pattern buf m [] out = out"
  by (simp add: grep_loop.simps)

lemma grep_loop_correct:
  assumes "length buf = 1024" and "take m buf = w" and "m \<le> 1022" and "10 \<notin> set w" and "0 \<notin> set w" and "0 \<notin> set r" and "short_lines w r"
  shows "grep_loop pattern buf m [r] out = out @ selected pattern (lines_from w r)"
  using assms
proof (induction "length r" arbitrary: r buf m w out rule: less_induct)
  case less
  let ?x = "take (1024 - m - 1) r" and ?r2 = "drop (1024 - m - 1) r"
  show ?case
  proof (cases "r = []")
    case True
    then show ?thesis by (simp add: grep_loop.simps selected_def)
  next
    case False
    note ne = False
    have x: "?x \<noteq> []" "m + length ?x \<le> 1023" "0 \<notin> set (w @ ?x)" using False less.prems(3,5,6) by (auto dest: in_set_takeD)
    note ri = read_into[OF less.prems(1,2) x(2)]
    obtain pre where pre: "grep_lines pattern ((put_bytes buf m ?x)[m + length ?x := 0]) 0 out =
        (length pre, pre @ last_from [] (w @ ?x) @ 0 # drop (m + length ?x + 1) buf, out @ selected pattern (lines_of (w @ ?x)))"
      and plen: "length pre + length (last_from [] (w @ ?x)) = length (w @ ?x)" and nl: "10 \<in> set (w @ ?x) \<longleftrightarrow> 0 < length pre"
      using grep_lines_correct[OF x(3), of pattern "[]" "drop (m + length ?x + 1) buf" out] unfolding ri(1) by auto
    have w: "last_from [] (w @ ?x) = last_from w ?x" "lines_of (w @ ?x) = lines_from w ?x"
      using less.prems(4) by (simp_all add: last_from_append lines_append lines_none)
    show ?thesis
    proof (cases "length r \<le> 1024 - m - 1")
      case True
      then show ?thesis using False pre w by (simp add: grep_loop.simps[of pattern buf] grep_loop_end Let_def)
    next
      case False
      note long = False
      have full: "length (w @ ?x) = 1023" and rr: "r = ?x @ ?r2" using long less.prems(3) ri(2) by auto
      have sl: "short_lines (last_from w ?x) ?r2" using less.prems(7) rr short_lines_append by metis
      have "10 \<in> set (w @ ?x)"
      proof (rule ccontr)
        assume "10 \<notin> set (w @ ?x)"
        then have "length (last_from w ?x) = 1023" using full by (simp add: lines_none)
        then show False using short_lines_start[OF sl] by simp
      qed
      then have pos: "0 < length pre" using nl by simp
      let ?l = "last_from w ?x" and ?b = "pre @ last_from w ?x @ 0 # drop (m + length ?x + 1) buf"
      let ?b' = "put_bytes ?b 0 ?l"
      have blen: "length ?b = 1024" using plen[unfolded w full] less.prems(1,3) long by simp
      have cp: "take (m + length ?x - length pre) (drop (length pre) ?b) = ?l" "m + length ?x - length pre = length ?l"
        using plen[unfolded w] ri(2) by simp_all
      have step: "grep_loop pattern buf m [r] out = grep_loop pattern ?b' (length ?l) [?r2] (out @ selected pattern (lines_from w ?x))"
        using x(1) long pos pre[unfolded w] cp ne by (subst grep_loop.simps) (simp add: Let_def)
      have "grep_loop pattern ?b' (length ?l) [?r2] (out @ selected pattern (lines_from w ?x)) =
          (out @ selected pattern (lines_from w ?x)) @ selected pattern (lines_from ?l ?r2)"
      proof (rule less.hyps)
        show "length ?r2 < length r" using ne less.prems(3) length_greater_0_conv[of r] unfolding length_drop by linarith
        have "0 + length ?l \<le> length ?b" using blen plen[unfolded w full] by linarith
        from length_put_bytes[OF this] show "length ?b' = 1024" unfolding blen .
        show "take (length ?l) ?b' = ?l" by (simp add: put_bytes_def)
        show "length ?l \<le> 1022" by (rule short_lines_start[OF sl])
        show "10 \<notin> set ?l" "0 \<notin> set ?l" using last_no_newline last_no_nul less.prems(4) x(3) by auto
        show "0 \<notin> set ?r2" using less.prems(6) by (auto dest: in_set_dropD)
      qed (rule sl)
      moreover have "lines_from w r = lines_from w ?x @ lines_from ?l ?r2" using rr lines_append by metis
      ultimately show ?thesis using step by simp
    qed
  qed
qed

text \<open>C38. On a file whose lines have at most 1022 bytes \<open>grep\<close> prints, in order and each with its newline, exactly the
  complete lines that match, however they fall on the boundaries of its buffer.\<close>

theorem grep_file_correct:
  assumes "0 \<notin> set r" and "short_lines [] r"
  shows "grep pattern [r] = concat (map (\<lambda>l. l @ [10]) (filter (match_re pattern) (lines_of r)))"
  using grep_loop_correct[of "replicate 1024 0" 0 "[]" r pattern "[]"] assms by (simp add: grep_def selected_def)

text \<open>
  A line that reaches \<open>grep\<close> in two reads, the first without a newline, is not searched as a whole: the
  first part is thrown away, since the code takes it for a line that fills the buffer.
\<close>

lemma grep_drops_partial:
  assumes "u \<noteq> []" "length u \<le> 1023" "0 \<notin> set u" "10 \<notin> set u" and v: "length v \<le> 1022" "0 \<notin> set v" "10 \<notin> set v"
  shows "grep pattern [u, v @ [10]] = (if match_re pattern v then v @ [10] else [])"
proof -
  let ?b = "u @ 0 # drop (length u + 1) (replicate 1024 0)"
  have ri: "(put_bytes (replicate 1024 0) 0 u)[length u := 0] = ?b" using read_into(1)[of "replicate 1024 0" 0 "[]" u] assms by simp
  have gl: "grep_lines pattern ?b 0 [] = (0, ?b, [])" using strchr_none[OF assms(3,4)] by (simp add: grep_lines.simps)
  have "grep pattern [u, v @ [10]] = grep_loop pattern ?b 0 [v @ [10]] []"
    unfolding grep_def using assms(1,2) by (subst grep_loop.simps) (simp add: ri gl[simplified] Let_def)
  also have "\<dots> = [] @ selected pattern (lines_from [] (v @ [10]))"
    by (rule grep_loop_correct) (use assms v in \<open>auto simp: short_lines_def lines_append last_from_append lines_none\<close>)
  finally show ?thesis using v by (simp add: lines_append lines_none selected_def)
qed

section \<open>Concrete runs\<close>

theorem match_re_correct_witness:
  "match_re (byte_string ''^ab*.$'') (byte_string ''abbc'') \<longleftrightarrow>
    (\<exists>pre u rest. byte_string ''abbc'' = pre @ u @ rest \<and>
       (if ch (byte_string ''^ab*.$'') 0 = 94 then pre = [] \<and> matches (items (drop 1 (byte_string ''^ab*.$''))) u rest
        else matches (items (byte_string ''^ab*.$'')) u rest))"
  by (rule match_re_correct) (simp_all add: byte_string_def)

theorem grep_file_correct_witness:
  "grep (byte_string ''b'') [byte_string ''ab'' @ [10] @ byte_string ''c'' @ [10]] = byte_string ''ab'' @ [10]"
proof -
  have "match_re (byte_string ''b'') (byte_string ''ab'')" "\<not> match_re (byte_string ''b'') (byte_string ''c'')" by code_simp+
  then show ?thesis
    using grep_file_correct[of "byte_string ''ab'' @ [10] @ byte_string ''c'' @ [10]" "byte_string ''b''"]
    by (simp add: byte_string_def short_lines_def)
qed

end
