(* ===== verification/Numfmt.thy ===== *)
theory Numfmt
  imports Cstring
begin

text \<open>
  Formatted output: \<open>printint\<close> and \<open>cprintf\<close> of the kernel (\<^verbatim>\<open>console.c\<close>), \<open>printint\<close> and \<open>printf\<close> of the user
  library (\<^verbatim>\<open>printf.c\<close>). A call gives the bytes it outputs, in order, or the fault of a write outside its
  16-byte digit buffer. An argument is a word of the caller's stack, which for \<open>%s\<close> is the address of a string:
  \<open>strs\<close> gives the string at an address.
\<close>

section \<open>Numbers\<close>

text \<open>The loop \<open>do buf[i++] = digits[x % base]; while ((x /= base) != 0)\<close> over \<open>char buf[16]\<close>.\<close>

function put_digits :: "u8 list \<Rightarrow> nat \<Rightarrow> nat \<Rightarrow> nat \<Rightarrow> u8 list \<Rightarrow> (nat \<times> u8 list) res" where
  "put_digits digits base x i buf =
     (if 16 \<le> i then Inl (Fault ''printint: buf'')
      else let buf = buf[i := digits ! (x mod base)] in
           if x div base \<noteq> 0 then put_digits digits base (x div base) (i + 1) buf
           else Inr (i + 1, buf))"
  by pat_completeness auto
termination
  by (relation "measure (\<lambda>(digits, base, x, i, buf). 16 - i)") auto

declare put_digits.simps [simp del]

definition put_sign :: "bool \<Rightarrow> nat \<times> u8 list \<Rightarrow> (nat \<times> u8 list) res" where
  "put_sign neg = (\<lambda>(i, buf).
     if neg then if 16 \<le> i then Inl (Fault ''printint: buf'') else Inr (i + 1, buf[i := 45])
     else Inr (i, buf))"

definition printint_c :: "u32 \<Rightarrow> nat \<Rightarrow> bool \<Rightarrow> u8 list res" where
  "printint_c xx base sign =
     (let neg = (sign \<and> sint xx < 0); x = (if neg then - xx else xx) in
      bindE (put_digits (byte_string ''0123456789abcdef'') base (unat x) 0 (replicate 16 0)) (\<lambda>r.
      bindE (put_sign neg r) (\<lambda>(i, buf). Inr (rev (take i buf)))))"

definition printint_u :: "u32 \<Rightarrow> nat \<Rightarrow> bool \<Rightarrow> nat \<Rightarrow> u8 \<Rightarrow> u8 list res" where
  "printint_u xx base sg pad pad_char =
     (let neg = (sg \<and> sint xx < 0); x = (if neg then - xx else xx) in
      bindE (put_digits (byte_string ''0123456789ABCDEF'') base (unat x) 0 (replicate 16 0)) (\<lambda>r.
      bindE (put_sign neg r) (\<lambda>(i, buf).
      Inr ((if pad > i then replicate (pad - i) pad_char else []) @ rev (take i buf)))))"

section \<open>The kernel's \<open>cprintf\<close>\<close>

definition null_string :: "u8 list" where
  "null_string = byte_string ''(null)''"

definition next_arg :: "u32 list \<Rightarrow> (u32 \<times> u32 list) res" where
  "next_arg args = (case args of [] \<Rightarrow> Inl (Fault ''stack argument'') | a # args \<Rightarrow> Inr (a, args))"

text \<open>The bytes 37, 100, 98, 120, 112, 115, 117 and 99 are \<open>% d b x p s u c\<close>.\<close>

fun cprintf_bytes :: "(u32 \<Rightarrow> u8 list) \<Rightarrow> u8 list \<Rightarrow> u32 list \<Rightarrow> u8 list res" where
  "cprintf_bytes strs [] args = Inr []"
| "cprintf_bytes strs [c] args = (if c \<noteq> 37 then Inr [c] else Inr [])"
| "cprintf_bytes strs (c # d # fmt) args =
     (if c \<noteq> 37 then bindE (cprintf_bytes strs (d # fmt) args) (\<lambda>out. Inr (c # out))
      else if d = 100 then
        bindE (next_arg args) (\<lambda>(a, args). bindE (printint_c a 10 True) (\<lambda>o1. bindE (cprintf_bytes strs fmt args) (\<lambda>out. Inr (o1 @ out))))
      else if d = 98 then
        bindE (next_arg args) (\<lambda>(a, args). bindE (printint_c a 2 False) (\<lambda>o1. bindE (cprintf_bytes strs fmt args) (\<lambda>out. Inr (o1 @ out))))
      else if d = 120 \<or> d = 112 then
        bindE (next_arg args) (\<lambda>(a, args). bindE (printint_c a 16 False) (\<lambda>o1. bindE (cprintf_bytes strs fmt args) (\<lambda>out. Inr (o1 @ out))))
      else if d = 115 then
        bindE (next_arg args) (\<lambda>(a, args). bindE (cprintf_bytes strs fmt args) (\<lambda>out. Inr ((if a = 0 then null_string else strs a) @ out)))
      else if d = 37 then bindE (cprintf_bytes strs fmt args) (\<lambda>out. Inr (37 # out))
      else bindE (cprintf_bytes strs fmt args) (\<lambda>out. Inr (37 # d # out)))"

section \<open>The user's \<open>printf\<close>\<close>

record pstate =
  p_state :: bool
  p_pad :: nat
  p_reading :: bool
  p_char :: u8
  p_args :: "u32 list"
  p_out :: "u8 list"

definition isdigit :: "u8 \<Rightarrow> bool" where
  "isdigit d \<longleftrightarrow> 48 \<le> d \<and> d \<le> 57"

definition toInt :: "u8 \<Rightarrow> nat" where
  "toInt c = unat c - 48"

text \<open>What follows a conversion: the padding is forgotten unless a \<open>0\<close> is still waiting for its width.\<close>

definition conv_done :: "pstate \<Rightarrow> pstate" where
  "conv_done p = (if p_reading p then p else p\<lparr>p_pad := 0, p_char := 32\<rparr>)\<lparr>p_state := False\<rparr>"

definition conv_int :: "nat \<Rightarrow> bool \<Rightarrow> pstate \<Rightarrow> pstate res" where
  "conv_int base sg p =
     bindE (next_arg (p_args p)) (\<lambda>(a, args).
     bindE (printint_u a base sg (p_pad p) (p_char p)) (\<lambda>out. Inr (p\<lparr>p_args := args, p_out := p_out p @ out\<rparr>)))"

definition printf_char :: "(u32 \<Rightarrow> u8 list) \<Rightarrow> u8 \<Rightarrow> pstate \<Rightarrow> pstate res" where
  "printf_char strs c p =
     (if \<not> p_state p then
        if c = 37 then Inr (p\<lparr>p_state := True\<rparr>) else Inr (p\<lparr>p_out := p_out p @ [c]\<rparr>)
      else if c = 48 \<and> \<not> p_reading p then Inr (p\<lparr>p_char := c, p_reading := True\<rparr>)
      else if isdigit c then Inr (p\<lparr>p_reading := False, p_pad := toInt c\<rparr>)
      else bindE
        (if c = 100 then conv_int 10 True p
         else if c = 117 then conv_int 10 False p
         else if c = 120 \<or> c = 112 then conv_int 16 False p
         else if c = 115 then
           bindE (next_arg (p_args p)) (\<lambda>(a, args).
             Inr (p\<lparr>p_args := args, p_out := p_out p @ (if p_pad p \<noteq> 0 then replicate (p_pad p) (p_char p) else []) @ (if a = 0 then null_string else strs a)\<rparr>))
         else if c = 99 then bindE (next_arg (p_args p)) (\<lambda>(a, args). Inr (p\<lparr>p_args := args, p_out := p_out p @ [ucast a]\<rparr>))
         else if c = 37 then Inr (p\<lparr>p_out := p_out p @ [c]\<rparr>)
         else Inr (p\<lparr>p_out := p_out p @ [37, c]\<rparr>))
        (\<lambda>p. Inr (conv_done p)))"

definition printf :: "(u32 \<Rightarrow> u8 list) \<Rightarrow> u8 list \<Rightarrow> u32 list \<Rightarrow> u8 list res" where
  "printf strs fmt args =
     bindE (foldE (printf_char strs) fmt
       \<lparr>p_state = False, p_pad = 0, p_reading = False, p_char = 32, p_args = args, p_out = []\<rparr>) (\<lambda>p. Inr (p_out p))"

section \<open>Numerals\<close>

function digits_of :: "nat \<Rightarrow> nat \<Rightarrow> nat list" where
  "digits_of b n = (if b < 2 \<or> n < b then [n] else digits_of b (n div b) @ [n mod b])"
  by pat_completeness auto
termination
  by (relation "measure (\<lambda>(b, n). n)") auto

declare digits_of.simps [simp del]

fun value_of :: "nat \<Rightarrow> nat list \<Rightarrow> nat" where
  "value_of b [] = 0"
| "value_of b (d # ds) = d * b ^ length ds + value_of b ds"

lemma value_of_snoc: "value_of b (ds @ [d]) = value_of b ds * b + d"
  by (induction ds) (simp_all add: algebra_simps)

lemma digits_of_facts:
  assumes b: "2 \<le> b"
  shows "value_of b (digits_of b n) = n" and "\<forall>d \<in> set (digits_of b n). d < b" and "digits_of b n \<noteq> []"
    and "n < b ^ k \<Longrightarrow> 0 < k \<Longrightarrow> length (digits_of b n) \<le> k" and "b ^ k \<le> n \<Longrightarrow> k < length (digits_of b n)"
proof -
  show "value_of b (digits_of b n) = n"
  proof (induction n rule: less_induct)
    case (less n)
    then show ?case using b by (cases "n < b") (simp_all add: digits_of.simps[of b n] value_of_snoc)
  qed
  show "\<forall>d \<in> set (digits_of b n). d < b"
  proof (induction n rule: less_induct)
    case (less n)
    then have "\<not> n < b \<Longrightarrow> \<forall>d \<in> set (digits_of b (n div b)). d < b" using b by (intro less) simp
    then show ?case using b by (cases "n < b") (auto simp: digits_of.simps[of b n])
  qed
  show "digits_of b n \<noteq> []" by (subst digits_of.simps) simp
  show "n < b ^ k \<Longrightarrow> 0 < k \<Longrightarrow> length (digits_of b n) \<le> k"
  proof (induction k arbitrary: n)
    case (Suc k)
    then show ?case using b by (cases "k = 0") (auto simp: digits_of.simps[of b n] less_mult_imp_div_less mult.commute)
  qed simp
  show "b ^ k \<le> n \<Longrightarrow> k < length (digits_of b n)"
  proof (induction k arbitrary: n)
    case 0
    show ?case by (subst digits_of.simps) simp
  next
    case (Suc k)
    have "b * 1 \<le> b * b ^ k" using b by (intro mult_le_mono2) simp
    then have "\<not> n < b" using Suc.prems unfolding power_Suc by linarith
    moreover have "b ^ k \<le> n div b" using Suc.prems b by (simp add: less_eq_div_iff_mult_less_eq mult.commute)
    ultimately show ?case using Suc.IH b by (simp add: digits_of.simps[of b n])
  qed
qed

lemma put_digits_correct:
  assumes "2 \<le> base" and "length buf = 16"
  shows "put_digits digits base x i buf =
    (if i + length (digits_of base x) \<le> 16
     then Inr (i + length (digits_of base x), take i buf @ rev (map ((!) digits) (digits_of base x)) @ drop (i + length (digits_of base x)) buf)
     else Inl (Fault ''printint: buf''))"
  using assms(2)
proof (induction "16 - i" arbitrary: x i buf rule: less_induct)
  case less
  have D: "digits_of base x = (if x div base = 0 then [x] else digits_of base (x div base) @ [x mod base])"
    using assms(1) by (simp add: digits_of.simps[of base x] div_eq_0_iff)
  show ?case
  proof (cases "16 \<le> i")
    case True
    moreover have "\<not> i + length (digits_of base x) \<le> 16" using True digits_of_facts(3)[OF assms(1), of x] by (cases "digits_of base x") auto
    ultimately show ?thesis by (simp add: put_digits.simps[of digits base x])
  next
    case False
    let ?b = "buf[i := digits ! (x mod base)]"
    have tk: "take (Suc i) ?b = take i buf @ [digits ! (x mod base)]" using False less.prems by (simp add: take_Suc_conv_app_nth)
    show ?thesis
    proof (cases "x div base = 0")
      case True
      then have "x < base" using assms(1) by (simp add: div_eq_0_iff)
      then have "put_digits digits base x i buf = Inr (i + 1, ?b)" using False True by (simp add: put_digits.simps[of digits base x] del: div_eq_0_iff)
      moreover have "?b = take i buf @ [digits ! x] @ drop (i + 1) buf" using False less.prems \<open>x < base\<close> by (simp add: upd_conv_take_nth_drop)
      ultimately show ?thesis using False D True by simp
    next
      case rec: False
      have "put_digits digits base x i buf = put_digits digits base (x div base) (i + 1) ?b" using False rec by (simp add: put_digits.simps[of digits base x] Let_def)
      also have "\<dots> = (if i + 1 + length (digits_of base (x div base)) \<le> 16
         then Inr (i + 1 + length (digits_of base (x div base)), take (i + 1) ?b @ rev (map ((!) digits) (digits_of base (x div base))) @ drop (i + 1 + length (digits_of base (x div base))) ?b)
         else Inl (Fault ''printint: buf''))"
        by (rule less.hyps) (use False less.prems in simp_all)
      finally show ?thesis using D rec tk by simp
    qed
  qed
qed

text \<open>The numeral of a word, and its sign.\<close>

definition numeral_bytes :: "u8 list \<Rightarrow> nat \<Rightarrow> bool \<Rightarrow> u32 \<Rightarrow> u8 list" where
  "numeral_bytes digits base sign xx =
     (if sign \<and> sint xx < 0 then 45 # map ((!) digits) (digits_of base (unat (- xx))) else map ((!) digits) (digits_of base (unat xx)))"

lemma printint_parts:
  assumes "2 \<le> base"
  shows "bindE (put_digits digits base (unat (if sign \<and> sint xx < 0 then - xx else xx)) 0 (replicate 16 0)) (\<lambda>r.
      bindE (put_sign (sign \<and> sint xx < 0) r) (\<lambda>(i, buf). Inr (f i (rev (take i buf))))) =
    (if length (numeral_bytes digits base sign xx) \<le> 16 then Inr (f (length (numeral_bytes digits base sign xx)) (numeral_bytes digits base sign xx))
     else Inl (Fault ''printint: buf''))"
proof -
  let ?x = "unat (if sign \<and> sint xx < 0 then - xx else xx)"
  let ?d = "digits_of base ?x"
  note pd = put_digits_correct[OF assms, of "replicate 16 0" digits ?x 0]
  show ?thesis
  proof (cases "length ?d \<le> 16")
    case False
    then show ?thesis using pd by (auto simp: numeral_bytes_def)
  next
    case True
    then have p: "put_digits digits base ?x 0 (replicate 16 0) = Inr (length ?d, rev (map ((!) digits) ?d) @ replicate (16 - length ?d) 0)" using pd by simp
    show ?thesis
    proof (cases "sign \<and> sint xx < 0")
      case neg: True
      then show ?thesis unfolding p using True by (auto simp: put_sign_def numeral_bytes_def list_update_append replicate_app_Cons_same take_Cons' upd_conv_take_nth_drop)
    next
      case False
      then show ?thesis unfolding p using True by (auto simp: put_sign_def numeral_bytes_def)
    qed
  qed
qed

text \<open>Each \<open>printint\<close> prints the numeral exactly when it fits in the digit buffer, and writes outside the buffer otherwise.\<close>

lemma printint_c_eq:
  "2 \<le> base \<Longrightarrow> printint_c xx base sign =
    (let s = numeral_bytes (byte_string ''0123456789abcdef'') base sign xx in if length s \<le> 16 then Inr s else Inl (Fault ''printint: buf''))"
  using printint_parts[of base "byte_string ''0123456789abcdef''" sign xx "\<lambda>i s. s"] by (simp add: printint_c_def Let_def)

lemma printint_u_eq:
  "2 \<le> base \<Longrightarrow> printint_u xx base sg pad pc =
    (let s = numeral_bytes (byte_string ''0123456789ABCDEF'') base sg xx in
     if length s \<le> 16 then Inr (replicate (pad - length s) pc @ s) else Inl (Fault ''printint: buf''))"
proof -
  have "(if pad > i then replicate (pad - i) pc else []) = replicate (pad - i) pc" for i by simp
  then show "2 \<le> base \<Longrightarrow> ?thesis"
    using printint_parts[of base "byte_string ''0123456789ABCDEF''" sg xx "\<lambda>i s. replicate (pad - i) pc @ s"] by (simp add: printint_u_def Let_def)
qed

lemma numeral_length:
  "length (numeral_bytes digits 10 sign xx) \<le> 11" "length (numeral_bytes digits 16 False xx) \<le> 8"
proof -
  have "length (digits_of 10 (unat x)) \<le> 10" for x :: u32 using unat_u32_lt[of x] by (intro digits_of_facts(4)) simp_all
  from this[of xx] this[of "- xx"] show "length (numeral_bytes digits 10 sign xx) \<le> 11" by (simp add: numeral_bytes_def)
  have "length (digits_of 16 (unat xx)) \<le> 8" using unat_u32_lt[of xx] by (intro digits_of_facts(4)) simp_all
  then show "length (numeral_bytes digits 16 False xx) \<le> 8" by (simp add: numeral_bytes_def)
qed

text \<open>The kernel prints any word in decimal or hexadecimal inside its 16-byte buffer; in binary, which \<open>cprintf\<close>
  offers as \<open>%b\<close>, it writes past the buffer exactly for the words from \<open>2 ^ 16\<close> on.\<close>

theorem printint_buffer:
  "is_ok (printint_c xx 10 sign) \<and> is_ok (printint_c xx 16 False) \<and> (is_ok (printint_c xx 2 False) \<longleftrightarrow> xx < 0x10000)"
proof -
  have l: "(is_ok (if b then Inr s else Inl e) :: bool) \<longleftrightarrow> b" for b and s :: "u8 list" and e by simp
  have "length (digits_of 2 (unat xx)) \<le> 16 \<longleftrightarrow> unat xx < 2 ^ 16"
    using digits_of_facts(4)[of 2 "unat xx" 16] digits_of_facts(5)[of 2 16 "unat xx"] by (cases "unat xx < 2 ^ 16") auto
  then have "is_ok (printint_c xx 2 False) \<longleftrightarrow> xx < 0x10000" by (simp add: printint_c_eq Let_def l numeral_bytes_def word_less_nat_alt)
  moreover have "is_ok (printint_c xx 10 sign)" "is_ok (printint_c xx 16 False)"
    using numeral_length(1)[of "byte_string ''0123456789abcdef''" sign xx] numeral_length(2)[of "byte_string ''0123456789abcdef''" xx]
    by (simp_all add: printint_c_eq Let_def l)
  ultimately show ?thesis by blast
qed

section \<open>Reading a number back\<close>

lemma decimal_digit:
  assumes "d < 10"
  shows "byte_string ''0123456789ABCDEF'' ! d = of_nat (48 + d)"
proof -
  have "d \<in> {0, 1, 2, 3, 4, 5, 6, 7, 8, 9}" using assms by auto
  then show ?thesis by (auto simp: byte_string_def)
qed

lemma atoi_from_digits:
  assumes "cstr m s (map (\<lambda>d. of_nat (48 + d)) ds)" and "\<forall>d \<in> set ds. d < 10"
  shows "atoi_from m s (int n) = Some (int (n * 10 ^ length ds + value_of 10 ds))"
  using assms
proof (induction ds arbitrary: s n)
  case Nil
  then show ?case by (subst atoi_from.simps) simp
next
  case (Cons d ds)
  have d: "unat (of_nat (48 + d) :: u8) = 48 + d" using Cons.prems(2) by (simp add: unat_of_nat take_bit_nat_eq_self del: of_nat_add)
  then have c: "48 \<le> m s" "m s \<le> 57" "int (unat (m s)) = 48 + int d"
    using Cons.prems by (simp_all add: word_le_nat_alt)
  have "atoi_from m s (int n) = atoi_from m (s + 1) (int (n * 10 + d))"
    using c by (subst atoi_from.simps) (simp add: algebra_simps)
  then show ?case using Cons.IH[of "s + 1" "n * 10 + d"] Cons.prems by (simp add: algebra_simps)
qed

text \<open>A non-negative \<open>int\<close> printed by \<open>printf("%d")\<close> is read back by \<open>atoi\<close>.\<close>

theorem print_atoi_roundtrip:
  assumes "printf strs (byte_string ''%d'') [x] = Inr out" and "cstr m s out" and "0 \<le> sint x"
  shows "atoi m s = Some (sint x)"
proof -
  have "out = map ((!) (byte_string ''0123456789ABCDEF'')) (digits_of 10 (unat x))"
    using assms(1,3) numeral_length(1)[of "byte_string ''0123456789ABCDEF''" True x]
    by (auto simp: printf_def byte_string_def[of "''%d''"] printf_char_def conv_int_def next_arg_def printint_u_eq Let_def numeral_bytes_def conv_done_def isdigit_def not_less)
  also have "\<dots> = map (\<lambda>d. of_nat (48 + d)) (digits_of 10 (unat x))"
    using digits_of_facts(2)[of 10 "unat x"] by (intro map_cong) (auto simp: decimal_digit)
  finally have "cstr m s (map (\<lambda>d. of_nat (48 + d)) (digits_of 10 (unat x)))" using assms(2) by simp
  from atoi_from_digits[OF this, of 0] have "atoi m s = Some (int (unat x))"
    using digits_of_facts(1,2)[of 10 "unat x"] by (simp add: atoi_def)
  moreover have "sint x = int (unat x)" using assms(3) sint_lt[of x] uint_sint[of x] by (simp add: take_bit_int_eq_self)
  ultimately show ?thesis by simp
qed

theorem print_atoi_roundtrip_witness:
  "atoi (\<lambda>a. if a = 7 then 52 else if a = 8 then 50 else 0) 7 = Some (sint (42 :: u32))"
proof -
  have d: "digits_of 10 42 = [4, 2]" by (simp add: digits_of.simps)
  have n: "numeral_bytes (byte_string ''0123456789ABCDEF'') 10 True 42 = [52, 50]"
    by (simp add: numeral_bytes_def d decimal_digit)
  have "printf (\<lambda>_. []) (byte_string ''%d'') [42] = Inr [52, 50]"
    by (simp add: printf_def byte_string_def[of "''%d''"] printf_char_def conv_int_def next_arg_def printint_u_eq Let_def conv_done_def isdigit_def n)
  then show ?thesis by (rule print_atoi_roundtrip) simp_all
qed

section \<open>Format strings\<close>

text \<open>What a format string is made of: bytes other than \<open>%\<close>, and directives with an optional \<open>0\<close> flag and width.\<close>

datatype conv = ConvD | ConvU | ConvX | ConvS | ConvC | ConvPct

datatype piece = Lit u8 | Dir bool nat conv

fun letter :: "conv \<Rightarrow> u8" where
  "letter ConvD = 100" | "letter ConvU = 117" | "letter ConvX = 120" | "letter ConvS = 115" | "letter ConvC = 99" | "letter ConvPct = 37"

fun unparse :: "piece \<Rightarrow> u8 list" where
  "unparse (Lit c) = [c]"
| "unparse (Dir z w c) = [37] @ (if z then [48] else []) @ (if z \<or> 0 < w then [of_nat (48 + w)] else []) @ [letter c]"

fun piece_ok :: "piece \<Rightarrow> bool" where
  "piece_ok (Lit c) \<longleftrightarrow> c \<noteq> 37"
| "piece_ok (Dir z w c) \<longleftrightarrow> w \<le> 9"

definition padded :: "bool \<Rightarrow> nat \<Rightarrow> u8 list \<Rightarrow> u8 list" where
  "padded z w s = replicate (w - length s) (if z then 48 else 32) @ s"

definition convert :: "(u32 \<Rightarrow> u8 list) \<Rightarrow> bool \<Rightarrow> nat \<Rightarrow> conv \<Rightarrow> u32 \<Rightarrow> u8 list" where
  "convert strs z w c a =
     (case c of
        ConvD \<Rightarrow> padded z w (numeral_bytes (byte_string ''0123456789ABCDEF'') 10 True a)
      | ConvU \<Rightarrow> padded z w (numeral_bytes (byte_string ''0123456789ABCDEF'') 10 False a)
      | ConvX \<Rightarrow> padded z w (numeral_bytes (byte_string ''0123456789ABCDEF'') 16 False a)
      | ConvS \<Rightarrow> replicate w (if z then 48 else 32) @ (if a = 0 then byte_string ''(null)'' else strs a)
      | _ \<Rightarrow> [ucast a])"

fun render :: "(u32 \<Rightarrow> u8 list) \<Rightarrow> piece list \<Rightarrow> u32 list \<Rightarrow> u8 list option" where
  "render strs [] args = Some []"
| "render strs (Lit c # ps) args = map_option ((@) [c]) (render strs ps args)"
| "render strs (Dir z w c # ps) args =
     (if c = ConvPct then map_option ((@) [37]) (render strs ps args)
      else case args of [] \<Rightarrow> None | a # args \<Rightarrow> map_option ((@) (convert strs z w c a)) (render strs ps args))"

definition between :: "u32 list \<Rightarrow> u8 list \<Rightarrow> pstate" where
  "between args out = \<lparr>p_state = False, p_pad = 0, p_reading = False, p_char = 32, p_args = args, p_out = out\<rparr>"

lemma flags_read:
  assumes "w \<le> 9"
  shows "foldE (printf_char strs) ([37] @ (if z then [48] else []) @ (if z \<or> 0 < w then [of_nat (48 + w)] else [])) (between args out) =
    Inr \<lparr>p_state = True, p_pad = w, p_reading = False, p_char = (if z then 48 else 32), p_args = args, p_out = out\<rparr>"
proof -
  have u: "unat (of_nat (48 + w) :: u8) = 48 + w" using assms by (simp add: unat_of_nat take_bit_nat_eq_self del: of_nat_add)
  then have d: "isdigit (of_nat (48 + w))" "toInt (of_nat (48 + w)) = w" "(of_nat (48 + w) :: u8) = 48 \<longleftrightarrow> w = 0"
    using assms by (simp_all add: isdigit_def toInt_def word_le_nat_alt word_eq_unat_iff del: of_nat_add)
  show ?thesis using d by (simp add: between_def printf_char_def del: of_nat_add)
qed

lemma directive_done:
  assumes "c = ConvPct \<or> args = a # args'"
  shows "printf_char strs (letter c) \<lparr>p_state = True, p_pad = w, p_reading = False, p_char = (if z then 48 else 32), p_args = args, p_out = out\<rparr> =
    Inr (if c = ConvPct then between args (out @ [37]) else between args' (out @ convert strs z w c a))"
proof -
  have n: "length (numeral_bytes (byte_string ''0123456789ABCDEF'') 10 sign a) \<le> 16" "length (numeral_bytes (byte_string ''0123456789ABCDEF'') 16 False a) \<le> 16" for sign
    using numeral_length(1)[of "byte_string ''0123456789ABCDEF''" sign a] numeral_length(2)[of "byte_string ''0123456789ABCDEF''" a] by simp_all
  show ?thesis using assms n
    by (cases c) (auto simp: printf_char_def conv_int_def next_arg_def printint_u_eq Let_def conv_done_def isdigit_def between_def convert_def padded_def null_string_def)
qed

lemma foldE_unit: "bindE m (foldE f []) = m"
  by (cases m) simp_all

lemma printf_pieces:
  assumes "\<forall>p \<in> set ps. piece_ok p" and "render strs ps args = Some r"
  shows "\<exists>args'. foldE (printf_char strs) (concat (map unparse ps)) (between args out) = Inr (between args' (out @ r))"
  using assms
proof (induction strs ps args arbitrary: out r rule: render.induct)
  case (2 strs c ps args)
  from "2.prems"(2) obtain r' where r: "render strs ps args = Some r'" "r = c # r'" by auto
  have "printf_char strs c (between args out) = Inr (between args (out @ [c]))" using "2.prems"(1) by (simp add: printf_char_def between_def)
  then show ?case using "2.IH"[of r' "out @ [c]"] "2.prems"(1) r by simp
next
  case (3 strs z w c ps args)
  have w: "w \<le> 9" "\<forall>p \<in> set ps. piece_ok p" using "3.prems"(1) by simp_all
  have f: "foldE (printf_char strs) (concat (map unparse (Dir z w c # ps))) (between args out) =
    bindE (printf_char strs (letter c) \<lparr>p_state = True, p_pad = w, p_reading = False, p_char = (if z then 48 else 32), p_args = args, p_out = out\<rparr>)
      (foldE (printf_char strs) (concat (map unparse ps)))"
    using flags_read[OF w(1), of strs z args out] unfolding unparse.simps list.map concat.simps append_assoc[symmetric] foldE_append by (simp add: foldE_unit)
  show ?case
  proof (cases "c = ConvPct")
    case True
    from "3.prems"(2) True obtain r' where r: "render strs ps args = Some r'" "r = 37 # r'" by auto
    show ?thesis using "3.IH"(1)[OF True w(2) r(1), of "out @ [37]"] directive_done[of c args _ _ strs w z out] True r(2) unfolding f by simp
  next
    case False
    from "3.prems"(2) False obtain a args' r' where r: "args = a # args'" "render strs ps args' = Some r'" "r = convert strs z w c a @ r'"
      by (auto split: list.splits)
    show ?thesis using "3.IH"(2)[OF False r(1) w(2) r(2), of "out @ convert strs z w c a"] directive_done[of c args a args' strs w z out] False r unfolding f by simp
  qed
qed auto



end
