(* ===== verification/Console.thy ===== *)
theory Console
  imports Numfmt Ring
begin

text \<open>
  The console driver (\<^verbatim>\<open>console.c\<close>): output to the serial port and to the text screen with its scrolling, and the
  line editor between the keyboard interrupt, which edits the last line of a ring of 128 bytes, and
  \<open>consoleread\<close>, which takes finished lines out of it. The functions run under \<open>cons.lock\<close>; a call of \<open>wakeup\<close>
  is counted. The serial port is the list of bytes sent to it, the screen its cells and the cursor register
  of the video controller.
\<close>

section \<open>Output\<close>

record con =
  c_panicked :: bool
  c_uart :: "u8 list"
  c_cursor :: u16
  c_crt :: "nat \<Rightarrow> u16"
  in_buf :: "u8 list"
  in_r :: u32
  in_w :: u32
  in_e :: u32
  c_wakeups :: nat

definition BACKSPACE :: nat where "BACKSPACE = 256"

definition cgaputc :: "nat \<Rightarrow> con \<Rightarrow> con res" where
  "cgaputc c s =
     (let pos = unat (c_cursor s);
          s = (if c = 10 \<or> c = BACKSPACE then s else s\<lparr>c_crt := (c_crt s)(pos := (of_nat c AND 0xFF) OR 0x0700)\<rparr>);
          pos = (if c = 10 then pos + (80 - pos mod 80) else if c = BACKSPACE then (if pos > 0 then pos - 1 else pos) else pos + 1)
      in if pos > 25 * 80 then Inl (Panic ''pos under/overflow'')
         else
           let (pos, s) =
                 (if pos div 80 \<ge> 24 then
                    let m = (\<lambda>i. if i < 23 * 80 then c_crt s (i + 80) else c_crt s i); pos = pos - 80
                    in (pos, s\<lparr>c_crt := (\<lambda>i. if pos \<le> i \<and> i < 24 * 80 then 0 else m i)\<rparr>)
                  else (pos, s))
           in Inr (s\<lparr>c_cursor := of_nat pos, c_crt := (c_crt s)(pos := 0x0720)\<rparr>))"

definition uartputc :: "u8 \<Rightarrow> con \<Rightarrow> con" where
  "uartputc c s = s\<lparr>c_uart := c_uart s @ [c]\<rparr>"

definition consputc :: "nat \<Rightarrow> con \<Rightarrow> con res" where
  "consputc c s =
     (if c_panicked s then Inl (Hang ''panicked'')
      else cgaputc c (if c = BACKSPACE then uartputc 8 (uartputc 32 (uartputc 8 s)) else uartputc (of_nat c) s))"

definition cprintf :: "(u32 \<Rightarrow> u8 list) \<Rightarrow> u8 list option \<Rightarrow> u32 list \<Rightarrow> con \<Rightarrow> con res" where
  "cprintf strs fmt args s =
     (case fmt of
        None \<Rightarrow> Inl (Panic ''null fmt'')
      | Some fmt \<Rightarrow> bindE (cprintf_bytes strs fmt args) (\<lambda>bs. foldE (\<lambda>b. consputc (unat b)) bs s))"

text \<open>\<open>panic\<close> up to its endless loop: the message, which is used as a format, the call stack, and the flag that stops all output.\<close>

definition panic :: "(u32 \<Rightarrow> u8 list) \<Rightarrow> u32 \<Rightarrow> u32 list \<Rightarrow> u8 list \<Rightarrow> con \<Rightarrow> con res" where
  "panic strs lapicid pcs msg s =
     bindE (cprintf strs (Some (byte_string ''lapicid %d: panic: '')) [lapicid] s) (\<lambda>s.
     bindE (cprintf strs (Some msg) [] s) (\<lambda>s.
     bindE (cprintf strs (Some [10]) [] s) (\<lambda>s.
     bindE (foldE (\<lambda>pc. cprintf strs (Some (byte_string '' %p'')) [pc]) (take 10 pcs) s) (\<lambda>s.
     bindE (cprintf strs (Some [10]) [] s) (\<lambda>s. Inr (s\<lparr>c_panicked := True\<rparr>))))))"

definition consolewrite :: "u8 list \<Rightarrow> nat \<Rightarrow> con \<Rightarrow> (int \<times> con) res" where
  "consolewrite buf n s = bindE (foldE (\<lambda>i. consputc (unat (buf ! i))) [0..<n] s) (\<lambda>s. Inr (int n, s))"

section \<open>Input\<close>

definition INPUT_BUF :: nat where "INPUT_BUF = 128"

lemma e_back: "e \<noteq> w \<Longrightarrow> unat (e - 1 - w) < unat (e - w :: u32)"
  using ring_len_step[of e w] by (simp add: ring_len_def algebra_simps)

lemma consputc_input:
  "consputc c s = Inr t \<Longrightarrow> t = s\<lparr>c_uart := c_uart t, c_cursor := c_cursor t, c_crt := c_crt t\<rparr>"
  by (auto simp: consputc_def cgaputc_def uartputc_def Let_def split: if_splits)

lemma consputc_editor:
  assumes "consputc c s = Inr t"
  shows "in_buf t = in_buf s" "in_r t = in_r s" "in_w t = in_w s" "in_e t = in_e s" "c_panicked t = c_panicked s" "c_wakeups t = c_wakeups s"
  by (subst consputc_input[OF assms], simp)+

function kill_line :: "con \<Rightarrow> con res" where
  "kill_line s =
     (if in_e s \<noteq> in_w s \<and> in_buf s ! ring_slot INPUT_BUF (in_e s - 1) \<noteq> 10
      then bindE (consputc BACKSPACE (s\<lparr>in_e := in_e s - 1\<rparr>)) kill_line
      else Inr s)"
  by pat_completeness auto
termination
proof (relation "measure (\<lambda>s. unat (in_e s - in_w s))")
  fix s t
  assume a: "in_e s \<noteq> in_w s \<and> in_buf s ! ring_slot INPUT_BUF (in_e s - 1) \<noteq> 10" "consputc BACKSPACE (s\<lparr>in_e := in_e s - 1\<rparr>) = Inr t"
  show "(t, s) \<in> measure (\<lambda>s. unat (in_e s - in_w s))" using consputc_editor[OF a(2)] a(1) e_back by simp
qed simp

declare kill_line.simps [simp del]

definition cons_key :: "u8 \<Rightarrow> bool \<times> con \<Rightarrow> (bool \<times> con) res" where
  "cons_key c = (\<lambda>(doprocdump, s).
     if c = 0x10 then Inr (True, s)
     else if c = 0x15 then bindE (kill_line s) (\<lambda>s. Inr (doprocdump, s))
     else if c = 8 \<or> c = 0x7F then
       if in_e s \<noteq> in_w s then bindE (consputc BACKSPACE (s\<lparr>in_e := in_e s - 1\<rparr>)) (\<lambda>s. Inr (doprocdump, s))
       else Inr (doprocdump, s)
     else if c \<noteq> 0 \<and> unat (in_e s - in_r s) < INPUT_BUF then
       let c = (if c = 13 then 10 else c);
           s = s\<lparr>in_buf := (in_buf s)[ring_slot INPUT_BUF (in_e s) := c], in_e := in_e s + 1\<rparr>
       in bindE (consputc (unat c) s) (\<lambda>s.
            if c = 10 \<or> c = 4 \<or> in_e s = in_r s + of_nat INPUT_BUF
            then Inr (doprocdump, s\<lparr>in_w := in_e s, c_wakeups := c_wakeups s + 1\<rparr>)
            else Inr (doprocdump, s))
     else Inr (doprocdump, s))"

text \<open>\<open>keys\<close> are the values \<open>getc\<close> returns before it returns -1; the first result says whether to call \<open>procdump\<close>.\<close>

definition consoleintr :: "u8 list \<Rightarrow> con \<Rightarrow> (bool \<times> con) res" where
  "consoleintr keys s = foldE cons_key keys (False, s)"

text \<open>
  \<open>consoleread\<close> from the head of its loop: \<open>n\<close> bytes are still wanted and \<open>dst\<close> has been filled so far. It
  returns a value, or sleeps on \<open>&input.r\<close> and goes on from there when it wakes.
\<close>

datatype cread = Returns int "u8 list" con | Sleeps nat "u8 list" con

function consoleread :: "bool \<Rightarrow> nat \<Rightarrow> nat \<Rightarrow> u8 list \<Rightarrow> con \<Rightarrow> cread" where
  "consoleread killed target n dst s =
     (if n = 0 then Returns (int (target - n)) dst s
      else if in_r s = in_w s then (if killed then Returns (- 1) dst s else Sleeps n dst s)
      else
        let c = in_buf s ! ring_slot INPUT_BUF (in_r s); s = s\<lparr>in_r := in_r s + 1\<rparr> in
        if c = 4 then Returns (int (target - n)) dst (if n < target then s\<lparr>in_r := in_r s - 1\<rparr> else s)
        else if c = 10 then Returns (int (target - (n - 1))) (dst @ [c]) s
        else consoleread killed target (n - 1) (dst @ [c]) s)"
  by pat_completeness auto
termination
  by (relation "measure (\<lambda>(killed, target, n, dst, s). n)") auto

declare consoleread.simps [simp del]

section \<open>The screen\<close>

definition on_screen :: "con \<Rightarrow> bool" where
  "on_screen s \<longleftrightarrow> unat (c_cursor s) < 24 * 80"

lemma next_row: "n + (80 - n mod 80) = (n div 80 + 1) * (80 :: nat)"
proof -
  have "n mod 80 < 80" by simp
  then have "n + (80 - n mod 80) + n mod 80 = n + 80" by linarith
  then show ?thesis using div_mult_mod_eq[of n 80] by (simp only: distrib_right mult_1)
qed

text \<open>Output never leaves the 24 rows of text: with the cursor on the screen any character is printed without the
  panic, the cursor is on the screen again, no cell beyond row 23 is touched, and when the last row is full every
  row moves up by one.\<close>

lemma cgaputc_on_screen:
  assumes "on_screen s"
  shows "\<exists>s'. cgaputc c s = Inr s' \<and> on_screen s' \<and> (\<forall>i \<ge> 24 * 80. c_crt s' i = c_crt s i) \<and>
    (c = 10 \<and> unat (c_cursor s) div 80 = 23 \<longrightarrow>
       unat (c_cursor s') = 23 * 80 \<and> (\<forall>i < 23 * 80. c_crt s' i = c_crt s (i + 80)) \<and> (\<forall>i. 23 * 80 < i \<and> i < 24 * 80 \<longrightarrow> c_crt s' i = 0))"
proof -
  let ?p = "unat (c_cursor s)"
  let ?q = "if c = 10 then ?p + (80 - ?p mod 80) else if c = BACKSPACE then (if ?p > 0 then ?p - 1 else ?p) else ?p + 1"
  have p: "?p < 1920" using assms by (simp add: on_screen_def)
  have nl: "?p + (80 - ?p mod 80) = (?p div 80 + 1) * 80"
    by (rule next_row)
  have row: "?p div 80 < 24" using p by simp
  have q: "?q \<le> 1920" using p row unfolding nl by auto
  have w: "unat (of_nat k :: u16) = k" if "k \<le> 1920" for k using that by (simp add: unat_of_nat take_bit_nat_eq_self)
  show ?thesis
  proof (cases "?q = 1920")
    case True
    then show ?thesis using p nl w[of 1840] by (auto simp: cgaputc_def Let_def on_screen_def BACKSPACE_def)
  next
    case False
    then have "?q < 1920" using q by simp
    then have "\<not> 24 \<le> ?q div 80" "\<not> ?q > 2000" by auto
    moreover have "\<not> (c = 10 \<and> ?p div 80 = 23)" using False unfolding nl by auto
    ultimately show ?thesis using \<open>?q < 1920\<close> p w[of ?q] by (simp only: cgaputc_def Let_def) (auto simp: on_screen_def split: if_splits)
  qed
qed

definition echo :: "nat \<Rightarrow> u8 list" where
  "echo c = (if c = BACKSPACE then [8, 32, 8] else [of_nat c])"

definition live :: "con \<Rightarrow> bool" where
  "live s \<longleftrightarrow> \<not> c_panicked s \<and> on_screen s"

lemma consputc_ok:
  assumes "live s"
  shows "\<exists>t. consputc c s = Inr t \<and> live t \<and> c_uart t = c_uart s @ echo c \<and> (\<forall>i \<ge> 24 * 80. c_crt t i = c_crt s i) \<and>
    t = s\<lparr>c_uart := c_uart t, c_cursor := c_cursor t, c_crt := c_crt t\<rparr>"
proof -
  let ?s = "if c = BACKSPACE then uartputc 8 (uartputc 32 (uartputc 8 s)) else uartputc (of_nat c) s"
  have "on_screen ?s" using assms by (simp add: live_def on_screen_def uartputc_def)
  from cgaputc_on_screen[OF this, of c] obtain t where t: "cgaputc c ?s = Inr t" "on_screen t" "\<forall>i \<ge> 24 * 80. c_crt t i = c_crt ?s i" by blast
  have c: "consputc c s = Inr t" using t(1) assms by (simp add: consputc_def live_def)
  have u: "c_uart t = c_uart ?s" using t(1) by (auto simp: cgaputc_def Let_def split: if_splits)
  then have "c_uart t = c_uart s @ echo c" by (simp add: echo_def uartputc_def)
  moreover have "live t" using t(2) assms consputc_editor(5)[OF c] by (simp add: live_def)
  moreover have "c_crt ?s = c_crt s" by (simp add: uartputc_def)
  ultimately show ?thesis using c t(3) consputc_input[OF c] by auto
qed

lemma consputs_ok:
  assumes "live s"
  shows "\<exists>t. foldE (\<lambda>b. consputc (unat b)) bs s = Inr t \<and> live t \<and> c_uart t = c_uart s @ bs \<and> (\<forall>i \<ge> 24 * 80. c_crt t i = c_crt s i) \<and>
    t = s\<lparr>c_uart := c_uart t, c_cursor := c_cursor t, c_crt := c_crt t\<rparr>"
  using assms
proof (induction bs arbitrary: s)
  case (Cons b bs)
  obtain t where t: "consputc (unat b) s = Inr t" "live t" "c_uart t = c_uart s @ echo (unat b)" "\<forall>i \<ge> 24 * 80. c_crt t i = c_crt s i"
    "t = s\<lparr>c_uart := c_uart t, c_cursor := c_cursor t, c_crt := c_crt t\<rparr>" using consputc_ok[OF Cons.prems] by blast
  obtain u where u: "foldE (\<lambda>b. consputc (unat b)) bs t = Inr u" "live u" "c_uart u = c_uart t @ bs" "\<forall>i \<ge> 24 * 80. c_crt u i = c_crt t i"
    "u = t\<lparr>c_uart := c_uart u, c_cursor := c_cursor u, c_crt := c_crt u\<rparr>" using Cons.IH[OF t(2)] by blast
  have "unat b \<noteq> BACKSPACE" using unat_u8_lt[of b] by (simp add: BACKSPACE_def)
  then have "c_uart u = c_uart s @ b # bs" using t(3) u(3) by (simp add: echo_def)
  moreover have "u = s\<lparr>c_uart := c_uart u, c_cursor := c_cursor u, c_crt := c_crt u\<rparr>" by (subst u(5), subst t(5)) simp
  ultimately show ?case using t(1,4) u(1,2,4) by (intro exI[of _ u]) simp
qed simp

lemma foldE_map: "foldE f (map g xs) s = foldE (\<lambda>x. f (g x)) xs s"
proof (induction xs arbitrary: s)
  case (Cons x xs)
  then show ?case by (cases "f (g x) s") simp_all
qed simp

text \<open>\<open>consolewrite\<close> returns the number of bytes it was given; the serial port has received exactly these bytes in
  order; the cursor is still on the 24 rows of the screen, so the panic of \<open>cgaputc\<close> is never reached; no cell of video
  memory beyond these rows and nothing of the line editor has changed.\<close>

theorem consolewrite_on_screen:
  assumes "live s" and "n \<le> length buf"
  shows "\<exists>t. consolewrite buf n s = Inr (int n, t) \<and> live t \<and> c_uart t = c_uart s @ take n buf \<and> (\<forall>i \<ge> 24 * 80. c_crt t i = c_crt s i) \<and>
    t = s\<lparr>c_uart := c_uart t, c_cursor := c_cursor t, c_crt := c_crt t\<rparr>"
proof -
  have f: "foldE (\<lambda>i. consputc (unat (buf ! i))) xs s = foldE (\<lambda>b. consputc (unat b)) (map ((!) buf) xs) s" for xs s
    by (rule foldE_map[symmetric])
  have m: "map ((!) buf) [0..<n] = take n buf" using assms(2) by (intro nth_equalityI) simp_all
  show ?thesis using consputs_ok[OF assms(1), of "take n buf"] unfolding consolewrite_def f m by auto
qed

section \<open>The line editor\<close>

interpretation con_ring: ring INPUT_BUF
  by unfold_locales (simp_all add: INPUT_BUF_def)

text \<open>What the ring holds: the bytes ready for readers, and the line being edited.\<close>

definition ready :: "con \<Rightarrow> u8 list" where
  "ready s = ring_contents INPUT_BUF (in_buf s) (in_r s) (in_w s)"

definition line :: "con \<Rightarrow> u8 list" where
  "line s = ring_contents INPUT_BUF (in_buf s) (in_w s) (in_e s)"

definition con_inv :: "con \<Rightarrow> bool" where
  "con_inv s \<longleftrightarrow> live s \<and> length (in_buf s) = INPUT_BUF \<and> ring_len (in_r s) (in_w s) + ring_len (in_w s) (in_e s) \<le> INPUT_BUF \<and> 10 \<notin> set (line s)"

text \<open>The editor as the user knows it.\<close>

definition key_spec :: "u8 \<Rightarrow> u8 list \<times> u8 list \<Rightarrow> u8 list \<times> u8 list" where
  "key_spec c = (\<lambda>(q, l).
     if c = 0x10 then (q, l)
     else if c = 0x15 then (q, [])
     else if c = 8 \<or> c = 0x7F then (q, butlast l)
     else if c \<noteq> 0 \<and> length q + length l < INPUT_BUF then
       let l = l @ [if c = 13 then 10 else c] in
       if last l = 10 \<or> last l = 4 \<or> length q + length l = INPUT_BUF then (q @ l, []) else (q, l)
     else (q, l))"

lemma con_inv_echo:
  assumes "con_inv s" and "t = s\<lparr>c_uart := u, c_cursor := k, c_crt := v\<rparr>" and "live t"
  shows "con_inv t" "ready t = ready s" "line t = line s"
  using assms by (simp_all add: con_inv_def ready_def line_def)

lemma line_last:
  assumes "in_e s \<noteq> in_w s"
  shows "line s = line (s\<lparr>in_e := in_e s - 1\<rparr>) @ [in_buf s ! ring_slot INPUT_BUF (in_e s - 1)]"
    and "ring_len (in_w s) (in_e s) = Suc (ring_len (in_w s) (in_e s - 1))"
proof -
  show l: "line s = line (s\<lparr>in_e := in_e s - 1\<rparr>) @ [in_buf s ! ring_slot INPUT_BUF (in_e s - 1)]"
    using con_ring.contents_last[OF assms, of "in_buf s"] by (simp add: line_def)
  show "ring_len (in_w s) (in_e s) = Suc (ring_len (in_w s) (in_e s - 1))"
    using arg_cong[OF l, of length] by (simp add: line_def)
qed

lemma erase_ok:
  assumes "con_inv s" and "in_e s \<noteq> in_w s"
  shows "\<exists>t. consputc BACKSPACE (s\<lparr>in_e := in_e s - 1\<rparr>) = Inr t \<and> con_inv t \<and> ready t = ready s \<and> line t = butlast (line s) \<and> in_w t = in_w s"
proof -
  let ?s = "s\<lparr>in_e := in_e s - 1\<rparr>"
  note ll = line_last[OF assms(2)]
  have i: "con_inv ?s" using assms(1) ll by (auto simp: con_inv_def live_def on_screen_def)
  then have "live ?s" by (simp add: con_inv_def)
  from consputc_ok[OF this, of BACKSPACE] obtain t where t: "consputc BACKSPACE ?s = Inr t" "live t"
    "t = ?s\<lparr>c_uart := c_uart t, c_cursor := c_cursor t, c_crt := c_crt t\<rparr>" by blast
  have "ready ?s = ready s" "line ?s = butlast (line s)" using ll(1) by (simp_all add: ready_def)
  then show ?thesis using con_inv_echo[OF i t(3,2)] t(1) consputc_editor(3)[OF t(1)] by auto
qed

lemma kill_line_ok:
  assumes "con_inv s"
  shows "\<exists>t. kill_line s = Inr t \<and> con_inv t \<and> ready t = ready s \<and> line t = []"
  using assms
proof (induction "length (line s)" arbitrary: s)
  case 0
  then have "in_e s = in_w s" by (simp add: line_def)
  then show ?case using 0 by (simp add: kill_line.simps[of s])
next
  case (Suc n)
  then have ne: "in_e s \<noteq> in_w s" by (auto simp: line_def)
  have "in_buf s ! ring_slot INPUT_BUF (in_e s - 1) \<noteq> 10" using line_last(1)[OF ne] Suc.prems by (auto simp: con_inv_def)
  moreover obtain t where t: "consputc BACKSPACE (s\<lparr>in_e := in_e s - 1\<rparr>) = Inr t" "con_inv t" "ready t = ready s" "line t = butlast (line s)"
    using erase_ok[OF Suc.prems ne] by blast
  ultimately show ?case using Suc.hyps(1)[of t] Suc.hyps(2) ne by (simp add: kill_line.simps[of s])
qed

lemma type_ok:
  fixes c :: u8
  assumes inv: "con_inv s" and room: "ring_len (in_r s) (in_w s) + ring_len (in_w s) (in_e s) < INPUT_BUF"
  defines "s1 \<equiv> s\<lparr>in_buf := (in_buf s)[ring_slot INPUT_BUF (in_e s) := c], in_e := in_e s + 1\<rparr>"
  shows "\<exists>t. consputc (unat c) s1 = Inr t \<and> live t \<and> ready t = ready s \<and> line t = line s @ [c] \<and> length (in_buf t) = INPUT_BUF \<and>
    in_r t = in_r s \<and> in_w t = in_w s \<and> in_e t = in_e s + 1 \<and> ring_len (in_w t) (in_e t) = ring_len (in_w s) (in_e s) + 1"
proof -
  have b: "length (in_buf s) = INPUT_BUF" "live s1" using inv by (auto simp: con_inv_def live_def on_screen_def s1_def)
  from consputc_ok[OF b(2), of "unat c"] obtain t where t: "consputc (unat c) s1 = Inr t" "live t"
    "t = s1\<lparr>c_uart := c_uart t, c_cursor := c_cursor t, c_crt := c_crt t\<rparr>" by blast
  note e = consputc_editor[OF t(1)] and p = con_ring.contents_push_behind(1,2)[OF b(1) room, of c] con_ring.contents_push_behind(3)[OF b(1) room]
  show ?thesis using t(1,2) e p b(1) by (simp add: ready_def line_def s1_def)
qed

lemma ring_full: "ring_len r e = k \<Longrightarrow> e = r + of_nat INPUT_BUF \<longleftrightarrow> k = INPUT_BUF"
proof -
  assume "ring_len r e = k"
  moreover have "e = r + of_nat INPUT_BUF \<longleftrightarrow> e - r = of_nat INPUT_BUF" by (auto simp: algebra_simps)
  ultimately show ?thesis by (simp add: ring_len_def word_eq_unat_iff INPUT_BUF_def)
qed

lemma key_refines:
  assumes inv: "con_inv s"
  shows "\<exists>d' t. cons_key c (d, s) = Inr (d', t) \<and> con_inv t \<and> (ready t, line t) = key_spec c (ready s, line s)"
proof -
  have len: "length (ready s) = ring_len (in_r s) (in_w s)" "length (line s) = ring_len (in_w s) (in_e s)" by (simp_all add: ready_def line_def)
  have bnd: "ring_len (in_r s) (in_w s) + ring_len (in_w s) (in_e s) \<le> INPUT_BUF" using inv by (simp add: con_inv_def)
  have tot: "unat (in_e s - in_r s) = length (ready s) + length (line s)"
    using con_ring.contents_split(1)[OF bnd] by (simp add: len ring_len_def)
  consider "c = 0x10" | "c = 0x15" | "c = 8 \<or> c = 0x7F" | "c \<noteq> 0x10 \<and> c \<noteq> 0x15 \<and> c \<noteq> 8 \<and> c \<noteq> 0x7F" by blast
  then show ?thesis
  proof cases
    case 1
    then show ?thesis using inv by (auto simp: cons_key_def key_spec_def)
  next
    case 2
    then show ?thesis using kill_line_ok[OF inv] by (auto simp: cons_key_def key_spec_def)
  next
    case 3
    show ?thesis
    proof (cases "in_e s = in_w s")
      case True
      then show ?thesis using 3 inv by (auto simp: cons_key_def key_spec_def line_def)
    next
      case False
      then show ?thesis using 3 erase_ok[OF inv False] by (auto simp: cons_key_def key_spec_def)
    qed
  next
    case 4
    show ?thesis
    proof (cases "c \<noteq> 0 \<and> unat (in_e s - in_r s) < INPUT_BUF")
      case False
      then show ?thesis using 4 inv by (auto simp: cons_key_def key_spec_def tot)
    next
      case True
      let ?c = "if c = 13 then 10 else c"
      have room: "ring_len (in_r s) (in_w s) + ring_len (in_w s) (in_e s) < INPUT_BUF" using True by (simp add: tot len)
      from type_ok[OF inv room, of ?c] obtain t where t: "consputc (unat ?c) (s\<lparr>in_buf := (in_buf s)[ring_slot INPUT_BUF (in_e s) := ?c], in_e := in_e s + 1\<rparr>) = Inr t"
        "live t" "ready t = ready s" "line t = line s @ [?c]" "length (in_buf t) = INPUT_BUF" "in_r t = in_r s" "in_w t = in_w s" "in_e t = in_e s + 1"
        "ring_len (in_w t) (in_e t) = ring_len (in_w s) (in_e s) + 1" by blast
      let ?full = "length (ready s) + length (line t) = INPUT_BUF"
      have "ring_len (in_r t) (in_e t) = length (ready s) + length (line t)"
        using con_ring.contents_split(1)[of "in_r t" "in_w t" "in_e t"] room t(4,6,7,9) by (simp add: len)
      then have full: "in_e t = in_r t + of_nat INPUT_BUF \<longleftrightarrow> ?full" by (rule ring_full)
      have key: "cons_key c (d, s) = Inr (d, if ?c = 10 \<or> ?c = 4 \<or> ?full then t\<lparr>in_w := in_e t, c_wakeups := c_wakeups t + 1\<rparr> else t)"
        using 4 True t(1) full by (simp add: cons_key_def Let_def)
      have spec: "key_spec c (ready s, line s) = (if ?c = 10 \<or> ?c = 4 \<or> ?full then (ready s @ line t, []) else (ready s, line t))"
        using 4 True tot t(4) by (simp add: key_spec_def Let_def)
      have all: "ring_len (in_r t) (in_w t) + ring_len (in_w t) (in_e t) \<le> INPUT_BUF" using room t(6,7,9) by simp
      show ?thesis
      proof (cases "?c = 10 \<or> ?c = 4 \<or> ?full")
        case True
        let ?t = "t\<lparr>in_w := in_e t, c_wakeups := c_wakeups t + 1\<rparr>"
        have "ready ?t = ready t @ line t" "line ?t = []" using con_ring.contents_split(2)[OF all] by (simp_all add: ready_def line_def)
        moreover have "con_inv ?t" using t(2,5) con_ring.contents_split(1)[OF all] all by (simp add: con_inv_def live_def on_screen_def line_def)
        ultimately show ?thesis using key spec True t(3) by auto
      next
        case False
        then have "con_inv t" using t(2,4,5) all inv by (simp add: con_inv_def)
        then show ?thesis using key spec False t(3) by auto
      qed
    qed
  qed
qed

lemma keys_refine:
  assumes "con_inv s"
  shows "\<exists>d' t. foldE cons_key keys (d, s) = Inr (d', t) \<and> con_inv t \<and> (ready t, line t) = fold key_spec keys (ready s, line s)"
  using assms
proof (induction keys arbitrary: d s)
  case (Cons c keys)
  obtain d1 t where t: "cons_key c (d, s) = Inr (d1, t)" "con_inv t" "(ready t, line t) = key_spec c (ready s, line s)"
    using key_refines[OF Cons.prems] by blast
  then show ?case using Cons.IH[OF t(2), of d1] by simp
qed simp

text \<open>
  What a read takes from the ready bytes: up to the end of the line, an end-of-file mark, or the count; the
  mark stays for the next read unless this one has nothing else to return. No first component: the reader sleeps.
\<close>

fun read_spec :: "bool \<Rightarrow> nat \<Rightarrow> nat \<Rightarrow> u8 list \<Rightarrow> u8 list \<Rightarrow> int option \<times> u8 list \<times> u8 list" where
  "read_spec killed target 0 dst q = (Some (int target), dst, q)"
| "read_spec killed target (Suc n) dst [] = (if killed then Some (- 1) else None, dst, [])"
| "read_spec killed target (Suc n) dst (c # q) =
     (if c = 4 then (Some (int (target - Suc n)), dst, if Suc n < target then c # q else q)
      else if c = 10 then (Some (int (target - n)), dst @ [10], q)
      else read_spec killed target n (dst @ [c]) q)"

fun read_outcome :: "cread \<Rightarrow> int option \<times> u8 list \<times> con" where
  "read_outcome (Returns r dst s) = (Some r, dst, s)"
| "read_outcome (Sleeps n dst s) = (None, dst, s)"

lemma take_one:
  assumes "con_inv s" and "in_r s \<noteq> in_w s"
  shows "ready s = in_buf s ! ring_slot INPUT_BUF (in_r s) # ready (s\<lparr>in_r := in_r s + 1\<rparr>)"
    and "con_inv (s\<lparr>in_r := in_r s + 1\<rparr>)" and "line (s\<lparr>in_r := in_r s + 1\<rparr>) = line s"
proof -
  show "ready s = in_buf s ! ring_slot INPUT_BUF (in_r s) # ready (s\<lparr>in_r := in_r s + 1\<rparr>)"
    using con_ring.contents_pop[of "in_w s" "in_r s" "in_buf s"] assms(2) by (auto simp: ready_def)
  show "con_inv (s\<lparr>in_r := in_r s + 1\<rparr>)" using assms ring_len_step[of "in_w s" "in_r s"] by (auto simp: con_inv_def live_def on_screen_def line_def)
  show "line (s\<lparr>in_r := in_r s + 1\<rparr>) = line s" by (simp add: line_def)
qed

lemma read_refines:
  assumes "con_inv s"
  shows "\<exists>r out t. read_outcome (consoleread killed target n dst s) = (r, out, t) \<and> con_inv t \<and> line t = line s \<and>
    (r, out, ready t) = read_spec killed target n dst (ready s)"
  using assms
proof (induction n arbitrary: dst s)
  case 0
  then show ?case by (simp add: consoleread.simps)
next
  case (Suc n)
  show ?case
  proof (cases "in_r s = in_w s")
    case True
    then have "ready s = []" by (simp add: ready_def)
    then show ?thesis using True Suc.prems by (simp add: consoleread.simps)
  next
    case False
    let ?c = "in_buf s ! ring_slot INPUT_BUF (in_r s)" and ?s = "s\<lparr>in_r := in_r s + 1\<rparr>"
    note t1 = take_one[OF Suc.prems False]
    consider "?c = 4" | "?c = 10" | "?c \<noteq> 4 \<and> ?c \<noteq> 10" by blast
    then show ?thesis
    proof cases
      case 1
      then show ?thesis using False Suc.prems t1 by (auto simp: consoleread.simps[of killed target "Suc n"] Let_def)
    next
      case 2
      then show ?thesis using False t1 by (simp add: consoleread.simps[of killed target "Suc n"] Let_def)
    next
      case 3
      then show ?thesis using Suc.IH[OF t1(2), of "dst @ [?c]"] False t1 by (simp add: consoleread.simps[of killed target "Suc n"] Let_def)
    qed
  qed
qed

text \<open>C36. The driver is a line editor: for any keys, delivered from any state of its ring, \<open>consoleintr\<close> returns and the
  bytes ready for readers and the line being edited are what the editing rules make of them (kill line, erase,
  end of line, end of file, full buffer); and a \<open>consoleread\<close> of any size that follows takes from the ready bytes what
  it should and leaves the edited line alone.\<close>

theorem console_refines_editor:
  assumes "con_inv s"
  shows "\<exists>d t r out u. consoleintr keys s = Inr (d, t) \<and> con_inv t \<and> (ready t, line t) = fold key_spec keys (ready s, line s) \<and>
    read_outcome (consoleread killed n n [] t) = (r, out, u) \<and> con_inv u \<and> line u = line t \<and>
    (r, out, ready u) = read_spec killed n n [] (ready t)"
proof -
  obtain d t where t: "foldE cons_key keys (False, s) = Inr (d, t)" "con_inv t" "(ready t, line t) = fold key_spec keys (ready s, line s)"
    using keys_refine[OF assms] by blast
  then show ?thesis using read_refines[OF t(2), of killed n n "[]"] unfolding consoleintr_def by metis
qed

definition demo_con :: con where
  "demo_con = \<lparr>c_panicked = False, c_uart = [], c_cursor = 1919, c_crt = \<lambda>_. 0x0720, in_buf = replicate 128 0, in_r = 126, in_w = 126, in_e = 126, c_wakeups = 0\<rparr>"

lemma demo_con_inv: "con_inv demo_con" "live demo_con" "ready demo_con = []" "line demo_con = []"
  by (simp_all add: con_inv_def live_def on_screen_def demo_con_def INPUT_BUF_def ready_def line_def)

text \<open>Typing \<open>hx\<close>, erase, \<open>i\<close>, return makes the line \<open>hi\<close>.\<close>

theorem console_refines_editor_witness:
  "\<exists>d t r out u. consoleintr [104, 120, 8, 105, 13] demo_con = Inr (d, t) \<and> ready t = [104, 105, 10] \<and>
    read_outcome (consoleread False 100 100 [] t) = (r, out, u) \<and> r = Some 3 \<and> out = [104, 105, 10] \<and> ready u = []"
proof -
  have k: "fold key_spec [104, 120, 8, 105, 13] ([], []) = ([104, 105, 10], [])" by (simp add: key_spec_def INPUT_BUF_def)
  have r: "read_spec False 100 100 [] [104, 105, 10] = (Some 3, [104, 105, 10], [])" by code_simp
  show ?thesis using console_refines_editor[OF demo_con_inv(1), of "[104, 120, 8, 105, 13]" False 100]
    unfolding demo_con_inv(3,4) k by (auto simp: r)
qed

theorem consolewrite_on_screen_witness:
  "\<exists>t. consolewrite [65, 10] 2 demo_con = Inr (2, t) \<and> live t \<and> c_uart t = [65, 10]"
  using consolewrite_on_screen[OF demo_con_inv(2), of 2 "[65, 10]"] by (auto simp: demo_con_def)

end
