(* ===== verification/Kbd.thy ===== *)
theory Kbd
  imports Console
begin

text \<open>
  The keyboard driver (\<^verbatim>\<open>kbd.c\<close>, \<^verbatim>\<open>kbd.h\<close>): the scan-code tables, the state of the modifier keys and the
  interrupt that feeds the console's line editor. What the controller's data port delivers is a list of scan codes.
\<close>

definition table :: "u8 list \<Rightarrow> (nat \<times> u8) list \<Rightarrow> u8 list" where
  "table base des = fold (\<lambda>(i, v) xs. xs[i := v]) des (base @ replicate (256 - length base) 0)"

definition SHIFT :: u32 where "SHIFT = 1"
definition CTL :: u32 where "CTL = 2"
definition CAPSLOCK :: u32 where "CAPSLOCK = 8"
definition E0ESC :: u32 where "E0ESC = 64"

definition shiftcode :: "u8 list" where
  "shiftcode = table [] [(0x1D, 2), (0x2A, 1), (0x36, 1), (0x38, 4), (0x9D, 2), (0xB8, 4)]"

definition togglecode :: "u8 list" where
  "togglecode = table [] [(0x3A, 8), (0x45, 16), (0x46, 32)]"

definition normalmap :: "u8 list" where
  "normalmap = table
     [0, 27, 49, 50, 51, 52, 53, 54, 55, 56, 57, 48, 45, 61, 8, 9,
      113, 119, 101, 114, 116, 121, 117, 105, 111, 112, 91, 93, 10, 0, 97, 115,
      100, 102, 103, 104, 106, 107, 108, 59, 39, 96, 0, 92, 122, 120, 99, 118,
      98, 110, 109, 44, 46, 47, 0, 42, 0, 32, 0, 0, 0, 0, 0, 0,
      0, 0, 0, 0, 0, 0, 0, 55, 56, 57, 45, 52, 53, 54, 43, 49,
      50, 51, 48, 46, 0, 0, 0, 0]
     [(0x9C, 10), (0xB5, 47), (0xC8, 226), (0xD0, 227), (0xC9, 230), (0xD1, 231), (0xCB, 228), (0xCD, 229), (0x97, 224), (0xCF, 225), (0xD2, 232), (0xD3, 233)]"

definition shiftmap :: "u8 list" where
  "shiftmap = table
     [0, 27, 33, 64, 35, 36, 37, 94, 38, 42, 40, 41, 95, 43, 8, 9,
      81, 87, 69, 82, 84, 89, 85, 73, 79, 80, 123, 125, 10, 0, 65, 83,
      68, 70, 71, 72, 74, 75, 76, 58, 34, 126, 0, 124, 90, 88, 67, 86,
      66, 78, 77, 60, 62, 63, 0, 42, 0, 32, 0, 0, 0, 0, 0, 0,
      0, 0, 0, 0, 0, 0, 0, 55, 56, 57, 45, 52, 53, 54, 43, 49,
      50, 51, 48, 46, 0, 0, 0, 0]
     [(0x9C, 10), (0xB5, 47), (0xC8, 226), (0xD0, 227), (0xC9, 230), (0xD1, 231), (0xCB, 228), (0xCD, 229), (0x97, 224), (0xCF, 225), (0xD2, 232), (0xD3, 233)]"

definition ctlmap :: "u8 list" where
  "ctlmap = table
     [0, 0, 0, 0, 0, 0, 0, 0, 0, 0, 0, 0, 0, 0, 0, 0,
      17, 23, 5, 18, 20, 25, 21, 9, 15, 16, 0, 0, 13, 0, 1, 19,
      4, 6, 7, 8, 10, 11, 12, 0, 0, 0, 0, 28, 26, 24, 3, 22,
      2, 14, 13, 0, 0, 239, 0, 0]
     [(0x9C, 13), (0xB5, 239), (0xC8, 226), (0xD0, 227), (0xC9, 230), (0xD1, 231), (0xCB, 228), (0xCD, 229), (0x97, 224), (0xCF, 225), (0xD2, 232), (0xD3, 233)]"

definition charcode :: "u8 list list" where
  "charcode = [normalmap, shiftmap, ctlmap, ctlmap]"

text \<open>\<open>kbdgetc\<close>: the data byte if the status port says there is one, and the static \<open>shift\<close>.\<close>

definition kbdgetc :: "u8 option \<Rightarrow> u32 \<Rightarrow> int \<times> u32" where
  "kbdgetc port shift =
     (case port of
        None \<Rightarrow> (- 1, shift)
      | Some data \<Rightarrow>
          if data = 0xE0 then (0, shift OR E0ESC)
          else if data AND 0x80 \<noteq> 0 then
            let data = (if shift AND E0ESC \<noteq> 0 then data else data AND 0x7F)
            in (0, shift AND NOT (ucast (shiftcode ! unat data) OR E0ESC))
          else
            let (data, shift) = (if shift AND E0ESC \<noteq> 0 then (data OR 0x80, shift AND NOT E0ESC) else (data, shift));
                shift = shift OR ucast (shiftcode ! unat data);
                shift = shift XOR ucast (togglecode ! unat data);
                c = charcode ! unat (shift AND (CTL OR SHIFT)) ! unat data;
                c = (if shift AND CAPSLOCK \<noteq> 0 then
                       if 97 \<le> c \<and> c \<le> 122 then c - 32 else if 65 \<le> c \<and> c \<le> 90 then c + 32 else c
                     else c)
            in (int (unat c), shift))"

text \<open>\<open>kbdintr\<close>: \<open>consoleintr\<close> calls \<open>kbdgetc\<close> until the controller has no more data.\<close>

fun kbd_keys :: "u8 list \<Rightarrow> u32 \<Rightarrow> u8 list \<times> u32" where
  "kbd_keys [] shift = ([], shift)"
| "kbd_keys (d # data) shift =
     (let (c, shift) = kbdgetc (Some d) shift; (keys, shift) = kbd_keys data shift in (of_int c # keys, shift))"

definition kbdintr :: "u8 list \<Rightarrow> u32 \<times> con \<Rightarrow> (bool \<times> u32 \<times> con) res" where
  "kbdintr data = (\<lambda>(shift, s).
     let (keys, shift) = kbd_keys data shift in bindE (consoleintr keys s) (\<lambda>(d, s). Inr (d, shift, s)))"

section \<open>Modifier keys\<close>

lemma shiftcode_nth:
  "d < 256 \<Longrightarrow> shiftcode ! d = (if d = 0x1D \<or> d = 0x9D then 2 else if d = 0x2A \<or> d = 0x36 then 1 else if d = 0x38 \<or> d = 0xB8 then 4 else 0)"
  by (simp add: shiftcode_def table_def nth_list_update)

lemma togglecode_nth:
  "d < 256 \<Longrightarrow> togglecode ! d = (if d = 0x3A then 8 else if d = 0x45 then 16 else if d = 0x46 then 32 else 0)"
  by (simp add: togglecode_def table_def nth_list_update)

text \<open>
  A key is known by its scan code, with bit 7 set for the keys that send the prefix \<open>0xE0\<close>; pressing and
  releasing it sends these bytes. (No key has the code \<open>0x60\<close>, whose release would be the prefix.)
\<close>

datatype kevent = Down u8 | Up u8

fun key_of :: "kevent \<Rightarrow> u8" where
  "key_of (Down k) = k"
| "key_of (Up k) = k"

fun is_down :: "kevent \<Rightarrow> bool" where
  "is_down (Down k) \<longleftrightarrow> True"
| "is_down (Up k) \<longleftrightarrow> False"

fun scan :: "kevent \<Rightarrow> u8 list" where
  "scan (Down k) = (if bit k 7 then [0xE0, k AND 0x7F] else [k])"
| "scan (Up k) = (if bit k 7 then [0xE0, k] else [k OR 0x80])"

definition held :: "u8 set \<Rightarrow> kevent list \<Rightarrow> bool" where
  "held ks h \<longleftrightarrow> (let es = filter (\<lambda>e. key_of e \<in> ks) h in es \<noteq> [] \<and> is_down (last es))"

definition toggled :: "u8 \<Rightarrow> kevent list \<Rightarrow> bool" where
  "toggled k h \<longleftrightarrow> odd (count_list h (Down k))"

definition mods :: "kevent list \<Rightarrow> nat \<Rightarrow> bool" where
  "mods h n =
     (if n = 0 then held {0x2A, 0x36} h else if n = 1 then held {0x1D, 0x9D} h else if n = 2 then held {0x38, 0xB8} h
      else if n = 3 then toggled 0x3A h else if n = 4 then toggled 0x45 h else n = 5 \<and> toggled 0x46 h)"

text \<open>The character of a key pressed with the modifiers of the history \<open>h\<close>, this press included.\<close>

definition key_char :: "kevent list \<Rightarrow> u8 \<Rightarrow> u8" where
  "key_char h k =
     (let c = (if held {0x1D, 0x9D} h then ctlmap else if held {0x2A, 0x36} h then shiftmap else normalmap) ! unat k
      in if toggled 0x3A h then if 97 \<le> c \<and> c \<le> 122 then c - 32 else if 65 \<le> c \<and> c \<le> 90 then c + 32 else c else c)"

fun typed :: "kevent list \<Rightarrow> kevent list \<Rightarrow> u8 list" where
  "typed h [] = []"
| "typed h (e # es) =
     (if bit (key_of e) 7 then [0] else []) @ (case e of Down k \<Rightarrow> [key_char (h @ [e]) k] | Up k \<Rightarrow> [0]) @ typed (h @ [e]) es"

lemma held_snoc: "held ks (h @ [e]) \<longleftrightarrow> (if key_of e \<in> ks then is_down e else held ks h)"
  by (simp add: held_def Let_def)

lemma toggled_snoc: "toggled k (h @ [e]) \<longleftrightarrow> (if e = Down k then \<not> toggled k h else toggled k h)"
  by (simp add: toggled_def)

lemma code_bits:
  fixes k :: u8
  shows "bit (ucast (shiftcode ! unat k) :: u32) n \<longleftrightarrow> n = 0 \<and> k \<in> {0x2A, 0x36} \<or> n = 1 \<and> k \<in> {0x1D, 0x9D} \<or> n = 2 \<and> k \<in> {0x38, 0xB8}"
    and "bit (ucast (togglecode ! unat k) :: u32) n \<longleftrightarrow> n = 3 \<and> k = 0x3A \<or> n = 4 \<and> k = 0x45 \<or> n = 5 \<and> k = 0x46"
proof -
  have b: "bit (2 ^ j :: u32) n \<longleftrightarrow> n = j" if "j < 32" for j using that by (auto simp: bit_exp_iff)
  have u: "unat k = m \<longleftrightarrow> k = of_nat m" if "m < 256" for m using that by (auto simp: word_eq_unat_iff unat_of_nat take_bit_nat_eq_self)
  show "bit (ucast (shiftcode ! unat k) :: u32) n \<longleftrightarrow> n = 0 \<and> k \<in> {0x2A, 0x36} \<or> n = 1 \<and> k \<in> {0x1D, 0x9D} \<or> n = 2 \<and> k \<in> {0x38, 0xB8}"
    using shiftcode_nth[OF unat_u8_lt[of k]] b[of 0] b[of 1] b[of 2] u[of 42] u[of 54] u[of 29] u[of 157] u[of 56] u[of 184] by auto
  show "bit (ucast (togglecode ! unat k) :: u32) n \<longleftrightarrow> n = 3 \<and> k = 0x3A \<or> n = 4 \<and> k = 0x45 \<or> n = 5 \<and> k = 0x46"
    using togglecode_nth[OF unat_u8_lt[of k]] b[of 3] b[of 4] b[of 5] u[of 58] u[of 69] u[of 70] by auto
qed

lemma flag_tests:
  "(shift :: u32) AND E0ESC \<noteq> 0 \<longleftrightarrow> bit shift 6" "shift AND CAPSLOCK \<noteq> 0 \<longleftrightarrow> bit shift 3" "(d :: u8) AND 0x80 \<noteq> 0 \<longleftrightarrow> bit d 7"
  using and_exp_eq_0_iff_not_bit[of shift 6] and_exp_eq_0_iff_not_bit[of shift 3] and_exp_eq_0_iff_not_bit[of d 7]
  by (simp_all add: E0ESC_def CAPSLOCK_def)

lemma E0_bits: "bit E0ESC n \<longleftrightarrow> n = 6"
  using bit_exp_iff[of 6 n, where 'a = u32] by (auto simp: E0ESC_def)

lemma table_index: "unat (shift AND (CTL OR SHIFT) :: u32) = (if bit shift 1 then 2 else 0) + (if bit shift 0 then 1 else 0)"
proof -
  have "shift AND (CTL OR SHIFT) = take_bit 2 shift" by (simp add: CTL_def SHIFT_def take_bit_eq_mask mask_eq_exp_minus_1)
  also have "\<dots> = (if bit shift 1 then 2 else 0) + (if bit shift 0 then 1 else 0)"
    by (simp add: numeral_2_eq_2 take_bit_Suc bit_Suc bit_0 mod_2_eq_odd)
  finally show ?thesis by simp
qed

definition tracks :: "kevent list \<Rightarrow> u32 \<Rightarrow> bool" where
  "tracks h shift \<longleftrightarrow> (\<forall>n. bit shift n \<longleftrightarrow> mods h n)"

lemma press:
  assumes h: "tracks h shift" and k: "k \<noteq> 0xE0"
    and d: "kbdgetc (Some d) s0 = (let shift = (shift OR ucast (shiftcode ! unat k)) XOR ucast (togglecode ! unat k);
                c = charcode ! unat (shift AND (CTL OR SHIFT)) ! unat k;
                c = (if shift AND CAPSLOCK \<noteq> 0 then
                       if 97 \<le> c \<and> c \<le> 122 then c - 32 else if 65 \<le> c \<and> c \<le> 90 then c + 32 else c
                     else c)
            in (int (unat c), shift))"
  shows "\<exists>shift'. kbdgetc (Some d) s0 = (int (unat (key_char (h @ [Down k]) k)), shift') \<and> tracks (h @ [Down k]) shift'"
proof -
  let ?s = "(shift OR ucast (shiftcode ! unat k)) XOR ucast (togglecode ! unat k)"
  have t: "tracks (h @ [Down k]) ?s"
    unfolding tracks_def
  proof
    fix n
    show "bit ?s n \<longleftrightarrow> mods (h @ [Down k]) n"
      unfolding bit_xor_iff bit_or_iff h[unfolded tracks_def, rule_format, of n] mods_def code_bits
      by (cases "n = 5") (simp_all add: held_snoc toggled_snoc)
  qed
  have b: "bit ?s 1 = held {0x1D, 0x9D} (h @ [Down k])" "bit ?s 0 = held {0x2A, 0x36} (h @ [Down k])"
    using t[unfolded tracks_def, rule_format, of 0] t[unfolded tracks_def, rule_format, of 1] by (simp_all add: mods_def)
  have "charcode ! unat (?s AND (CTL OR SHIFT)) = (if held {0x1D, 0x9D} (h @ [Down k]) then ctlmap else if held {0x2A, 0x36} (h @ [Down k]) then shiftmap else normalmap)"
    unfolding table_index b by (simp add: charcode_def)
  moreover have "(?s AND CAPSLOCK \<noteq> 0) = toggled 0x3A (h @ [Down k])"
    using t[unfolded tracks_def, rule_format, of 3] by (simp add: flag_tests mods_def)
  ultimately show ?thesis using t d by (simp only: Let_def key_char_def) blast
qed

lemma prefix: "tracks h shift \<Longrightarrow> kbdgetc (Some 0xE0) shift = (0, shift OR E0ESC)" "bit (shift OR E0ESC) 6" 
  "tracks h shift \<Longrightarrow> (shift OR E0ESC) AND NOT E0ESC = shift" "tracks h shift \<Longrightarrow> \<not> bit shift 6"
proof -
  show "tracks h shift \<Longrightarrow> kbdgetc (Some 0xE0) shift = (0, shift OR E0ESC)" by (simp add: kbdgetc_def)
  show "bit (shift OR E0ESC) 6" by (simp add: bit_or_iff E0_bits)
  show n: "tracks h shift \<Longrightarrow> \<not> bit shift 6" by (simp add: tracks_def mods_def)
  show "tracks h shift \<Longrightarrow> (shift OR E0ESC) AND NOT E0ESC = shift"
    using n by (intro bit_word_eqI) (auto simp: bit_and_iff bit_or_iff bit_not_iff E0_bits)
qed

lemma release:
  assumes h: "tracks h shift" and d: "kbdgetc (Some d) s0 = (0, s0 AND NOT (ucast (shiftcode ! unat k) OR E0ESC))" "s0 = shift \<or> s0 = shift OR E0ESC"
  shows "\<exists>shift'. kbdgetc (Some d) s0 = (0, shift') \<and> tracks (h @ [Up k]) shift'"
proof -
  have "tracks (h @ [Up k]) (s0 AND NOT (ucast (shiftcode ! unat k) OR E0ESC))"
    unfolding tracks_def
  proof
    fix n
    have "bit shift n \<Longrightarrow> n \<noteq> 6" using prefix(4)[OF h] by auto
    then have s0: "bit s0 n \<and> n \<noteq> 6 \<longleftrightarrow> bit shift n" using d(2) by (auto simp: bit_or_iff E0_bits)
    have "bit (s0 AND NOT (ucast (shiftcode ! unat k) OR E0ESC)) n \<longleftrightarrow> bit shift n \<and> \<not> bit (ucast (shiftcode ! unat k) :: u32) n"
      using s0 bit_imp_le_length[of shift n] by (auto simp: bit_and_iff bit_or_iff bit_not_iff E0_bits)
    then show "bit (s0 AND NOT (ucast (shiftcode ! unat k) OR E0ESC)) n \<longleftrightarrow> mods (h @ [Up k]) n"
      unfolding h[unfolded tracks_def, rule_format, of n] mods_def code_bits by (simp add: held_snoc toggled_snoc)
  qed
  then show ?thesis using d(1) by blast
qed

lemma byte_parts:
  "bit (k :: u8) 7 \<Longrightarrow> (k AND 0x7F) OR 0x80 = k" "\<not> bit k 7 \<Longrightarrow> (k OR 0x80) AND 0x7F = k"
  "\<not> bit (k AND 0x7F) 7" "bit (k OR 0x80) 7" "bit (0xE0 :: u8) 7" "\<not> bit k 7 \<Longrightarrow> k OR 0x80 = 0xE0 \<Longrightarrow> k = 0x60"
proof -
  have b: "bit (0x7F :: u8) n \<longleftrightarrow> n < 7" "bit (0x80 :: u8) n \<longleftrightarrow> n = 7" for n
    using bit_mask_iff[of 7 n, where 'a = u8] bit_exp_iff[of 7 n, where 'a = u8] by (auto simp: mask_eq_exp_minus_1)
  have l: "bit k n \<Longrightarrow> n < 8" for n using bit_imp_le_length[of k n] by simp
  show "bit k 7 \<Longrightarrow> (k AND 0x7F) OR 0x80 = k" by (rule bit_word_eqI) (auto simp: bit_and_iff bit_or_iff b less_Suc_eq numeral_eq_Suc)
  show i: "\<not> bit k 7 \<Longrightarrow> (k OR 0x80) AND 0x7F = k" by (rule bit_word_eqI) (auto simp: bit_and_iff bit_or_iff b less_Suc_eq numeral_eq_Suc)
  show "\<not> bit (k AND 0x7F) 7" "bit (k OR 0x80) 7" by (simp_all add: bit_and_iff bit_or_iff b)
  show "bit (0xE0 :: u8) 7" by (simp add: bit_simps)
  show "\<not> bit k 7 \<Longrightarrow> k OR 0x80 = 0xE0 \<Longrightarrow> k = 0x60" using i by simp
qed

lemma scan_step:
  assumes h: "tracks h shift" and k: "key_of e \<noteq> 0x60" "key_of e \<noteq> 0xE0"
  shows "\<exists>shift'. kbd_keys (scan e @ data) shift =
      ((if bit (key_of e) 7 then [0] else []) @ (case e of Down k \<Rightarrow> [key_char (h @ [e]) k] | Up k \<Rightarrow> [0]) @ fst (kbd_keys data shift'), snd (kbd_keys data shift')) \<and>
    tracks (h @ [e]) shift'"
proof (cases e)
  case (Down k)
  note p = prefix(1,3,4)[OF h] prefix(2)[of shift]
  show ?thesis
  proof (cases "bit k 7")
    case True
    have c: "(k AND 0x7F = 0xE0) = False" "((k AND 0x7F) AND 0x80 \<noteq> 0) = False" "((shift OR E0ESC) AND E0ESC \<noteq> 0) = True"
      using byte_parts(3,5) p(4) unfolding flag_tests by metis+
    obtain shift' where "kbdgetc (Some (k AND 0x7F)) (shift OR E0ESC) = (int (unat (key_char (h @ [Down k]) k)), shift')" "tracks (h @ [Down k]) shift'"
      using press[OF h, of k "k AND 0x7F" "shift OR E0ESC"] k Down
      unfolding kbdgetc_def option.case c if_True if_False Let_def prod.case byte_parts(1)[OF True] p(2) by auto
    then show ?thesis using Down True p by (auto simp: Let_def case_prod_beta)
  next
    case False
    then have c: "(k = 0xE0) = False" "(k AND 0x80 \<noteq> 0) = False" "(shift AND E0ESC \<noteq> 0) = False"
      using k Down p(3) unfolding flag_tests by simp_all
    obtain shift' where "kbdgetc (Some k) shift = (int (unat (key_char (h @ [Down k]) k)), shift')" "tracks (h @ [Down k]) shift'"
      using press[OF h, of k k shift] k Down unfolding kbdgetc_def option.case c if_True if_False Let_def prod.case by auto
    then show ?thesis using Down False by (auto simp: Let_def case_prod_beta)
  qed
next
  case (Up k)
  note p = prefix(1,3,4)[OF h] prefix(2)[of shift]
  show ?thesis
  proof (cases "bit k 7")
    case True
    then have c: "(k = 0xE0) = False" "(k AND 0x80 \<noteq> 0) = True" "((shift OR E0ESC) AND E0ESC \<noteq> 0) = True"
      using k Up p(4) unfolding flag_tests by simp_all
    obtain shift' where "kbdgetc (Some k) (shift OR E0ESC) = (0, shift')" "tracks (h @ [Up k]) shift'"
      using release[OF h, of k "shift OR E0ESC" k] unfolding kbdgetc_def option.case c if_True if_False Let_def by auto
    then show ?thesis using Up True p by (auto simp: Let_def case_prod_beta)
  next
    case False
    have c: "(k OR 0x80 = 0xE0) = False" "((k OR 0x80) AND 0x80 \<noteq> 0) = True" "(shift AND E0ESC \<noteq> 0) = False"
      using byte_parts(6)[OF False] byte_parts(4)[of k] k Up p(3) unfolding flag_tests by auto
    obtain shift' where "kbdgetc (Some (k OR 0x80)) shift = (0, shift')" "tracks (h @ [Up k]) shift'"
      using release[OF h, of "k OR 0x80" shift k] unfolding kbdgetc_def option.case c if_True if_False Let_def byte_parts(2)[OF False] by auto
    then show ?thesis using Up False by (auto simp: Let_def case_prod_beta)
  qed
qed

lemma kbd_run:
  assumes "tracks h shift" and "\<forall>e \<in> set es. key_of e \<noteq> 0x60 \<and> key_of e \<noteq> 0xE0"
  shows "\<exists>shift'. kbd_keys (concat (map scan es)) shift = (typed h es, shift') \<and> tracks (h @ es) shift'"
  using assms
proof (induction es arbitrary: h shift)
  case (Cons e es)
  obtain s1 where s1: "kbd_keys (scan e @ concat (map scan es)) shift =
      ((if bit (key_of e) 7 then [0] else []) @ (case e of Down k \<Rightarrow> [key_char (h @ [e]) k] | Up k \<Rightarrow> [0]) @ fst (kbd_keys (concat (map scan es)) s1), snd (kbd_keys (concat (map scan es)) s1))"
    "tracks (h @ [e]) s1" using scan_step[OF Cons.prems(1), of e "concat (map scan es)"] Cons.prems(2) by auto
  show ?case using Cons.IH[OF s1(2)] Cons.prems(2) s1(1) by auto
qed simp

text \<open>For any history of key presses and releases the driver delivers, press by press, the character that the tables
  give for the modifiers held at that moment, with caps lock swapping the case of letters; and its \<open>shift\<close> word has
  exactly the bits of the modifier keys that are down and of the locks that are on, so no other bit is ever set.\<close>

theorem kbd_tracks_modifiers:
  assumes "\<forall>e \<in> set es. key_of e \<noteq> 0x60 \<and> key_of e \<noteq> 0xE0"
  shows "\<exists>shift. kbd_keys (concat (map scan es)) 0 = (typed [] es, shift) \<and> (\<forall>n. bit shift n \<longleftrightarrow> mods es n)"
proof -
  have "tracks [] 0" by (simp add: tracks_def mods_def held_def toggled_def)
  from kbd_run[OF this assms] show ?thesis by (simp add: tracks_def)
qed

text \<open>Shift, \<open>h\<close>, release both, \<open>i\<close>: the text \<open>Hi\<close>.\<close>

theorem kbd_tracks_modifiers_witness:
  "\<exists>shift. kbd_keys [0x2A, 0x23, 0xA3, 0xAA, 0x17] 0 = ([0, 72, 0, 0, 105], shift) \<and> \<not> bit shift 0"
proof -
  let ?es = "[Down 0x2A, Down 0x23, Up 0x23, Up 0x2A, Down 0x17]"
  have b: "\<not> bit (0x2A :: u8) 7" "\<not> bit (0x23 :: u8) 7" "\<not> bit (0x17 :: u8) 7" "0x23 OR 0x80 = (0xA3 :: u8)" "0x2A OR 0x80 = (0xAA :: u8)" by (simp_all add: bit_simps)
  have t: "typed [] ?es = [0, 72, 0, 0, 105]" by code_simp
  have m: "mods ?es 0 = False" by code_simp
  show ?thesis using kbd_tracks_modifiers[of ?es] b t m by auto
qed

end
