(* ===== verification/Spinlock.thy ===== *)
theory Spinlock
  imports Prelude
begin

text \<open>
  Spin locks and the interrupt flag (\<^verbatim>\<open>spinlock.c\<close>). The first part has the functions as one CPU executes them,
  with \<open>mycpu()\<close> passed as the CPU's number and record; the second lets any number of CPUs run them on any number
  of locks, at the grain of the memory accesses that other CPUs can see.
\<close>

section \<open>Interrupts\<close>

record cpu =
  ncli :: int
  intena :: bool
  c_if :: bool

definition pushcli :: "cpu \<Rightarrow> cpu" where
  "pushcli c = (let eflags = c_if c; c = c\<lparr>c_if := False\<rparr>; c = (if ncli c = 0 then c\<lparr>intena := eflags\<rparr> else c) in c\<lparr>ncli := ncli c + 1\<rparr>)"

definition popcli :: "cpu \<Rightarrow> cpu res" where
  "popcli c =
     (if c_if c then Inl (Panic ''popcli - interruptible'')
      else let c = c\<lparr>ncli := ncli c - 1\<rparr> in
           if ncli c < 0 then Inl (Panic ''popcli'')
           else Inr (if ncli c = 0 \<and> intena c then c\<lparr>c_if := True\<rparr> else c))"

section \<open>Locks\<close>

record spinlock =
  l_locked :: bool
  l_name :: string
  l_cpu :: "nat option"
  l_pcs :: "u32 list"

definition initlock :: "string \<Rightarrow> spinlock \<Rightarrow> spinlock" where
  "initlock name lk = lk\<lparr>l_name := name, l_locked := False, l_cpu := None\<rparr>"

definition holding :: "nat \<Rightarrow> spinlock \<Rightarrow> cpu \<Rightarrow> (bool \<times> cpu) res" where
  "holding me lk c =
     (let c = pushcli c; r = (l_locked lk \<and> l_cpu lk = Some me) in bindE (popcli c) (\<lambda>c. Inr (r, c)))"

text \<open>The call stack from \<open>v\<close>, with \<open>rd\<close> the word at an address of kernel memory; \<open>n\<close> entries are left to fill.\<close>

fun getcallerpcs_from :: "(u32 \<Rightarrow> u32) \<Rightarrow> u32 \<Rightarrow> nat \<Rightarrow> u32 list" where
  "getcallerpcs_from rd ebp 0 = []"
| "getcallerpcs_from rd ebp (Suc n) =
     (if ebp = 0 \<or> ebp < 0x80000000 \<or> ebp = 0xFFFFFFFF then replicate (Suc n) 0
      else rd (ebp + 4) # getcallerpcs_from rd (rd ebp) n)"

definition getcallerpcs :: "(u32 \<Rightarrow> u32) \<Rightarrow> u32 \<Rightarrow> u32 list" where
  "getcallerpcs rd v = getcallerpcs_from rd (v - 8) 10"

text \<open>
  \<open>acquire\<close> in its three parts: up to the loop, one \<open>xchg\<close> of the loop with the value it returns, and the record of
  the owner; \<open>release\<close> in two: up to the store that frees the lock, and from that store on.
\<close>

definition acquire_enter :: "nat \<Rightarrow> spinlock \<Rightarrow> cpu \<Rightarrow> cpu res" where
  "acquire_enter me lk c =
     bindE (holding me lk (pushcli c)) (\<lambda>(r, c). if r then Inl (Panic ''acquire'') else Inr c)"

definition xchg_locked :: "spinlock \<Rightarrow> bool \<times> spinlock" where
  "xchg_locked lk = (l_locked lk, lk\<lparr>l_locked := True\<rparr>)"

definition acquire_own :: "nat \<Rightarrow> (u32 \<Rightarrow> u32) \<Rightarrow> u32 \<Rightarrow> spinlock \<Rightarrow> spinlock" where
  "acquire_own me rd v lk = lk\<lparr>l_cpu := Some me, l_pcs := getcallerpcs rd v\<rparr>"

definition acquire :: "nat \<Rightarrow> (u32 \<Rightarrow> u32) \<Rightarrow> u32 \<Rightarrow> spinlock \<Rightarrow> cpu \<Rightarrow> (spinlock \<times> cpu) res" where
  "acquire me rd v lk c =
     bindE (acquire_enter me lk c) (\<lambda>c.
     let (old, lk) = xchg_locked lk in
     if old then Inl (Hang ''acquire'') else Inr (acquire_own me rd v lk, c))"

definition release_enter :: "nat \<Rightarrow> spinlock \<Rightarrow> cpu \<Rightarrow> (spinlock \<times> cpu) res" where
  "release_enter me lk c =
     bindE (holding me lk c) (\<lambda>(r, c).
     if \<not> r then Inl (Panic ''release'') else Inr (lk\<lparr>l_pcs := (l_pcs lk)[0 := 0], l_cpu := None\<rparr>, c))"

definition release_leave :: "nat \<Rightarrow> spinlock \<Rightarrow> cpu \<Rightarrow> (spinlock \<times> cpu) res" where
  "release_leave me lk c =
     (let lk = lk\<lparr>l_locked := False\<rparr> in
      bindE (popcli c) (\<lambda>c.
      bindE (holding me lk c) (\<lambda>(r, c). if r then Inl (Panic ''still holding'') else Inr (lk, c))))"

definition release :: "nat \<Rightarrow> spinlock \<Rightarrow> cpu \<Rightarrow> (spinlock \<times> cpu) res" where
  "release me lk c = bindE (release_enter me lk c) (\<lambda>(lk, c). release_leave me lk c)"

text \<open>The state of a CPU between calls: nesting is counted from 0, and interrupts are off while it is positive.\<close>

definition cpu_ok :: "cpu \<Rightarrow> bool" where
  "cpu_ok c \<longleftrightarrow> 0 \<le> ncli c \<and> (0 < ncli c \<longrightarrow> \<not> c_if c)"

lemma pushcli_ok:
  assumes "cpu_ok c"
  shows "cpu_ok (pushcli c)" "ncli (pushcli c) = ncli c + 1" "\<not> c_if (pushcli c)"
  using assms by (auto simp: cpu_ok_def pushcli_def Let_def)

lemma popcli_ok:
  assumes "cpu_ok c" "0 < ncli c"
  shows "\<exists>c'. popcli c = Inr c' \<and> cpu_ok c' \<and> ncli c' = ncli c - 1"
  using assms by (auto simp: cpu_ok_def popcli_def Let_def)

lemma push_pop: "cpu_ok c \<Longrightarrow> \<exists>b. popcli (pushcli c) = Inr (c\<lparr>intena := b\<rparr>) \<and> (0 < ncli c \<longrightarrow> b = intena c)"
  by (cases c; rule exI[of _ "if ncli c = 0 then c_if c else intena c"]) (auto simp: cpu_ok_def popcli_def pushcli_def Let_def)

lemma holding_eq:
  assumes "cpu_ok c"
  shows "\<exists>c'. holding me lk c = Inr (l_locked lk \<and> l_cpu lk = Some me, c') \<and> cpu_ok c' \<and> ncli c' = ncli c \<and> c_if c' = c_if c \<and> (0 < ncli c \<longrightarrow> intena c' = intena c)"
  using push_pop[OF assms] assms by (auto simp: holding_def cpu_ok_def)

text \<open>Nested \<open>pushcli\<close> calls followed by as many \<open>popcli\<close> give back the interrupt flag of the outermost call.\<close>

fun pops :: "nat \<Rightarrow> cpu \<Rightarrow> cpu res" where
  "pops 0 c = Inr c"
| "pops (Suc n) c = bindE (popcli c) (pops n)"

lemma cli_nest:
  assumes "cpu_ok c" "ncli c = 0"
  shows "pops (Suc n) ((pushcli ^^ Suc n) c) = Inr (c\<lparr>intena := c_if c\<rparr>)"
proof -
  have p: "(pushcli ^^ Suc k) c = c\<lparr>c_if := False, intena := c_if c, ncli := int k + 1\<rparr>" for k
    using assms by (induction k) (auto simp: pushcli_def Let_def)
  have "pops (Suc k) (c\<lparr>c_if := False, intena := c_if c, ncli := int k + 1\<rparr>) = Inr (c\<lparr>intena := c_if c\<rparr>)" for k
  proof (induction k)
    case 0
    then show ?case using assms by (cases "c_if c") (auto simp: popcli_def Let_def)
  next
    case (Suc k)
    have "popcli (c\<lparr>c_if := False, intena := c_if c, ncli := int (Suc k) + 1\<rparr>) = Inr (c\<lparr>c_if := False, intena := c_if c, ncli := int k + 1\<rparr>)"
      by (simp add: popcli_def Let_def)
    then show ?case using Suc by (simp only: pops.simps(2)[of "Suc k"] bindE_simps)
  qed
  then show ?thesis unfolding p by blast
qed

section \<open>Many CPUs\<close>

datatype lphase_s = Between | Spinning nat | Taken nat | Freeing nat

record smp =
  s_cpu :: "nat \<Rightarrow> cpu"
  s_lock :: "nat \<Rightarrow> spinlock"
  s_phase :: "nat \<Rightarrow> lphase_s"
  s_has :: "nat \<Rightarrow> nat list"

inductive smp_step :: "smp \<Rightarrow> smp \<Rightarrow> bool" where
  enter: "s_phase s i = Between \<Longrightarrow> acquire_enter i (s_lock s l) (s_cpu s i) = Inr c \<Longrightarrow>
    smp_step s (s\<lparr>s_cpu := (s_cpu s)(i := c), s_phase := (s_phase s)(i := Spinning l)\<rparr>)"
| spin: "s_phase s i = Spinning l \<Longrightarrow> xchg_locked (s_lock s l) = (True, lk) \<Longrightarrow>
    smp_step s (s\<lparr>s_lock := (s_lock s)(l := lk)\<rparr>)"
| take: "s_phase s i = Spinning l \<Longrightarrow> xchg_locked (s_lock s l) = (False, lk) \<Longrightarrow>
    smp_step s (s\<lparr>s_lock := (s_lock s)(l := lk), s_phase := (s_phase s)(i := Taken l)\<rparr>)"
| own: "s_phase s i = Taken l \<Longrightarrow>
    smp_step s (s\<lparr>s_lock := (s_lock s)(l := acquire_own i rd v (s_lock s l)), s_phase := (s_phase s)(i := Between),
                  s_has := (s_has s)(i := l # s_has s i)\<rparr>)"
| unlock: "s_phase s i = Between \<Longrightarrow> release_enter i (s_lock s l) (s_cpu s i) = Inr (lk, c) \<Longrightarrow>
    smp_step s (s\<lparr>s_lock := (s_lock s)(l := lk), s_cpu := (s_cpu s)(i := c), s_phase := (s_phase s)(i := Freeing l),
                  s_has := (s_has s)(i := remove1 l (s_has s i))\<rparr>)"
| free: "s_phase s i = Freeing l \<Longrightarrow> release_leave i (s_lock s l) (s_cpu s i) = Inr (lk, c) \<Longrightarrow>
    smp_step s (s\<lparr>s_lock := (s_lock s)(l := lk), s_cpu := (s_cpu s)(i := c), s_phase := (s_phase s)(i := Between)\<rparr>)"
| interrupts: "s_phase s i = Between \<Longrightarrow> ncli (s_cpu s i) = 0 \<Longrightarrow>
    smp_step s (s\<lparr>s_cpu := (s_cpu s)(i := (s_cpu s i)\<lparr>c_if := b\<rparr>)\<rparr>)"

inductive smp_reach :: "smp \<Rightarrow> bool" where
  boot: "(\<And>i. ncli (s_cpu s i) = 0) \<Longrightarrow> (\<And>l. \<not> l_locked (s_lock s l) \<and> l_cpu (s_lock s l) = None) \<Longrightarrow>
    (\<And>i. s_phase s i = Between) \<Longrightarrow> (\<And>i. s_has s i = []) \<Longrightarrow> smp_reach s"
| step: "smp_reach s \<Longrightarrow> smp_step s t \<Longrightarrow> smp_reach t"

text \<open>
  What concerns one lock: who has it after \<open>acquire\<close>, who is about to record the ownership, who is about to
  store the 0. A lock is used by the CPUs in any of these three states.
\<close>

type_synonym lview = "spinlock \<times> (nat \<Rightarrow> bool) \<times> (nat \<Rightarrow> bool) \<times> (nat \<Rightarrow> bool)"

definition lview_of :: "smp \<Rightarrow> nat \<Rightarrow> lview" where
  "lview_of s l = (s_lock s l, (\<lambda>i. l \<in> set (s_has s i)), (\<lambda>i. s_phase s i = Taken l), (\<lambda>i. s_phase s i = Freeing l))"

definition nobody :: "nat \<Rightarrow> bool" where "nobody = (\<lambda>_. False)"

definition only :: "nat \<Rightarrow> nat \<Rightarrow> bool" where "only i = (\<lambda>j. j = i)"

lemma only_simps [simp]: "nobody(i := True) = only i" "(only i)(i := False) = nobody" "only i j \<longleftrightarrow> j = i" "nobody j \<longleftrightarrow> False"
  by (auto simp: nobody_def only_def fun_eq_iff)

definition lock_ok :: "lview \<Rightarrow> bool" where
  "lock_ok = (\<lambda>(lk, H, T, F).
     \<not> l_locked lk \<and> l_cpu lk = None \<and> H = nobody \<and> T = nobody \<and> F = nobody \<or>
     (\<exists>i. l_locked lk \<and> (l_cpu lk = Some i \<and> H = only i \<and> T = nobody \<and> F = nobody \<or>
        l_cpu lk = None \<and> H = nobody \<and> (T = only i \<and> F = nobody \<or> T = nobody \<and> F = only i))))"

definition cpu_inv :: "cpu \<Rightarrow> nat list \<Rightarrow> lphase_s \<Rightarrow> bool" where
  "cpu_inv c has ph \<longleftrightarrow> cpu_ok c \<and> ncli c = int (length has) + (if ph = Between then 0 else 1) \<and> distinct has"

definition smp_inv :: "smp \<Rightarrow> bool" where
  "smp_inv s \<longleftrightarrow> (\<forall>i. cpu_inv (s_cpu s i) (s_has s i) (s_phase s i)) \<and> (\<forall>l. lock_ok (lview_of s l))"

text \<open>A step of CPU \<open>i\<close> on lock \<open>l\<close> keeps the rest.\<close>

lemma smp_inv_change:
  assumes inv: "smp_inv s"
    and cpu: "\<And>j. j \<noteq> i \<Longrightarrow> s_cpu t j = s_cpu s j \<and> s_has t j = s_has s j \<and> s_phase t j = s_phase s j"
    and lock: "\<And>k. k \<noteq> l \<Longrightarrow> s_lock t k = s_lock s k \<and> (k \<in> set (s_has t i) \<longleftrightarrow> k \<in> set (s_has s i)) \<and>
        (s_phase t i = Taken k \<longleftrightarrow> s_phase s i = Taken k) \<and> (s_phase t i = Freeing k \<longleftrightarrow> s_phase s i = Freeing k)"
    and ci: "cpu_inv (s_cpu t i) (s_has t i) (s_phase t i)" and li: "lock_ok (lview_of t l)"
  shows "smp_inv t"
proof -
  have "cpu_inv (s_cpu t j) (s_has t j) (s_phase t j)" for j using inv cpu[of j] ci by (cases "j = i") (auto simp: smp_inv_def)
  moreover have "lock_ok (lview_of t k)" for k
  proof (cases "k = l")
    case False
    have "(k \<in> set (s_has t j)) = (k \<in> set (s_has s j))" "(s_phase t j = Taken k) = (s_phase s j = Taken k)" "(s_phase t j = Freeing k) = (s_phase s j = Freeing k)" for j
      using cpu[of j] lock[OF False] by (cases "j = i"; auto)+
    then have "lview_of t k = lview_of s k" using lock[OF False] by (simp add: lview_of_def)
    then show ?thesis using inv by (simp add: smp_inv_def)
  qed (simp add: li)
  ultimately show ?thesis by (simp add: smp_inv_def)
qed

lemma lock_ok_moves:
  "lock_ok (lk, H, T, F) \<Longrightarrow> \<not> l_locked lk \<Longrightarrow> lock_ok (lk\<lparr>l_locked := True\<rparr>, H, T(i := True), F)"
  "lock_ok (lk, H, T, F) \<Longrightarrow> T i \<Longrightarrow> lock_ok (lk\<lparr>l_cpu := Some i, l_pcs := p\<rparr>, H(i := True), T(i := False), F)"
  "lock_ok (lk, H, T, F) \<Longrightarrow> l_locked lk \<Longrightarrow> H i \<Longrightarrow> lock_ok (lk\<lparr>l_pcs := p, l_cpu := None\<rparr>, H(i := False), T, F(i := True))"
  "lock_ok (lk, H, T, F) \<Longrightarrow> F i \<Longrightarrow> lock_ok (lk\<lparr>l_locked := False\<rparr>, H, T, F(i := False))"
  unfolding lock_ok_def prod.case by auto

lemma enter_eq:
  assumes "cpu_ok c" "acquire_enter me lk c = Inr c'"
  shows "cpu_ok c'" "ncli c' = ncli c + 1" "\<not> (l_locked lk \<and> l_cpu lk = Some me)"
proof -
  obtain c1 where c1: "holding me lk (pushcli c) = Inr (l_locked lk \<and> l_cpu lk = Some me, c1)" "cpu_ok c1" "ncli c1 = ncli (pushcli c)"
    using holding_eq[OF pushcli_ok(1)[OF assms(1)]] by blast
  then have "\<not> (l_locked lk \<and> l_cpu lk = Some me)" "c' = c1" using assms(2) by (auto simp: acquire_enter_def split: if_splits)
  then show "cpu_ok c'" "ncli c' = ncli c + 1" "\<not> (l_locked lk \<and> l_cpu lk = Some me)" using c1 pushcli_ok(2)[OF assms(1)] by auto
qed

lemma unlock_eq:
  assumes "cpu_ok c" "release_enter me lk c = Inr (lk', c')"
  shows "cpu_ok c'" "ncli c' = ncli c" "l_locked lk" "l_cpu lk = Some me" "l_locked lk'" "l_cpu lk' = None" "lk' = lk\<lparr>l_pcs := (l_pcs lk)[0 := 0], l_cpu := None\<rparr>"
proof -
  obtain c1 where c1: "holding me lk c = Inr (l_locked lk \<and> l_cpu lk = Some me, c1)" "cpu_ok c1" "ncli c1 = ncli c" using holding_eq[OF assms(1)] by blast
  then have "l_locked lk \<and> l_cpu lk = Some me" "c' = c1" "lk' = lk\<lparr>l_pcs := (l_pcs lk)[0 := 0], l_cpu := None\<rparr>"
    using assms(2) by (auto simp: release_enter_def split: if_splits)
  then show "cpu_ok c'" "ncli c' = ncli c" "l_locked lk" "l_cpu lk = Some me" "l_locked lk'" "l_cpu lk' = None" "lk' = lk\<lparr>l_pcs := (l_pcs lk)[0 := 0], l_cpu := None\<rparr>" using c1 by auto
qed

lemma free_eq:
  assumes "cpu_ok c" "0 < ncli c" "release_leave me lk c = Inr (lk', c')"
  shows "cpu_ok c'" "ncli c' = ncli c - 1" "lk' = lk\<lparr>l_locked := False\<rparr>"
proof -
  obtain c1 where c1: "popcli c = Inr c1" "cpu_ok c1" "ncli c1 = ncli c - 1" using popcli_ok[OF assms(1,2)] by blast
  obtain c2 where c2: "holding me (lk\<lparr>l_locked := False\<rparr>) c1 = Inr (False, c2)" "cpu_ok c2" "ncli c2 = ncli c1"
    using holding_eq[OF c1(2), of me "lk\<lparr>l_locked := False\<rparr>"] by auto
  then have "c' = c2" "lk' = lk\<lparr>l_locked := False\<rparr>" using c1 assms(3) by (simp_all add: release_leave_def)
  then show "cpu_ok c'" "ncli c' = ncli c - 1" "lk' = lk\<lparr>l_locked := False\<rparr>" using c1 c2 by auto
qed

lemma lock_okD:
  assumes "lock_ok (lk, H, T, F)"
  shows "T i \<Longrightarrow> \<not> H i" "H i \<longleftrightarrow> l_cpu lk = Some i" "H i \<Longrightarrow> H j \<Longrightarrow> i = j" "H i \<Longrightarrow> l_locked lk"
  using assms by (auto simp: lock_ok_def)

lemma inv_parts:
  "smp_inv s \<Longrightarrow> cpu_inv (s_cpu s i) (s_has s i) (s_phase s i)" "smp_inv s \<Longrightarrow> lock_ok (lview_of s l)"
  by (simp_all add: smp_inv_def)

lemma lview_upd:
  "(\<lambda>j. ((f(i := ph)) j) = x) = (\<lambda>j. f j = x)(i := ph = x)" "(\<lambda>j. l \<in> set ((g(i := hs)) j)) = (\<lambda>j. l \<in> set (g j))(i := l \<in> set hs)"
  by (simp_all add: fun_eq_iff)

lemma smp_inv_step: "smp_step s t \<Longrightarrow> smp_inv s \<Longrightarrow> smp_inv t"
proof (induction rule: smp_step.induct)
  case (enter s i l c)
  note o = inv_parts(1)[OF enter(3), of i, unfolded enter(1)] inv_parts(2)[OF enter(3), of l]
  have "cpu_inv c (s_has s i) (Spinning l)" using enter_eq[OF _ enter(2)] o(1) by (auto simp: cpu_inv_def)
  moreover have "lview_of (s\<lparr>s_cpu := (s_cpu s)(i := c), s_phase := (s_phase s)(i := Spinning l)\<rparr>) l = lview_of s l" using enter(1) by (auto simp: lview_of_def fun_eq_iff)
  ultimately show ?case using o(2) enter(1) by (intro smp_inv_change[OF enter(3), of i _ l]) auto
next
  case (spin s i l lk)
  have "lk = s_lock s l" using spin(2) by (cases "s_lock s l") (auto simp: xchg_locked_def)
  then show ?case using spin(3) by (simp add: fun_upd_idem)
next
  case (take s i l lk)
  note o = inv_parts(1)[OF take(3), of i, unfolded take(1)] inv_parts(2)[OF take(3), of l]
  have lk: "lk = (s_lock s l)\<lparr>l_locked := True\<rparr>" "\<not> l_locked (s_lock s l)" using take(2) by (auto simp: xchg_locked_def)
  have "lview_of (s\<lparr>s_lock := (s_lock s)(l := lk), s_phase := (s_phase s)(i := Taken l)\<rparr>) l =
    (lk, (\<lambda>i. l \<in> set (s_has s i)), (\<lambda>i. s_phase s i = Taken l)(i := True), (\<lambda>i. s_phase s i = Freeing l))"
    using take(1) by (auto simp: lview_of_def fun_eq_iff)
  then have "lock_ok (lview_of (s\<lparr>s_lock := (s_lock s)(l := lk), s_phase := (s_phase s)(i := Taken l)\<rparr>) l)"
    using lock_ok_moves(1)[OF o(2)[unfolded lview_of_def] lk(2), of i] lk(1) by simp
  then show ?case using o(1) take(1) by (intro smp_inv_change[OF take(3), of i _ l]) (auto simp: cpu_inv_def)
next
  case (own s i l rd v)
  note o = inv_parts(1)[OF own(2), of i, unfolded own(1)] inv_parts(2)[OF own(2), of l]
  let ?t = "s\<lparr>s_lock := (s_lock s)(l := acquire_own i rd v (s_lock s l)), s_phase := (s_phase s)(i := Between), s_has := (s_has s)(i := l # s_has s i)\<rparr>"
  have n: "l \<notin> set (s_has s i)" using lock_okD(1)[OF o(2)[unfolded lview_of_def]] own(1) by blast
  have "lview_of ?t l = (acquire_own i rd v (s_lock s l), (\<lambda>i. l \<in> set (s_has s i))(i := True), (\<lambda>i. s_phase s i = Taken l)(i := False), (\<lambda>i. s_phase s i = Freeing l))"
    using own(1) by (auto simp: lview_of_def fun_eq_iff)
  then have "lock_ok (lview_of ?t l)" using lock_ok_moves(2)[OF o(2)[unfolded lview_of_def], of i] own(1) by (simp add: acquire_own_def)
  then show ?case using o(1) own(1) n by (intro smp_inv_change[OF own(2), of i _ l]) (auto simp: cpu_inv_def)
next
  case (unlock s i l lk c)
  note o = inv_parts(1)[OF unlock(3), of i, unfolded unlock(1)] inv_parts(2)[OF unlock(3), of l]
  let ?t = "s\<lparr>s_lock := (s_lock s)(l := lk), s_cpu := (s_cpu s)(i := c), s_phase := (s_phase s)(i := Freeing l), s_has := (s_has s)(i := remove1 l (s_has s i))\<rparr>"
  have ok: "cpu_ok (s_cpu s i)" "distinct (s_has s i)" "ncli (s_cpu s i) = int (length (s_has s i))" using o(1) by (simp_all add: cpu_inv_def)
  note e = unlock_eq[OF ok(1) unlock(2)]
  have h: "l \<in> set (s_has s i)" using lock_okD(2)[OF o(2)[unfolded lview_of_def]] e(4) by blast
  note lk = e(7) e(3)
  have "lview_of ?t l = (lk, (\<lambda>i. l \<in> set (s_has s i))(i := False), (\<lambda>i. s_phase s i = Taken l), (\<lambda>i. s_phase s i = Freeing l)(i := True))"
    using unlock(1) h ok(2) by (auto simp: lview_of_def fun_eq_iff)
  then have "lock_ok (lview_of ?t l)" using lock_ok_moves(3)[OF o(2)[unfolded lview_of_def] lk(2), of i] h lk(1) by simp
  moreover have "int (length (remove1 l (s_has s i))) + 1 = int (length (s_has s i))"
    using length_pos_if_in_set[OF h] unfolding length_remove1 by (simp only: h if_True)
  then have "cpu_inv c (remove1 l (s_has s i)) (Freeing l)" using ok e(1,2) by (simp add: cpu_inv_def)
  ultimately show ?case using unlock(1) ok(2) by (intro smp_inv_change[OF unlock(3), of i _ l]) auto
next
  case (free s i l lk c)
  note o = inv_parts(1)[OF free(3), of i, unfolded free(1)] inv_parts(2)[OF free(3), of l]
  let ?t = "s\<lparr>s_lock := (s_lock s)(l := lk), s_cpu := (s_cpu s)(i := c), s_phase := (s_phase s)(i := Between)\<rparr>"
  have ok: "cpu_ok (s_cpu s i)" "0 < ncli (s_cpu s i)" using o(1) by (auto simp: cpu_inv_def)
  note e = free_eq[OF ok free(2)]
  have "lview_of ?t l = (lk, (\<lambda>i. l \<in> set (s_has s i)), (\<lambda>i. s_phase s i = Taken l), (\<lambda>i. s_phase s i = Freeing l)(i := False))"
    using free(1) by (auto simp: lview_of_def fun_eq_iff)
  then have "lock_ok (lview_of ?t l)" using lock_ok_moves(4)[OF o(2)[unfolded lview_of_def], of i] free(1) e(3) by simp
  then show ?case using o(1) free(1) e by (intro smp_inv_change[OF free(3), of i _ l]) (auto simp: cpu_inv_def)
next
  case (interrupts s i b)
  have "lview_of (s\<lparr>s_cpu := (s_cpu s)(i := (s_cpu s i)\<lparr>c_if := b\<rparr>)\<rparr>) l = lview_of s l" for l by (simp add: lview_of_def)
  then show ?case using interrupts by (auto simp: smp_inv_def cpu_inv_def cpu_ok_def)
qed

lemma smp_reach_inv: "smp_reach s \<Longrightarrow> smp_inv s"
proof (induction rule: smp_reach.induct)
  case (boot s)
  then show ?case by (auto simp: smp_inv_def cpu_inv_def cpu_ok_def lock_ok_def lview_of_def)
qed (rule smp_inv_step)

text \<open>C7. Spin locks work: in every interleaving of any number of CPUs, two CPUs that have returned from \<open>acquire\<close> of a
  lock and not called \<open>release\<close> are the same CPU; a CPU that holds any lock runs with interrupts off; \<open>release\<close> by the
  holder does not panic; and \<open>acquire\<close> panics exactly when the CPU itself already holds the lock.\<close>

theorem spinlock_exclusion:
  assumes "smp_reach s"
  shows "(l \<in> set (s_has s i) \<and> l \<in> set (s_has s j) \<longrightarrow> i = j) \<and> (l \<in> set (s_has s i) \<longrightarrow> \<not> c_if (s_cpu s i)) \<and>
    (s_phase s i = Between \<longrightarrow>
       (l \<in> set (s_has s i) \<longrightarrow> is_ok (release_enter i (s_lock s l) (s_cpu s i))) \<and>
       (is_ok (acquire_enter i (s_lock s l) (s_cpu s i)) \<longleftrightarrow> l \<notin> set (s_has s i))) \<and>
    (s_phase s i = Freeing l \<longrightarrow> is_ok (release_leave i (s_lock s l) (s_cpu s i)))"
proof -
  note inv = smp_reach_inv[OF assms]
  note v = lock_okD[OF inv_parts(2)[OF inv, of l, unfolded lview_of_def]]
  have c: "cpu_ok (s_cpu s i)" "ncli (s_cpu s i) = int (length (s_has s i)) + (if s_phase s i = Between then 0 else 1)"
    using inv_parts(1)[OF inv, of i] by (simp_all add: cpu_inv_def)
  have "\<not> c_if (s_cpu s i)" if "l \<in> set (s_has s i)" using c that length_pos_if_in_set[OF that] by (simp add: cpu_ok_def)
  moreover have "is_ok (release_enter i (s_lock s l) (s_cpu s i))" if "l \<in> set (s_has s i)"
    using holding_eq[OF c(1), of i "s_lock s l"] v(2,4)[of i] that by (auto simp: release_enter_def)
  moreover have "is_ok (acquire_enter i (s_lock s l) (s_cpu s i)) \<longleftrightarrow> l \<notin> set (s_has s i)"
    using holding_eq[OF pushcli_ok(1)[OF c(1)], of i "s_lock s l"] v(2,4)[of i] by (auto simp: acquire_enter_def)
  moreover have "is_ok (release_leave i (s_lock s l) (s_cpu s i))" if ph: "s_phase s i = Freeing l"
  proof -
    have "0 < ncli (s_cpu s i)" using c(2) ph by simp
    from popcli_ok[OF c(1) this] obtain c1 where "popcli (s_cpu s i) = Inr c1" "cpu_ok c1" by blast
    then show ?thesis using holding_eq[of c1 i "(s_lock s l)\<lparr>l_locked := False\<rparr>"] by (auto simp: release_leave_def)
  qed
  ultimately show ?thesis using v(3)[of i j] by blast
qed

definition demo_smp :: smp where
  "demo_smp = \<lparr>s_cpu = \<lambda>_. \<lparr>ncli = 0, intena = False, c_if = True\<rparr>,
     s_lock = \<lambda>_. \<lparr>l_locked = False, l_name = ''ptable'', l_cpu = None, l_pcs = []\<rparr>, s_phase = \<lambda>_. Between, s_has = \<lambda>_. []\<rparr>"

theorem spinlock_exclusion_witness:
  "\<exists>s. smp_reach s \<and> s_has s 0 = [7] \<and> \<not> c_if (s_cpu s 0) \<and> \<not> is_ok (acquire_enter 0 (s_lock s 7) (s_cpu s 0))"
proof -
  have r0: "smp_reach demo_smp" by (rule smp_reach.boot) (simp_all add: demo_smp_def)
  obtain c where c: "acquire_enter 0 (s_lock demo_smp 7) (s_cpu demo_smp 0) = Inr c"
    by (simp add: acquire_enter_def holding_def pushcli_def popcli_def demo_smp_def)
  let ?s1 = "demo_smp\<lparr>s_cpu := (s_cpu demo_smp)(0 := c), s_phase := (s_phase demo_smp)(0 := Spinning 7)\<rparr>"
  have r1: "smp_reach ?s1" by (rule smp_reach.step[OF r0 smp_step.enter[OF _ c]]) (simp add: demo_smp_def)
  obtain lk where lk: "xchg_locked (s_lock ?s1 7) = (False, lk)" by (simp add: xchg_locked_def demo_smp_def)
  let ?s2 = "?s1\<lparr>s_lock := (s_lock ?s1)(7 := lk), s_phase := (s_phase ?s1)(0 := Taken 7)\<rparr>"
  have r2: "smp_reach ?s2" by (rule smp_reach.step[OF r1 smp_step.take[OF _ lk]]) simp
  let ?s3 = "?s2\<lparr>s_lock := (s_lock ?s2)(7 := acquire_own 0 (\<lambda>_. 0) 0 (s_lock ?s2 7)), s_phase := (s_phase ?s2)(0 := Between), s_has := (s_has ?s2)(0 := 7 # s_has ?s2 0)\<rparr>"
  have r3: "smp_reach ?s3" by (rule smp_reach.step[OF r2 smp_step.own]) simp
  have h: "s_has ?s3 0 = [7]" "s_phase ?s3 0 = Between" by (simp_all add: demo_smp_def)
  then show ?thesis using spinlock_exclusion[OF r3, of 7 0 0] r3 by (intro exI[of _ ?s3]) auto
qed

end
