(* ===== verification/Proc.thy ===== *)
theory Proc
  imports Spinlock
begin

text \<open>
  The process table (\<^verbatim>\<open>proc.c\<close>, \<^verbatim>\<open>proc.h\<close>): creating, scheduling, sleeping, waking, killing, exiting and
  waiting. A pointer to a process is its index in the table. Everything below the table, the memory of the machine
  and the file system, is one component \<open>k_mem\<close> of the state, and the operations on it that the code calls are
  the fields of a record \<open>kops\<close>. The functions run under \<open>ptable.lock\<close>, or touch only the caller's own slot or
  the slot it is creating; the step relation at the end interleaves them over any number of CPUs.
\<close>

section \<open>Data\<close>

datatype procstate = UNUSED | EMBRYO | SLEEPING | RUNNABLE | RUNNING | ZOMBIE

text \<open>A sleep channel is an address; \<open>wait\<close> uses the address of the caller's slot.\<close>

datatype chan = ProcAddr nat | Addr u32

record kcontext =
  cx_edi :: u32
  cx_esi :: u32
  cx_ebx :: u32
  cx_ebp :: u32
  cx_eip :: u32

record trapframe =
  tf_edi :: u32
  tf_esi :: u32
  tf_ebp :: u32
  tf_oesp :: u32
  tf_ebx :: u32
  tf_edx :: u32
  tf_ecx :: u32
  tf_eax :: u32
  tf_gs :: u16
  tf_fs :: u16
  tf_es :: u16
  tf_ds :: u16
  tf_trapno :: u32
  tf_err :: u32
  tf_eip :: u32
  tf_cs :: u16
  tf_eflags :: u32
  tf_esp :: u32
  tf_ss :: u16

record proc =
  p_sz :: u32
  p_pgdir :: u32
  p_kstack :: u32
  p_state :: procstate
  p_pid :: int
  p_parent :: "nat option"
  p_tfp :: u32
  p_tf :: trapframe
  p_ctxp :: u32
  p_context :: kcontext
  p_chan :: "chan option"
  p_killed :: bool
  p_ofile :: "nat option list"
  p_cwd :: "nat option"
  p_name :: "u8 list"

text \<open>\<open>k_cpu\<close> is \<open>cpus[c].proc\<close>; \<open>k_forkret\<close> is the address of \<open>forkret\<close>.\<close>

record 'm kst =
  k_proc :: "proc list"
  k_nextpid :: int
  k_init :: "nat option"
  k_cpu :: "nat option list"
  k_forkret :: u32
  k_mem :: 'm

record 'm kops =
  o_kalloc :: "'m \<Rightarrow> (u32 \<times> 'm) res"
  o_kfree :: "u32 \<Rightarrow> 'm \<Rightarrow> 'm res"
  o_setupkvm :: "'m \<Rightarrow> (u32 \<times> 'm) res"
  o_inituvm :: "u32 \<Rightarrow> 'm \<Rightarrow> 'm res"
  o_allocuvm :: "u32 \<Rightarrow> u32 \<Rightarrow> u32 \<Rightarrow> 'm \<Rightarrow> (u32 \<times> 'm) res"
  o_deallocuvm :: "u32 \<Rightarrow> u32 \<Rightarrow> u32 \<Rightarrow> 'm \<Rightarrow> (u32 \<times> 'm) res"
  o_copyuvm :: "u32 \<Rightarrow> u32 \<Rightarrow> 'm \<Rightarrow> (u32 \<times> 'm) res"
  o_freevm :: "u32 \<Rightarrow> 'm \<Rightarrow> 'm res"
  o_filedup :: "nat \<Rightarrow> 'm \<Rightarrow> 'm res"
  o_fileclose :: "nat \<Rightarrow> 'm \<Rightarrow> 'm res"
  o_idup :: "nat \<Rightarrow> 'm \<Rightarrow> 'm res"
  o_iput :: "nat \<Rightarrow> 'm \<Rightarrow> 'm res"
  o_begin_op :: "'m \<Rightarrow> 'm res"
  o_end_op :: "'m \<Rightarrow> 'm res"
  o_namei_root :: "'m \<Rightarrow> (nat option \<times> 'm) res"

definition upd_proc :: "nat \<Rightarrow> (proc \<Rightarrow> proc) \<Rightarrow> 'm kst \<Rightarrow> 'm kst" where
  "upd_proc i f s = s\<lparr>k_proc := (k_proc s)[i := f (k_proc s ! i)]\<rparr>"

definition on_mem :: "('m \<Rightarrow> 'm res) \<Rightarrow> 'm kst \<Rightarrow> 'm kst res" where
  "on_mem f s = bindE (f (k_mem s)) (\<lambda>m. Inr (s\<lparr>k_mem := m\<rparr>))"

definition on_mem' :: "('m \<Rightarrow> ('a \<times> 'm) res) \<Rightarrow> 'm kst \<Rightarrow> ('a \<times> 'm kst) res" where
  "on_mem' f s = bindE (f (k_mem s)) (\<lambda>(x, m). Inr (x, s\<lparr>k_mem := m\<rparr>))"

section \<open>Creating processes\<close>

definition zero_context :: kcontext where
  "zero_context = \<lparr>cx_edi = 0, cx_esi = 0, cx_ebx = 0, cx_ebp = 0, cx_eip = 0\<rparr>"

definition zero_trapframe :: trapframe where
  "zero_trapframe = \<lparr>tf_edi = 0, tf_esi = 0, tf_ebp = 0, tf_oesp = 0, tf_ebx = 0, tf_edx = 0, tf_ecx = 0, tf_eax = 0, tf_gs = 0,
     tf_fs = 0, tf_es = 0, tf_ds = 0, tf_trapno = 0, tf_err = 0, tf_eip = 0, tf_cs = 0, tf_eflags = 0, tf_esp = 0, tf_ss = 0\<rparr>"

text \<open>\<open>allocproc\<close>. The trap frame has 76 bytes, the return address below it 4 and the saved context 20.\<close>

definition allocproc :: "'m kops \<Rightarrow> 'm kst \<Rightarrow> (nat option \<times> 'm kst) res" where
  "allocproc ops s =
     (case find_idx (\<lambda>p. p_state p = UNUSED) (k_proc s) of
        None \<Rightarrow> Inr (None, s)
      | Some i \<Rightarrow>
          let s = upd_proc i (\<lambda>p. p\<lparr>p_state := EMBRYO, p_pid := k_nextpid s\<rparr>) s\<lparr>k_nextpid := k_nextpid s + 1\<rparr> in
          bindE (on_mem' (o_kalloc ops) s) (\<lambda>(kstack, s).
          let s = upd_proc i (\<lambda>p. p\<lparr>p_kstack := kstack\<rparr>) s in
          if kstack = 0 then Inr (None, upd_proc i (\<lambda>p. p\<lparr>p_state := UNUSED\<rparr>) s)
          else
            let sp = kstack + 4096 - 76;
                s = upd_proc i (\<lambda>p. p\<lparr>p_tfp := sp\<rparr>) s;
                sp = sp - 4 - 20;
                s = upd_proc i (\<lambda>p. p\<lparr>p_ctxp := sp, p_context := zero_context\<lparr>cx_eip := k_forkret s\<rparr>\<rparr>) s
            in Inr (Some i, s)))"

definition userinit :: "'m kops \<Rightarrow> 'm kst \<Rightarrow> 'm kst res" where
  "userinit ops s =
     bindE (allocproc ops s) (\<lambda>(p, s).
     let s = s\<lparr>k_init := p\<rparr> in
     case p of
       None \<Rightarrow> Inl (Fault ''userinit'')
     | Some p \<Rightarrow>
         bindE (on_mem' (o_setupkvm ops) s) (\<lambda>(pgdir, s).
         let s = upd_proc p (\<lambda>q. q\<lparr>p_pgdir := pgdir\<rparr>) s in
         if pgdir = 0 then Inl (Panic ''userinit: out of memory?'')
         else
           bindE (on_mem (o_inituvm ops pgdir) s) (\<lambda>s.
           let s = upd_proc p (\<lambda>q. q\<lparr>p_sz := 4096, p_tf := zero_trapframe\<lparr>tf_cs := 0x1B, tf_ds := 0x23, tf_es := 0x23, tf_ss := 0x23,
                   tf_eflags := 0x200, tf_esp := 4096, tf_eip := 0\<rparr>, p_name := map of_char ''initcode''\<rparr>) s
           in bindE (on_mem' (o_namei_root ops) s) (\<lambda>(cwd, s).
              let s = upd_proc p (\<lambda>q. q\<lparr>p_cwd := cwd\<rparr>) s in
              Inr (upd_proc p (\<lambda>q. q\<lparr>p_state := RUNNABLE\<rparr>) s)))))"

definition growproc :: "'m kops \<Rightarrow> nat \<Rightarrow> int \<Rightarrow> 'm kst \<Rightarrow> (int \<times> 'm kst) res" where
  "growproc ops cur n s =
     (let p = k_proc s ! cur; sz = p_sz p in
      if n > 0 then
        bindE (on_mem' (o_allocuvm ops (p_pgdir p) sz (sz + of_int n)) s) (\<lambda>(sz, s).
        if sz = 0 then Inr (- 1, s) else Inr (0, upd_proc cur (\<lambda>p. p\<lparr>p_sz := sz\<rparr>) s))
      else if n < 0 then
        bindE (on_mem' (o_deallocuvm ops (p_pgdir p) sz (sz + of_int n)) s) (\<lambda>(sz, s).
        if sz = 0 then Inr (- 1, s) else Inr (0, upd_proc cur (\<lambda>p. p\<lparr>p_sz := sz\<rparr>) s))
      else Inr (0, s))"

text \<open>One round of the loop over \<open>ofile\<close> in \<open>fork\<close>, and in \<open>exit\<close>.\<close>

definition dup_fd :: "'m kops \<Rightarrow> nat \<Rightarrow> nat \<Rightarrow> nat \<Rightarrow> 'm kst \<Rightarrow> 'm kst res" where
  "dup_fd ops cur np i s =
     (case p_ofile (k_proc s ! cur) ! i of
        None \<Rightarrow> Inr s
      | Some f \<Rightarrow> bindE (on_mem (o_filedup ops f) s) (\<lambda>s. Inr (upd_proc np (\<lambda>q. q\<lparr>p_ofile := (p_ofile q)[i := Some f]\<rparr>) s)))"

definition close_fd :: "'m kops \<Rightarrow> nat \<Rightarrow> nat \<Rightarrow> 'm kst \<Rightarrow> 'm kst res" where
  "close_fd ops cur fd s =
     (case p_ofile (k_proc s ! cur) ! fd of
        None \<Rightarrow> Inr s
      | Some f \<Rightarrow> bindE (on_mem (o_fileclose ops f) s) (\<lambda>s. Inr (upd_proc cur (\<lambda>q. q\<lparr>p_ofile := (p_ofile q)[fd := None]\<rparr>) s)))"

definition fork :: "'m kops \<Rightarrow> nat \<Rightarrow> 'm kst \<Rightarrow> (int \<times> 'm kst) res" where
  "fork ops cur s =
     bindE (allocproc ops s) (\<lambda>(np, s).
     case np of
       None \<Rightarrow> Inr (- 1, s)
     | Some np \<Rightarrow>
         bindE (on_mem' (o_copyuvm ops (p_pgdir (k_proc s ! cur)) (p_sz (k_proc s ! cur))) s) (\<lambda>(pgdir, s).
         let s = upd_proc np (\<lambda>q. q\<lparr>p_pgdir := pgdir\<rparr>) s in
         if pgdir = 0 then
           bindE (on_mem (o_kfree ops (p_kstack (k_proc s ! np))) s) (\<lambda>s.
           Inr (- 1, upd_proc np (\<lambda>q. q\<lparr>p_kstack := 0, p_state := UNUSED\<rparr>) s))
         else
           let c = k_proc s ! cur;
               s = upd_proc np (\<lambda>q. q\<lparr>p_sz := p_sz c, p_parent := Some cur, p_tf := (p_tf c)\<lparr>tf_eax := 0\<rparr>\<rparr>) s
           in bindE (foldE (dup_fd ops cur np) [0..<NOFILE] s) (\<lambda>s.
              case p_cwd c of
                None \<Rightarrow> Inl (Fault ''fork: cwd'')
              | Some cwd \<Rightarrow>
                  bindE (on_mem (o_idup ops cwd) s) (\<lambda>s.
                  let s = upd_proc np (\<lambda>q. q\<lparr>p_cwd := Some cwd, p_name := take 15 (p_name c)\<rparr>) s;
                      pid = p_pid (k_proc s ! np)
                  in Inr (pid, upd_proc np (\<lambda>q. q\<lparr>p_state := RUNNABLE\<rparr>) s)))))"

section \<open>Sleeping and waking\<close>

definition wakeup1 :: "chan option \<Rightarrow> 'm kst \<Rightarrow> 'm kst" where
  "wakeup1 ch s = s\<lparr>k_proc := map (\<lambda>p. if p_state p = SLEEPING \<and> p_chan p = ch then p\<lparr>p_state := RUNNABLE\<rparr> else p) (k_proc s)\<rparr>"

definition wakeup :: "chan option \<Rightarrow> 'm kst \<Rightarrow> 'm kst" where
  "wakeup ch s = wakeup1 ch s"

text \<open>\<open>sched\<close> up to the switch: its checks, with the CPU's interrupt state.\<close>

definition sched :: "bool \<Rightarrow> cpu \<Rightarrow> nat \<Rightarrow> 'm kst \<Rightarrow> unit res" where
  "sched holds_ptable c cur s =
     (if \<not> holds_ptable then Inl (Panic ''sched ptable.lock'')
      else if ncli c \<noteq> 1 then Inl (Panic ''sched locks'')
      else if p_state (k_proc s ! cur) = RUNNING then Inl (Panic ''sched running'')
      else if c_if c then Inl (Panic ''sched interruptible'')
      else Inr ())"

text \<open>The process on CPU \<open>c\<close> switches to the scheduler, which forgets it.\<close>

definition off_cpu :: "nat \<Rightarrow> 'm kst \<Rightarrow> 'm kst" where
  "off_cpu c s = s\<lparr>k_cpu := (k_cpu s)[c := None]\<rparr>"

text \<open>\<open>scheduler\<close> on CPU \<open>c\<close> chooses the runnable process \<open>i\<close>.\<close>

definition scheduler_run :: "nat \<Rightarrow> nat \<Rightarrow> 'm kst \<Rightarrow> 'm kst" where
  "scheduler_run c i s = upd_proc i (\<lambda>p. p\<lparr>p_state := RUNNING\<rparr>) s\<lparr>k_cpu := (k_cpu s)[c := Some i]\<rparr>"

definition yield :: "nat \<Rightarrow> 'm kst \<Rightarrow> 'm kst" where
  "yield cur s = upd_proc cur (\<lambda>p. p\<lparr>p_state := RUNNABLE\<rparr>) s"

text \<open>\<open>sleep\<close> up to the switch and after it; \<open>lk\<close> tells whether a lock was passed.\<close>

definition sleep :: "nat option \<Rightarrow> chan \<Rightarrow> bool \<Rightarrow> 'm kst \<Rightarrow> 'm kst res" where
  "sleep me ch lk s =
     (case me of
        None \<Rightarrow> Inl (Panic ''sleep'')
      | Some p \<Rightarrow> if \<not> lk then Inl (Panic ''sleep without lk'') else Inr (upd_proc p (\<lambda>q. q\<lparr>p_chan := Some ch, p_state := SLEEPING\<rparr>) s))"

definition sleep_tidy :: "nat \<Rightarrow> 'm kst \<Rightarrow> 'm kst" where
  "sleep_tidy p s = upd_proc p (\<lambda>q. q\<lparr>p_chan := None\<rparr>) s"

section \<open>Exit, wait, kill\<close>

definition reparent :: "nat \<Rightarrow> nat \<Rightarrow> 'm kst \<Rightarrow> 'm kst" where
  "reparent cur i s =
     (if p_parent (k_proc s ! i) = Some cur then
        let s = upd_proc i (\<lambda>p. p\<lparr>p_parent := k_init s\<rparr>) s in
        if p_state (k_proc s ! i) = ZOMBIE then wakeup1 (map_option ProcAddr (k_init s)) s else s
      else s)"

definition exit :: "'m kops \<Rightarrow> nat \<Rightarrow> 'm kst \<Rightarrow> 'm kst res" where
  "exit ops cur s =
     (if k_init s = Some cur then Inl (Panic ''init exiting'')
      else
        bindE (foldE (close_fd ops cur) [0..<NOFILE] s) (\<lambda>s.
        bindE (on_mem (o_begin_op ops) s) (\<lambda>s.
        case p_cwd (k_proc s ! cur) of
          None \<Rightarrow> Inl (Fault ''exit: cwd'')
        | Some cwd \<Rightarrow>
            bindE (on_mem (o_iput ops cwd) s) (\<lambda>s.
            bindE (on_mem (o_end_op ops) s) (\<lambda>s.
            let s = upd_proc cur (\<lambda>p. p\<lparr>p_cwd := None\<rparr>) s;
                s = wakeup1 (map_option ProcAddr (p_parent (k_proc s ! cur))) s;
                s = fold (reparent cur) [0..<length (k_proc s)] s
            in Inr (upd_proc cur (\<lambda>p. p\<lparr>p_state := ZOMBIE\<rparr>) s))))))"

text \<open>The scan of \<open>wait\<close> from slot \<open>i\<close> on: the first zombie child, or whether there are children.\<close>

fun wait_scan :: "nat \<Rightarrow> nat \<Rightarrow> bool \<Rightarrow> proc list \<Rightarrow> nat option \<times> bool" where
  "wait_scan cur i havekids [] = (None, havekids)"
| "wait_scan cur i havekids (p # ps) =
     (if p_parent p \<noteq> Some cur then wait_scan cur (i + 1) havekids ps
      else if p_state p = ZOMBIE then (Some i, True)
      else wait_scan cur (i + 1) True ps)"

datatype wait_res = WaitRet int | WaitSleep

text \<open>One round of the loop of \<open>wait\<close>: it returns, or goes to sleep and scans again when it wakes.\<close>

definition wait :: "'m kops \<Rightarrow> nat \<Rightarrow> 'm kst \<Rightarrow> (wait_res \<times> 'm kst) res" where
  "wait ops cur s =
     (case wait_scan cur 0 False (k_proc s) of
        (Some i, _) \<Rightarrow>
          let p = k_proc s ! i; pid = p_pid p in
          bindE (on_mem (o_kfree ops (p_kstack p)) s) (\<lambda>s.
          let s = upd_proc i (\<lambda>p. p\<lparr>p_kstack := 0\<rparr>) s in
          bindE (on_mem (o_freevm ops (p_pgdir p)) s) (\<lambda>s.
          Inr (WaitRet pid, upd_proc i (\<lambda>p. p\<lparr>p_pid := 0, p_parent := None, p_name := [], p_killed := False, p_state := UNUSED\<rparr>) s)))
      | (None, havekids) \<Rightarrow>
          if \<not> havekids \<or> p_killed (k_proc s ! cur) then Inr (WaitRet (- 1), s)
          else bindE (sleep (Some cur) (ProcAddr cur) True s) (\<lambda>s. Inr (WaitSleep, s)))"

definition kill :: "int \<Rightarrow> 'm kst \<Rightarrow> int \<times> 'm kst" where
  "kill pid s =
     (case find_idx (\<lambda>p. p_pid p = pid) (k_proc s) of
        None \<Rightarrow> (- 1, s)
      | Some i \<Rightarrow>
          let s = upd_proc i (\<lambda>p. p\<lparr>p_killed := True\<rparr>) s in
          (0, if p_state (k_proc s ! i) = SLEEPING then upd_proc i (\<lambda>p. p\<lparr>p_state := RUNNABLE\<rparr>) s else s))"

section \<open>What the operations do to the table\<close>

abbreviation st :: "'m kst \<Rightarrow> nat \<Rightarrow> procstate" where "st s i \<equiv> p_state (k_proc s ! i)"
abbreviation par :: "'m kst \<Rightarrow> nat \<Rightarrow> nat option" where "par s i \<equiv> p_parent (k_proc s ! i)"
abbreviation ch :: "'m kst \<Rightarrow> nat \<Rightarrow> chan option" where "ch s i \<equiv> p_chan (k_proc s ! i)"
abbreviation pid :: "'m kst \<Rightarrow> nat \<Rightarrow> int" where "pid s i \<equiv> p_pid (k_proc s ! i)"

text \<open>Only slot \<open>i\<close> may differ, and the rest of the table's state is as it was.\<close>

definition slot_only :: "nat \<Rightarrow> 'm kst \<Rightarrow> 'm kst \<Rightarrow> bool" where
  "slot_only i s t \<longleftrightarrow> length (k_proc t) = length (k_proc s) \<and> (\<forall>j. j \<noteq> i \<longrightarrow> k_proc t ! j = k_proc s ! j) \<and> k_init t = k_init s \<and> k_cpu t = k_cpu s"

lemma slot_only_refl: "slot_only i s s"
  by (simp add: slot_only_def)

lemma slot_only_trans: "slot_only i s t \<Longrightarrow> slot_only i t u \<Longrightarrow> slot_only i s u"
  by (simp add: slot_only_def)

lemma slot_only_upd: "slot_only i s (upd_proc i f s)"
  by (simp add: slot_only_def upd_proc_def)

lemma slot_only_upd2 [simp]: "slot_only i s (upd_proc i f t) \<longleftrightarrow> slot_only i s t"
  by (simp add: slot_only_def upd_proc_def)

lemma slot_only_mem [simp]: "slot_only i s (t\<lparr>k_mem := m\<rparr>) \<longleftrightarrow> slot_only i s t" "slot_only i (s\<lparr>k_mem := m\<rparr>) t \<longleftrightarrow> slot_only i s t"
  by (simp_all add: slot_only_def)

lemma slot_onlyD:
  assumes "slot_only i s t"
  shows "length (k_proc t) = length (k_proc s)" "j \<noteq> i \<Longrightarrow> k_proc t ! j = k_proc s ! j" "k_init t = k_init s" "k_cpu t = k_cpu s"
  using assms by (simp_all add: slot_only_def)

lemma upd_proc_simps [simp]:
  "k_nextpid (upd_proc i f s) = k_nextpid s" "k_init (upd_proc i f s) = k_init s" "k_cpu (upd_proc i f s) = k_cpu s" "k_mem (upd_proc i f s) = k_mem s"
  "k_forkret (upd_proc i f s) = k_forkret s" "length (k_proc (upd_proc i f s)) = length (k_proc s)"
  "i < length (k_proc s) \<Longrightarrow> k_proc (upd_proc i f s) ! j = (if j = i then f (k_proc s ! i) else k_proc s ! j)"
  "k_proc (upd_proc i f (s\<lparr>k_mem := m\<rparr>)) = k_proc (upd_proc i f s)"
  by (simp_all add: upd_proc_def)

lemma on_mem_effect: "on_mem f s = Inr t \<Longrightarrow> \<exists>m. t = s\<lparr>k_mem := m\<rparr>"
  by (auto simp: on_mem_def bindE_Inr_iff)

lemma on_mem'_effect: "on_mem' f s = Inr (x, t) \<Longrightarrow> \<exists>m. t = s\<lparr>k_mem := m\<rparr>"
  by (auto simp: on_mem'_def bindE_Inr_iff)

lemma allocproc_effect:
  assumes "allocproc ops s = Inr (r, t)"
  shows "r = None \<and> t = s \<or>
    (\<exists>i. find_idx (\<lambda>p. p_state p = UNUSED) (k_proc s) = Some i \<and> i < length (k_proc s) \<and> st s i = UNUSED \<and> slot_only i s t \<and> k_nextpid t = k_nextpid s + 1 \<and> pid t i = k_nextpid s \<and>
       par t i = par s i \<and> ch t i = ch s i \<and> p_killed (k_proc t ! i) = p_killed (k_proc s ! i) \<and> (r = None \<and> st t i = UNUSED \<or> r = Some i \<and> st t i = EMBRYO))"
proof (cases "find_idx (\<lambda>p. p_state p = UNUSED) (k_proc s)")
  case None
  then show ?thesis using assms by (simp add: allocproc_def)
next
  case (Some i)
  note f = find_idx_SomeD(1,2)[OF Some]
  let ?s1 = "upd_proc i (\<lambda>p. p\<lparr>p_state := EMBRYO, p_pid := k_nextpid s\<rparr>) s\<lparr>k_nextpid := k_nextpid s + 1\<rparr>"
  from assms Some obtain kst m where k: "o_kalloc ops (k_mem ?s1) = Inr (kst, m)"
    by (auto simp: allocproc_def Let_def on_mem'_def bindE_Inr_iff)
  have "slot_only i s t \<and> k_nextpid t = k_nextpid s + 1 \<and> pid t i = k_nextpid s \<and> par t i = par s i \<and> ch t i = ch s i \<and>
      p_killed (k_proc t ! i) = p_killed (k_proc s ! i) \<and> (r = None \<and> st t i = UNUSED \<or> r = Some i \<and> st t i = EMBRYO)"
    using assms Some k f(1) by (auto simp: allocproc_def Let_def on_mem'_def slot_only_def upd_proc_def split: if_splits)
  then show ?thesis using f Some by blast
qed

lemma dup_fds_effect:
  assumes "foldE (dup_fd ops cur np) xs s = Inr t" and "np < length (k_proc s)"
  shows "slot_only np s t \<and> k_nextpid t = k_nextpid s \<and> st t np = st s np \<and> pid t np = pid s np \<and> par t np = par s np \<and> ch t np = ch s np \<and>
    p_killed (k_proc t ! np) = p_killed (k_proc s ! np)"
  using assms
proof (induction xs arbitrary: s)
  case Nil
  then show ?case by (simp add: slot_only_refl)
next
  case (Cons i xs)
  then obtain s1 where s1: "dup_fd ops cur np i s = Inr s1" "foldE (dup_fd ops cur np) xs s1 = Inr t" by (auto simp: bindE_Inr_iff)
  have e: "slot_only np s s1 \<and> k_nextpid s1 = k_nextpid s \<and> st s1 np = st s np \<and> pid s1 np = pid s np \<and> par s1 np = par s np \<and> ch s1 np = ch s np \<and>
      p_killed (k_proc s1 ! np) = p_killed (k_proc s ! np)"
    using s1(1) Cons.prems(2) by (auto simp: dup_fd_def on_mem_def bindE_Inr_iff slot_only_def upd_proc_def split: option.splits)
  then have "np < length (k_proc s1)" using Cons.prems(2) slot_onlyD(1) by metis
  then show ?case using Cons.IH[OF s1(2)] e slot_only_trans by metis
qed

lemma close_fds_effect:
  assumes "foldE (close_fd ops cur) xs s = Inr t" and "cur < length (k_proc s)"
  shows "slot_only cur s t \<and> k_nextpid t = k_nextpid s \<and> st t cur = st s cur \<and> pid t cur = pid s cur \<and> par t cur = par s cur \<and> ch t cur = ch s cur"
  using assms
proof (induction xs arbitrary: s)
  case Nil
  then show ?case by (simp add: slot_only_refl)
next
  case (Cons i xs)
  then obtain s1 where s1: "close_fd ops cur i s = Inr s1" "foldE (close_fd ops cur) xs s1 = Inr t" by (auto simp: bindE_Inr_iff)
  have e: "slot_only cur s s1 \<and> k_nextpid s1 = k_nextpid s \<and> st s1 cur = st s cur \<and> pid s1 cur = pid s cur \<and> par s1 cur = par s cur \<and> ch s1 cur = ch s cur"
    using s1(1) Cons.prems(2) by (auto simp: close_fd_def on_mem_def bindE_Inr_iff slot_only_def upd_proc_def split: option.splits)
  then have "cur < length (k_proc s1)" using Cons.prems(2) slot_onlyD(1) by metis
  then show ?case using Cons.IH[OF s1(2)] e slot_only_trans by metis
qed

lemma fork_effect:
  assumes "fork ops cur s = Inr (r, t)"
  shows "t = s \<and> r = - 1 \<or>
    (\<exists>i. find_idx (\<lambda>p. p_state p = UNUSED) (k_proc s) = Some i \<and> i < length (k_proc s) \<and> st s i = UNUSED \<and> slot_only i s t \<and> k_nextpid t = k_nextpid s + 1 \<and> pid t i = k_nextpid s \<and> ch t i = ch s i \<and>
       p_killed (k_proc t ! i) = p_killed (k_proc s ! i) \<and>
       (r = - 1 \<and> st t i = UNUSED \<and> par t i = par s i \<or> r = k_nextpid s \<and> st t i = RUNNABLE \<and> par t i = Some cur))"
proof -
  obtain np s1 where a: "allocproc ops s = Inr (np, s1)" using assms by (auto simp: fork_def bindE_Inr_iff)
  note ae = allocproc_effect[OF a]
  show ?thesis
  proof (cases np)
    case None
    then have "r = - 1" "t = s1" using assms a by (auto simp: fork_def)
    then show ?thesis using ae None by auto
  next
    case (Some i)
    then have e: "i < length (k_proc s)" "st s i = UNUSED" "slot_only i s s1" "k_nextpid s1 = k_nextpid s + 1" "pid s1 i = k_nextpid s" "par s1 i = par s i"
      "ch s1 i = ch s i" "p_killed (k_proc s1 ! i) = p_killed (k_proc s ! i)"
      "find_idx (\<lambda>p. p_state p = UNUSED) (k_proc s) = Some i" using ae by auto
    have l: "i < length (k_proc s1)" using e(1) slot_onlyD(1)[OF e(3)] by simp
    obtain pg m where c: "o_copyuvm ops (p_pgdir (k_proc s1 ! cur)) (p_sz (k_proc s1 ! cur)) (k_mem s1) = Inr (pg, m)"
      using assms a Some by (auto simp: fork_def on_mem'_def bindE_Inr_iff)
    let ?s2 = "upd_proc i (\<lambda>q. q\<lparr>p_pgdir := pg\<rparr>) (s1\<lparr>k_mem := m\<rparr>)"
    show ?thesis
    proof (cases "pg = 0")
      case True
      then obtain m2 where m2: "o_kfree ops (p_kstack (k_proc ?s2 ! i)) (k_mem ?s2) = Inr m2"
        using assms a Some c by (auto simp: fork_def on_mem'_def on_mem_def Let_def bindE_Inr_iff)
      then have r: "r = - 1" "t = upd_proc i (\<lambda>q. q\<lparr>p_kstack := 0, p_state := UNUSED\<rparr>) (?s2\<lparr>k_mem := m2\<rparr>)"
        using assms a Some c True by (simp_all add: fork_def on_mem'_def on_mem_def Let_def)
      have "slot_only i s1 t" unfolding r(2) by (simp add: slot_only_refl)
      then have "slot_only i s t" by (rule slot_only_trans[OF e(3)])
      then show ?thesis using e r l by (intro disjI2 exI[of _ i]) simp
    next
      case False
      let ?s3 = "upd_proc i (\<lambda>q. q\<lparr>p_sz := p_sz (k_proc ?s2 ! cur), p_parent := Some cur, p_tf := (p_tf (k_proc ?s2 ! cur))\<lparr>tf_eax := 0\<rparr>\<rparr>) ?s2"
      obtain s4 cwd m5 where s4: "foldE (dup_fd ops cur i) [0..<NOFILE] ?s3 = Inr s4" "o_idup ops cwd (k_mem s4) = Inr m5"
        and r: "r = p_pid (k_proc (upd_proc i (\<lambda>q. q\<lparr>p_cwd := Some cwd, p_name := take 15 (p_name (k_proc ?s2 ! cur))\<rparr>) (s4\<lparr>k_mem := m5\<rparr>)) ! i)"
          "t = upd_proc i (\<lambda>q. q\<lparr>p_state := RUNNABLE\<rparr>) (upd_proc i (\<lambda>q. q\<lparr>p_cwd := Some cwd, p_name := take 15 (p_name (k_proc ?s2 ! cur))\<rparr>) (s4\<lparr>k_mem := m5\<rparr>))"
        using assms a Some c False l unfolding fork_def on_mem'_def on_mem_def Let_def
        by (auto simp: bindE_Inr_iff split: option.splits)
      have l3: "i < length (k_proc ?s3)" using l by simp
      note d = dup_fds_effect[OF s4(1) l3]
      have l4: "i < length (k_proc s4)" using d slot_onlyD(1)[of i ?s3 s4] l3 by simp
      have "slot_only i s1 ?s3" by (simp add: slot_only_refl)
      then have "slot_only i s t" unfolding r(2) using d slot_only_trans[OF e(3)] slot_only_trans[of i s1 ?s3 s4] by simp
      then show ?thesis using e d r l l4 by (intro disjI2 exI[of _ i]) simp
    qed
  qed
qed

text \<open>Same table up to sleepers that have been woken.\<close>

definition woken :: "'m kst \<Rightarrow> 'm kst \<Rightarrow> bool" where
  "woken s t \<longleftrightarrow> length (k_proc t) = length (k_proc s) \<and> k_init t = k_init s \<and> k_cpu t = k_cpu s \<and> k_nextpid t = k_nextpid s \<and>
     (\<forall>i < length (k_proc s). pid t i = pid s i \<and> ch t i = ch s i \<and> (st t i = st s i \<or> st s i = SLEEPING \<and> st t i = RUNNABLE))"

lemma wokenD:
  assumes "woken s t"
  shows "length (k_proc t) = length (k_proc s)" "k_init t = k_init s" "k_cpu t = k_cpu s" "k_nextpid t = k_nextpid s"
    "i < length (k_proc s) \<Longrightarrow> pid t i = pid s i" "i < length (k_proc s) \<Longrightarrow> ch t i = ch s i"
    "i < length (k_proc s) \<Longrightarrow> st t i = st s i \<or> st s i = SLEEPING \<and> st t i = RUNNABLE"
  using assms by (auto simp: woken_def)

lemma woken_refl: "woken s s"
  by (simp add: woken_def)

lemma woken_trans:
  assumes a: "woken s t" and b: "woken t u"
  shows "woken s u"
proof -
  have "st u i = st s i \<or> st s i = SLEEPING \<and> st u i = RUNNABLE" if "i < length (k_proc s)" for i
    using wokenD(7)[OF a that] wokenD(7)[OF b, of i] wokenD(1)[OF a] that by auto
  then show ?thesis using wokenD(1-6)[OF a] wokenD(1-6)[OF b] unfolding woken_def by auto
qed

lemma wakeup1_effect:
  "woken s (wakeup1 c s)" "i < length (k_proc s) \<Longrightarrow> par (wakeup1 c s) i = par s i"
  "i < length (k_proc s) \<Longrightarrow> \<not> (st (wakeup1 c s) i = SLEEPING \<and> ch (wakeup1 c s) i = c)"
  by (auto simp: woken_def wakeup1_def)

text \<open>The loop of \<open>exit\<close> over the slots \<open>xs\<close>.\<close>

lemma reparent_effect:
  assumes "distinct xs" and "\<forall>i \<in> set xs. i < length (k_proc s)" and "k_init s \<noteq> Some cur"
  shows "woken s (fold (reparent cur) xs s) \<and>
    (\<forall>i < length (k_proc s). par (fold (reparent cur) xs s) i = (if i \<in> set xs \<and> par s i = Some cur then k_init s else par s i)) \<and>
    ((\<exists>j \<in> set xs. par s j = Some cur \<and> st s j = ZOMBIE) \<longrightarrow>
      (\<forall>i < length (k_proc s). \<not> (st (fold (reparent cur) xs s) i = SLEEPING \<and> ch (fold (reparent cur) xs s) i = map_option ProcAddr (k_init s))))"
  using assms
proof (induction xs arbitrary: s)
  case Nil
  then show ?case by (simp add: woken_refl)
next
  case (Cons x xs)
  let ?s = "reparent cur x s" and ?z = "par s x = Some cur \<and> st s x = ZOMBIE"
  have x: "x < length (k_proc s)" using Cons.prems(2) by simp
  let ?u = "upd_proc x (\<lambda>p. p\<lparr>p_parent := k_init s\<rparr>) s"
  have u: "woken s ?u" using x by (auto simp: woken_def)
  have r: "?s = (if par s x = Some cur then if st s x = ZOMBIE then wakeup1 (map_option ProcAddr (k_init s)) ?u else ?u else s)"
    using x by (simp add: reparent_def Let_def)
  have w: "woken s ?s" unfolding r using u woken_trans[OF u wakeup1_effect(1)] by (simp add: woken_refl)
  have p: "par ?s i = (if i = x \<and> par s x = Some cur then k_init s else par s i)" if "i < length (k_proc s)" for i
    unfolding r using that x wakeup1_effect(2)[of i ?u] by (cases "i = x") simp_all
  have z: "\<not> (st ?s i = SLEEPING \<and> ch ?s i = map_option ProcAddr (k_init s))" if "?z" "i < length (k_proc s)" for i
    unfolding r using that x wakeup1_effect(3)[of i ?u] by simp
  note wd = wokenD[OF w]
  have pr: "distinct xs" "\<forall>i \<in> set xs. i < length (k_proc ?s)" "k_init ?s \<noteq> Some cur" using Cons.prems wd by auto
  let ?t = "fold (reparent cur) xs ?s"
  have IH: "woken ?s ?t" "\<And>i. i < length (k_proc s) \<Longrightarrow> par ?t i = (if i \<in> set xs \<and> par ?s i = Some cur then k_init s else par ?s i)"
    "\<exists>j \<in> set xs. par ?s j = Some cur \<and> st ?s j = ZOMBIE \<Longrightarrow> i < length (k_proc s) \<Longrightarrow> \<not> (st ?t i = SLEEPING \<and> ch ?t i = map_option ProcAddr (k_init s))" for i
    using Cons.IH[OF pr] wd(1,2) by auto
  have "par ?t i = (if i \<in> set (x # xs) \<and> par s i = Some cur then k_init s else par s i)" if "i < length (k_proc s)" for i
    using IH(2)[OF that] p[OF that] Cons.prems(1,3) by auto
  moreover have "\<not> (st ?t i = SLEEPING \<and> ch ?t i = map_option ProcAddr (k_init s))"
    if j: "j \<in> set (x # xs)" "par s j = Some cur" "st s j = ZOMBIE" and i: "i < length (k_proc s)" for i j
  proof (cases "j = x")
    case True
    then have "\<not> (st ?s i = SLEEPING \<and> ch ?s i = map_option ProcAddr (k_init s))" using z i j by blast
    then show ?thesis using wokenD(6,7)[OF IH(1), of i] i wd(1) by auto
  next
    case False
    then have "j \<in> set xs" "j < length (k_proc s)" using j(1) Cons.prems(2) by auto
    then show ?thesis using IH(3)[OF _ i] p[of j] wd(7)[of j] j False by auto
  qed
  ultimately show ?case using woken_trans[OF w IH(1)] by auto
qed

lemma exit_effect:
  assumes x: "exit ops cur s = Inr t" and cur: "cur < length (k_proc s)"
  shows "k_init s \<noteq> Some cur" and "length (k_proc t) = length (k_proc s)" "k_init t = k_init s" "k_cpu t = k_cpu s" "k_nextpid t = k_nextpid s"
    and "st t cur = ZOMBIE" and "i < length (k_proc s) \<Longrightarrow> pid t i = pid s i" "i < length (k_proc s) \<Longrightarrow> ch t i = ch s i"
    and "i < length (k_proc s) \<Longrightarrow> par t i = (if par s i = Some cur then k_init s else par s i)"
    and "i < length (k_proc s) \<Longrightarrow> i \<noteq> cur \<Longrightarrow> st t i = st s i \<or> st s i = SLEEPING \<and> st t i = RUNNABLE"
    and "i < length (k_proc s) \<Longrightarrow> st t i = SLEEPING \<Longrightarrow> ch t i \<noteq> map_option ProcAddr (par s cur)"
    and "i < length (k_proc s) \<Longrightarrow> j < length (k_proc s) \<Longrightarrow> par s j = Some cur \<Longrightarrow> j \<noteq> cur \<Longrightarrow> st s j = ZOMBIE \<Longrightarrow> st t i = SLEEPING \<Longrightarrow> ch t i \<noteq> map_option ProcAddr (k_init s)"
proof -
  show ini: "k_init s \<noteq> Some cur" using x by (auto simp: exit_def split: if_splits)
  obtain s1 m2 cwd m3 m4 where c: "foldE (close_fd ops cur) [0..<NOFILE] s = Inr s1" "o_begin_op ops (k_mem s1) = Inr m2"
    "p_cwd (k_proc s1 ! cur) = Some cwd" "o_iput ops cwd m2 = Inr m3" "o_end_op ops m3 = Inr m4"
    using x ini by (auto simp: exit_def on_mem_def bindE_Inr_iff split: option.splits)
  define sa where "sa = upd_proc cur (\<lambda>p. p\<lparr>p_cwd := None\<rparr>) (s1\<lparr>k_mem := m4\<rparr>)"
  define sb where "sb = wakeup1 (map_option ProcAddr (par sa cur)) sa"
  define sd where "sd = fold (reparent cur) [0..<length (k_proc sb)] sb"
  have t: "t = upd_proc cur (\<lambda>p. p\<lparr>p_state := ZOMBIE\<rparr>) sd" using x ini c by (simp add: exit_def on_mem_def Let_def sa_def sb_def sd_def)
  note cf = close_fds_effect[OF c(1) cur]
  have l1: "cur < length (k_proc s1)" using cf slot_onlyD(1)[of cur s s1] cur by simp
  have so: "slot_only cur s sa" "k_nextpid sa = k_nextpid s" using cf by (simp_all add: sa_def)
  have ac: "pid sa cur = pid s cur" "ch sa cur = ch s cur" "par sa cur = par s cur" "st sa cur = st s cur" using cf l1 by (simp_all add: sa_def)
  note od = slot_onlyD[OF so(1)]
  have a: "pid sa i = pid s i" "ch sa i = ch s i" "par sa i = par s i" "st sa i = st s i" for i
    using ac od(2)[of i] by (cases "i = cur"; simp)+
  note wb = wakeup1_effect[where s = sa and c = "map_option ProcAddr (par sa cur)", folded sb_def]
  note wbd = wokenD[OF wb(1)]
  have lb: "length (k_proc sb) = length (k_proc s)" using wbd(1) od(1) by simp
  have pre: "distinct [0..<length (k_proc sb)]" "\<forall>i \<in> set [0..<length (k_proc sb)]. i < length (k_proc sb)" "k_init sb \<noteq> Some cur"
    using wbd(2) ini od(3) by simp_all
  note re = reparent_effect[OF pre, folded sd_def]
  then have wd: "woken sb sd" by blast
  note wdd = wokenD[OF wd]
  have ld: "length (k_proc sd) = length (k_proc s)" "cur < length (k_proc sd)" using wdd(1) lb cur by simp_all
  have init: "k_init sb = k_init s" using wbd(2) od(3) by simp
  have tn: "pid t i = pid sd i" "ch t i = ch sd i" "par t i = par sd i" "st t i = (if i = cur then ZOMBIE else st sd i)" for i
    unfolding t using ld(2) by simp_all
  show "length (k_proc t) = length (k_proc s)" "k_init t = k_init s" "k_cpu t = k_cpu s" "k_nextpid t = k_nextpid s" "st t cur = ZOMBIE"
    using ld wdd(2-4) wbd(2-4) od(3,4) so(2) by (simp_all add: tn) (simp_all add: t)
  show "pid t i = pid s i" "ch t i = ch s i" if "i < length (k_proc s)"
    using that ld wdd(5,6)[of i] wbd(5,6)[of i] lb od(1) a[of i] by (simp_all add: tn)
  have pb: "par sb i = par s i" if "i < length (k_proc s)" for i using wb(2)[of i] that od(1) a by simp
  show "par t i = (if par s i = Some cur then k_init s else par s i)" if "i < length (k_proc s)"
  proof -
    have "par sd i = (if par sb i = Some cur then k_init sb else par sb i)" using re that lb by simp
    then show ?thesis using pb[OF that] init by (simp add: tn)
  qed
  have stb: "st sb i = st s i \<or> st s i = SLEEPING \<and> st sb i = RUNNABLE" if "i < length (k_proc s)" for i using wbd(7)[of i] that od(1) a[of i] by simp
  show "st t i = st s i \<or> st s i = SLEEPING \<and> st t i = RUNNABLE" if "i < length (k_proc s)" "i \<noteq> cur"
    using that wdd(7)[of i] stb[of i] lb by (auto simp: tn)
  have std: "st sd i = SLEEPING \<and> ch t i = ch sd i \<and> i \<noteq> cur" if "st t i = SLEEPING" for i
    using that by (auto simp: tn split: if_splits)
  show "ch t i \<noteq> map_option ProcAddr (par s cur)" if "i < length (k_proc s)" "st t i = SLEEPING"
  proof -
    have "st sb i = SLEEPING" "ch sd i = ch sb i" using std[OF that(2)] wdd(6,7)[of i] that(1) lb by auto
    then show ?thesis using wb(3)[of i] that od(1) std[OF that(2)] ac(3) by auto
  qed
  show "ch t i \<noteq> map_option ProcAddr (k_init s)" if "i < length (k_proc s)" "j < length (k_proc s)" "par s j = Some cur" "j \<noteq> cur" "st s j = ZOMBIE" "st t i = SLEEPING"
  proof -
    have "par sb j = Some cur" "st sb j = ZOMBIE" using pb[OF that(2)] stb[OF that(2)] that(3,5) by auto
    then have "\<not> (st sd i = SLEEPING \<and> ch sd i = map_option ProcAddr (k_init sb))" using re that(1,2) lb by auto
    then show ?thesis using std[OF that(6)] init by simp
  qed
qed

lemma wait_scan_some:
  "wait_scan cur i h ps = (Some j, b) \<Longrightarrow> i \<le> j \<and> j < i + length ps \<and> p_parent (ps ! (j - i)) = Some cur \<and> p_state (ps ! (j - i)) = ZOMBIE"
proof (induction ps arbitrary: i h)
  case (Cons p ps)
  show ?case
  proof (cases "p_parent p = Some cur \<and> p_state p = ZOMBIE")
    case True
    then show ?thesis using Cons.prems by auto
  next
    case False
    then obtain h' where "wait_scan cur (i + 1) h' ps = (Some j, b)" using Cons.prems by (auto split: if_splits)
    from Cons.IH[OF this] show ?thesis by (auto simp: nth_Cons' Suc_diff_le)
  qed
qed simp

lemma wait_scan_none:
  "wait_scan cur i h ps = (None, b) \<Longrightarrow> (\<forall>p \<in> set ps. p_parent p = Some cur \<longrightarrow> p_state p \<noteq> ZOMBIE) \<and> (b \<longleftrightarrow> h \<or> (\<exists>p \<in> set ps. p_parent p = Some cur))"
  by (induction ps arbitrary: i h) (auto split: if_splits)

lemma wait_effect:
  assumes w: "wait ops cur s = Inr (r, t)" and cur: "cur < length (k_proc s)"
  shows "(\<exists>i < length (k_proc s). par s i = Some cur \<and> st s i = ZOMBIE \<and> slot_only i s t \<and> k_nextpid t = k_nextpid s \<and> r = WaitRet (pid s i) \<and>
      st t i = UNUSED \<and> par t i = None \<and> ch t i = ch s i) \<or>
    r = WaitRet (- 1) \<and> t = s \<or>
    r = WaitSleep \<and> slot_only cur s t \<and> k_nextpid t = k_nextpid s \<and> st t cur = SLEEPING \<and> ch t cur = Some (ProcAddr cur) \<and> par t cur = par s cur \<and>
      pid t cur = pid s cur \<and> (\<forall>i < length (k_proc s). par s i = Some cur \<longrightarrow> st s i \<noteq> ZOMBIE) \<and> (\<exists>i < length (k_proc s). par s i = Some cur)"
proof (cases "wait_scan cur 0 False (k_proc s)")
  case (Pair z h)
  show ?thesis
  proof (cases z)
    case (Some i)
    then have i: "i < length (k_proc s)" "par s i = Some cur" "st s i = ZOMBIE" using wait_scan_some[of cur 0 False "k_proc s" i h] Pair by auto
    from w Pair Some obtain m1 m2 where m: "o_kfree ops (p_kstack (k_proc s ! i)) (k_mem s) = Inr m1" "o_freevm ops (p_pgdir (k_proc s ! i)) m1 = Inr m2"
      by (auto simp: wait_def Let_def on_mem_def bindE_Inr_iff)
    then have "r = WaitRet (pid s i)" "t = upd_proc i (\<lambda>p. p\<lparr>p_pid := 0, p_parent := None, p_name := [], p_killed := False, p_state := UNUSED\<rparr>)
        (upd_proc i (\<lambda>p. p\<lparr>p_kstack := 0\<rparr>) (s\<lparr>k_mem := m1\<rparr>)\<lparr>k_mem := m2\<rparr>)"
      using w Pair Some by (simp_all add: wait_def Let_def on_mem_def)
    then show ?thesis using i by (intro disjI1 exI[of _ i]) (simp add: slot_only_refl)
  next
    case None
    note n = wait_scan_none[OF Pair[unfolded None]]
    show ?thesis
    proof (cases "\<not> h \<or> p_killed (k_proc s ! cur)")
      case True
      then show ?thesis using w Pair None by (auto simp: wait_def)
    next
      case False
      then have "r = WaitSleep" "t = upd_proc cur (\<lambda>q. q\<lparr>p_chan := Some (ProcAddr cur), p_state := SLEEPING\<rparr>) s"
        using w Pair None by (simp_all add: wait_def sleep_def)
      moreover have "\<forall>i < length (k_proc s). par s i = Some cur \<longrightarrow> st s i \<noteq> ZOMBIE" "\<exists>i < length (k_proc s). par s i = Some cur"
        using n False by (simp_all add: all_set_conv_all_nth Bex_def in_set_conv_nth) auto
      ultimately show ?thesis using cur by (auto simp: slot_only_refl)
    qed
  qed
qed

lemma kill_effect:
  assumes "kill k s = (r, t)"
  shows "woken s t" and "i < length (k_proc s) \<Longrightarrow> par t i = par s i"
  using assms by (auto simp: kill_def woken_def Let_def upd_proc_def nth_upd split: option.splits if_splits)

section \<open>Processes on several CPUs\<close>

text \<open>
  A step of the machine. A process acts only while it is on a CPU and has left \<open>sleep\<close>; \<open>wakeup\<close> also comes from
  interrupts, and its channels are never process slots, which only \<open>exit\<close> wakes.
\<close>

definition acts :: "nat \<Rightarrow> nat \<Rightarrow> 'm kst \<Rightarrow> bool" where
  "acts c p s \<longleftrightarrow> c < length (k_cpu s) \<and> k_cpu s ! c = Some p \<and> ch s p = None"

inductive kstep :: "'m kops \<Rightarrow> 'm kst \<Rightarrow> 'm kst \<Rightarrow> bool" for ops :: "'m kops" where
  run: "c < length (k_cpu s) \<Longrightarrow> k_cpu s ! c = None \<Longrightarrow> i < length (k_proc s) \<Longrightarrow> st s i = RUNNABLE \<Longrightarrow> kstep ops s (scheduler_run c i s)"
| tidy: "c < length (k_cpu s) \<Longrightarrow> k_cpu s ! c = Some p \<Longrightarrow> kstep ops s (sleep_tidy p s)"
| yields: "acts c p s \<Longrightarrow> kstep ops s (off_cpu c (yield p s))"
| sleeps: "acts c p s \<Longrightarrow> sleep (Some p) (Addr a) True s = Inr t \<Longrightarrow> kstep ops s (off_cpu c t)"
| wakes: "kstep ops s (wakeup (Some (Addr a)) s)"
| kills: "acts c p s \<Longrightarrow> kill k s = (r, t) \<Longrightarrow> kstep ops s t"
| forks: "acts c p s \<Longrightarrow> fork ops p s = Inr (r, t) \<Longrightarrow> kstep ops s t"
| exits: "acts c p s \<Longrightarrow> exit ops p s = Inr t \<Longrightarrow> kstep ops s (off_cpu c t)"
| waits: "acts c p s \<Longrightarrow> wait ops p s = Inr (WaitRet r, t) \<Longrightarrow> kstep ops s t"
| wait_sleeps: "acts c p s \<Longrightarrow> wait ops p s = Inr (WaitSleep, t) \<Longrightarrow> kstep ops s (off_cpu c t)"

definition alive :: "procstate \<Rightarrow> bool" where
  "alive x \<longleftrightarrow> x = SLEEPING \<or> x = RUNNABLE \<or> x = RUNNING"

text \<open>Who is whose child: every process but the first has a living parent.\<close>

definition tree_ok :: "'m kst \<Rightarrow> bool" where
  "tree_ok s \<longleftrightarrow> (\<exists>i0 < length (k_proc s). k_init s = Some i0 \<and> alive (st s i0) \<and> par s i0 = None) \<and>
     (\<forall>i < length (k_proc s). st s i \<noteq> EMBRYO \<and> (st s i = UNUSED \<longrightarrow> par s i = None) \<and>
        (st s i \<noteq> UNUSED \<and> k_init s \<noteq> Some i \<longrightarrow> (\<exists>q < length (k_proc s). par s i = Some q \<and> q \<noteq> i \<and> alive (st s q))))"

text \<open>Who sleeps where: a process asleep in \<open>wait\<close> has children, none of them a zombie.\<close>

definition chan_ok :: "'m kst \<Rightarrow> bool" where
  "chan_ok s \<longleftrightarrow> (\<forall>i < length (k_proc s). (ch s i \<noteq> None \<longrightarrow> alive (st s i)) \<and> (\<forall>q. ch s i = Some (ProcAddr q) \<longrightarrow> q = i) \<and>
     (st s i = SLEEPING \<and> ch s i = Some (ProcAddr i) \<longrightarrow>
        (\<forall>q < length (k_proc s). par s q = Some i \<longrightarrow> st s q \<noteq> ZOMBIE) \<and> (\<exists>q < length (k_proc s). par s q = Some i)))"

definition cpu_ok_k :: "'m kst \<Rightarrow> bool" where
  "cpu_ok_k s \<longleftrightarrow> (\<forall>c < length (k_cpu s). \<forall>p. k_cpu s ! c = Some p \<longrightarrow> p < length (k_proc s) \<and> st s p = RUNNING) \<and>
     (\<forall>c < length (k_cpu s). \<forall>d < length (k_cpu s). k_cpu s ! c = k_cpu s ! d \<and> k_cpu s ! c \<noteq> None \<longrightarrow> c = d) \<and>
     (\<forall>p < length (k_proc s). st s p = RUNNING \<longrightarrow> (\<exists>c < length (k_cpu s). k_cpu s ! c = Some p))"

definition pid_ok :: "'m kst \<Rightarrow> bool" where
  "pid_ok s \<longleftrightarrow> 0 < k_nextpid s \<and> (\<forall>i < length (k_proc s). st s i \<noteq> UNUSED \<longrightarrow> 0 < pid s i \<and> pid s i < k_nextpid s) \<and>
     (\<forall>i < length (k_proc s). \<forall>j < length (k_proc s). st s i \<noteq> UNUSED \<and> st s j \<noteq> UNUSED \<and> pid s i = pid s j \<longrightarrow> i = j)"

definition ptable_ok :: "'m kst \<Rightarrow> bool" where
  "ptable_ok s \<longleftrightarrow> tree_ok s \<and> chan_ok s \<and> cpu_ok_k s \<and> pid_ok s"

lemma chan_okI:
  assumes "\<And>i. i < length (k_proc s) \<Longrightarrow> ch s i \<noteq> None \<Longrightarrow> alive (st s i)"
    and "\<And>i q. i < length (k_proc s) \<Longrightarrow> ch s i = Some (ProcAddr q) \<Longrightarrow> q = i"
    and "\<And>i q. i < length (k_proc s) \<Longrightarrow> st s i = SLEEPING \<Longrightarrow> ch s i = Some (ProcAddr i) \<Longrightarrow> q < length (k_proc s) \<Longrightarrow> par s q = Some i \<Longrightarrow> st s q \<noteq> ZOMBIE"
    and "\<And>i. i < length (k_proc s) \<Longrightarrow> st s i = SLEEPING \<Longrightarrow> ch s i = Some (ProcAddr i) \<Longrightarrow> \<exists>q < length (k_proc s). par s q = Some i"
  shows "chan_ok s"
  using assms unfolding chan_ok_def by blast

lemma chan_okD:
  assumes "chan_ok s" "i < length (k_proc s)"
  shows "ch s i \<noteq> None \<Longrightarrow> alive (st s i)" "ch s i = Some (ProcAddr q) \<Longrightarrow> q = i"
    "st s i = SLEEPING \<Longrightarrow> ch s i = Some (ProcAddr i) \<Longrightarrow> q < length (k_proc s) \<Longrightarrow> par s q = Some i \<Longrightarrow> st s q \<noteq> ZOMBIE"
    "st s i = SLEEPING \<Longrightarrow> ch s i = Some (ProcAddr i) \<Longrightarrow> \<exists>q < length (k_proc s). par s q = Some i"
  using assms unfolding chan_ok_def by simp_all

lemma cpu_okI:
  assumes "\<And>c p. c < length (k_cpu s) \<Longrightarrow> k_cpu s ! c = Some p \<Longrightarrow> p < length (k_proc s) \<and> st s p = RUNNING"
    and "\<And>c d. c < length (k_cpu s) \<Longrightarrow> d < length (k_cpu s) \<Longrightarrow> k_cpu s ! c = k_cpu s ! d \<Longrightarrow> k_cpu s ! c \<noteq> None \<Longrightarrow> c = d"
    and "\<And>p. p < length (k_proc s) \<Longrightarrow> st s p = RUNNING \<Longrightarrow> \<exists>c < length (k_cpu s). k_cpu s ! c = Some p"
  shows "cpu_ok_k s"
  unfolding cpu_ok_k_def using assms by blast

lemma cpu_okD:
  assumes "cpu_ok_k s"
  shows "c < length (k_cpu s) \<Longrightarrow> k_cpu s ! c = Some p \<Longrightarrow> p < length (k_proc s) \<and> st s p = RUNNING"
    "c < length (k_cpu s) \<Longrightarrow> d < length (k_cpu s) \<Longrightarrow> k_cpu s ! c = k_cpu s ! d \<Longrightarrow> k_cpu s ! c \<noteq> None \<Longrightarrow> c = d"
    "p < length (k_proc s) \<Longrightarrow> st s p = RUNNING \<Longrightarrow> \<exists>c < length (k_cpu s). k_cpu s ! c = Some p"
  using assms unfolding cpu_ok_k_def by simp_all

lemma tree_okI:
  assumes "\<exists>i0 < length (k_proc s). k_init s = Some i0 \<and> alive (st s i0) \<and> par s i0 = None"
    and "\<And>i. i < length (k_proc s) \<Longrightarrow> st s i \<noteq> EMBRYO" "\<And>i. i < length (k_proc s) \<Longrightarrow> st s i = UNUSED \<Longrightarrow> par s i = None"
    and "\<And>i. i < length (k_proc s) \<Longrightarrow> st s i \<noteq> UNUSED \<Longrightarrow> k_init s \<noteq> Some i \<Longrightarrow> \<exists>q < length (k_proc s). par s i = Some q \<and> q \<noteq> i \<and> alive (st s q)"
  shows "tree_ok s"
  unfolding tree_ok_def using assms by blast

lemma tree_okD:
  assumes "tree_ok s"
  shows "\<exists>i0 < length (k_proc s). k_init s = Some i0 \<and> alive (st s i0) \<and> par s i0 = None"
    "i < length (k_proc s) \<Longrightarrow> st s i \<noteq> EMBRYO" "i < length (k_proc s) \<Longrightarrow> st s i = UNUSED \<Longrightarrow> par s i = None"
    "i < length (k_proc s) \<Longrightarrow> st s i \<noteq> UNUSED \<Longrightarrow> k_init s \<noteq> Some i \<Longrightarrow> \<exists>q < length (k_proc s). par s i = Some q \<and> q \<noteq> i \<and> alive (st s q)"
  using assms unfolding tree_ok_def by simp_all

lemma pid_okI:
  assumes "0 < k_nextpid s" "\<And>i. i < length (k_proc s) \<Longrightarrow> st s i \<noteq> UNUSED \<Longrightarrow> 0 < pid s i \<and> pid s i < k_nextpid s"
    "\<And>i j. i < length (k_proc s) \<Longrightarrow> j < length (k_proc s) \<Longrightarrow> st s i \<noteq> UNUSED \<Longrightarrow> st s j \<noteq> UNUSED \<Longrightarrow> pid s i = pid s j \<Longrightarrow> i = j"
  shows "pid_ok s"
  unfolding pid_ok_def using assms by blast

lemma pid_okD:
  assumes "pid_ok s"
  shows "0 < k_nextpid s" "i < length (k_proc s) \<Longrightarrow> st s i \<noteq> UNUSED \<Longrightarrow> 0 < pid s i" "i < length (k_proc s) \<Longrightarrow> st s i \<noteq> UNUSED \<Longrightarrow> pid s i < k_nextpid s"
    "i < length (k_proc s) \<Longrightarrow> j < length (k_proc s) \<Longrightarrow> st s i \<noteq> UNUSED \<Longrightarrow> st s j \<noteq> UNUSED \<Longrightarrow> pid s i = pid s j \<Longrightarrow> i = j"
  using assms unfolding pid_ok_def by simp_all

text \<open>Nothing but living states and channels change.\<close>

definition quiet :: "'m kst \<Rightarrow> 'm kst \<Rightarrow> bool" where
  "quiet s t \<longleftrightarrow> length (k_proc t) = length (k_proc s) \<and> k_init t = k_init s \<and> k_nextpid t = k_nextpid s \<and>
     (\<forall>i < length (k_proc s). par t i = par s i \<and> pid t i = pid s i \<and> (st t i = st s i \<or> alive (st s i) \<and> alive (st t i)))"

lemma quietD:
  assumes "quiet s t"
  shows "length (k_proc t) = length (k_proc s)" "k_init t = k_init s" "k_nextpid t = k_nextpid s"
    "i < length (k_proc s) \<Longrightarrow> par t i = par s i" "i < length (k_proc s) \<Longrightarrow> pid t i = pid s i"
    "i < length (k_proc s) \<Longrightarrow> alive (st t i) = alive (st s i)" "i < length (k_proc s) \<Longrightarrow> (st t i = UNUSED) = (st s i = UNUSED)"
    "i < length (k_proc s) \<Longrightarrow> (st t i = EMBRYO) = (st s i = EMBRYO)" "i < length (k_proc s) \<Longrightarrow> (st t i = ZOMBIE) = (st s i = ZOMBIE)"
  using assms by (auto simp: quiet_def alive_def)

lemma quiet_tree: "quiet s t \<Longrightarrow> tree_ok s \<Longrightarrow> tree_ok t"
proof -
  assume q: "quiet s t" and k: "tree_ok s"
  note d = quietD[OF q]
  obtain i0 where i0: "i0 < length (k_proc s)" "k_init s = Some i0" "alive (st s i0)" "par s i0 = None" using k by (auto simp: tree_ok_def)
  have "\<exists>i0 < length (k_proc t). k_init t = Some i0 \<and> alive (st t i0) \<and> par t i0 = None" using i0 d by (intro exI[of _ i0]) simp
  moreover have "st t i \<noteq> EMBRYO \<and> (st t i = UNUSED \<longrightarrow> par t i = None) \<and>
        (st t i \<noteq> UNUSED \<and> k_init t \<noteq> Some i \<longrightarrow> (\<exists>q < length (k_proc t). par t i = Some q \<and> q \<noteq> i \<and> alive (st t q)))" if "i < length (k_proc s)" for i
    using k that d(1,2) d(4)[OF that] d(6) d(7,8)[OF that] unfolding tree_ok_def by metis
  ultimately show ?thesis unfolding tree_ok_def d(1) by blast
qed

lemma quiet_pid: "quiet s t \<Longrightarrow> pid_ok s \<Longrightarrow> pid_ok t"
  using quietD[of s t] unfolding pid_ok_def by metis

lemma quiet_chan:
  assumes q: "quiet s t" and k: "chan_ok s"
    and a: "\<And>i. i < length (k_proc s) \<Longrightarrow> ch t i \<noteq> None \<Longrightarrow> alive (st t i) \<and> (\<forall>q. ch t i = Some (ProcAddr q) \<longrightarrow> q = i)"
    and b: "\<And>i. i < length (k_proc s) \<Longrightarrow> st t i = SLEEPING \<Longrightarrow> ch t i = Some (ProcAddr i) \<Longrightarrow> st s i = SLEEPING \<and> ch s i = Some (ProcAddr i)"
  shows "chan_ok t"
proof -
  note d = quietD[OF q]
  have "(\<forall>q < length (k_proc t). par t q = Some i \<longrightarrow> st t q \<noteq> ZOMBIE) \<and> (\<exists>q < length (k_proc t). par t q = Some i)"
    if "i < length (k_proc s)" "st t i = SLEEPING" "ch t i = Some (ProcAddr i)" for i
  proof -
    have "(\<forall>q < length (k_proc s). par s q = Some i \<longrightarrow> st s q \<noteq> ZOMBIE) \<and> (\<exists>q < length (k_proc s). par s q = Some i)"
      using k b[OF that] that(1) unfolding chan_ok_def by blast
    then show ?thesis using d(1,4,9) by auto
  qed
  then show ?thesis unfolding chan_ok_def d(1) using a by blast
qed

lemma woken_quiet: "woken s t \<Longrightarrow> (\<And>i. i < length (k_proc s) \<Longrightarrow> par t i = par s i) \<Longrightarrow> quiet s t"
  by (auto simp: woken_def quiet_def alive_def)

lemma cpu_cong:
  assumes k: "cpu_ok_k s" and l: "length (k_proc t) = length (k_proc s)" "k_cpu t = k_cpu s"
    and r: "\<And>i. i < length (k_proc s) \<Longrightarrow> st t i = RUNNING \<longleftrightarrow> st s i = RUNNING"
  shows "cpu_ok_k t"
proof -
  have "\<forall>c < length (k_cpu s). \<forall>p. k_cpu s ! c = Some p \<longrightarrow> p < length (k_proc s) \<and> st t p = RUNNING"
    using k r unfolding cpu_ok_k_def by simp
  moreover have "\<forall>p < length (k_proc s). st t p = RUNNING \<longrightarrow> (\<exists>c < length (k_cpu s). k_cpu s ! c = Some p)"
    using k r unfolding cpu_ok_k_def by simp
  ultimately show ?thesis using k unfolding cpu_ok_k_def l by blast
qed

lemma woken_ok:
  assumes w: "woken s t" "\<And>i. i < length (k_proc s) \<Longrightarrow> par t i = par s i" and k: "ptable_ok s"
  shows "ptable_ok t"
proof -
  note q = woken_quiet[OF w] and d = wokenD[OF w(1)]
  have c: "chan_ok s" "cpu_ok_k s" using k by (simp_all add: ptable_ok_def)
  have "chan_ok t"
  proof (rule quiet_chan[OF q c(1)])
    fix i assume i: "i < length (k_proc s)"
    show "ch t i \<noteq> None \<Longrightarrow> alive (st t i) \<and> (\<forall>q. ch t i = Some (ProcAddr q) \<longrightarrow> q = i)"
      using c(1) i d(6)[OF i] quietD(6)[OF q i] unfolding chan_ok_def by metis
    show "st t i = SLEEPING \<Longrightarrow> ch t i = Some (ProcAddr i) \<Longrightarrow> st s i = SLEEPING \<and> ch s i = Some (ProcAddr i)"
      using d(6,7)[OF i] by auto
  qed
  moreover have "st t i = RUNNING \<longleftrightarrow> st s i = RUNNING" if "i < length (k_proc s)" for i using d(7)[OF that] by auto
  then have "cpu_ok_k t" by (rule cpu_cong[OF c(2) d(1,3)])
  ultimately show ?thesis using k quiet_tree[OF q] quiet_pid[OF q] by (simp add: ptable_ok_def)
qed

text \<open>A process on a CPU.\<close>

lemma acts_running:
  assumes "ptable_ok s" "c < length (k_cpu s)" "k_cpu s ! c = Some p"
  shows "p < length (k_proc s)" "st s p = RUNNING" "d < length (k_cpu s) \<Longrightarrow> k_cpu s ! d = Some p \<Longrightarrow> d = c"
  using assms by (auto simp: ptable_ok_def cpu_ok_k_def)

text \<open>The process of CPU \<open>c\<close> leaves it.\<close>

lemma leave_cpu:
  assumes k: "ptable_ok s" and c: "c < length (k_cpu s)" "k_cpu s ! c = Some p"
    and l: "length (k_proc t) = length (k_proc s)" "k_cpu t = k_cpu s" and p: "st t p \<noteq> RUNNING"
    and o: "\<And>i. i < length (k_proc s) \<Longrightarrow> i \<noteq> p \<Longrightarrow> st t i = RUNNING \<longleftrightarrow> st s i = RUNNING"
  shows "cpu_ok_k (off_cpu c t)"
proof -
  have kc: "cpu_ok_k s" using k by (simp add: ptable_ok_def)
  note r = acts_running[OF k c]
  have n: "k_cpu (off_cpu c t) ! d = (if d = c then None else k_cpu s ! d)" "length (k_cpu (off_cpu c t)) = length (k_cpu s)" for d
    using c l by (simp_all add: off_cpu_def nth_upd)
  have "q < length (k_proc s) \<and> st t q = RUNNING" if "d < length (k_cpu s)" "k_cpu (off_cpu c t) ! d = Some q" for d q
    using that n(1)[of d] kc r(3)[of d] o[of q] unfolding cpu_ok_k_def by (metis option.distinct(1) option.inject)
  moreover have "d = e" if "d < length (k_cpu s)" "e < length (k_cpu s)" "k_cpu (off_cpu c t) ! d = k_cpu (off_cpu c t) ! e" "k_cpu (off_cpu c t) ! d \<noteq> None" for d e
    using that n(1)[of d] n(1)[of e] kc unfolding cpu_ok_k_def by metis
  moreover have "\<exists>d < length (k_cpu s). k_cpu (off_cpu c t) ! d = Some q" if q: "q < length (k_proc s)" "st t q = RUNNING" for q
  proof -
    have "q \<noteq> p" using q p by auto
    then obtain d where "d < length (k_cpu s)" "k_cpu s ! d = Some q" using o[OF q(1)] q kc unfolding cpu_ok_k_def by blast
    then show ?thesis using n(1)[of d] c \<open>q \<noteq> p\<close> by (intro exI[of _ d]) auto
  qed
  moreover have "k_proc (off_cpu c t) = k_proc t" by (simp add: off_cpu_def)
  ultimately show ?thesis using l(1) n(2) by (intro cpu_okI) simp_all
qed

text \<open>One slot moves between living states.\<close>

lemma slot_quiet:
  assumes "slot_only p s t" "k_nextpid t = k_nextpid s" "par t p = par s p" "pid t p = pid s p" "alive (st s p)" "alive (st t p)"
  shows "quiet s t"
proof -
  note d = slot_onlyD[OF assms(1)]
  have "par t i = par s i \<and> pid t i = pid s i \<and> (st t i = st s i \<or> alive (st s i) \<and> alive (st t i))" for i
    using d(2)[of i] assms(3-6) by (cases "i = p") simp_all
  then show ?thesis using d(1,3) assms(2) by (simp add: quiet_def)
qed

lemma slot_chan:
  assumes so: "slot_only p s t" and q: "quiet s t" and k: "chan_ok s" and a: "alive (st t p)" "\<And>q. ch t p = Some (ProcAddr q) \<Longrightarrow> q = p"
    and w: "st t p = SLEEPING \<Longrightarrow> ch t p = Some (ProcAddr p) \<Longrightarrow> st s p = SLEEPING \<and> ch s p = Some (ProcAddr p)"
  shows "chan_ok t"
proof (rule quiet_chan[OF q k])
  fix i assume i: "i < length (k_proc s)"
  note d = slot_onlyD(2)[OF so, of i]
  show "ch t i \<noteq> None \<Longrightarrow> alive (st t i) \<and> (\<forall>q. ch t i = Some (ProcAddr q) \<longrightarrow> q = i)"
    using d a k i by (cases "i = p") (auto simp: chan_ok_def)
  show "st t i = SLEEPING \<Longrightarrow> ch t i = Some (ProcAddr i) \<Longrightarrow> st s i = SLEEPING \<and> ch s i = Some (ProcAddr i)"
    using d w by (cases "i = p") auto
qed

lemma off_cpu_parts: "tree_ok (off_cpu c t) = tree_ok t" "chan_ok (off_cpu c t) = chan_ok t" "pid_ok (off_cpu c t) = pid_ok t"
  by (simp_all add: tree_ok_def chan_ok_def pid_ok_def off_cpu_def)

lemma leaves_ok:
  assumes k: "ptable_ok s" and c: "c < length (k_cpu s)" "k_cpu s ! c = Some p" and so: "slot_only p s t" "k_nextpid t = k_nextpid s"
    and p: "par t p = par s p" "pid t p = pid s p" "alive (st t p)" "st t p \<noteq> RUNNING" and ch: "chan_ok t"
  shows "ptable_ok (off_cpu c t)"
proof -
  note r = acts_running[OF k c] and d = slot_onlyD[OF so(1)]
  have q: "quiet s t" by (rule slot_quiet[OF so p(1,2) _ p(3)]) (simp add: r(2) alive_def)
  have "cpu_ok_k (off_cpu c t)" by (rule leave_cpu[OF k c d(1,4) p(4)]) (simp add: d(2))
  then show ?thesis using k quiet_tree[OF q] quiet_pid[OF q] ch by (simp add: ptable_ok_def off_cpu_parts)
qed

lemma run_ok:
  assumes k: "ptable_ok s" and c: "c < length (k_cpu s)" "k_cpu s ! c = None" and i: "i < length (k_proc s)" "st s i = RUNNABLE"
  shows "ptable_ok (scheduler_run c i s)"
proof -
  let ?t = "upd_proc i (\<lambda>p. p\<lparr>p_state := RUNNING\<rparr>) s"
  have kc: "chan_ok s" "cpu_ok_k s" using k by (simp_all add: ptable_ok_def)
  have so: "slot_only i s ?t" by (rule slot_only_upd)
  have q: "quiet s ?t" by (rule slot_quiet[OF so]) (simp_all add: i alive_def)
  have "chan_ok ?t" by (rule slot_chan[OF so q kc(1)]) (use kc(1) i in \<open>auto simp: alive_def chan_ok_def\<close>)
  moreover define u where "u = scheduler_run c i s"
  have u: "k_proc u = k_proc ?t" "k_init u = k_init s" "k_nextpid u = k_nextpid s" "k_cpu u ! d = (if d = c then Some i else k_cpu s ! d)" "length (k_cpu u) = length (k_cpu s)"
    "st u j = (if j = i then RUNNING else st s j)" "length (k_proc u) = length (k_proc s)" for d j
    using c i by (simp_all add: u_def scheduler_run_def nth_upd)
  note C = cpu_okD[OF kc(2)]
  have "cpu_ok_k u"
  proof (rule cpu_okI, unfold u(5,7))
    show "q < length (k_proc s) \<and> st u q = RUNNING" if "d < length (k_cpu s)" "k_cpu u ! d = Some q" for d q
      using that C(1)[of d q] i unfolding u(4,6) by (auto split: if_splits)
    show "d = e" if "d < length (k_cpu s)" "e < length (k_cpu s)" "k_cpu u ! d = k_cpu u ! e" "k_cpu u ! d \<noteq> None" for d e
      using that C(2)[of d e] C(1)[of d i] C(1)[of e i] i unfolding u(4) by (auto split: if_splits)
    show "\<exists>d < length (k_cpu s). k_cpu u ! d = Some q" if q: "q < length (k_proc s)" "st u q = RUNNING" for q
    proof (cases "q = i")
      case True
      then show ?thesis using c u(4)[of c] by (intro exI[of _ c]) simp
    next
      case False
      then have "\<exists>d < length (k_cpu s). k_cpu s ! d = Some q" using q C(3)[OF q(1)] unfolding u(6) by simp
      then obtain d where "d < length (k_cpu s)" "k_cpu s ! d = Some q" by (elim exE conjE)
      then show ?thesis using c u(4)[of d] by (intro exI[of _ d]) auto
    qed
  qed
  moreover have "tree_ok u = tree_ok ?t" "chan_ok u = chan_ok ?t" "pid_ok u = pid_ok ?t"
    using u(1-3) by (simp_all add: tree_ok_def chan_ok_def pid_ok_def)
  ultimately show ?thesis using k quiet_tree[OF q] quiet_pid[OF q] by (simp add: ptable_ok_def u_def)
qed

lemma tidy_ok:
  assumes k: "ptable_ok s" and c: "c < length (k_cpu s)" "k_cpu s ! c = Some p"
  shows "ptable_ok (sleep_tidy p s)"
proof -
  note r = acts_running[OF k c]
  have so: "slot_only p s (sleep_tidy p s)" unfolding sleep_tidy_def by (rule slot_only_upd)
  have q: "quiet s (sleep_tidy p s)" by (rule slot_quiet[OF so]) (simp_all add: sleep_tidy_def r alive_def)
  have kc: "chan_ok s" "cpu_ok_k s" using k by (simp_all add: ptable_ok_def)
  have "chan_ok (sleep_tidy p s)" by (rule slot_chan[OF so q kc(1)]) (simp_all add: sleep_tidy_def r alive_def)
  moreover have "cpu_ok_k (sleep_tidy p s)" by (rule cpu_cong[OF kc(2)]) (auto simp: sleep_tidy_def r)
  ultimately show ?thesis using k quiet_tree[OF q] quiet_pid[OF q] by (simp add: ptable_ok_def)
qed

text \<open>A slot that no process uses or will use becomes used, or the other way round.\<close>

lemma fork_ok:
  assumes k: "ptable_ok s" and c: "c < length (k_cpu s)" "k_cpu s ! c = Some p" and f: "fork ops p s = Inr (r, t)"
  shows "ptable_ok t"
proof (cases "t = s")
  case True
  then show ?thesis using k by simp
next
  case False
  then obtain i where i: "i < length (k_proc s)" "st s i = UNUSED" "slot_only i s t" "k_nextpid t = k_nextpid s + 1" "pid t i = k_nextpid s" "ch t i = ch s i"
    and o: "st t i = UNUSED \<and> par t i = par s i \<or> st t i = RUNNABLE \<and> par t i = Some p"
    using fork_effect[OF f] by blast
  note d = slot_onlyD[OF i(3)] and run = acts_running[OF k c]
  have kk: "tree_ok s" "chan_ok s" "cpu_ok_k s" "pid_ok s" using k by (simp_all add: ptable_ok_def)
  have ip: "p \<noteq> i" using run(2) i(2) by auto
  have un: "par s i = None" "ch s i = None" "k_init s \<noteq> Some i"
    using kk(1,2) i(1,2) unfolding tree_ok_def chan_ok_def alive_def by auto
  have oth: "st t j = st s j" "par t j = par s j" "ch t j = ch s j" "pid t j = pid s j" if "j \<noteq> i" for j using d(2)[OF that] by simp_all
  have "tree_ok t"
  proof (rule tree_okI, unfold d(1,3))
    obtain i0 where "i0 < length (k_proc s)" "k_init s = Some i0" "alive (st s i0)" "par s i0 = None" using tree_okD(1)[OF kk(1)] by blast
    then show "\<exists>i0 < length (k_proc s). k_init s = Some i0 \<and> alive (st t i0) \<and> par t i0 = None" using oth[of i0] un(3) by (intro exI[of _ i0]) auto
    fix j assume j: "j < length (k_proc s)"
    show "st t j \<noteq> EMBRYO" using tree_okD(2)[OF kk(1) j] oth(1)[of j] o by (cases "j = i") auto
    show "par t j = None" if "st t j = UNUSED" using that tree_okD(3)[OF kk(1) j] oth(1,2)[of j] o un(1) by (cases "j = i") auto
    assume u: "st t j \<noteq> UNUSED" "k_init s \<noteq> Some j"
    show "\<exists>q < length (k_proc s). par t j = Some q \<and> q \<noteq> j \<and> alive (st t q)"
    proof (cases "j = i")
      case True
      then show ?thesis using o u ip run(1,2) oth(1)[OF ip] by (intro exI[of _ p]) (auto simp: alive_def)
    next
      case False
      then obtain q where "q < length (k_proc s)" "par s j = Some q" "q \<noteq> j" "alive (st s q)" using tree_okD(4)[OF kk(1) j] u oth[OF False] by auto
      moreover from this have "q \<noteq> i" using i(2) by (auto simp: alive_def)
      ultimately show ?thesis using oth(2)[OF False] oth(1)[of q] by (intro exI[of _ q]) simp
    qed
  qed
  moreover have "chan_ok t"
  proof (rule chan_okI, unfold d(1))
    fix j assume j: "j < length (k_proc s)"
    note D = chan_okD[OF kk(2) j]
    show "alive (st t j)" if "ch t j \<noteq> None" using that D(1) oth[of j] un(2) i(6) by (cases "j = i") simp_all
    show "q = j" if "ch t j = Some (ProcAddr q)" for q using that D(2) oth[of j] un(2) i(6) by (cases "j = i") simp_all
    assume sl: "st t j = SLEEPING" "ch t j = Some (ProcAddr j)"
    then have ji: "j \<noteq> i" using un(2) i(6) by auto
    have s: "st s j = SLEEPING" "ch s j = Some (ProcAddr j)" using sl oth[OF ji] by simp_all
    show "st t q \<noteq> ZOMBIE" if "q < length (k_proc s)" "par t q = Some j" for q
      using that D(3)[OF s] oth[of q] o by (cases "q = i") auto
    obtain q where q: "q < length (k_proc s)" "par s q = Some j" using D(4)[OF s] by (elim exE conjE)
    then have "q \<noteq> i" using un(1) by auto
    then show "\<exists>q < length (k_proc s). par t q = Some j" using q oth(2)[of q] by (intro exI[of _ q]) simp
  qed
  moreover have "cpu_ok_k t"
  proof (rule cpu_cong[OF kk(3) d(1,4)])
    show "(st t j = RUNNING) = (st s j = RUNNING)" for j using oth(1)[of j] o i(2) by (cases "j = i") auto
  qed
  moreover have "pid_ok t"
  proof (rule pid_okI, unfold d(1))
    note P = pid_okD[OF kk(4)]
    show "0 < k_nextpid t" using P(1) i(4) by simp
    show "0 < pid t j \<and> pid t j < k_nextpid t" if "j < length (k_proc s)" "st t j \<noteq> UNUSED" for j
      using that P(1) P(2,3)[of j] oth[of j] i(4,5) by (cases "j = i") auto
    have old: "pid t j \<noteq> pid t i" if "j < length (k_proc s)" "st t j \<noteq> UNUSED" "j \<noteq> i" for j
      using P(3)[of j] that oth(1,4)[of j] i(5) by simp
    show "a = b" if ab: "a < length (k_proc s)" "b < length (k_proc s)" "st t a \<noteq> UNUSED" "st t b \<noteq> UNUSED" "pid t a = pid t b" for a b
    proof (cases "a = i \<or> b = i")
      case True
      then show ?thesis using old[OF ab(1,3)] old[OF ab(2,4)] ab(5) by metis
    next
      case False
      then have "st s a \<noteq> UNUSED" "st s b \<noteq> UNUSED" "pid s a = pid s b" using ab oth(1,4)[of a] oth(1,4)[of b] by simp_all
      then show ?thesis by (rule P(4)[OF ab(1,2)])
    qed
  qed
  ultimately show ?thesis by (simp add: ptable_ok_def)
qed

lemma reap_ok:
  assumes k: "ptable_ok s" and i: "i < length (k_proc s)" "par s i = Some p" "st s i = ZOMBIE" "slot_only i s t" "k_nextpid t = k_nextpid s"
    and o: "st t i = UNUSED" "par t i = None" "ch t i = ch s i" and p: "st s p = RUNNING"
  shows "ptable_ok t"
proof -
  note d = slot_onlyD[OF i(4)]
  have kk: "tree_ok s" "chan_ok s" "cpu_ok_k s" "pid_ok s" using k by (simp_all add: ptable_ok_def)
  have oth: "st t j = st s j" "par t j = par s j" "ch t j = ch s j" "pid t j = pid s j" if "j \<noteq> i" for j using d(2)[OF that] by simp_all
  have chi: "ch t i = None" using chan_okD(1)[OF kk(2) i(1)] i(3) o(3) by (cases "ch s i") (simp_all add: alive_def)
  have "tree_ok t"
  proof (rule tree_okI, unfold d(1,3))
    obtain i0 where "i0 < length (k_proc s)" "k_init s = Some i0" "alive (st s i0)" "par s i0 = None" using tree_okD(1)[OF kk(1)] by blast
    moreover from this have "i0 \<noteq> i" using i(2) by auto
    ultimately show "\<exists>i0 < length (k_proc s). k_init s = Some i0 \<and> alive (st t i0) \<and> par t i0 = None" using oth[of i0] by (intro exI[of _ i0]) simp
    fix j assume j: "j < length (k_proc s)"
    show "st t j \<noteq> EMBRYO" using tree_okD(2)[OF kk(1) j] oth(1)[of j] o(1) by (cases "j = i") simp_all
    show "par t j = None" if "st t j = UNUSED" using that tree_okD(3)[OF kk(1) j] oth(1,2)[of j] o(2) by (cases "j = i") simp_all
    assume u: "st t j \<noteq> UNUSED" "k_init s \<noteq> Some j"
    then have ji: "j \<noteq> i" using o by auto
    then obtain q where "q < length (k_proc s)" "par s j = Some q" "q \<noteq> j" "alive (st s q)" using tree_okD(4)[OF kk(1) j] u oth[OF ji] by auto
    moreover from this have "q \<noteq> i" using i(3) by (auto simp: alive_def)
    ultimately show "\<exists>q < length (k_proc s). par t j = Some q \<and> q \<noteq> j \<and> alive (st t q)" using oth(2)[OF ji] oth(1)[of q] by (intro exI[of _ q]) simp
  qed
  moreover have "chan_ok t"
  proof (rule chan_okI, unfold d(1))
    fix j assume j: "j < length (k_proc s)"
    note D = chan_okD[OF kk(2) j]
    show "alive (st t j)" if "ch t j \<noteq> None" using that D(1) oth[of j] chi by (cases "j = i") simp_all
    show "q = j" if "ch t j = Some (ProcAddr q)" for q using that D(2) oth[of j] chi by (cases "j = i") simp_all
    assume sl: "st t j = SLEEPING" "ch t j = Some (ProcAddr j)"
    then have ji: "j \<noteq> i" using o by auto
    have s: "st s j = SLEEPING" "ch s j = Some (ProcAddr j)" using sl oth[OF ji] by simp_all
    show "st t q \<noteq> ZOMBIE" if "q < length (k_proc s)" "par t q = Some j" for q using that D(3)[OF s] oth[of q] o by (cases "q = i") auto
    obtain q where q: "q < length (k_proc s)" "par s q = Some j" using D(4)[OF s] by (elim exE conjE)
    then have "q \<noteq> i" using i(2) p s by auto
    then show "\<exists>q < length (k_proc s). par t q = Some j" using q oth(2)[of q] by (intro exI[of _ q]) simp
  qed
  moreover have "cpu_ok_k t"
  proof (rule cpu_cong[OF kk(3) d(1,4)])
    show "(st t j = RUNNING) = (st s j = RUNNING)" for j using oth(1)[of j] o i(3) by (cases "j = i") auto
  qed
  moreover have "pid_ok t"
  proof (rule pid_okI, unfold d(1) i(5))
    note P = pid_okD[OF kk(4)]
    show "0 < k_nextpid s" by (rule P(1))
    show "0 < pid t j \<and> pid t j < k_nextpid s" if "j < length (k_proc s)" "st t j \<noteq> UNUSED" for j
      using that P(2,3)[of j] oth(1,4)[of j] o(1) by (cases "j = i"; simp)
    show "a = b" if ab: "a < length (k_proc s)" "b < length (k_proc s)" "st t a \<noteq> UNUSED" "st t b \<noteq> UNUSED" "pid t a = pid t b" for a b
    proof (rule P(4)[OF ab(1,2)])
      have "a \<noteq> i" "b \<noteq> i" using ab(3,4) o(1) by auto
      then show "st s a \<noteq> UNUSED" "st s b \<noteq> UNUSED" "pid s a = pid s b" using ab(3-5) oth(1,4)[of a] oth(1,4)[of b] by simp_all
    qed
  qed
  ultimately show ?thesis by (simp add: ptable_ok_def)
qed

lemma wait_sleep_ok:
  assumes k: "ptable_ok s" and c: "c < length (k_cpu s)" "k_cpu s ! c = Some p" and so: "slot_only p s t" "k_nextpid t = k_nextpid s"
    and o: "st t p = SLEEPING" "ch t p = Some (ProcAddr p)" "par t p = par s p" "pid t p = pid s p"
    and z: "\<forall>i < length (k_proc s). par s i = Some p \<longrightarrow> st s i \<noteq> ZOMBIE" and e: "\<exists>i < length (k_proc s). par s i = Some p"
  shows "ptable_ok (off_cpu c t)"
proof (rule leaves_ok[OF k c so o(3,4)])
  note d = slot_onlyD[OF so(1)] and r = acts_running[OF k c]
  have kk: "chan_ok s" using k by (simp add: ptable_ok_def)
  have oth: "st t j = st s j" "ch t j = ch s j" if "j \<noteq> p" for j using d(2)[OF that] by simp_all
  have pa: "par t j = par s j" for j using d(2)[of j] o(3) by (cases "j = p") simp_all
  have zt: "st t j = ZOMBIE \<longleftrightarrow> st s j = ZOMBIE" for j using oth(1)[of j] o(1) r(2) by (cases "j = p") simp_all
  show "alive (st t p)" "st t p \<noteq> RUNNING" using o(1) by (simp_all add: alive_def)
  show "chan_ok t"
  proof (rule chan_okI, unfold d(1) pa zt)
    fix j assume j: "j < length (k_proc s)"
    note D = chan_okD[OF kk j]
    show "alive (st t j)" if "ch t j \<noteq> None" using that D(1) oth[of j] o(1) by (cases "j = p") (simp_all add: alive_def)
    show "q = j" if "ch t j = Some (ProcAddr q)" for q using that D(2) oth[of j] o(2) by (cases "j = p") simp_all
    assume sl: "st t j = SLEEPING" "ch t j = Some (ProcAddr j)"
    show "st s q \<noteq> ZOMBIE" if "q < length (k_proc s)" "par s q = Some j" for q using that D(3)[of q] oth[of j] sl z by (cases "j = p") simp_all
    show "\<exists>q < length (k_proc s). par s q = Some j" using D(4) oth[of j] sl e by (cases "j = p") simp_all
  qed
qed

lemma exit_ok:
  assumes k: "ptable_ok s" and c: "c < length (k_cpu s)" "k_cpu s ! c = Some p" and n: "ch s p = None" and x: "exit ops p s = Inr t"
  shows "ptable_ok (off_cpu c t)"
proof -
  note r = acts_running[OF k c]
  note e = exit_effect[OF x r(1)]
  have kk: "tree_ok s" "chan_ok s" "pid_ok s" using k by (simp_all add: ptable_ok_def)
  have pq: "par s p \<noteq> Some p" using tree_okD(4)[OF kk(1) r(1)] e(1) r(2) by auto
  have al: "alive (st t j)" if "j < length (k_proc s)" "j \<noteq> p" "alive (st s j)" for j using e(10)[OF that(1,2)] that(3) by (auto simp: alive_def)
  obtain i0 where i0: "i0 < length (k_proc s)" "k_init s = Some i0" "alive (st s i0)" "par s i0 = None" using tree_okD(1)[OF kk(1)] by blast
  then have ip: "i0 \<noteq> p" using e(1) by auto
  have un: "st t j = UNUSED \<longleftrightarrow> st s j = UNUSED" if "j < length (k_proc s)" for j
    using e(10)[OF that] e(6) r(2) by (cases "j = p") auto
  have "tree_ok t"
  proof (rule tree_okI, unfold e(2,3))
    show "\<exists>i0 < length (k_proc s). k_init s = Some i0 \<and> alive (st t i0) \<and> par t i0 = None"
      using i0 ip al[OF i0(1) ip] e(9)[OF i0(1)] by (intro exI[of _ i0]) simp
    fix j assume j: "j < length (k_proc s)"
    show "st t j \<noteq> EMBRYO" using tree_okD(2)[OF kk(1) j] e(10)[OF j] e(6) by (cases "j = p") auto
    show "par t j = None" if "st t j = UNUSED" using that un[OF j] tree_okD(3)[OF kk(1) j] e(9)[OF j] by simp
    assume u: "st t j \<noteq> UNUSED" "k_init s \<noteq> Some j"
    then obtain q where q: "q < length (k_proc s)" "par s j = Some q" "q \<noteq> j" "alive (st s q)" using tree_okD(4)[OF kk(1) j] un[OF j] by auto
    show "\<exists>q < length (k_proc s). par t j = Some q \<and> q \<noteq> j \<and> alive (st t q)"
    proof (cases "q = p")
      case True
      then show ?thesis using e(9)[OF j] q i0 al[OF i0(1) ip] u(2) by (intro exI[of _ i0]) auto
    next
      case False
      then show ?thesis using e(9)[OF j] q al[OF q(1)] by (intro exI[of _ q]) simp
    qed
  qed
  moreover have "chan_ok t"
  proof (rule chan_okI, unfold e(2))
    fix j assume j: "j < length (k_proc s)"
    note D = chan_okD[OF kk(2) j]
    show "alive (st t j)" if "ch t j \<noteq> None" using that D(1) al[OF j] e(8)[OF j] n by (cases "j = p") simp_all
    show "q = j" if "ch t j = Some (ProcAddr q)" for q using that D(2) e(8)[OF j] by simp
    assume sl: "st t j = SLEEPING" "ch t j = Some (ProcAddr j)"
    then have jp: "j \<noteq> p" using e(6) by auto
    have s: "st s j = SLEEPING" "ch s j = Some (ProcAddr j)" using sl e(8)[OF j] e(10)[OF j jp] by auto
    show "st t q \<noteq> ZOMBIE" if q: "q < length (k_proc s)" "par t q = Some j" for q
    proof (cases "q = p")
      case True
      then have "par s p = Some j" using e(9)[OF q(1)] q(2) pq by simp
      then show ?thesis using e(11)[OF j sl(1)] sl(2) by simp
    next
      case False
      then have zs: "st t q = ZOMBIE \<Longrightarrow> st s q = ZOMBIE" using e(10)[OF q(1)] by auto
      show ?thesis
      proof (cases "par s q = Some p")
        case True
        then have "k_init s = Some j" using e(9)[OF q(1)] q(2) by simp
        then show ?thesis using e(12)[OF j q(1) True False _ sl(1)] sl(2) zs by auto
      next
        case other: False
        then have "par s q = Some j" using e(9)[OF q(1)] q(2) by simp
        then show ?thesis using D(3)[OF s q(1)] zs by blast
      qed
    qed
    obtain q where q: "q < length (k_proc s)" "par s q = Some j" using D(4)[OF s] by (elim exE conjE)
    then show "\<exists>q < length (k_proc s). par t q = Some j" using e(9)[OF q(1)] jp by (intro exI[of _ q]) simp
  qed
  moreover have "cpu_ok_k (off_cpu c t)"
  proof (rule leave_cpu[OF k c e(2,4)])
    show "st t p \<noteq> RUNNING" using e(6) by simp
    show "(st t j = RUNNING) = (st s j = RUNNING)" if "j < length (k_proc s)" "j \<noteq> p" for j using e(10)[OF that] by auto
  qed
  moreover have "pid_ok t"
  proof (rule pid_okI, unfold e(2,5))
    note P = pid_okD[OF kk(3)]
    show "0 < k_nextpid s" by (rule P(1))
    show "0 < pid t j \<and> pid t j < k_nextpid s" if "j < length (k_proc s)" "st t j \<noteq> UNUSED" for j using that P(2,3)[OF that(1)] un[OF that(1)] e(7)[OF that(1)] by simp
    show "a = b" if ab: "a < length (k_proc s)" "b < length (k_proc s)" "st t a \<noteq> UNUSED" "st t b \<noteq> UNUSED" "pid t a = pid t b" for a b
      by (rule P(4)[OF ab(1,2)]) (use ab un[OF ab(1)] un[OF ab(2)] e(7)[OF ab(1)] e(7)[OF ab(2)] in simp_all)
  qed
  ultimately show ?thesis by (simp add: ptable_ok_def off_cpu_parts)
qed

lemma sleeps_ok:
  assumes k: "ptable_ok s" and c: "acts c p s" and x: "x = RUNNABLE \<and> a = ch s p \<or> x = SLEEPING \<and> a = Some (Addr b)"
  shows "ptable_ok (off_cpu c (upd_proc p (\<lambda>q. q\<lparr>p_chan := a, p_state := x\<rparr>) s))"
proof -
  let ?t = "upd_proc p (\<lambda>q. q\<lparr>p_chan := a, p_state := x\<rparr>) s"
  note c' = c[unfolded acts_def]
  note r = acts_running[OF k c'[THEN conjunct1] c'[THEN conjunct2, THEN conjunct1]]
  have so: "slot_only p s ?t" by (rule slot_only_upd)
  have n: "par ?t p = par s p" "pid ?t p = pid s p" "k_nextpid ?t = k_nextpid s" "ch ?t p = a" "st ?t p = x" using r(1) by simp_all
  have q: "quiet s ?t" by (rule slot_quiet[OF so n(3,1,2)]) (use r x n(5) in \<open>auto simp: alive_def\<close>)
  have "chan_ok s" using k by (simp add: ptable_ok_def)
  then have "chan_ok ?t" by (rule slot_chan[OF so q]) (use n(4,5) x c' in \<open>auto simp: alive_def\<close>)
  then show ?thesis by (rule leaves_ok[OF k c'[THEN conjunct1] c'[THEN conjunct2, THEN conjunct1] so n(3,1,2), rotated 2]) (use n(5) x in \<open>auto simp: alive_def\<close>)
qed

lemma yield_off:
  assumes "acts c p s" "ptable_ok s"
  shows "ptable_ok (off_cpu c (yield p s))"
proof -
  have "yield p s = upd_proc p (\<lambda>q. q\<lparr>p_chan := ch s p, p_state := RUNNABLE\<rparr>) s" by (cases "k_proc s ! p") (simp add: yield_def upd_proc_def)
  then show ?thesis using sleeps_ok[OF assms(2,1), of RUNNABLE "ch s p"] by simp
qed

lemma wait_length: "wait ops cur s = Inr (r, t) \<Longrightarrow> cur < length (k_proc s) \<Longrightarrow> length (k_proc t) = length (k_proc s) \<and> k_cpu t = k_cpu s"
  by (drule (1) wait_effect, elim disjE exE conjE) (simp_all add: slot_only_def)

lemma kstep_length: "kstep ops s t \<Longrightarrow> ptable_ok s \<Longrightarrow> length (k_proc t) = length (k_proc s) \<and> length (k_cpu t) = length (k_cpu s)"
proof (induction rule: kstep.induct)
  case (wakes s a)
  then show ?case using wokenD(1,3)[OF wakeup1_effect(1)[where c = "Some (Addr a)" and s = s]] by (simp add: wakeup_def)
next
  case (kills c p s k r t)
  then show ?case using wokenD(1,3)[OF kill_effect(1)[OF kills(2)]] by simp
next
  case (forks c p s r t)
  then show ?case using fork_effect[OF forks(2)] slot_onlyD(1,4) by metis
next
  case (exits c p s t)
  then show ?case using exit_effect(2,4)[OF exits(2)] acts_running(1)[OF exits(3), of c p] by (simp add: off_cpu_def acts_def)
next
  case (waits c p s r t)
  then show ?case using wait_length[OF waits(2)] acts_running(1)[OF waits(3), of c p] by (simp add: acts_def)
next
  case (wait_sleeps c p s t)
  then show ?case using wait_length[OF wait_sleeps(2)] acts_running(1)[OF wait_sleeps(3), of c p] by (simp add: acts_def off_cpu_def)
next
  case (sleeps c p s a t)
  then have "t = upd_proc p (\<lambda>q. q\<lparr>p_chan := Some (Addr a), p_state := SLEEPING\<rparr>) s" by (simp add: sleep_def)
  then show ?case by (simp add: off_cpu_def)
qed (simp_all add: scheduler_run_def sleep_tidy_def yield_def off_cpu_def)

lemma kstep_ok: "kstep ops s t \<Longrightarrow> ptable_ok s \<Longrightarrow> ptable_ok t"
proof (induction rule: kstep.induct)
  case (run c s i)
  then show ?case by (intro run_ok)
next
  case (tidy c s p)
  then show ?case by (intro tidy_ok)
next
  case (yields c p s)
  then show ?case by (rule yield_off)
next
  case (sleeps c p s a t)
  then show ?case using sleeps_ok[of s c p SLEEPING "Some (Addr a)" a] by (simp add: sleep_def)
next
  case (wakes s a)
  show ?case unfolding wakeup_def by (rule woken_ok[OF wakeup1_effect(1,2) wakes])
next
  case (kills c p s k r t)
  then show ?case using woken_ok[OF kill_effect[OF kills(2)]] by simp
next
  case (forks c p s r t)
  then show ?case using fork_ok[OF forks(3) _ _ forks(2), of c] by (simp add: acts_def)
next
  case (exits c p s t)
  then show ?case using exit_ok[OF exits(3) _ _ _ exits(2), of c] by (simp add: acts_def)
next
  case (waits c p s r t)
  note a = waits(1)[unfolded acts_def]
  have r: "p < length (k_proc s)" "st s p = RUNNING" using acts_running[OF waits(3), of c p] a by simp_all
  from wait_effect[OF waits(2) r(1)] show ?case
  proof (elim disjE exE conjE)
    fix i assume "i < length (k_proc s)" "par s i = Some p" "st s i = ZOMBIE" "slot_only i s t" "k_nextpid t = k_nextpid s" "st t i = UNUSED" "par t i = None" "ch t i = ch s i"
    then show ?thesis by (rule reap_ok[OF waits(3) _ _ _ _ _ _ _ _ r(2)])
  qed (use waits(3) in simp_all)
next
  case (wait_sleeps c p s t)
  note a = wait_sleeps(1)[unfolded acts_def]
  have r: "p < length (k_proc s)" using acts_running[OF wait_sleeps(3), of c p] a by simp
  from wait_effect[OF wait_sleeps(2) r] show ?case
  proof (elim disjE)
    assume "WaitSleep = WaitSleep \<and> slot_only p s t \<and> k_nextpid t = k_nextpid s \<and> st t p = SLEEPING \<and> ch t p = Some (ProcAddr p) \<and> par t p = par s p \<and>
      pid t p = pid s p \<and> (\<forall>i < length (k_proc s). par s i = Some p \<longrightarrow> st s i \<noteq> ZOMBIE) \<and> (\<exists>i < length (k_proc s). par s i = Some p)"
    then show ?thesis using wait_sleep_ok[OF wait_sleeps(3), of c p t] a by simp
  qed auto
qed

section \<open>From boot on\<close>

definition zero_proc :: proc where
  "zero_proc = \<lparr>p_sz = 0, p_pgdir = 0, p_kstack = 0, p_state = UNUSED, p_pid = 0, p_parent = None, p_tfp = 0, p_tf = zero_trapframe, p_ctxp = 0,
     p_context = zero_context, p_chan = None, p_killed = False, p_ofile = replicate NOFILE None, p_cwd = None, p_name = []\<rparr>"

definition kst_boot :: "nat \<Rightarrow> u32 \<Rightarrow> 'm \<Rightarrow> 'm kst" where
  "kst_boot ncpu fr m = \<lparr>k_proc = replicate NPROC zero_proc, k_nextpid = 1, k_init = None, k_cpu = replicate ncpu None, k_forkret = fr, k_mem = m\<rparr>"

lemma userinit_effect:
  assumes "userinit ops s = Inr t"
  shows "\<exists>i < length (k_proc s). slot_only i (s\<lparr>k_init := Some i\<rparr>) t \<and> st s i = UNUSED \<and> k_nextpid t = k_nextpid s + 1 \<and> pid t i = k_nextpid s \<and> par t i = par s i \<and>
    ch t i = ch s i \<and> st t i = RUNNABLE"
proof -
  obtain i s1 where a: "allocproc ops s = Inr (Some i, s1)" using assms by (auto simp: userinit_def bindE_Inr_iff Let_def split: option.splits)
  from allocproc_effect[OF a] have e: "i < length (k_proc s)" "st s i = UNUSED" "slot_only i s s1" "k_nextpid s1 = k_nextpid s + 1" "pid s1 i = k_nextpid s"
    "par s1 i = par s i" "ch s1 i = ch s i" by auto
  have l: "i < length (k_proc s1)" using e(1) slot_onlyD(1)[OF e(3)] by simp
  then have "slot_only i (s1\<lparr>k_init := Some i\<rparr>) t \<and> k_nextpid t = k_nextpid s1 \<and> pid t i = pid s1 i \<and> par t i = par s1 i \<and> ch t i = ch s1 i \<and> st t i = RUNNABLE"
    using assms a unfolding userinit_def on_mem'_def on_mem_def Let_def
    by (auto simp: bindE_Inr_iff slot_only_def upd_proc_def split: if_splits)
  moreover have "slot_only i (s\<lparr>k_init := Some i\<rparr>) (s1\<lparr>k_init := Some i\<rparr>)" using e(3) by (simp add: slot_only_def)
  ultimately show ?thesis using e slot_only_trans by (intro exI[of _ i]) auto
qed

lemma userinit_ok:
  assumes "userinit ops (kst_boot n fr m) = Inr s"
  shows "ptable_ok s" "length (k_proc s) = NPROC" "length (k_cpu s) = n"
proof -
  let ?b = "kst_boot n fr m"
  from userinit_effect[OF assms] obtain i where i: "i < NPROC" "slot_only i (?b\<lparr>k_init := Some i\<rparr>) s" "k_nextpid s = 2" "pid s i = 1" "par s i = None" "ch s i = None" "st s i = RUNNABLE"
    by (auto simp: kst_boot_def zero_proc_def)
  note d = slot_onlyD[OF i(2)]
  have l: "length (k_proc s) = NPROC" "k_init s = Some i" "k_cpu s = replicate n None" using d by (simp_all add: kst_boot_def)
  then show "length (k_proc s) = NPROC" "length (k_cpu s) = n" by simp_all
  have o: "st s j = UNUSED" "par s j = None" "ch s j = None" if "j < NPROC" "j \<noteq> i" for j
    using d(2)[OF that(2)] that(1) by (simp_all add: kst_boot_def zero_proc_def)
  have pc: "par s j = None" "ch s j = None" if "j < NPROC" for j using o(2,3)[OF that] i(5,6) by (cases "j = i"; simp)+
  have us: "j = i" if "j < NPROC" "st s j \<noteq> UNUSED" for j using o(1)[OF that(1)] that(2) by (cases "j = i") simp_all
  have "tree_ok s"
  proof (rule tree_okI, unfold l)
    show "\<exists>i0 < NPROC. Some i = Some i0 \<and> alive (st s i0) \<and> par s i0 = None" using i by (intro exI[of _ i]) (simp add: alive_def)
    show "st s j \<noteq> EMBRYO" if "j < NPROC" for j using o(1)[OF that] i(7) by (cases "j = i") simp_all
    show "\<exists>q < NPROC. par s j = Some q \<and> q \<noteq> j \<and> alive (st s q)" if "j < NPROC" "st s j \<noteq> UNUSED" "Some i \<noteq> Some j" for j using us that by simp
  qed (use pc in simp)
  moreover have "chan_ok s" by (rule chan_okI) (simp_all add: l pc)
  moreover have "cpu_ok_k s"
  proof (rule cpu_okI)
    show "\<exists>c < length (k_cpu s). k_cpu s ! c = Some p" if "p < length (k_proc s)" "st s p = RUNNING" for p using us[of p] that l(1) i(7) by auto
  qed (auto simp: l(3))
  moreover have "pid_ok s"
  proof (rule pid_okI, unfold l(1) i(3))
    show "0 < pid s j \<and> pid s j < 2" if "j < NPROC" "st s j \<noteq> UNUSED" for j using us[OF that] i(4) by simp
    show "a = b" if "a < NPROC" "b < NPROC" "st s a \<noteq> UNUSED" "st s b \<noteq> UNUSED" "pid s a = pid s b" for a b using us that by metis
  qed simp
  ultimately show "ptable_ok s" by (simp add: ptable_ok_def)
qed

lemma reachable_ok:
  assumes "(kstep ops)\<^sup>*\<^sup>* s0 s" "userinit ops (kst_boot n fr m) = Inr s0"
  shows "ptable_ok s \<and> length (k_proc s) = NPROC \<and> length (k_cpu s) = n"
  using assms
proof (induction rule: rtranclp_induct)
  case base
  then show ?case using userinit_ok[OF base] by simp
next
  case (step y z)
  then have y: "ptable_ok y" "length (k_proc y) = NPROC" "length (k_cpu y) = n" by simp_all
  show ?case using kstep_ok[OF step.hyps(2) y(1)] kstep_length[OF step.hyps(2) y(1)] y by simp
qed

lemma ptable_running:
  assumes "ptable_ok s" "p < length (k_proc s)"
  shows "st s p = RUNNING \<longleftrightarrow> (\<exists>!c. c < length (k_cpu s) \<and> k_cpu s ! c = Some p)"
proof -
  note C = cpu_okD[of s]
  have k: "cpu_ok_k s" using assms(1) by (simp add: ptable_ok_def)
  have "c = d" if "c < length (k_cpu s)" "k_cpu s ! c = Some p" "d < length (k_cpu s)" "k_cpu s ! d = Some p" for c d
    using C(2)[OF k that(1,3)] that by simp
  then show ?thesis using C(1)[OF k] C(3)[OF k assms(2)] by blast
qed


text \<open>Two CPUs; the first process forks a child, the child runs on the other CPU and exits.\<close>

definition demo_ops :: "nat kops" where
  "demo_ops = \<lparr>o_kalloc = \<lambda>m. Inr (of_nat (4096 * (m + 1)), m + 1), o_kfree = \<lambda>_ m. Inr m, o_setupkvm = \<lambda>m. Inr (of_nat (4096 * (m + 1)), m + 1),
     o_inituvm = \<lambda>_ m. Inr m, o_allocuvm = \<lambda>_ _ n m. Inr (n, m), o_deallocuvm = \<lambda>_ _ n m. Inr (n, m),
     o_copyuvm = \<lambda>_ _ m. Inr (of_nat (4096 * (m + 1)), m + 1), o_freevm = \<lambda>_ m. Inr m, o_filedup = \<lambda>_ m. Inr m, o_fileclose = \<lambda>_ m. Inr m,
     o_idup = \<lambda>_ m. Inr m, o_iput = \<lambda>_ m. Inr m, o_begin_op = \<lambda>m. Inr m, o_end_op = \<lambda>m. Inr m, o_namei_root = \<lambda>m. Inr (Some 0, m)\<rparr>"

definition demo_init :: "procstate \<Rightarrow> proc" where
  "demo_init x = zero_proc\<lparr>p_sz := 4096, p_pgdir := 8192, p_kstack := 4096, p_state := x, p_pid := 1, p_tfp := 8116,
     p_tf := zero_trapframe\<lparr>tf_cs := 0x1B, tf_ds := 0x23, tf_es := 0x23, tf_ss := 0x23, tf_eflags := 0x200, tf_esp := 4096\<rparr>,
     p_ctxp := 8092, p_cwd := Some 0, p_name := map of_char ''initcode''\<rparr>"

definition demo_child :: "procstate \<Rightarrow> proc" where
  "demo_child x = (demo_init x)\<lparr>p_pgdir := 16384, p_kstack := 12288, p_pid := 2, p_parent := Some 0, p_tfp := 16308, p_ctxp := 16284\<rparr>"

definition demo_k :: "proc list \<Rightarrow> nat option list \<Rightarrow> nat kst" where
  "demo_k ps cs = \<lparr>k_proc = ps @ replicate (64 - length ps) zero_proc, k_nextpid = int (length ps) + 1, k_init = Some 0, k_cpu = cs, k_forkret = 0, k_mem = 2 * length ps\<rparr>"

lemma replicate_pred: "0 < n \<Longrightarrow> replicate n x = x # replicate (n - 1) x"
  by (cases n) simp_all

lemma foldE_same: "(\<And>x. x \<in> set xs \<Longrightarrow> f x s = Inr s) \<Longrightarrow> foldE f xs s = Inr s"
  by (induction xs) simp_all

lemma no_files:
  assumes "p_ofile (k_proc s ! cur) = replicate NOFILE None"
  shows "foldE (dup_fd ops cur np) [0..<NOFILE] s = Inr s" "foldE (close_fd ops cur) [0..<NOFILE] s = Inr s"
  by (rule foldE_same, simp add: dup_fd_def close_fd_def assms)+

lemmas demo_defs = kst_boot_def on_mem_def on_mem'_def upd_proc_def demo_ops_def demo_k_def demo_init_def demo_child_def zero_proc_def
  zero_context_def zero_trapframe_def replicate_pred[of 64] replicate_pred[of 63] replicate_pred[of 2] Let_def

lemma demo_boot: "userinit demo_ops (kst_boot 2 0 0) = Inr (demo_k [demo_init RUNNABLE] [None, None])"
  by (simp add: userinit_def allocproc_def demo_defs)

lemma demo_run: "scheduler_run 0 0 (demo_k [demo_init RUNNABLE] [None, None]) = demo_k [demo_init RUNNING] [Some 0, None]"
  by (simp add: scheduler_run_def demo_defs)

lemma demo_fork: "fork demo_ops 0 (demo_k [demo_init RUNNING] [Some 0, None]) = Inr (2, demo_k [demo_init RUNNING, demo_child RUNNABLE] [Some 0, None])"
  by (simp add: fork_def allocproc_def demo_defs no_files)

lemma demo_run_child: "scheduler_run 1 1 (demo_k [demo_init RUNNING, demo_child RUNNABLE] [Some 0, None]) = demo_k [demo_init RUNNING, demo_child RUNNING] [Some 0, Some 1]"
  by (simp add: scheduler_run_def demo_defs)

lemma demo_exit: "\<exists>t. exit demo_ops 1 (demo_k [demo_init RUNNING, demo_child RUNNING] [Some 0, Some 1]) = Inr t"
  by (simp add: exit_def demo_defs no_files)


text \<open>C40. \<open>kill\<close> never looks at the state of the slot it finds: on the pid of a free slot, for example 0 at boot, it
  reports success, and the next process made in that slot is killed before it has run.
\<close>

theorem kill_free_slot:
  assumes "find_idx (\<lambda>p. p_pid p = k) (k_proc s) = Some i" and "find_idx (\<lambda>p. p_state p = UNUSED) (k_proc s) = Some i"
    and "fork ops cur (snd (kill k s)) = Inr (r, t)" and "r \<noteq> - 1"
  shows "fst (kill k s) = 0 \<and> st t i = RUNNABLE \<and> pid t i = r \<and> p_killed (k_proc t ! i)"
proof -
  have i: "i < length (k_proc s)" "st s i = UNUSED" using find_idx_SomeD[OF assms(2)] by auto
  have k: "kill k s = (0, upd_proc i (\<lambda>p. p\<lparr>p_killed := True\<rparr>) s)" using assms(1) i by (simp add: kill_def Let_def)
  define u where "u = snd (kill k s)"
  have u: "u = upd_proc i (\<lambda>p. p\<lparr>p_killed := True\<rparr>) s" using k by (simp add: u_def)
  have f: "find_idx (\<lambda>p. p_state p = UNUSED) (k_proc u) = Some i" using assms(2) unfolding u find_idx_Some by (auto simp: upd_proc_def nth_upd)
  have "p_killed (k_proc u ! i)" using i by (simp add: u)
  then show ?thesis using fork_effect[OF assms(3)[folded u_def]] f assms(4) k by auto
qed

theorem kill_free_slot_witness:
  "\<exists>t. fork demo_ops 0 (snd (kill 0 (demo_k [demo_init RUNNING] [Some 0, None]))) = Inr (2, t) \<and> st t 1 = RUNNABLE \<and> p_killed (k_proc t ! 1)"
proof -
  let ?s = "demo_k [demo_init RUNNING] [Some 0, None]"
  have f: "find_idx (\<lambda>p. p_pid p = 0) (k_proc ?s) = Some 1" "find_idx (\<lambda>p. p_state p = UNUSED) (k_proc ?s) = Some 1" by (simp_all add: demo_defs)
  then obtain t where t: "fork demo_ops 0 (snd (kill 0 ?s)) = Inr (2, t)" by (simp add: kill_def fork_def allocproc_def demo_defs no_files)
  then show ?thesis using kill_free_slot[OF f t] by simp
qed

end
