(* ===== verification/Sh.thy ===== *)
theory Sh
  imports Prelude
begin

text \<open>
  The shell (\<^verbatim>\<open>sh.c\<close>): its lexer and its recursive-descent parser on the line buffer. Positions in the buffer are
  indices; a word of a command is the pair of its first position and the position after its last character, which
  \<open>nulterminate\<close> overwrites at the end. \<open>panic\<close> of the shell ends the process that parses and is an error value.
\<close>

section \<open>Commands\<close>

datatype 'a cmd = EXEC "'a list" | REDIR "'a cmd" 'a nat nat | PIPE "'a cmd" "'a cmd" | LIST "'a cmd" "'a cmd" | BACK "'a cmd"

type_synonym span = "nat \<times> nat"

definition MAXARGS :: nat where "MAXARGS = 10"
definition O_RDONLY :: nat where "O_RDONLY = 0"
definition O_WRONLY :: nat where "O_WRONLY = 1"
definition O_CREATE :: nat where "O_CREATE = 0x200"

text \<open>The constructors; \<open>malloc\<close> is taken to succeed, as the code does.\<close>

definition execcmd :: "'a cmd" where
  "execcmd = EXEC []"

definition redircmd :: "'a cmd \<Rightarrow> 'a \<Rightarrow> nat \<Rightarrow> nat \<Rightarrow> 'a cmd" where
  "redircmd subcmd file mode fd = REDIR subcmd file mode fd"

definition pipecmd :: "'a cmd \<Rightarrow> 'a cmd \<Rightarrow> 'a cmd" where
  "pipecmd left right = PIPE left right"

definition listcmd :: "'a cmd \<Rightarrow> 'a cmd \<Rightarrow> 'a cmd" where
  "listcmd left right = LIST left right"

definition backcmd :: "'a cmd \<Rightarrow> 'a cmd" where
  "backcmd subcmd = BACK subcmd"

lemmas cmd_constructors = execcmd_def redircmd_def pipecmd_def listcmd_def backcmd_def

section \<open>The lexer\<close>

definition NUL :: char where "NUL = CHR 0x00"

definition whitespace :: string where "whitespace = [CHR 0x20, CHR 0x09, CHR 0x0D, CHR 0x0A, CHR 0x0B]"
definition symbols :: string where "symbols = ''<|>&;()''"

definition chr_at :: "string \<Rightarrow> nat \<Rightarrow> char" where
  "chr_at buf i = (if i < length buf then buf ! i else NUL)"

function skip_ws :: "string \<Rightarrow> nat \<Rightarrow> nat \<Rightarrow> nat" where
  "skip_ws buf es s = (if s < es \<and> chr_at buf s \<in> set whitespace then skip_ws buf es (s + 1) else s)"
  by pat_completeness auto
termination by (relation "measure (\<lambda>(buf, es, s). es - s)") auto

function word_end :: "string \<Rightarrow> nat \<Rightarrow> nat \<Rightarrow> nat" where
  "word_end buf es s = (if s < es \<and> chr_at buf s \<notin> set whitespace \<and> chr_at buf s \<notin> set symbols then word_end buf es (s + 1) else s)"
  by pat_completeness auto
termination by (relation "measure (\<lambda>(buf, es, s). es - s)") auto

declare skip_ws.simps [simp del] word_end.simps [simp del]

text \<open>The token, where it starts, where it ends, and the position after the blanks that follow.\<close>

definition gettoken :: "string \<Rightarrow> nat \<Rightarrow> nat \<Rightarrow> char \<times> nat \<times> nat \<times> nat" where
  "gettoken buf es s =
     (let q = skip_ws buf es s; c = chr_at buf q;
          (ret, s) =
            (if c = NUL then (c, q)
             else if c \<in> set ''|();&<'' then (c, q + 1)
             else if c = CHR ''>'' then if chr_at buf (q + 1) = CHR ''>'' then (CHR ''+'', q + 2) else (c, q + 1)
             else (CHR ''a'', word_end buf es q))
      in (ret, q, s, skip_ws buf es s))"

definition peek :: "string \<Rightarrow> nat \<Rightarrow> nat \<Rightarrow> string \<Rightarrow> bool \<times> nat" where
  "peek buf es s toks = (let s = skip_ws buf es s in (chr_at buf s \<noteq> NUL \<and> chr_at buf s \<in> set toks, s))"

lemma skip_ws_le: "s \<le> skip_ws buf es s"
  by (induction buf es s rule: skip_ws.induct) (subst skip_ws.simps, auto)

lemma word_end_le: "s \<le> word_end buf es s"
  by (induction buf es s rule: word_end.induct) (subst word_end.simps, auto)

lemma peek_gettoken:
  assumes "peek buf es s toks = (True, s')" "gettoken buf es s' = (t, q, eq, s'')" "set toks \<subseteq> set symbols"
  shows "s < s''" "s < length buf"
proof -
  have p: "s' = skip_ws buf es s" "chr_at buf s' \<noteq> NUL" "chr_at buf s' \<in> set toks" using assms(1) by (auto simp: peek_def Let_def)
  have i: "skip_ws buf es s' = s'" unfolding p(1)
    by (induction buf es s rule: skip_ws.induct) (metis skip_ws.simps)
  have "chr_at buf s' \<in> set symbols" using p(3) assms(3) by blast
  then have "s' < eq" using assms(2) p(2) by (auto simp: gettoken_def i Let_def symbols_def split: if_splits)
  moreover have "s'' = skip_ws buf es eq" using assms(2) by (auto simp: gettoken_def Let_def split: if_splits)
  ultimately show "s < s''" using skip_ws_le[of s buf es] skip_ws_le[of eq buf es] p(1) by simp
  have "s' < length buf" using p(2) by (auto simp: chr_at_def split: if_splits)
  then show "s < length buf" using skip_ws_le[of s buf es] p(1) by simp
qed

lemma gettoken_le: "gettoken buf es s = (t, q, eq, s') \<Longrightarrow> s \<le> s'"
proof -
  assume g: "gettoken buf es s = (t, q, eq, s')"
  let ?q = "skip_ws buf es s"
  have "?q \<le> eq" using g word_end_le[of ?q buf es] by (auto simp: gettoken_def Let_def split: if_splits)
  moreover have "s' = skip_ws buf es eq" using g by (auto simp: gettoken_def Let_def split: if_splits)
  ultimately show ?thesis using skip_ws_le[of s buf es] skip_ws_le[of eq buf es] by simp
qed

section \<open>The parser\<close>

lemma redirs_step:
  assumes "(True, s1) = peek buf es s ''<>''" "(tok, a, b, s2) = gettoken buf es s1" "(t, q, eq, s3) = gettoken buf es s2"
  shows "length buf - s3 < length buf - s"
  using peek_gettoken[OF assms(1,2)[symmetric]] gettoken_le[OF assms(3)[symmetric]] by (simp add: symbols_def)

lemma backs_step:
  assumes "(True, s1) = peek buf es s ''&''" "(tok, a, b, s2) = gettoken buf es s1"
  shows "length buf - s2 < length buf - s"
  using peek_gettoken[OF assms[symmetric]] by (simp add: symbols_def)

function parseredirs :: "string \<Rightarrow> nat \<Rightarrow> span cmd \<Rightarrow> nat \<Rightarrow> (span cmd \<times> nat) res" where
  "parseredirs buf es cmd s =
     (case peek buf es s ''<>'' of
        (False, s) \<Rightarrow> Inr (cmd, s)
      | (True, s) \<Rightarrow>
          (case gettoken buf es s of (tok, _, _, s) \<Rightarrow>
           case gettoken buf es s of (t, q, eq, s) \<Rightarrow>
             if t \<noteq> CHR ''a'' then Inl (Panic ''missing file for redirection'')
             else if tok = CHR ''<'' then parseredirs buf es (redircmd cmd (q, eq) O_RDONLY 0) s
             else if tok = CHR ''>'' then parseredirs buf es (redircmd cmd (q, eq) (O_WRONLY + O_CREATE) 1) s
             else if tok = CHR ''+'' then parseredirs buf es (redircmd cmd (q, eq) (O_WRONLY + O_CREATE) 1) s
             else parseredirs buf es cmd s))"
  by pat_completeness auto
termination by (relation "measure (\<lambda>(buf, es, cmd, s). length buf - s)") (auto simp: redirs_step)

declare parseredirs.simps [simp del]

text \<open>The words of a command are stored in the \<open>execcmd\<close> that the redirections parsed so far are wrapped around.\<close>

primrec add_arg :: "'a \<Rightarrow> 'a cmd \<Rightarrow> 'a cmd" where
  "add_arg a (EXEC as) = EXEC (as @ [a])"
| "add_arg a (REDIR c f m d) = REDIR (add_arg a c) f m d"
| "add_arg a (PIPE l r) = PIPE l r"
| "add_arg a (LIST l r) = LIST l r"
| "add_arg a (BACK c) = BACK c"

function parseargs :: "string \<Rightarrow> nat \<Rightarrow> span cmd \<Rightarrow> nat \<Rightarrow> nat \<Rightarrow> (span cmd \<times> nat) res" where
  "parseargs buf es ret argc s =
     (case peek buf es s ''|)&;'' of
        (True, s) \<Rightarrow> Inr (ret, s)
      | (False, s) \<Rightarrow>
          (case gettoken buf es s of (tok, q, eq, s) \<Rightarrow>
             if tok = NUL then Inr (ret, s)
             else if tok \<noteq> CHR ''a'' then Inl (Panic ''syntax'')
             else if argc + 1 \<ge> MAXARGS then Inl (Panic ''too many args'')
             else bindE (parseredirs buf es (add_arg (q, eq) ret) s) (\<lambda>(ret, s). parseargs buf es ret (argc + 1) s)))"
  by pat_completeness auto
termination by (relation "measure (\<lambda>(buf, es, ret, argc, s). MAXARGS - argc)") auto

function parsebacks :: "string \<Rightarrow> nat \<Rightarrow> span cmd \<Rightarrow> nat \<Rightarrow> span cmd \<times> nat" where
  "parsebacks buf es cmd s =
     (case peek buf es s ''&'' of
        (False, s) \<Rightarrow> (cmd, s)
      | (True, s) \<Rightarrow> (case gettoken buf es s of (_, _, _, s) \<Rightarrow> parsebacks buf es (backcmd cmd) s))"
  by pat_completeness auto
termination by (relation "measure (\<lambda>(buf, es, cmd, s). length buf - s)") (auto simp: backs_step)

declare parseargs.simps [simp del] parsebacks.simps [simp del]

text \<open>
  \<open>parseline\<close>, \<open>parsepipe\<close>, \<open>parseexec\<close> and \<open>parseblock\<close> call each other; the functions below \<open>parseline\<close> are
  given the \<open>parseline\<close> to call. The number bounds the depth of the recursion.
\<close>

definition parseblock :: "(nat \<Rightarrow> (span cmd \<times> nat) res) \<Rightarrow> string \<Rightarrow> nat \<Rightarrow> nat \<Rightarrow> (span cmd \<times> nat) res" where
  "parseblock line buf es s =
     (case peek buf es s ''('' of
        (False, s) \<Rightarrow> Inl (Panic ''parseblock'')
      | (True, s) \<Rightarrow>
          (case gettoken buf es s of (_, _, _, s) \<Rightarrow>
           bindE (line s) (\<lambda>(cmd, s).
           case peek buf es s '')'' of
             (False, s) \<Rightarrow> Inl (Panic ''syntax - missing )'')
           | (True, s) \<Rightarrow> (case gettoken buf es s of (_, _, _, s) \<Rightarrow> parseredirs buf es cmd s))))"

definition parseexec :: "(nat \<Rightarrow> (span cmd \<times> nat) res) \<Rightarrow> string \<Rightarrow> nat \<Rightarrow> nat \<Rightarrow> (span cmd \<times> nat) res" where
  "parseexec line buf es s =
     (case peek buf es s ''('' of
        (True, s) \<Rightarrow> parseblock line buf es s
      | (False, s) \<Rightarrow> bindE (parseredirs buf es execcmd s) (\<lambda>(ret, s). parseargs buf es ret 0 s))"

primrec parsepipe :: "nat \<Rightarrow> (nat \<Rightarrow> (span cmd \<times> nat) res) \<Rightarrow> string \<Rightarrow> nat \<Rightarrow> nat \<Rightarrow> (span cmd \<times> nat) res" where
  "parsepipe 0 line buf es s = Inl (Hang ''parsepipe'')"
| "parsepipe (Suc n) line buf es s =
     bindE (parseexec line buf es s) (\<lambda>(cmd, s).
     case peek buf es s ''|'' of
       (False, s) \<Rightarrow> Inr (cmd, s)
     | (True, s) \<Rightarrow>
         (case gettoken buf es s of (_, _, _, s) \<Rightarrow> bindE (parsepipe n line buf es s) (\<lambda>(right, s). Inr (pipecmd cmd right, s))))"

primrec parseline :: "nat \<Rightarrow> string \<Rightarrow> nat \<Rightarrow> nat \<Rightarrow> (span cmd \<times> nat) res" where
  "parseline 0 buf es s = Inl (Hang ''parseline'')"
| "parseline (Suc n) buf es s =
     bindE (parsepipe n (parseline n buf es) buf es s) (\<lambda>(cmd, s).
     case parsebacks buf es cmd s of (cmd, s) \<Rightarrow>
     case peek buf es s '';'' of
       (False, s) \<Rightarrow> Inr (cmd, s)
     | (True, s) \<Rightarrow>
         (case gettoken buf es s of (_, _, _, s) \<Rightarrow> bindE (parseline n buf es s) (\<lambda>(right, s). Inr (listcmd cmd right, s))))"

primrec nulterminate :: "span cmd \<Rightarrow> string \<Rightarrow> string" where
  "nulterminate (EXEC as) buf = fold (\<lambda>(q, eq) buf. buf[eq := NUL]) as buf"
| "nulterminate (REDIR c f m d) buf = (nulterminate c buf)[snd f := NUL]"
| "nulterminate (PIPE l r) buf = nulterminate r (nulterminate l buf)"
| "nulterminate (LIST l r) buf = nulterminate r (nulterminate l buf)"
| "nulterminate (BACK c) buf = nulterminate c buf"

definition str_len :: "string \<Rightarrow> nat" where
  "str_len buf = length (takeWhile (\<lambda>c. c \<noteq> NUL) buf)"

definition parsecmd :: "string \<Rightarrow> (span cmd \<times> string) res" where
  "parsecmd buf =
     (let es = str_len buf in
      bindE (parseline (es + 2) buf es 0) (\<lambda>(cmd, s).
      case peek buf es s [] of (_, s) \<Rightarrow>
        if s \<noteq> es then Inl (Panic ''syntax'') else Inr (cmd, nulterminate cmd buf)))"

section \<open>Where the lexer stands\<close>

definition blank :: "char \<Rightarrow> bool" where "blank c \<longleftrightarrow> c \<in> set whitespace"

definition wordc :: "char \<Rightarrow> bool" where "wordc c \<longleftrightarrow> c \<noteq> NUL \<and> c \<notin> set whitespace \<and> c \<notin> set symbols"

text \<open>Position \<open>s\<close> of a line that ends at \<open>es\<close>, with \<open>xs\<close> still to be read.\<close>

definition stands :: "string \<Rightarrow> nat \<Rightarrow> nat \<Rightarrow> string \<Rightarrow> bool" where
  "stands buf es s xs \<longleftrightarrow> es < length buf \<and> buf ! es = NUL \<and> NUL \<notin> set (take es buf) \<and> s \<le> es \<and> drop s (take es buf) = xs"

definition after_blanks :: "string \<Rightarrow> string" where "after_blanks xs = dropWhile blank xs"

lemma stands_length: "stands buf es s xs \<Longrightarrow> length xs = es - s \<and> s \<le> es"
  by (auto simp: stands_def)

lemma stands_Nil: "stands buf es s [] \<Longrightarrow> s = es"
  by (auto simp: stands_def)

lemma stands_Cons:
  assumes "stands buf es s (c # xs)"
  shows "s < es" "chr_at buf s = c" "c \<noteq> NUL" "stands buf es (s + 1) xs"
proof -
  have "Suc (length xs) = es - s" using stands_length[OF assms] by simp
  then show l: "s < es" by arith
  have t: "es < length buf" "NUL \<notin> set (take es buf)" "drop s (take es buf) = c # xs" using assms by (auto simp: stands_def)
  have n: "take es buf ! s = c" using nth_via_drop[OF t(3)] .
  show c: "chr_at buf s = c" unfolding n[symmetric] using l t(1) by (simp add: chr_at_def)
  show "c \<noteq> NUL" using t by (metis in_set_dropD list.set_intros(1))
  have "drop (s + 1) (take es buf) = xs" using t(3) by (metis Suc_eq_plus1 drop_Suc drop_tl list.sel(3) tl_drop)
  then show "stands buf es (s + 1) xs" using assms l by (simp add: stands_def)
qed

lemma stands_chr: "stands buf es s xs \<Longrightarrow> chr_at buf s = (case xs of [] \<Rightarrow> NUL | c # _ \<Rightarrow> c)"
  using stands_Cons(2)[of buf es s "hd xs" "tl xs"] stands_Nil[of buf es s] by (cases xs) (auto simp: stands_def chr_at_def)

lemma stands_append: "stands buf es s (xs @ ys) \<Longrightarrow> stands buf es (s + length xs) ys"
proof (induction xs arbitrary: s)
  case (Cons x xs)
  then have "stands buf es (s + 1) (xs @ ys)" by (intro stands_Cons(4)) simp
  then show ?case using Cons.IH by fastforce
qed simp

lemma stands_skip: "stands buf es s xs \<Longrightarrow> stands buf es (skip_ws buf es s) (after_blanks xs)"
proof (induction xs arbitrary: s)
  case Nil
  then show ?case using stands_Nil[OF Nil] by (subst skip_ws.simps) (simp add: after_blanks_def)
next
  case (Cons c xs)
  note d = stands_Cons[OF Cons.prems]
  show ?case using Cons d by (subst skip_ws.simps) (auto simp: after_blanks_def blank_def)
qed

lemma skip_same: "stands buf es s xs \<Longrightarrow> after_blanks xs = xs \<Longrightarrow> skip_ws buf es s = s"
  using stands_length[OF stands_skip] stands_length skip_ws_le by (metis diff_diff_cancel)

lemma word_end_at:
  assumes "stands buf es s (w @ rest)" "\<forall>c \<in> set w. wordc c" "rest = [] \<or> \<not> wordc (hd rest)"
  shows "word_end buf es s = s + length w"
  using assms
proof (induction w arbitrary: s)
  case Nil
  then show ?case using stands_Nil[of buf es s] stands_Cons[of buf es s] by (subst word_end.simps) (cases rest; auto simp: wordc_def)
next
  case (Cons c w)
  have "stands buf es s (c # w @ rest)" using Cons.prems(1) by simp
  note d = stands_Cons[OF this]
  show ?case using Cons d by (subst word_end.simps) (auto simp: wordc_def)
qed

lemma peek_at:
  assumes "stands buf es s xs"
  obtains s' where "peek buf es s toks = (after_blanks xs \<noteq> [] \<and> hd (after_blanks xs) \<in> set toks, s')" "stands buf es s' (after_blanks xs)"
proof -
  note k = stands_skip[OF assms]
  have "peek buf es s toks = (after_blanks xs \<noteq> [] \<and> hd (after_blanks xs) \<in> set toks, skip_ws buf es s)"
    using stands_chr[OF k] stands_Cons(3)[of buf es "skip_ws buf es s"] k by (cases "after_blanks xs") (auto simp: peek_def Let_def)
  then show ?thesis using k that by blast
qed

lemma after_blanks_idem [simp]: "after_blanks (after_blanks xs) = after_blanks xs"
  by (simp add: after_blanks_def)

lemma after_blanks_same: "xs = [] \<or> \<not> blank (hd xs) \<Longrightarrow> after_blanks xs = xs"
  by (cases xs) (auto simp: after_blanks_def)

lemma gettoken_at:
  assumes st: "stands buf es s xs" "after_blanks xs = xs" and eq: "eq = (case xs of [] \<Rightarrow> s | c # ys \<Rightarrow>
      if c \<in> set ''|();&<'' then s + 1 else if c = CHR ''>'' then if ys \<noteq> [] \<and> hd ys = CHR ''>'' then s + 2 else s + 1 else word_end buf es s)"
    and ret: "ret = (case xs of [] \<Rightarrow> NUL | c # ys \<Rightarrow>
      if c \<in> set ''|();&<'' then c else if c = CHR ''>'' then if ys \<noteq> [] \<and> hd ys = CHR ''>'' then CHR ''+'' else c else CHR ''a'')"
  shows "gettoken buf es s = (ret, s, eq, skip_ws buf es eq)"
proof (cases xs)
  case Nil
  then show ?thesis using st stands_chr[OF st(1)] eq ret by (simp add: gettoken_def Let_def skip_same)
next
  case (Cons c ys)
  note d = stands_Cons[OF st(1)[unfolded Cons]]
  have "chr_at buf (s + 1) = CHR ''>'' \<longleftrightarrow> ys \<noteq> [] \<and> hd ys = CHR ''>''" using stands_chr[OF d(4)] by (cases ys) (auto simp: NUL_def)
  then show ?thesis using Cons d(2,3) eq ret skip_same[OF st] by (auto simp: gettoken_def Let_def)
qed

lemma gettoken_symbol:
  assumes "stands buf es s (c # xs)" "c \<in> set ''|();&<'' \<or> c = CHR ''>'' \<and> (xs = [] \<or> hd xs \<noteq> CHR ''>'')"
  obtains s' where "gettoken buf es s = (c, s, s + 1, s')" "stands buf es s' (after_blanks xs)"
proof -
  have "after_blanks (c # xs) = c # xs" using assms(2) by (intro after_blanks_same) (auto simp: blank_def whitespace_def)
  then show ?thesis using gettoken_at[OF assms(1) _ refl refl] assms(2) stands_skip[OF stands_Cons(4)[OF assms(1)]] that by auto
qed

lemma gettoken_word:
  assumes "stands buf es s (w @ xs)" "w \<noteq> []" "\<forall>c \<in> set w. wordc c" "xs = [] \<or> \<not> wordc (hd xs)"
  obtains s' where "gettoken buf es s = (CHR ''a'', s, s + length w, s')" "stands buf es s' (after_blanks xs)"
proof -
  obtain c v where w: "w = c # v" "wordc c" using assms(2,3) by (cases w) auto
  have "after_blanks (w @ xs) = w @ xs" using w by (intro after_blanks_same) (auto simp: blank_def wordc_def)
  moreover have "c \<notin> set ''|();&<''" "c \<noteq> CHR ''>''" using w(2) by (auto simp: wordc_def symbols_def)
  ultimately show ?thesis using gettoken_at[OF assms(1) _ refl refl] w(1) word_end_at[OF assms(1,3,4)] stands_skip[OF stands_append[OF assms(1)]] that by auto
qed

lemma gettoken_end: "stands buf es s [] \<Longrightarrow> gettoken buf es s = (NUL, s, s, s)"
  using gettoken_at[of buf es s "[]" s NUL] skip_same[of buf es s "[]"] by (simp add: after_blanks_def)

section \<open>Every line is parsed in finite time\<close>

definition no_hang :: "'a res \<Rightarrow> bool" where
  "no_hang r \<longleftrightarrow> (\<forall>e. r = Inl e \<longrightarrow> (\<exists>m. e = Panic m))"

text \<open>A word of the line: characters of words only, and followed by a character that is none.\<close>

definition good_span :: "string \<Rightarrow> nat \<Rightarrow> span \<Rightarrow> bool" where
  "good_span buf es p \<longleftrightarrow> fst p < snd p \<and> snd p \<le> es \<and> (\<forall>i. fst p \<le> i \<and> i < snd p \<longrightarrow> wordc (buf ! i)) \<and> \<not> wordc (buf ! snd p)"

definition good_cmd :: "string \<Rightarrow> nat \<Rightarrow> span cmd \<Rightarrow> bool" where
  "good_cmd buf es c \<longleftrightarrow> (\<forall>p \<in> set_cmd c. good_span buf es p)"

text \<open>A parser that returns has moved on within the line, its words are words of the line, and it does not run out of depth.\<close>

definition moves :: "string \<Rightarrow> nat \<Rightarrow> nat \<Rightarrow> (span cmd \<times> nat) res \<Rightarrow> bool" where
  "moves buf es s r \<longleftrightarrow> no_hang r \<and> (\<forall>c s'. r = Inr (c, s') \<longrightarrow> s \<le> s' \<and> s' \<le> es \<and> good_cmd buf es c)"

definition line_ok :: "string \<Rightarrow> nat \<Rightarrow> bool" where
  "line_ok buf es \<longleftrightarrow> es < length buf \<and> buf ! es = NUL \<and> NUL \<notin> set (take es buf)"

lemma stands_here: "line_ok buf es \<Longrightarrow> s \<le> es \<Longrightarrow> stands buf es s (drop s (take es buf))"
  by (simp add: stands_def line_ok_def)

lemma skip_ws_bound: "s \<le> es \<Longrightarrow> skip_ws buf es s \<le> es"
  by (induction buf es s rule: skip_ws.induct) (subst skip_ws.simps, auto)

lemma peek_bound:
  assumes "line_ok buf es" "s \<le> es" "peek buf es s toks = (b, s')"
  shows "s \<le> s' \<and> s' \<le> es \<and> (b \<longrightarrow> s' < es)"
proof -
  have s': "s' = skip_ws buf es s" using assms(3) by (auto simp: peek_def Let_def)
  then have l: "s \<le> s'" "s' \<le> es" using skip_ws_le skip_ws_bound assms(2) by auto
  moreover have "s' < es" if b using that assms l by (cases "s' = es") (auto simp: peek_def Let_def chr_at_def line_ok_def)
  ultimately show ?thesis by blast
qed

lemma gettoken_bound:
  assumes "line_ok buf es" "s \<le> es" "gettoken buf es s = (t, q, eq, s')"
  shows "s \<le> s' \<and> s' \<le> es \<and> (t \<noteq> NUL \<longrightarrow> s < s')"
proof -
  let ?q = "skip_ws buf es s"
  have q: "s \<le> ?q" "?q \<le> es" using skip_ws_le skip_ws_bound[OF assms(2)] by auto
  define xs where "xs = after_blanks (drop s (take es buf))"
  have st: "stands buf es ?q xs" unfolding xs_def by (rule stands_skip[OF stands_here[OF assms(1,2)]])
  have gq: "gettoken buf es ?q = gettoken buf es s" using skip_same[OF st] by (simp add: gettoken_def xs_def)
  show ?thesis
  proof (cases xs)
    case Nil
    then show ?thesis using gettoken_end[of buf es ?q] st assms(3) gq q by simp
  next
    case (Cons c ys)
    have nb: "\<not> blank c" using Cons unfolding xs_def after_blanks_def by (metis dropWhile_eq_Cons_conv)
    define w where "w = takeWhile wordc xs"
    have cw: "wordc c \<or> c \<in> set symbols" using nb stands_Cons(3)[of buf es ?q c ys] st Cons by (auto simp: wordc_def blank_def)
    have "word_end buf es ?q = ?q + length w"
    proof (rule word_end_at)
      show "stands buf es ?q (w @ dropWhile wordc xs)" using st by (simp add: w_def)
      show "\<forall>c \<in> set w. wordc c" unfolding w_def by (auto dest: set_takeWhileD)
      show "dropWhile wordc xs = [] \<or> \<not> wordc (hd (dropWhile wordc xs))" using hd_dropWhile[of wordc xs] by blast
    qed
    moreover have "length w \<le> length xs" by (simp add: w_def length_takeWhile_le)
    moreover have "w \<noteq> []" if "c \<notin> set symbols" using that cw Cons by (simp add: w_def)
    moreover have "length xs = es - ?q" using stands_length[OF st] by simp
    moreover have "ys \<noteq> [] \<Longrightarrow> Suc (Suc ?q) \<le> es" using stands_length[OF st] Cons by (cases ys) auto
    ultimately have "?q < eq \<and> eq \<le> es" "s' = skip_ws buf es eq"
      using gettoken_at[OF st _ refl refl] assms(3) gq Cons stands_length[OF st] by (auto simp: xs_def symbols_def split: if_splits)
    then show ?thesis using q skip_ws_le[of eq buf es] skip_ws_bound[of eq es buf] by simp
  qed
qed

lemma gettoken_good:
  assumes l: "line_ok buf es" "s \<le> es" and g: "gettoken buf es s = (CHR ''a'', q, eq, s')"
  shows "good_span buf es (q, eq)"
proof -
  define xs where "xs = after_blanks (drop s (take es buf))"
  have st: "stands buf es (skip_ws buf es s) xs" unfolding xs_def by (rule stands_skip[OF stands_here[OF l]])
  have q: "q = skip_ws buf es s" using g by (auto simp: gettoken_def Let_def split: if_splits)
  have e: "chr_at buf q \<noteq> NUL" "chr_at buf q \<notin> set symbols" "eq = word_end buf es q"
    using g by (auto simp: gettoken_def Let_def q symbols_def NUL_def split: if_splits)
  define w where "w = takeWhile wordc xs"
  have x: "xs = w @ dropWhile wordc xs" by (simp add: w_def)
  have stw: "stands buf es q (w @ dropWhile wordc xs)" using st by (simp add: w_def q)
  have ww: "\<forall>c \<in> set w. wordc c" unfolding w_def by (auto dest: set_takeWhileD)
  have nw: "dropWhile wordc xs = [] \<or> \<not> wordc (hd (dropWhile wordc xs))" using hd_dropWhile[of wordc xs] by blast
  have eq: "eq = q + length w" using word_end_at[OF stw ww nw] e(3) by simp
  obtain c ys where c: "xs = c # ys" "chr_at buf q = c" using stands_chr[OF st] e(1) q by (cases xs) auto
  have "\<not> blank c" using c(1) unfolding xs_def after_blanks_def by (metis dropWhile_eq_Cons_conv)
  then have "wordc c" using c(2) e(1,2) by (simp add: wordc_def blank_def)
  then have "w \<noteq> []" using c(1) by (simp add: w_def)
  moreover have end_st: "stands buf es eq (dropWhile wordc xs)" using stands_append[OF stw] eq by simp
  moreover have "wordc (buf ! i)" if i: "q \<le> i" "i < eq" for i
  proof -
    have k: "i - q < length w" using i eq by auto
    have ie: "i < es" using i(2) stands_length[OF end_st] by simp
    have "drop q (take es buf) ! (i - q) = w ! (i - q)" using stw k by (simp add: stands_def nth_append)
    moreover have "drop q (take es buf) ! (i - q) = buf ! i" using i ie l(1) by (simp add: line_ok_def)
    ultimately show ?thesis using ww k by simp
  qed
  moreover have "\<not> wordc (buf ! eq)" using stands_chr[OF end_st] stands_length[OF end_st] l(1) nw
    by (cases "dropWhile wordc xs") (auto simp: chr_at_def line_ok_def wordc_def split: if_splits)
  ultimately show ?thesis using eq stands_length[OF end_st] by (simp add: good_span_def)
qed

lemma set_add_arg: "set_cmd (add_arg a c) \<subseteq> insert a (set_cmd c)"
  by (induction c) auto

lemma good_add_arg: "good_cmd buf es c \<Longrightarrow> good_span buf es a \<Longrightarrow> good_cmd buf es (add_arg a c)"
  unfolding good_cmd_def using set_add_arg[of a c] by blast

lemma good_cmd_simps [simp]:
  "good_cmd buf es execcmd" "good_cmd buf es (redircmd c f m d) \<longleftrightarrow> good_cmd buf es c \<and> good_span buf es f"
  "good_cmd buf es (pipecmd l r) \<longleftrightarrow> good_cmd buf es l \<and> good_cmd buf es r" "good_cmd buf es (listcmd l r) \<longleftrightarrow> good_cmd buf es l \<and> good_cmd buf es r"
  "good_cmd buf es (backcmd c) \<longleftrightarrow> good_cmd buf es c"
  unfolding good_cmd_def cmd_constructors cmd.set by (simp_all add: ball_Un conj_commute)

lemma movesI_Inr: "s \<le> s' \<Longrightarrow> s' \<le> es \<Longrightarrow> good_cmd buf es c \<Longrightarrow> moves buf es s (Inr (c, s'))"
  by (simp add: moves_def no_hang_def)

lemma moves_Panic: "moves buf es s (Inl (Panic m))"
  by (simp add: moves_def no_hang_def)

lemma moves_later: "moves buf es s' r \<Longrightarrow> s \<le> s' \<Longrightarrow> moves buf es s r"
  by (auto simp: moves_def)

lemma moves_bind:
  assumes "moves buf es s m" "\<And>c s'. m = Inr (c, s') \<Longrightarrow> s \<le> s' \<Longrightarrow> s' \<le> es \<Longrightarrow> good_cmd buf es c \<Longrightarrow> moves buf es s (f (c, s'))"
  shows "moves buf es s (bindE m f)"
  using assms by (cases m) (auto simp: moves_def no_hang_def)

lemma parseredirs_moves:
  assumes l: "line_ok buf es"
  shows "s \<le> es \<Longrightarrow> good_cmd buf es cmd \<Longrightarrow> moves buf es s (parseredirs buf es cmd s)"
proof (induction "length buf - s" arbitrary: s cmd rule: less_induct)
  case less
  obtain b s1 where p: "peek buf es s ''<>'' = (b, s1)" by fastforce
  obtain tok a e s2 where g: "gettoken buf es s1 = (tok, a, e, s2)" by (metis prod_cases4)
  obtain t q eq s3 where h: "gettoken buf es s2 = (t, q, eq, s3)" by (metis prod_cases4)
  note pb = peek_bound[OF l less.prems(1) p]
  have s2: "s1 \<le> s2" "s2 \<le> es" using gettoken_bound[OF l _ g] pb by auto
  have s3: "s \<le> s3" "s3 \<le> es" using gettoken_bound[OF l s2(2) h] pb s2 by auto
  have gs: "good_span buf es (q, eq)" if "t = CHR ''a''" using gettoken_good[OF l s2(2)] h that by simp
  have "moves buf es s (parseredirs buf es c s3)" if b "good_cmd buf es c" for c
    by (rule moves_later[OF less.hyps s3(1)]) (use redirs_step[of s1 buf es s] p g h that s3 in simp_all)
  then show ?case using pb p g h gs less.prems(2) by (subst parseredirs.simps) (auto intro!: movesI_Inr moves_Panic simp del: One_nat_def split: bool.split)
qed

lemma parseargs_moves:
  assumes l: "line_ok buf es"
  shows "s \<le> es \<Longrightarrow> good_cmd buf es ret \<Longrightarrow> moves buf es s (parseargs buf es ret argc s)"
proof (induction "MAXARGS - argc" arbitrary: s ret argc rule: less_induct)
  case less
  obtain b s1 where p: "peek buf es s ''|)&;'' = (b, s1)" by fastforce
  obtain tok q eq s2 where g: "gettoken buf es s1 = (tok, q, eq, s2)" by (metis prod_cases4)
  note pb = peek_bound[OF l less.prems(1) p]
  have s2: "s \<le> s2" "s2 \<le> es" using gettoken_bound[OF l _ g] pb by auto
  have more: "moves buf es s' (parseargs buf es c (argc + 1) s')" if "\<not> MAXARGS \<le> argc + 1" "s' \<le> es" "good_cmd buf es c" for c s'
    using less.hyps[of "argc + 1"] that by simp
  have "moves buf es s (bindE (parseredirs buf es (add_arg (q, eq) ret) s2) (\<lambda>(ret, s). parseargs buf es ret (argc + 1) s))" if "\<not> MAXARGS \<le> argc + 1" "tok = CHR ''a''"
  proof -
    have "good_cmd buf es (add_arg (q, eq) ret)" using gettoken_good[OF l, of s1] g that(2) pb less.prems(2) by (intro good_add_arg) simp_all
    then show ?thesis by (intro moves_later[OF moves_bind[OF parseredirs_moves[OF l s2(2)]] s2(1)]) (use moves_later[OF more[OF that(1)]] in simp_all)
  qed
  then show ?case unfolding parseargs.simps[of buf es ret argc s] using pb s2 p g less.prems(2) by (auto intro!: movesI_Inr moves_Panic simp del: One_nat_def add_2_eq_Suc' split: bool.split)
qed

lemma parsebacks_bound:
  assumes l: "line_ok buf es"
  shows "s \<le> es \<Longrightarrow> good_cmd buf es cmd \<Longrightarrow> parsebacks buf es cmd s = (c, s') \<Longrightarrow> s \<le> s' \<and> s' \<le> es \<and> good_cmd buf es c"
proof (induction "length buf - s" arbitrary: s cmd rule: less_induct)
  case less
  obtain b s1 where p: "peek buf es s ''&'' = (b, s1)" by fastforce
  obtain tok q eq s2 where g: "gettoken buf es s1 = (tok, q, eq, s2)" by (metis prod_cases4)
  note pb = peek_bound[OF l less.prems(1) p]
  have s2: "s \<le> s2" "s2 \<le> es" using gettoken_bound[OF l _ g] pb by auto
  have e: "parsebacks buf es cmd s = (if b then parsebacks buf es (backcmd cmd) s2 else (cmd, s1))"
    unfolding parsebacks.simps[of buf es cmd s] using p g by (simp split: bool.split)
  show ?case
  proof (cases b)
    case True
    then show ?thesis using less.hyps[of s2 "backcmd cmd"] backs_step[of s1 buf es s tok q eq s2] less.prems(2,3) e p g s2 by auto
  next
    case False
    then show ?thesis using less.prems(2,3) e pb by auto
  qed
qed

text \<open>\<open>parseline\<close>, given to the functions it calls, moves on from every position after \<open>s\<close>.\<close>

lemma parseblock_moves:
  assumes l: "line_ok buf es" "s \<le> es" and line: "\<And>s'. s < s' \<Longrightarrow> s' \<le> es \<Longrightarrow> moves buf es s' (line s')"
  shows "moves buf es s (parseblock line buf es s)"
proof -
  obtain b s1 where p: "peek buf es s ''('' = (b, s1)" by fastforce
  obtain t q eq s2 where g: "gettoken buf es s1 = (t, q, eq, s2)" by (metis prod_cases4)
  note pb = peek_bound[OF l p] 
  have s2: "s \<le> s2" "s2 \<le> es" using gettoken_bound[OF l(1) _ g] pb by auto
  have sl: "s < s2" if b using peek_gettoken(1)[of buf es s "''(''"] p g that by (simp add: symbols_def)
  have "moves buf es s2 (bindE (line s2) (\<lambda>(cmd, s). case peek buf es s '')'' of (False, s) \<Rightarrow> Inl (Panic ''syntax - missing )'')
      | (True, s) \<Rightarrow> (case gettoken buf es s of (_, _, _, s) \<Rightarrow> parseredirs buf es cmd s)))" if b
  proof (rule moves_bind[OF line[OF sl[OF that] s2(2)]])
    fix c s3 assume s3: "s2 \<le> s3" "s3 \<le> es" and gc: "good_cmd buf es c"
    obtain b' s4 where p': "peek buf es s3 '')'' = (b', s4)" by fastforce
    obtain t' q' eq' s5 where g': "gettoken buf es s4 = (t', q', eq', s5)" by (metis prod_cases4)
    note pb' = peek_bound[OF l(1) s3(2) p']
    have "s2 \<le> s5" "s5 \<le> es" using gettoken_bound[OF l(1) _ g'] pb' s3 by auto
    then have "moves buf es s2 (parseredirs buf es c s5)" using moves_later[OF parseredirs_moves[OF l(1) _ gc]] by blast
    then show "moves buf es s2 (case (c, s3) of (cmd, s) \<Rightarrow> case peek buf es s '')'' of (False, s) \<Rightarrow> Inl (Panic ''syntax - missing )'')
      | (True, s) \<Rightarrow> (case gettoken buf es s of (_, _, _, s) \<Rightarrow> parseredirs buf es cmd s))" using p' g' by (auto intro: moves_Panic split: bool.split)
  qed
  then show ?thesis using p g s2 by (auto simp: parseblock_def intro: moves_Panic moves_later split: bool.split)
qed

lemma parseexec_moves:
  assumes l: "line_ok buf es" "s \<le> es" and line: "\<And>s'. s < s' \<Longrightarrow> s' \<le> es \<Longrightarrow> moves buf es s' (line s')"
  shows "moves buf es s (parseexec line buf es s)"
proof -
  obtain b s1 where p: "peek buf es s ''('' = (b, s1)" by fastforce
  note pb = peek_bound[OF l p]
  have "moves buf es s1 (parseblock line buf es s1)" by (rule parseblock_moves[OF l(1)]) (use pb line in auto)
  moreover have "moves buf es s1 (bindE (parseredirs buf es execcmd s1) (\<lambda>(ret, s). parseargs buf es ret 0 s))"
    using parseargs_moves[OF l(1)] pb by (auto intro!: moves_bind[OF parseredirs_moves[OF l(1)]] intro: moves_later)
  ultimately show ?thesis using p pb by (auto simp: parseexec_def intro: moves_later split: bool.split)
qed

lemma parsepipe_moves:
  assumes l: "line_ok buf es"
  shows "s \<le> es \<Longrightarrow> es - s < n \<Longrightarrow> (\<And>s'. s < s' \<Longrightarrow> s' \<le> es \<Longrightarrow> moves buf es s' (line s')) \<Longrightarrow> moves buf es s (parsepipe n line buf es s)"
proof (induction n arbitrary: s)
  case (Suc n)
  show ?case unfolding parsepipe.simps
  proof (rule moves_bind[OF parseexec_moves[OF l Suc.prems(1) Suc.prems(3)]])
    fix c s1 assume s1: "s \<le> s1" "s1 \<le> es" and gc: "good_cmd buf es c"
    obtain b s2 where p: "peek buf es s1 ''|'' = (b, s2)" by fastforce
    obtain t q eq s3 where g: "gettoken buf es s2 = (t, q, eq, s3)" by (metis prod_cases4)
    note pb = peek_bound[OF l s1(2) p]
    have s3: "s \<le> s3" "s3 \<le> es" using gettoken_bound[OF l _ g] pb s1 by auto
    have "moves buf es s (bindE (parsepipe n line buf es s3) (\<lambda>(right, s). Inr (pipecmd c right, s)))" if b
    proof (rule moves_later[OF moves_bind s3(1)])
      have "s1 < s3" using peek_gettoken(1)[of buf es s1 "''|''"] p g that by (simp add: symbols_def)
      then show "moves buf es s3 (parsepipe n line buf es s3)" using Suc.IH[OF s3(2)] Suc.prems s1 s3 by auto
    qed (use gc in \<open>auto intro!: movesI_Inr\<close>)
    then show "moves buf es s (case (c, s1) of (cmd, s) \<Rightarrow> case peek buf es s ''|'' of (False, s) \<Rightarrow> Inr (cmd, s)
      | (True, s) \<Rightarrow> (case gettoken buf es s of (_, _, _, s) \<Rightarrow> bindE (parsepipe n line buf es s) (\<lambda>(right, s). Inr (pipecmd cmd right, s))))"
      using p g pb s1 gc by (auto intro: movesI_Inr split: bool.split)
  qed
qed simp

lemma parseline_moves:
  assumes l: "line_ok buf es"
  shows "s \<le> es \<Longrightarrow> es - s + 1 < n \<Longrightarrow> moves buf es s (parseline n buf es s)"
proof (induction n arbitrary: s)
  case (Suc n)
  have "moves buf es s (parsepipe n (parseline n buf es) buf es s)"
    by (rule parsepipe_moves[OF l Suc.prems(1)]) (use Suc in auto)
  then show ?case unfolding parseline.simps
  proof (rule moves_bind)
    fix c s1 assume s1: "s \<le> s1" "s1 \<le> es" and gc: "good_cmd buf es c"
    obtain c' s1' where k: "parsebacks buf es c s1 = (c', s1')" by fastforce
    have s1': "s1 \<le> s1'" "s1' \<le> es" "good_cmd buf es c'" using parsebacks_bound[OF l s1(2) gc k] by auto
    obtain b s2 where p: "peek buf es s1' '';'' = (b, s2)" by fastforce
    obtain t q eq s3 where g: "gettoken buf es s2 = (t, q, eq, s3)" by (metis prod_cases4)
    note pb = peek_bound[OF l s1'(2) p]
    have s3: "s \<le> s3" "s3 \<le> es" using gettoken_bound[OF l _ g] pb s1 s1' by auto
    have "moves buf es s (bindE (parseline n buf es s3) (\<lambda>(right, s). Inr (listcmd c' right, s)))" if b
    proof (rule moves_later[OF moves_bind s3(1)])
      have "s1' < s3" using peek_gettoken(1)[of buf es s1' "'';''"] p g that by (simp add: symbols_def)
      then show "moves buf es s3 (parseline n buf es s3)" using Suc.IH[OF s3(2)] Suc.prems s1 s1' s3 by auto
    qed (use s1' in \<open>auto intro!: movesI_Inr\<close>)
    then show "moves buf es s (case (c, s1) of (cmd, s) \<Rightarrow> case parsebacks buf es cmd s of (cmd, s) \<Rightarrow> case peek buf es s '';'' of (False, s) \<Rightarrow> Inr (cmd, s)
      | (True, s) \<Rightarrow> (case gettoken buf es s of (_, _, _, s) \<Rightarrow> bindE (parseline n buf es s) (\<lambda>(right, s). Inr (listcmd cmd right, s))))"
      using k p g pb s1 s1' by (auto intro: movesI_Inr split: bool.split)
  qed
qed simp

section \<open>Words in the buffer\<close>

definition cstr_at :: "string \<Rightarrow> nat \<Rightarrow> string" where
  "cstr_at buf q = takeWhile (\<lambda>c. c \<noteq> NUL) (drop q buf)"

definition span_word :: "string \<Rightarrow> span \<Rightarrow> string" where
  "span_word buf p = take (snd p - fst p) (drop (fst p) buf)"

lemma fold_zap:
  "length (fold (\<lambda>(q, eq) buf. buf[eq := NUL]) as buf) = length buf"
  "i < length buf \<Longrightarrow> fold (\<lambda>(q, eq) buf. buf[eq := NUL]) as buf ! i = (if i \<in> snd ` set as then NUL else buf ! i)"
proof (induction as arbitrary: buf)
  case (Cons a as)
  { case 1 show ?case using Cons.IH(1) by (cases a) simp }
  { case 2 then show ?case using Cons.IH(2)[of "buf[snd a := NUL]"] by (cases a) (auto simp: nth_upd) }
qed simp_all

lemma nulterminate_nth:
  "length (nulterminate c buf) = length buf \<and> (\<forall>i < length buf. nulterminate c buf ! i = (if i \<in> snd ` set_cmd c then NUL else buf ! i))"
proof (induction c arbitrary: buf)
  case (EXEC as)
  then show ?case by (simp add: fold_zap)
next
  case (REDIR c f m d)
  then show ?case by (auto simp: nth_upd)
qed auto

lemma word_terminated:
  assumes c: "good_cmd buf es c" and l: "es < length buf" and p: "p \<in> set_cmd c"
  shows "cstr_at (nulterminate c buf) (fst p) = span_word buf p"
proof -
  note n = nulterminate_nth[of c buf]
  have g: "fst p < snd p" "snd p \<le> es" "\<And>i. fst p \<le> i \<Longrightarrow> i < snd p \<Longrightarrow> wordc (buf ! i)" using c p by (auto simp: good_cmd_def good_span_def)
  have keep: "nulterminate c buf ! i = buf ! i" "buf ! i \<noteq> NUL" if "fst p \<le> i" "i < snd p" for i
  proof -
    have "i \<notin> snd ` set_cmd c" using g(3)[OF that] c by (auto simp: good_cmd_def good_span_def)
    then show "nulterminate c buf ! i = buf ! i" using n that g(2) l by simp
    show "buf ! i \<noteq> NUL" using g(3)[OF that] by (auto simp: wordc_def)
  qed
  have "nulterminate c buf ! snd p = NUL" using n p g(2) l by auto
  then have "cstr_at (nulterminate c buf) (fst p) = take (snd p - fst p) (drop (fst p) (nulterminate c buf))"
    unfolding cstr_at_def using keep g(1,2) n l by (intro takeWhile_eq_take_P_nth) auto
  also have "\<dots> = span_word buf p" unfolding span_word_def using keep(1) g(1,2) n l by (intro nth_equalityI) auto
  finally show ?thesis .
qed

lemma line_ok_str_len: "NUL \<in> set buf \<Longrightarrow> line_ok buf (str_len buf)"
proof (induction buf)
  case (Cons c buf)
  then show ?case by (auto simp: line_ok_def str_len_def)
qed simp

text \<open>C28. The shell survives every input line: parsing returns, with a command or with a syntax error, and in the buffer it
  leaves every word of the command is a terminated string, namely the characters of the line the parser took for the
  word, none of them cut off by the terminator of another word.
\<close>

theorem sh_parse_safe:
  assumes "NUL \<in> set buf"
  shows "(\<exists>m. parsecmd buf = Inl (Panic m)) \<or>
    (\<exists>cm buf'. parsecmd buf = Inr (cm, buf') \<and> length buf' = length buf \<and>
       (\<forall>p \<in> set_cmd cm. fst p < snd p \<and> snd p \<le> str_len buf \<and> cstr_at buf' (fst p) = span_word buf p \<and> (\<forall>c \<in> set (span_word buf p). wordc c)))"
proof -
  let ?es = "str_len buf"
  have l: "line_ok buf ?es" by (rule line_ok_str_len[OF assms])
  have m: "moves buf ?es 0 (parseline (?es + 2) buf ?es 0)" by (rule parseline_moves[OF l]) simp_all
  show ?thesis
  proof (cases "parseline (?es + 2) buf ?es 0")
    case (Inl e)
    then show ?thesis using m by (auto simp: moves_def no_hang_def parsecmd_def Let_def)
  next
    case (Inr r)
    obtain cm s b s' where r: "r = (cm, s)" "peek buf ?es s [] = (b, s')" by (metis surj_pair)
    have g: "good_cmd buf ?es cm" using m Inr r by (simp add: moves_def)
    have w: "fst p < snd p \<and> snd p \<le> ?es \<and> cstr_at (nulterminate cm buf) (fst p) = span_word buf p \<and> (\<forall>c \<in> set (span_word buf p). wordc c)" if p: "p \<in> set_cmd cm" for p
    proof -
      have s: "good_span buf ?es p" using g p by (simp add: good_cmd_def)
      have "\<forall>c \<in> set (span_word buf p). wordc c"
        using s l by (auto simp: span_word_def good_span_def line_ok_def in_set_conv_nth)
      then show ?thesis using s word_terminated[OF g _ p] l by (simp add: good_span_def line_ok_def)
    qed
    show ?thesis
    proof (cases "s' = ?es")
      case True
      then have "parsecmd buf = Inr (cm, nulterminate cm buf)" using Inr r by (simp add: parsecmd_def Let_def)
      then show ?thesis using w nulterminate_nth[of cm buf] by blast
    next
      case False
      then show ?thesis using Inr r by (simp add: parsecmd_def Let_def)
    qed
  qed
qed

section \<open>Printing commands\<close>

definition word :: "string \<Rightarrow> bool" where
  "word w \<longleftrightarrow> w \<noteq> [] \<and> (\<forall>c \<in> set w. wordc c)"

definition redir_sym :: "nat \<Rightarrow> char" where
  "redir_sym fd = (if fd = 0 then CHR ''<'' else CHR ''>'')"

definition in_parens :: "bool \<Rightarrow> string \<Rightarrow> string" where
  "in_parens b w = (if b then ''('' @ w @ '')'' else w)"

text \<open>A command as a line; the level says where it stands: 0 a line, 1 before \<open>&\<close> or \<open>;\<close>, 2 after \<open>|\<close>, 3 before \<open>|\<close>.\<close>

primrec render :: "nat \<Rightarrow> string cmd \<Rightarrow> string" where
  "render v (EXEC as) = concat (map (\<lambda>a. a @ '' '') as)"
| "render v (REDIR c f m d) = render 3 c @ [redir_sym d] @ f @ '' ''"
| "render v (PIPE l r) = in_parens (2 < v) (render 3 l @ ''|'' @ render 2 r)"
| "render v (LIST l r) = in_parens (0 < v) (render 1 l @ '';'' @ render 0 r)"
| "render v (BACK c) = in_parens (1 < v) (render 1 c @ ''&'')"

primrec cmd_ok :: "string cmd \<Rightarrow> bool" where
  "cmd_ok (EXEC as) \<longleftrightarrow> length as < MAXARGS \<and> (\<forall>a \<in> set as. word a)"
| "cmd_ok (REDIR c f m d) \<longleftrightarrow> cmd_ok c \<and> word f \<and> (m = O_RDONLY \<and> d = 0 \<or> m = O_WRONLY + O_CREATE \<and> d = 1)"
| "cmd_ok (PIPE l r) \<longleftrightarrow> cmd_ok l \<and> cmd_ok r"
| "cmd_ok (LIST l r) \<longleftrightarrow> cmd_ok l \<and> cmd_ok r"
| "cmd_ok (BACK c) \<longleftrightarrow> cmd_ok c"

text \<open>What may follow: nothing, or one of the given symbols.\<close>

definition stop :: "string \<Rightarrow> string \<Rightarrow> bool" where
  "stop toks rest \<longleftrightarrow> rest = [] \<or> hd rest \<in> set toks"

lemma stop_blanks: "stop toks rest \<Longrightarrow> set toks \<subseteq> set symbols \<Longrightarrow> after_blanks rest = rest"
  by (rule after_blanks_same) (auto simp: stop_def blank_def whitespace_def symbols_def)

lemma word_hd: "word w \<Longrightarrow> w \<noteq> [] \<and> wordc (hd w)"
  by (cases w) (auto simp: word_def)

lemma wordc_not: "wordc c \<Longrightarrow> \<not> blank c \<and> c \<noteq> NUL \<and> c \<notin> set symbols"
  by (auto simp: wordc_def blank_def)

lemma concat_args_hd: "\<forall>a \<in> set as. word a \<Longrightarrow> as \<noteq> [] \<Longrightarrow> wordc (hd (concat (map (\<lambda>a. a @ '' '') as) @ r))"
  by (cases as) (auto simp: hd_append dest: word_hd)

lemma render_hd: "cmd_ok c \<Longrightarrow> render v c = [] \<or> \<not> blank (hd (render v c))"
proof (induction c arbitrary: v)
  case (EXEC as)
  then show ?case using concat_args_hd[of as "[]"] wordc_not by (cases "as = []") auto
next
  case (REDIR c f m d)
  then have "render 3 c = [] \<or> \<not> blank (hd (render 3 c))" by simp
  then show ?case by (auto simp: hd_append redir_sym_def blank_def whitespace_def)
next
  case (PIPE l r)
  then have "render 3 l = [] \<or> \<not> blank (hd (render 3 l))" by simp
  then show ?case by (auto simp: hd_append in_parens_def blank_def whitespace_def)
next
  case (LIST l r)
  then have "render 1 l = [] \<or> \<not> blank (hd (render 1 l))" by simp
  then show ?case by (auto simp: hd_append in_parens_def blank_def whitespace_def)
next
  case (BACK c)
  then have "render 1 c = [] \<or> \<not> blank (hd (render 1 c))" by simp
  then show ?case by (auto simp: hd_append in_parens_def blank_def whitespace_def)
qed

lemma render_blanks: "cmd_ok c \<Longrightarrow> rest = [] \<or> \<not> blank (hd rest) \<Longrightarrow> after_blanks (render v c @ rest) = render v c @ rest"
  using render_hd[of c v] by (intro after_blanks_same) (cases "render v c"; auto)

section \<open>Parsing what was printed\<close>

definition reads :: "string \<Rightarrow> nat \<Rightarrow> (span cmd \<times> nat) res \<Rightarrow> string cmd \<Rightarrow> string \<Rightarrow> bool" where
  "reads buf es r c rest \<longleftrightarrow> (\<exists>cm s'. r = Inr (cm, s') \<and> stands buf es s' rest \<and> map_cmd (span_word buf) cm = c)"

lemma span_word_at: "stands buf es s (w @ xs) \<Longrightarrow> span_word buf (s, s + length w) = w"
proof -
  assume st: "stands buf es s (w @ xs)"
  have l: "length w + length xs = es - s" using stands_length[OF st] by simp
  have "take (length w) (drop s (take es buf)) = w" using st by (simp add: stands_def)
  then show ?thesis using l by (simp add: span_word_def drop_take min_def)
qed

lemma redirs_none:
  assumes "stands buf es s xs" "after_blanks xs = xs" "xs = [] \<or> hd xs \<notin> set ''<>''"
  obtains s' where "parseredirs buf es cmd s = Inr (cmd, s')" "stands buf es s' xs"
proof -
  obtain s' where s': "peek buf es s ''<>'' = (after_blanks xs \<noteq> [] \<and> hd (after_blanks xs) \<in> set ''<>'', s')" "stands buf es s' (after_blanks xs)"
    by (rule peek_at[OF assms(1)])
  then have "parseredirs buf es cmd s = Inr (cmd, s')" using assms(2,3) by (subst parseredirs.simps) auto
  then show ?thesis using that s'(2) assms(2) by simp
qed

lemma redirs_one:
  assumes st: "stands buf es s (redir_sym d # f @ '' '' @ xs)" and f: "word f" and m: "m = O_RDONLY \<and> d = 0 \<or> m = O_WRONLY + O_CREATE \<and> d = 1"
  obtains p s' where "parseredirs buf es cmd s = parseredirs buf es (REDIR cmd p m d) s'" "stands buf es s' (after_blanks xs)" "span_word buf p = f"
proof -
  let ?xs = "redir_sym d # f @ '' '' @ xs"
  have ab: "after_blanks ?xs = ?xs" by (intro after_blanks_same) (simp add: redir_sym_def blank_def whitespace_def)
  obtain s1 where p: "peek buf es s ''<>'' = (True, s1)" "stands buf es s1 ?xs"
    using peek_at[OF st, of "''<>''"] ab by (auto simp: redir_sym_def split: if_splits)
  note fh = word_hd[OF f]
  have "hd (f @ '' '' @ xs) \<noteq> CHR ''>''" using fh by (cases f) (auto simp: wordc_def symbols_def)
  then have sym: "redir_sym d \<in> set ''|();&<'' \<or> redir_sym d = CHR ''>'' \<and> (f @ '' '' @ xs = [] \<or> hd (f @ '' '' @ xs) \<noteq> CHR ''>'')"
    by (simp add: redir_sym_def)
  obtain s2 where g: "gettoken buf es s1 = (redir_sym d, s1, s1 + 1, s2)" "stands buf es s2 (after_blanks (f @ '' '' @ xs))"
    by (rule gettoken_symbol[OF p(2) sym])
  have "after_blanks (f @ '' '' @ xs) = f @ '' '' @ xs" using fh wordc_not by (intro after_blanks_same) (cases f; auto)
  with g(2) have st2: "stands buf es s2 (f @ '' '' @ xs)" by simp
  have nb: "\<not> wordc (hd ('' '' @ xs))" by (simp add: wordc_def whitespace_def)
  obtain s3 where h: "gettoken buf es s2 = (CHR ''a'', s2, s2 + length f, s3)" "stands buf es s3 (after_blanks ('' '' @ xs))"
    by (rule gettoken_word[OF st2]) (use f nb in \<open>simp_all add: word_def\<close>)
  have "after_blanks ('' '' @ xs) = after_blanks xs" by (simp add: after_blanks_def blank_def whitespace_def)
  moreover have "parseredirs buf es cmd s = parseredirs buf es (REDIR cmd (s2, s2 + length f) m d) s3"
    using p g h m by (subst parseredirs.simps) (auto simp: redir_sym_def redircmd_def)
  ultimately show ?thesis using that h(2) span_word_at[OF st2] by simp
qed

definition wrap :: "'a cmd \<Rightarrow> ('a \<times> nat \<times> nat) list \<Rightarrow> 'a cmd" where
  "wrap c rs = fold (\<lambda>(f, m, d) c. REDIR c f m d) rs c"

definition redir_ok :: "string \<times> nat \<times> nat \<Rightarrow> bool" where
  "redir_ok r \<longleftrightarrow> (case r of (f, m, d) \<Rightarrow> word f \<and> (m = O_RDONLY \<and> d = 0 \<or> m = O_WRONLY + O_CREATE \<and> d = 1))"

definition show_redirs :: "(string \<times> nat \<times> nat) list \<Rightarrow> string" where
  "show_redirs rs = concat (map (\<lambda>(f, m, d). redir_sym d # f @ '' '') rs)"

abbreviation show_args :: "string list \<Rightarrow> string" where
  "show_args as \<equiv> concat (map (\<lambda>a. a @ '' '') as)"

abbreviation span_redirs :: "string \<Rightarrow> (span \<times> nat \<times> nat) list \<Rightarrow> (string \<times> nat \<times> nat) list" where
  "span_redirs buf rs \<equiv> map (\<lambda>(p, m, d). (span_word buf p, m, d)) rs"

lemma wrap_simps [simp]: "wrap c [] = c" "wrap c ((f, m, d) # rs) = wrap (REDIR c f m d) rs" "wrap c (rs @ [(f, m, d)]) = REDIR (wrap c rs) f m d"
  by (simp_all add: wrap_def)

lemma show_redirs_simps [simp]:
  "show_redirs [] = []" "show_redirs ((f, m, d) # rs) = redir_sym d # f @ '' '' @ show_redirs rs" "show_redirs (rs @ ss) = show_redirs rs @ show_redirs ss"
  by (simp_all add: show_redirs_def)

lemma map_wrap: "map_cmd g (wrap c rs) = wrap (map_cmd g c) (map (\<lambda>(p, m, d). (g p, m, d)) rs)"
  by (induction rs arbitrary: c) auto

lemma render_wrap: "render 3 (wrap c rs) = render 3 c @ show_redirs rs"
  by (induction rs rule: rev_induct) auto

lemma wrap_ok: "cmd_ok (wrap c rs) \<longleftrightarrow> cmd_ok c \<and> (\<forall>r \<in> set rs. redir_ok r)"
  by (induction rs rule: rev_induct) (auto simp: redir_ok_def)

lemma peel: "\<exists>b rs. c = wrap b rs \<and> (\<forall>d f m e. b \<noteq> REDIR d f m e) \<and> (rs = [] \<or> size b < size c)"
proof (induction c)
  case (REDIR c f m d)
  then obtain b rs where b: "c = wrap b rs" "\<forall>d f m e. b \<noteq> REDIR d f m e" "rs = [] \<or> size b < size c" by blast
  then show ?case by (intro exI[of _ b] exI[of _ "rs @ [(f, m, d)]"]) auto
qed (auto intro!: exI[of _ "[]"])

lemma show_redirs_hd: "show_redirs rs @ rest = [] \<or> hd (show_redirs rs @ rest) \<in> set ''<>'' \<or> show_redirs rs @ rest = rest"
  by (cases rs) (auto simp: redir_sym_def split: if_splits)

lemma redirs_blanks: "stop toks rest \<Longrightarrow> set toks \<subseteq> set symbols \<Longrightarrow> after_blanks (show_redirs rs @ rest) = show_redirs rs @ rest"
  using show_redirs_hd[of rs rest] stop_blanks[of toks rest] by (cases "show_redirs rs @ rest = rest") (auto intro!: after_blanks_same simp: blank_def whitespace_def)

lemma redirs_list:
  assumes "stands buf es s (show_redirs rs @ rest)" "\<forall>r \<in> set rs. redir_ok r" "stop ''|)&;'' rest"
  shows "\<exists>rs' s'. parseredirs buf es cmd s = Inr (wrap cmd rs', s') \<and> stands buf es s' rest \<and> span_redirs buf rs' = rs"
  using assms
proof (induction rs arbitrary: cmd s)
  case Nil
  have st: "stands buf es s rest" and ab: "after_blanks rest = rest" and hd: "rest = [] \<or> hd rest \<notin> set ''<>''"
    using Nil stop_blanks[OF Nil(3)] by (auto simp: symbols_def stop_def)
  obtain s' where "parseredirs buf es cmd s = Inr (cmd, s')" "stands buf es s' rest" by (rule redirs_none[OF st ab hd])
  then show ?case by (intro exI[of _ "[]"]) simp
next
  case (Cons r rs)
  obtain f m d where r: "r = (f, m, d)" by (cases r)
  have f: "word f" "m = O_RDONLY \<and> d = 0 \<or> m = O_WRONLY + O_CREATE \<and> d = 1" using Cons.prems(2) r by (auto simp: redir_ok_def)
  have "stands buf es s (redir_sym d # f @ '' '' @ (show_redirs rs @ rest))" using Cons.prems(1) r by simp
  then obtain p s' where p: "parseredirs buf es cmd s = parseredirs buf es (REDIR cmd p m d) s'" "stands buf es s' (after_blanks (show_redirs rs @ rest))" "span_word buf p = f"
    by (rule redirs_one[OF _ f])
  have "stands buf es s' (show_redirs rs @ rest)" using p(2) redirs_blanks[OF Cons.prems(3), of rs] by (simp add: symbols_def)
  then obtain rs' s'' where "parseredirs buf es (REDIR cmd p m d) s' = Inr (wrap (REDIR cmd p m d) rs', s'')" "stands buf es s'' rest" "span_redirs buf rs' = rs"
    using Cons.IH[of s' "REDIR cmd p m d"] Cons.prems(2,3) by auto
  then show ?case using p(1,3) r by (intro exI[of _ "(p, m, d) # rs'"]) simp
qed

lemma args_stop:
  assumes "stands buf es s rest" "stop ''|)&;'' rest"
  obtains s' where "parseargs buf es ret argc s = Inr (ret, s')" "stands buf es s' rest"
proof -
  have ab: "after_blanks rest = rest" using stop_blanks[OF assms(2)] by (simp add: symbols_def)
  obtain s1 where p: "peek buf es s ''|)&;'' = (after_blanks rest \<noteq> [] \<and> hd (after_blanks rest) \<in> set ''|)&;'', s1)" "stands buf es s1 (after_blanks rest)"
    by (rule peek_at[OF assms(1)])
  show ?thesis
  proof (cases "rest = []")
    case True
    then have "parseargs buf es ret argc s = Inr (ret, s1)" using p ab gettoken_end[of buf es s1] by (subst parseargs.simps) simp
    then show ?thesis using that p(2) ab by simp
  next
    case False
    then have "parseargs buf es ret argc s = Inr (ret, s1)" using p ab assms(2) by (subst parseargs.simps) (simp add: stop_def)
    then show ?thesis using that p(2) ab by simp
  qed
qed

lemma after_space: "xs = [] \<or> \<not> blank (hd xs) \<Longrightarrow> after_blanks ('' '' @ xs) = xs"
  using after_blanks_same[of xs] by (simp add: after_blanks_def blank_def whitespace_def)

lemma args_list:
  assumes "stands buf es s (show_args as @ show_redirs rs @ rest)" "\<forall>a \<in> set as. word a" "\<forall>r \<in> set rs. redir_ok r" "stop ''|)&;'' rest"
    "as \<noteq> []" "argc + length as < MAXARGS"
  shows "\<exists>as' rs' s'. parseargs buf es (EXEC pre) argc s = Inr (wrap (EXEC (pre @ as')) rs', s') \<and> stands buf es s' rest \<and>
    map (span_word buf) as' = as \<and> span_redirs buf rs' = rs"
  using assms
proof (induction as arbitrary: pre argc s)
  case (Cons a as)
  let ?X = "show_args as @ show_redirs rs @ rest"
  have a: "word a" "wordc (hd a)" "a \<noteq> []" using Cons.prems(2) word_hd by auto
  have st: "stands buf es s (a @ '' '' @ ?X)" using Cons.prems(1) by simp
  have hd: "hd (a @ '' '' @ ?X) = hd a" using a(3) by simp
  have ab: "after_blanks (a @ '' '' @ ?X) = a @ '' '' @ ?X" using wordc_not[OF a(2)] hd by (intro after_blanks_same) simp
  obtain s1 where p0: "peek buf es s ''|)&;'' = (after_blanks (a @ '' '' @ ?X) \<noteq> [] \<and> hd (after_blanks (a @ '' '' @ ?X)) \<in> set ''|)&;'', s1)"
      "stands buf es s1 (after_blanks (a @ '' '' @ ?X))" by (rule peek_at[OF st])
  have "hd a \<notin> set ''|)&;''" using a(2) by (auto simp: wordc_def symbols_def)
  then have p: "peek buf es s ''|)&;'' = (False, s1)" "stands buf es s1 (a @ '' '' @ ?X)" using p0 unfolding ab hd by simp_all
  obtain s2 where g: "gettoken buf es s1 = (CHR ''a'', s1, s1 + length a, s2)" "stands buf es s2 (after_blanks ('' '' @ ?X))"
    by (rule gettoken_word[OF p(2)]) (use a in \<open>simp_all add: word_def wordc_def whitespace_def\<close>)
  have "?X = [] \<or> \<not> blank (hd ?X)"
  proof (cases "as = []")
    case True
    then show ?thesis using show_redirs_hd[of rs rest] Cons.prems(4) by (auto simp: stop_def blank_def whitespace_def)
  next
    case False
    then show ?thesis using concat_args_hd[of as] wordc_not Cons.prems(2) by auto
  qed
  then have st2: "stands buf es s2 ?X" using g(2) after_space by simp
  define sp where "sp = (s1, s1 + length a)"
  have sp: "span_word buf sp = a" unfolding sp_def by (rule span_word_at[OF p(2)])
  have step: "parseargs buf es (EXEC pre) argc s = bindE (parseredirs buf es (EXEC (pre @ [sp])) s2) (\<lambda>(ret, s). parseargs buf es ret (argc + 1) s)"
    using p(1) g(1) Cons.prems(6) unfolding parseargs.simps[of buf es "EXEC pre" argc s] by (simp add: NUL_def sp_def)
  show ?case
  proof (cases "as = []")
    case True
    then have "stands buf es s2 (show_redirs rs @ rest)" using st2 by simp
    then obtain rs' s3 where r: "parseredirs buf es (EXEC (pre @ [sp])) s2 = Inr (wrap (EXEC (pre @ [sp])) rs', s3)" "stands buf es s3 rest" "span_redirs buf rs' = rs"
      using redirs_list[OF _ Cons.prems(3,4)] by blast
    obtain s4 where "parseargs buf es (wrap (EXEC (pre @ [sp])) rs') (argc + 1) s3 = Inr (wrap (EXEC (pre @ [sp])) rs', s4)" "stands buf es s4 rest"
      by (rule args_stop[OF r(2) Cons.prems(4)])
    then show ?thesis using step r sp True by (intro exI[of _ "[sp]"] exI[of _ rs']) simp
  next
    case False
    have h: "wordc (hd ?X)" by (rule concat_args_hd[OF _ False]) (use Cons.prems(2) in simp)
    have n: "hd ?X \<notin> set ''<>''" "\<not> blank (hd ?X)" using h by (auto simp: wordc_def symbols_def blank_def)
    obtain s3 where r: "parseredirs buf es (EXEC (pre @ [sp])) s2 = Inr (EXEC (pre @ [sp]), s3)" "stands buf es s3 ?X"
      by (rule redirs_none[OF st2]) (use n in \<open>auto intro: after_blanks_same\<close>)
    obtain as' rs' s4 where "parseargs buf es (EXEC (pre @ [sp])) (argc + 1) s3 = Inr (wrap (EXEC ((pre @ [sp]) @ as')) rs', s4)" "stands buf es s4 rest"
        "map (span_word buf) as' = as" "span_redirs buf rs' = rs"
      using Cons.IH[OF r(2) _ Cons.prems(3,4) False, of "argc + 1" "pre @ [sp]"] Cons.prems(2,6) by auto
    then show ?thesis using step r sp by (intro exI[of _ "sp # as'"] exI[of _ rs']) simp
  qed
qed simp

lemma peek_no:
  assumes "stands buf es s xs" "after_blanks xs = xs" "xs = [] \<or> hd xs \<notin> set toks"
  obtains s' where "peek buf es s toks = (False, s')" "stands buf es s' xs"
proof -
  obtain s' where "peek buf es s toks = (after_blanks xs \<noteq> [] \<and> hd (after_blanks xs) \<in> set toks, s')" "stands buf es s' (after_blanks xs)"
    by (rule peek_at[OF assms(1)])
  then show ?thesis using assms(2,3) that by simp
qed

lemma peek_yes:
  assumes "stands buf es s (c # xs)" "c \<in> set toks" "set toks \<subseteq> set symbols"
  obtains s' where "peek buf es s toks = (True, s')" "stands buf es s' (c # xs)"
proof -
  have ab: "after_blanks (c # xs) = c # xs" using assms(2,3) by (intro after_blanks_same) (auto simp: blank_def whitespace_def symbols_def)
  obtain s' where "peek buf es s toks = (after_blanks (c # xs) \<noteq> [] \<and> hd (after_blanks (c # xs)) \<in> set toks, s')" "stands buf es s' (after_blanks (c # xs))"
    by (rule peek_at[OF assms(1)])
  then show ?thesis using ab assms(2) that by simp
qed

text \<open>A symbol is seen and taken.\<close>

lemma take_symbol:
  assumes "stands buf es s (c # xs)" "c \<in> set ''|();&''"
  obtains s1 a b s2 where "peek buf es s [c] = (True, s1)" "gettoken buf es s1 = (c, a, b, s2)" "stands buf es s2 (after_blanks xs)" "s < s2"
proof -
  have c: "c \<in> set [c]" "set [c] \<subseteq> set symbols" "c \<in> set ''|();&<'' \<or> c = CHR ''>'' \<and> (xs = [] \<or> hd xs \<noteq> CHR ''>'')"
    using assms(2) by (auto simp: symbols_def)
  obtain s1 where p: "peek buf es s [c] = (True, s1)" "stands buf es s1 (c # xs)" by (rule peek_yes[OF assms(1) c(1,2)])
  obtain s2 where g: "gettoken buf es s1 = (c, s1, s1 + 1, s2)" "stands buf es s2 (after_blanks xs)" by (rule gettoken_symbol[OF p(2) c(3)])
  have "s < s2" by (rule peek_gettoken(1)[OF p(1) g(1) c(2)])
  then show ?thesis using that p(1) g by blast
qed

lemma exec_simple:
  assumes st: "stands buf es s (show_args as @ show_redirs rs @ rest)" and ok: "\<forall>a \<in> set as. word a" "length as < MAXARGS" "\<forall>r \<in> set rs. redir_ok r" "stop ''|)&;'' rest"
  shows "reads buf es (parseexec line buf es s) (wrap (EXEC as) rs) rest"
proof -
  let ?X = "show_args as @ show_redirs rs @ rest"
  have h: "?X = [] \<or> \<not> blank (hd ?X) \<and> hd ?X \<noteq> CHR ''('' \<and> (as \<noteq> [] \<longrightarrow> hd ?X \<notin> set ''<>'')"
  proof (cases "as = []")
    case True
    then show ?thesis using show_redirs_hd[of rs rest] ok(4) by (auto simp: stop_def blank_def whitespace_def)
  next
    case False
    then show ?thesis using concat_args_hd[OF ok(1) False, of "show_redirs rs @ rest"] by (auto simp: wordc_def symbols_def blank_def)
  qed
  have ab: "after_blanks ?X = ?X" using h by (intro after_blanks_same) blast
  obtain s1 where p: "peek buf es s ''('' = (False, s1)" "stands buf es s1 ?X" by (rule peek_no[OF st ab]) (use h in auto)
  have e: "parseexec line buf es s = bindE (parseredirs buf es (EXEC []) s1) (\<lambda>(ret, s). parseargs buf es ret 0 s)"
    using p(1) by (simp add: parseexec_def execcmd_def)
  show ?thesis
  proof (cases "as = []")
    case True
    then have "stands buf es s1 (show_redirs rs @ rest)" using p(2) by simp
    then obtain rs' s2 where r: "parseredirs buf es (EXEC []) s1 = Inr (wrap (EXEC []) rs', s2)" "stands buf es s2 rest" "span_redirs buf rs' = rs"
      using redirs_list[OF _ ok(3,4)] by blast
    obtain s3 where "parseargs buf es (wrap (EXEC []) rs') 0 s2 = Inr (wrap (EXEC []) rs', s3)" "stands buf es s3 rest" by (rule args_stop[OF r(2) ok(4)])
    then show ?thesis unfolding reads_def using e r True by (intro exI[of _ "wrap (EXEC []) rs'"] exI[of _ s3]) (simp add: map_wrap)
  next
    case False
    obtain s2 where r: "parseredirs buf es (EXEC []) s1 = Inr (EXEC [], s2)" "stands buf es s2 ?X" by (rule redirs_none[OF p(2) ab]) (use h False in auto)
    obtain as' rs' s3 where "parseargs buf es (EXEC []) 0 s2 = Inr (wrap (EXEC ([] @ as')) rs', s3)" "stands buf es s3 rest" "map (span_word buf) as' = as" "span_redirs buf rs' = rs"
      using args_list[OF r(2) ok(1,3,4) False, of 0 "[]"] ok(2) by auto
    then show ?thesis unfolding reads_def using e r by (intro exI[of _ "wrap (EXEC as') rs'"] exI[of _ s3]) (simp add: map_wrap)
  qed
qed

lemma exec_block:
  assumes st: "stands buf es s (''('' @ body @ '')'' @ show_redirs rs @ rest)" and ok: "\<forall>r \<in> set rs. redir_ok r" "stop ''|)&;'' rest"
    and body: "after_blanks (body @ '')'' @ show_redirs rs @ rest) = body @ '')'' @ show_redirs rs @ rest"
    and line: "\<And>s'. s < s' \<Longrightarrow> stands buf es s' (body @ '')'' @ show_redirs rs @ rest) \<Longrightarrow> reads buf es (line s') c ('')'' @ show_redirs rs @ rest)"
  shows "reads buf es (parseexec line buf es s) (wrap c rs) rest"
proof -
  let ?Y = "show_redirs rs @ rest"
  have st': "stands buf es s (CHR ''('' # body @ '')'' @ ?Y)" using st by simp
  obtain s0 where p0: "peek buf es s ''('' = (True, s0)" "stands buf es s0 (CHR ''('' # body @ '')'' @ ?Y)" by (rule peek_yes[OF st', of "''(''"]) (simp_all add: symbols_def)
  obtain s1 a b s2 where p: "peek buf es s0 ''('' = (True, s1)" "gettoken buf es s1 = (CHR ''('', a, b, s2)" "stands buf es s2 (after_blanks (body @ '')'' @ ?Y))" "s0 < s2"
    by (rule take_symbol[OF p0(2)]) simp_all
  have "s \<le> s0" using p0(1) skip_ws_le[of s buf es] by (auto simp: peek_def Let_def)
  then have "s < s2" using p(4) by simp
  then obtain cm s3 where l: "line s2 = Inr (cm, s3)" "stands buf es s3 (CHR '')'' # ?Y)" "map_cmd (span_word buf) cm = c"
    using line[of s2] p(3) unfolding body reads_def by auto
  obtain s4 a' b' s5 where q: "peek buf es s3 '')'' = (True, s4)" "gettoken buf es s4 = (CHR '')'', a', b', s5)" "stands buf es s5 (after_blanks ?Y)" "s3 < s5"
    by (rule take_symbol[OF l(2)]) simp_all
  have "stands buf es s5 ?Y" using q(3) redirs_blanks[OF ok(2), of rs] by (simp add: symbols_def)
  then obtain rs' s6 where r: "parseredirs buf es cm s5 = Inr (wrap cm rs', s6)" "stands buf es s6 rest" "span_redirs buf rs' = rs"
    using redirs_list[OF _ ok] by blast
  have "parseexec line buf es s = Inr (wrap cm rs', s6)" using p0(1) p(1,2) l(1) q(1,2) r(1) by (simp add: parseexec_def parseblock_def)
  then show ?thesis unfolding reads_def using r l(3) by (intro exI[of _ "wrap cm rs'"] exI[of _ s6]) (simp add: map_wrap)
qed

text \<open>What reading a printed command means at each of the four levels.\<close>

definition reads_exec :: "string \<Rightarrow> nat \<Rightarrow> string cmd \<Rightarrow> bool" where
  "reads_exec buf es c \<longleftrightarrow> (\<forall>s rest n. stands buf es s (render 3 c @ rest) \<longrightarrow> stop ''|)&;'' rest \<longrightarrow> es - s < n \<longrightarrow>
     reads buf es (parseexec (parseline n buf es) buf es s) c rest)"

definition reads_pipe :: "string \<Rightarrow> nat \<Rightarrow> string cmd \<Rightarrow> bool" where
  "reads_pipe buf es c \<longleftrightarrow> (\<forall>s rest k n. stands buf es s (render 2 c @ rest) \<longrightarrow> stop '')&;'' rest \<longrightarrow> es - s < k \<longrightarrow> es - s < n \<longrightarrow>
     reads buf es (parsepipe k (parseline n buf es) buf es s) c rest)"

definition reads_back :: "string \<Rightarrow> nat \<Rightarrow> string cmd \<Rightarrow> bool" where
  "reads_back buf es c \<longleftrightarrow> (\<forall>s rest k n. stands buf es s (render 1 c @ rest) \<longrightarrow> stop '')&;'' rest \<longrightarrow> es - s < k \<longrightarrow> es - s < n \<longrightarrow>
     (\<exists>c0 s0 cm s'. parsepipe k (parseline n buf es) buf es s = Inr (c0, s0) \<and> parsebacks buf es c0 s0 = parsebacks buf es cm s' \<and>
        stands buf es s' rest \<and> map_cmd (span_word buf) cm = c))"

definition reads_line :: "string \<Rightarrow> nat \<Rightarrow> string cmd \<Rightarrow> bool" where
  "reads_line buf es c \<longleftrightarrow> (\<forall>s rest n. stands buf es s (render 0 c @ rest) \<longrightarrow> stop '')'' rest \<longrightarrow> es - s + 1 < n \<longrightarrow>
     reads buf es (parseline n buf es s) c rest)"

lemma reads_execE:
  assumes "reads_exec buf es c" "stands buf es s (render 3 c @ rest)" "stop ''|)&;'' rest" "es - s < n"
  obtains cm s' where "parseexec (parseline n buf es) buf es s = Inr (cm, s')" "stands buf es s' rest" "map_cmd (span_word buf) cm = c"
  using assms unfolding reads_exec_def reads_def by blast

lemma reads_pipeE:
  assumes "reads_pipe buf es c" "stands buf es s (render 2 c @ rest)" "stop '')&;'' rest" "es - s < k" "es - s < n"
  obtains cm s' where "parsepipe k (parseline n buf es) buf es s = Inr (cm, s')" "stands buf es s' rest" "map_cmd (span_word buf) cm = c"
  using assms unfolding reads_pipe_def reads_def by blast

lemma reads_backE:
  assumes "reads_back buf es c" "stands buf es s (render 1 c @ rest)" "stop '')&;'' rest" "es - s < k" "es - s < n"
  obtains c0 s0 cm s' where "parsepipe k (parseline n buf es) buf es s = Inr (c0, s0)" "parsebacks buf es c0 s0 = parsebacks buf es cm s'"
    "stands buf es s' rest" "map_cmd (span_word buf) cm = c"
  using assms unfolding reads_back_def by blast

lemma reads_lineE:
  assumes "reads_line buf es c" "stands buf es s (render 0 c @ rest)" "stop '')'' rest" "es - s + 1 < n"
  obtains cm s' where "parseline n buf es s = Inr (cm, s')" "stands buf es s' rest" "map_cmd (span_word buf) cm = c"
  using assms unfolding reads_line_def reads_def by blast

lemma stands_mono: "stands buf es s (xs @ ys) \<Longrightarrow> stands buf es s' ys \<Longrightarrow> s \<le> s'"
  by (drule stands_length, drule stands_length) auto

lemma symbol_end: "stop toks rest \<Longrightarrow> set toks \<subseteq> set symbols \<Longrightarrow> rest = [] \<or> \<not> blank (hd rest)"
  by (auto simp: stop_def blank_def whitespace_def symbols_def)

lemma exec_pipe:
  assumes e: "reads_exec buf es c" and r: "render 2 c = render 3 c"
  shows "reads_pipe buf es c"
  unfolding reads_pipe_def
proof (intro allI impI)
  fix s rest k n assume a: "stands buf es s (render 2 c @ rest)" "stop '')&;'' rest" "es - s < k" "es - s < n"
  obtain j where k: "k = Suc j" using a(3) by (cases k) auto
  have "stop ''|)&;'' rest" using a(2) by (auto simp: stop_def)
  then obtain cm s1 where x: "parseexec (parseline n buf es) buf es s = Inr (cm, s1)" "stands buf es s1 rest" "map_cmd (span_word buf) cm = c"
    by (rule reads_execE[OF e a(1)[unfolded r] _ a(4)])
  have ab: "after_blanks rest = rest" using stop_blanks[OF a(2)] by (simp add: symbols_def)
  obtain s2 where p: "peek buf es s1 ''|'' = (False, s2)" "stands buf es s2 rest" by (rule peek_no[OF x(2) ab]) (use a(2) in \<open>auto simp: stop_def\<close>)
  then show "reads buf es (parsepipe k (parseline n buf es) buf es s) c rest" using x k by (auto simp: reads_def)
qed

lemma pipe_back:
  assumes p: "reads_pipe buf es c" and r: "render 1 c = render 2 c"
  shows "reads_back buf es c"
  unfolding reads_back_def
proof (intro allI impI)
  fix s rest k n assume a: "stands buf es s (render 1 c @ rest)" "stop '')&;'' rest" "es - s < k" "es - s < n"
  obtain cm s' where "parsepipe k (parseline n buf es) buf es s = Inr (cm, s')" "stands buf es s' rest" "map_cmd (span_word buf) cm = c"
    by (rule reads_pipeE[OF p a(1)[unfolded r] a(2-4)])
  then show "\<exists>c0 s0 cm s'. parsepipe k (parseline n buf es) buf es s = Inr (c0, s0) \<and> parsebacks buf es c0 s0 = parsebacks buf es cm s' \<and>
      stands buf es s' rest \<and> map_cmd (span_word buf) cm = c" by blast
qed

lemma back_line:
  assumes b: "reads_back buf es c" and r: "render 0 c = render 1 c"
  shows "reads_line buf es c"
  unfolding reads_line_def
proof (intro allI impI)
  fix s rest n assume a: "stands buf es s (render 0 c @ rest)" "stop '')'' rest" "es - s + 1 < n"
  obtain m where n: "n = Suc m" "es - s < m" using a(3) by (cases n) auto
  have "stop '')&;'' rest" using a(2) by (auto simp: stop_def)
  then obtain c0 s0 cm s1 where x: "parsepipe m (parseline m buf es) buf es s = Inr (c0, s0)" "parsebacks buf es c0 s0 = parsebacks buf es cm s1"
      "stands buf es s1 rest" "map_cmd (span_word buf) cm = c"
    by (rule reads_backE[OF b a(1)[unfolded r] _ n(2) n(2)])
  have ab: "after_blanks rest = rest" using stop_blanks[OF a(2)] by (simp add: symbols_def)
  obtain s2 where p: "peek buf es s1 ''&'' = (False, s2)" "stands buf es s2 rest" by (rule peek_no[OF x(3) ab]) (use a(2) in \<open>auto simp: stop_def\<close>)
  obtain s3 where q: "peek buf es s2 '';'' = (False, s3)" "stands buf es s3 rest" by (rule peek_no[OF p(2) ab]) (use a(2) in \<open>auto simp: stop_def\<close>)
  have "parsebacks buf es cm s1 = (cm, s2)" using p(1) by (subst parsebacks.simps) simp
  then show "reads buf es (parseline n buf es s) c rest" using x q n by (auto simp: reads_def)
qed

lemma line_exec:
  assumes l: "reads_line buf es c" and r: "render 3 c = ''('' @ render 0 c @ '')''" and ok: "cmd_ok c" "\<forall>r \<in> set rs. redir_ok r"
  shows "reads_exec buf es (wrap c rs)"
  unfolding reads_exec_def
proof (intro allI impI)
  fix s rest n assume a: "stands buf es s (render 3 (wrap c rs) @ rest)" "stop ''|)&;'' rest" "es - s < n"
  show "reads buf es (parseexec (parseline n buf es) buf es s) (wrap c rs) rest"
  proof (rule exec_block)
    show "stands buf es s (''('' @ render 0 c @ '')'' @ show_redirs rs @ rest)" using a(1) r by (simp add: render_wrap)
    show "after_blanks (render 0 c @ '')'' @ show_redirs rs @ rest) = render 0 c @ '')'' @ show_redirs rs @ rest"
      by (rule render_blanks[OF ok(1)]) (simp add: blank_def whitespace_def)
    fix s' assume s': "s < s'" "stands buf es s' (render 0 c @ '')'' @ show_redirs rs @ rest)"
    have "es - s' + 1 < n" using a(3) s'(1) stands_length[OF s'(2)] by auto
    then show "reads buf es (parseline n buf es s') c ('')'' @ show_redirs rs @ rest)" using l s'(2) by (simp add: reads_line_def stop_def)
  qed (use ok(2) a(2) in auto)
qed

lemma pipe_pipe:
  assumes l: "reads_exec buf es l" and r: "reads_pipe buf es r" and ok: "cmd_ok r"
  shows "reads_pipe buf es (PIPE l r)"
  unfolding reads_pipe_def
proof (intro allI impI)
  fix s rest k n assume a: "stands buf es s (render 2 (PIPE l r) @ rest)" "stop '')&;'' rest" "es - s < k" "es - s < n"
  obtain j where k: "k = Suc j" using a(3) by (cases k) auto
  have "stands buf es s (render 3 l @ ''|'' @ render 2 r @ rest)" using a(1) by (simp add: in_parens_def)
  then obtain cm s1 where x: "parseexec (parseline n buf es) buf es s = Inr (cm, s1)" "stands buf es s1 (CHR ''|'' # render 2 r @ rest)" "map_cmd (span_word buf) cm = l"
    by (rule reads_execE[OF l _ _ a(4)]) (simp_all add: stop_def)
  obtain s2 a' b' s3 where p: "peek buf es s1 ''|'' = (True, s2)" "gettoken buf es s2 = (CHR ''|'', a', b', s3)" "stands buf es s3 (after_blanks (render 2 r @ rest))" "s1 < s3"
    by (rule take_symbol[OF x(2)]) simp_all
  have nb: "rest = [] \<or> \<not> blank (hd rest)" using a(2) by (auto simp: stop_def blank_def whitespace_def)
  have st3: "stands buf es s3 (render 2 r @ rest)" using p(3) render_blanks[OF ok nb] by simp
  have "s \<le> s1" by (rule stands_mono[OF _ x(2), of _ "render 3 l"]) (use a(1) in \<open>simp add: in_parens_def\<close>)
  then have "es - s3 < j" "es - s3 < n" using a(3,4) k p(4) stands_length[OF st3] by auto
  then obtain cr s4 where y: "parsepipe j (parseline n buf es) buf es s3 = Inr (cr, s4)" "stands buf es s4 rest" "map_cmd (span_word buf) cr = r"
    by (rule reads_pipeE[OF r st3 a(2)])
  then show "reads buf es (parsepipe k (parseline n buf es) buf es s) (PIPE l r) rest"
    using x p(1,2) k by (auto simp: reads_def pipecmd_def)
qed

lemma back_back:
  assumes b: "reads_back buf es c"
  shows "reads_back buf es (BACK c)"
  unfolding reads_back_def
proof (intro allI impI)
  fix s rest k n assume a: "stands buf es s (render 1 (BACK c) @ rest)" "stop '')&;'' rest" "es - s < k" "es - s < n"
  have "stands buf es s (render 1 c @ CHR ''&'' # rest)" using a(1) by (simp add: in_parens_def)
  then obtain c0 s0 cm s1 where x: "parsepipe k (parseline n buf es) buf es s = Inr (c0, s0)" "parsebacks buf es c0 s0 = parsebacks buf es cm s1"
      "stands buf es s1 (CHR ''&'' # rest)" "map_cmd (span_word buf) cm = c"
    by (rule reads_backE[OF b _ _ a(3,4)]) (simp_all add: stop_def)
  obtain s2 a' b' s3 where p: "peek buf es s1 ''&'' = (True, s2)" "gettoken buf es s2 = (CHR ''&'', a', b', s3)" "stands buf es s3 (after_blanks rest)"
    by (rule take_symbol[OF x(3)]) simp_all
  have "parsebacks buf es cm s1 = parsebacks buf es (BACK cm) s3" using p(1,2) by (subst parsebacks.simps) (simp add: backcmd_def)
  moreover have "stands buf es s3 rest" using p(3) stop_blanks[OF a(2)] by (simp add: symbols_def)
  ultimately show "\<exists>c0 s0 cm s'. parsepipe k (parseline n buf es) buf es s = Inr (c0, s0) \<and> parsebacks buf es c0 s0 = parsebacks buf es cm s' \<and>
      stands buf es s' rest \<and> map_cmd (span_word buf) cm = BACK c"
    using x by (intro exI[of _ c0] exI[of _ s0] exI[of _ "BACK cm"] exI[of _ s3]) simp
qed

lemma list_line:
  assumes l: "reads_back buf es l" and r: "reads_line buf es r" and ok: "cmd_ok r"
  shows "reads_line buf es (LIST l r)"
  unfolding reads_line_def
proof (intro allI impI)
  fix s rest n assume a: "stands buf es s (render 0 (LIST l r) @ rest)" "stop '')'' rest" "es - s + 1 < n"
  obtain m where n: "n = Suc m" "es - s < m" using a(3) by (cases n) auto
  have st: "stands buf es s (render 1 l @ CHR '';'' # render 0 r @ rest)" using a(1) by (simp add: in_parens_def)
  then obtain c0 s0 cm s1 where x: "parsepipe m (parseline m buf es) buf es s = Inr (c0, s0)" "parsebacks buf es c0 s0 = parsebacks buf es cm s1"
      "stands buf es s1 (CHR '';'' # render 0 r @ rest)" "map_cmd (span_word buf) cm = l"
    by (rule reads_backE[OF l _ _ n(2) n(2)]) (simp_all add: stop_def)
  obtain s2 where p: "peek buf es s1 ''&'' = (False, s2)" "stands buf es s2 (CHR '';'' # render 0 r @ rest)"
    by (rule peek_no[OF x(3)]) (auto intro!: after_blanks_same simp: blank_def whitespace_def)
  obtain s3 a' b' s4 where q: "peek buf es s2 '';'' = (True, s3)" "gettoken buf es s3 = (CHR '';'', a', b', s4)" "stands buf es s4 (after_blanks (render 0 r @ rest))" "s2 < s4"
    by (rule take_symbol[OF p(2)]) simp_all
  have st4: "stands buf es s4 (render 0 r @ rest)" using q(3) render_blanks[OF ok symbol_end[OF a(2)]] by (simp add: symbols_def)
  have "s \<le> s2" by (rule stands_mono[OF st p(2)])
  then have "es - s4 + 1 < m" using n(2) q(4) stands_length[OF st4] by auto
  then obtain cr s5 where y: "parseline m buf es s4 = Inr (cr, s5)" "stands buf es s5 rest" "map_cmd (span_word buf) cr = r"
    by (rule reads_lineE[OF r st4 a(2)])
  have "parsebacks buf es cm s1 = (cm, s2)" using p(1) by (subst parsebacks.simps) simp
  then show "reads buf es (parseline n buf es s) (LIST l r) rest" using x q(1,2) y n(1) by (auto simp: reads_def listcmd_def)
qed

lemma exec_wrap:
  assumes "cmd_ok (wrap (EXEC as) rs)"
  shows "reads_exec buf es (wrap (EXEC as) rs)"
  unfolding reads_exec_def
proof (intro allI impI)
  fix s rest n assume a: "stands buf es s (render 3 (wrap (EXEC as) rs) @ rest)" "stop ''|)&;'' rest" "es - s < n"
  show "reads buf es (parseexec (parseline n buf es) buf es s) (wrap (EXEC as) rs) rest"
    by (rule exec_simple) (use a assms in \<open>simp_all add: render_wrap wrap_ok\<close>)
qed

lemma reads_all: "cmd_ok c \<Longrightarrow> reads_exec buf es c \<and> reads_pipe buf es c \<and> reads_back buf es c \<and> reads_line buf es c"
proof (induction c rule: measure_induct_rule[of size])
  case (less c)
  show ?case
  proof (cases c)
    case (EXEC as)
    then have e: "reads_exec buf es c" using exec_wrap[of as "[]"] less.prems by simp
    then have p: "reads_pipe buf es c" by (rule exec_pipe) (simp add: EXEC)
    then have b: "reads_back buf es c" by (rule pipe_back) (simp add: EXEC)
    then have "reads_line buf es c" by (rule back_line) (simp add: EXEC)
    then show ?thesis using e p b by blast
  next
    case (REDIR d f m fd)
    obtain b rs where w: "c = wrap b rs" "\<forall>d f m e. b \<noteq> REDIR d f m e" "rs = [] \<or> size b < size c" using peel by blast
    then have sz: "size b < size c" using REDIR by auto
    have ok: "cmd_ok b" "\<forall>r \<in> set rs. redir_ok r" using less.prems w(1) by (simp_all add: wrap_ok)
    have e: "reads_exec buf es c"
    proof (cases "\<exists>as. b = EXEC as")
      case True
      then show ?thesis using exec_wrap w(1) less.prems by blast
    next
      case False
      have "render 3 b = ''('' @ render 0 b @ '')''" using False w(2) by (cases b) (auto simp: in_parens_def)
      then show ?thesis unfolding w(1) using line_exec[OF _ _ ok] less.IH[OF sz ok(1)] by blast
    qed
    then have p: "reads_pipe buf es c" by (rule exec_pipe) (simp add: REDIR)
    then have b: "reads_back buf es c" by (rule pipe_back) (simp add: REDIR)
    then have "reads_line buf es c" by (rule back_line) (simp add: REDIR)
    then show ?thesis using e p b by blast
  next
    case (PIPE l r)
    then have "reads_exec buf es l" "reads_pipe buf es r" "cmd_ok r" using less.IH[of l] less.IH[of r] less.prems by simp_all
    then have p: "reads_pipe buf es c" unfolding PIPE by (rule pipe_pipe)
    then have b: "reads_back buf es c" by (rule pipe_back) (simp add: PIPE in_parens_def)
    then have l: "reads_line buf es c" by (rule back_line) (simp add: PIPE in_parens_def)
    then have "reads_exec buf es c" using line_exec[OF l _ less.prems, of "[]"] by (simp add: PIPE in_parens_def)
    then show ?thesis using p b l by blast
  next
    case (LIST l r)
    then have "reads_back buf es l" "reads_line buf es r" "cmd_ok r" using less.IH[of l] less.IH[of r] less.prems by simp_all
    then have l: "reads_line buf es c" unfolding LIST by (rule list_line)
    then have e: "reads_exec buf es c" using line_exec[OF l _ less.prems, of "[]"] by (simp add: LIST in_parens_def)
    then have p: "reads_pipe buf es c" by (rule exec_pipe) (simp add: LIST in_parens_def)
    then have "reads_back buf es c" by (rule pipe_back) (simp add: LIST in_parens_def)
    then show ?thesis using e p l by blast
  next
    case (BACK d)
    then have "reads_back buf es d" using less.IH[of d] less.prems by simp
    then have b: "reads_back buf es c" unfolding BACK by (rule back_back)
    then have l: "reads_line buf es c" by (rule back_line) (simp add: BACK in_parens_def)
    then have e: "reads_exec buf es c" using line_exec[OF l _ less.prems, of "[]"] by (simp add: BACK in_parens_def)
    then have "reads_pipe buf es c" by (rule exec_pipe) (simp add: BACK in_parens_def)
    then show ?thesis using e b l by blast
  qed
qed

lemma render_no_nul: "cmd_ok c \<Longrightarrow> NUL \<notin> set (render v c)"
  by (induction c arbitrary: v) (auto simp: word_def wordc_def in_parens_def redir_sym_def NUL_def split: if_splits)

text \<open>C27. The shell's parser is the inverse of printing: any command, however its pipelines, lists, background commands,
  blocks and redirections are nested, written out as a line and parsed, comes back as the same command, its words read
  as the C strings that the parser has terminated inside the line.
\<close>

theorem sh_parse_roundtrip:
  assumes ok: "cmd_ok c"
  shows "\<exists>cm buf. parsecmd (render 0 c @ NUL # pad) = Inr (cm, buf) \<and> map_cmd (\<lambda>p. cstr_at buf (fst p)) cm = c"
proof -
  let ?b = "render 0 c @ NUL # pad" and ?es = "length (render 0 c)"
  have n: "NUL \<notin> set (render 0 c)" by (rule render_no_nul[OF ok])
  have "takeWhile (\<lambda>c. c \<noteq> NUL) ?b = render 0 c" using n by (subst takeWhile_append2) auto
  then have es: "str_len ?b = ?es" by (simp add: str_len_def)
  have st: "stands ?b ?es 0 (render 0 c @ [])" using n by (simp add: stands_def)
  obtain cm s where l: "parseline (?es + 2) ?b ?es 0 = Inr (cm, s)" "stands ?b ?es s []" "map_cmd (span_word ?b) cm = c"
    by (rule reads_lineE[OF _ st]) (use reads_all[OF ok, of ?b ?es] in \<open>auto simp: stop_def\<close>)
  have lk: "line_ok ?b ?es" using n by (simp add: line_ok_def)
  have g: "good_cmd ?b ?es cm" using parseline_moves[OF lk, of 0 "?es + 2"] l(1) by (simp add: moves_def)
  obtain s' where p: "peek ?b ?es s [] = (False, s')" "stands ?b ?es s' []" by (rule peek_no[OF l(2)]) (auto simp: after_blanks_def)
  have "parsecmd ?b = Inr (cm, nulterminate cm ?b)" using es l(1) p stands_Nil[OF p(2)] by (simp add: parsecmd_def Let_def)
  moreover have "map_cmd (\<lambda>p. cstr_at (nulterminate cm ?b) (fst p)) cm = map_cmd (span_word ?b) cm"
    by (rule cmd.map_cong[OF refl]) (simp add: word_terminated[OF g])
  ultimately show ?thesis using l(3) by auto
qed

text \<open>\<^verbatim>\<open>(ls; grep x < in &) | wc > out\<close>\<close>

definition demo_cmd :: "string cmd" where
  "demo_cmd = PIPE (LIST (EXEC [''ls'']) (BACK (REDIR (EXEC [''grep'', ''x'']) ''in'' 0 0))) (REDIR (EXEC [''wc'']) ''out'' 0x201 1)"

lemma demo_cmd_ok: "cmd_ok demo_cmd"
  by (simp add: demo_cmd_def word_def wordc_def NUL_def whitespace_def symbols_def MAXARGS_def O_RDONLY_def O_WRONLY_def O_CREATE_def)

theorem sh_parse_roundtrip_witness:
  "\<exists>cm buf. parsecmd (''(ls ;grep x <in &)|wc >out '' @ NUL # []) = Inr (cm, buf) \<and> map_cmd (\<lambda>p. cstr_at buf (fst p)) cm = demo_cmd"
  using sh_parse_roundtrip[OF demo_cmd_ok, of "[]"] by (simp add: demo_cmd_def in_parens_def redir_sym_def)

lemma demo_parses: "is_ok (parsecmd (''a>b'' @ [NUL]))"
  by code_simp

theorem sh_parse_safe_witness:
  "\<exists>cm buf. parsecmd (''a>b'' @ [NUL]) = Inr (cm, buf) \<and> length buf = 4 \<and> (\<forall>p \<in> set_cmd cm. cstr_at buf (fst p) = span_word (''a>b'' @ [NUL]) p)"
  using sh_parse_safe[of "''a>b'' @ [NUL]"] demo_parses by auto

end
