(* ===== verification/File.thy ===== *)
theory File
  imports Refpool
begin

text \<open>
  Open files (\<^verbatim>\<open>file.c\<close>, \<^verbatim>\<open>file.h\<close>) and the file descriptors of the processes (\<^verbatim>\<open>sysfile.c\<close>, and the loops over
  \<open>ofile\<close> in \<^verbatim>\<open>proc.c\<close>). A pointer to a file structure is its index in \<open>ftable\<close>. The pipes and the file system that
  the table's entries lead to are one component \<open>ft_env\<close> of the state, and the operations on them that the code
  calls are the fields of a record \<open>fops\<close>.
\<close>

section \<open>Data\<close>

datatype ftype = FD_NONE | FD_PIPE | FD_INODE

record file_s =
  f_type :: ftype
  f_ref :: int
  f_readable :: bool
  f_writable :: bool
  f_pipe :: "u32 option"
  f_ip :: "nat option"
  f_off :: u32

definition NFILE :: nat where "NFILE = 100"

record 'm fstate =
  ft_file :: "file_s list"
  ft_env :: 'm

record ('m, 'st) fops =
  fo_pipeclose :: "u32 \<Rightarrow> bool \<Rightarrow> 'm \<Rightarrow> 'm res"
  fo_piperead :: "u32 \<Rightarrow> int \<Rightarrow> 'm \<Rightarrow> ((int \<times> u8 list) \<times> 'm) res"
  fo_pipewrite :: "u32 \<Rightarrow> u8 list \<Rightarrow> int \<Rightarrow> 'm \<Rightarrow> (int \<times> 'm) res"
  fo_pipe_init :: "u32 \<Rightarrow> 'm \<Rightarrow> 'm"
  fo_kalloc :: "'m \<Rightarrow> (u32 \<times> 'm) res"
  fo_kfree :: "u32 \<Rightarrow> 'm \<Rightarrow> 'm res"
  fo_begin_op :: "'m \<Rightarrow> 'm res"
  fo_end_op :: "'m \<Rightarrow> 'm res"
  fo_ilock :: "nat \<Rightarrow> 'm \<Rightarrow> 'm res"
  fo_iunlock :: "nat \<Rightarrow> 'm \<Rightarrow> 'm res"
  fo_iput :: "nat \<Rightarrow> 'm \<Rightarrow> 'm res"
  fo_readi :: "nat \<Rightarrow> u32 \<Rightarrow> int \<Rightarrow> 'm \<Rightarrow> ((int \<times> u8 list) \<times> 'm) res"
  fo_writei :: "nat \<Rightarrow> u8 list \<Rightarrow> u32 \<Rightarrow> int \<Rightarrow> 'm \<Rightarrow> (int \<times> 'm) res"
  fo_stati :: "nat \<Rightarrow> 'm \<Rightarrow> 'st"
  fo_isize :: "nat \<Rightarrow> 'm \<Rightarrow> u32"

definition upd_file :: "nat \<Rightarrow> (file_s \<Rightarrow> file_s) \<Rightarrow> 'm fstate \<Rightarrow> 'm fstate" where
  "upd_file i g s = s\<lparr>ft_file := (ft_file s)[i := g (ft_file s ! i)]\<rparr>"

definition on_env :: "('m \<Rightarrow> 'm res) \<Rightarrow> 'm fstate \<Rightarrow> 'm fstate res" where
  "on_env g s = bindE (g (ft_env s)) (\<lambda>m. Inr (s\<lparr>ft_env := m\<rparr>))"

definition on_env' :: "('m \<Rightarrow> ('a \<times> 'm) res) \<Rightarrow> 'm fstate \<Rightarrow> ('a \<times> 'm fstate) res" where
  "on_env' g s = bindE (g (ft_env s)) (\<lambda>(x, m). Inr (x, s\<lparr>ft_env := m\<rparr>))"

text \<open>A pointer field that the code dereferences.\<close>

definition deref :: "'a option \<Rightarrow> ('a \<Rightarrow> 'b res) \<Rightarrow> 'b res" where
  "deref p g = (case p of None \<Rightarrow> Inl (Fault ''null pointer'') | Some x \<Rightarrow> g x)"

section \<open>The file table\<close>

definition filealloc :: "'m fstate \<Rightarrow> nat option \<times> 'm fstate" where
  "filealloc s =
     (case find_idx (\<lambda>f. f_ref f = 0) (ft_file s) of
        Some i \<Rightarrow> (Some i, upd_file i (\<lambda>f. f\<lparr>f_ref := 1\<rparr>) s)
      | None \<Rightarrow> (None, s))"

definition filedup :: "nat \<Rightarrow> 'm fstate \<Rightarrow> 'm fstate res" where
  "filedup i s =
     (if f_ref (ft_file s ! i) < 1 then Inl (Panic ''filedup'')
      else Inr (upd_file i (\<lambda>f. f\<lparr>f_ref := f_ref f + 1\<rparr>) s))"

definition fileclose :: "('m, 'st) fops \<Rightarrow> nat \<Rightarrow> 'm fstate \<Rightarrow> 'm fstate res" where
  "fileclose ops i s =
     (if f_ref (ft_file s ! i) < 1 then Inl (Panic ''fileclose'')
      else let s = upd_file i (\<lambda>f. f\<lparr>f_ref := f_ref f - 1\<rparr>) s in
        if f_ref (ft_file s ! i) > 0 then Inr s
        else let ff = ft_file s ! i; s = upd_file i (\<lambda>f. f\<lparr>f_ref := 0, f_type := FD_NONE\<rparr>) s in
          if f_type ff = FD_PIPE then deref (f_pipe ff) (\<lambda>p. on_env (fo_pipeclose ops p (f_writable ff)) s)
          else if f_type ff = FD_INODE then
            bindE (on_env (fo_begin_op ops) s) (\<lambda>s.
            deref (f_ip ff) (\<lambda>ip. bindE (on_env (fo_iput ops ip) s) (on_env (fo_end_op ops))))
          else Inr s)"

definition filestat :: "('m, 'st) fops \<Rightarrow> nat \<Rightarrow> 'm fstate \<Rightarrow> ((int \<times> 'st option) \<times> 'm fstate) res" where
  "filestat ops i s =
     (let f = ft_file s ! i in
      if f_type f = FD_INODE then
        deref (f_ip f) (\<lambda>ip.
        bindE (on_env (fo_ilock ops ip) s) (\<lambda>s.
        let st = fo_stati ops ip (ft_env s) in
        bindE (on_env (fo_iunlock ops ip) s) (\<lambda>s. Inr ((0, Some st), s))))
      else Inr ((- 1, None), s))"

text \<open>The result and, when it is positive, the bytes stored at the caller's address.\<close>

definition fileread :: "('m, 'st) fops \<Rightarrow> nat \<Rightarrow> int \<Rightarrow> 'm fstate \<Rightarrow> ((int \<times> u8 list) \<times> 'm fstate) res" where
  "fileread ops i n s =
     (let f = ft_file s ! i in
      if \<not> f_readable f then Inr ((- 1, []), s)
      else if f_type f = FD_PIPE then deref (f_pipe f) (\<lambda>p. on_env' (fo_piperead ops p n) s)
      else if f_type f = FD_INODE then
        deref (f_ip f) (\<lambda>ip.
        bindE (on_env (fo_ilock ops ip) s) (\<lambda>s.
        bindE (on_env' (fo_readi ops ip (f_off (ft_file s ! i)) n) s) (\<lambda>((r, bs), s).
        let s = (if r > 0 then upd_file i (\<lambda>f. f\<lparr>f_off := f_off f + of_int r\<rparr>) s else s) in
        bindE (on_env (fo_iunlock ops ip) s) (\<lambda>s. Inr ((r, bs), s)))))
      else Inl (Panic ''fileread''))"

definition MAXOPBLOCKS :: int where "MAXOPBLOCKS = 10"

definition max_chunk :: int where
  "max_chunk = (MAXOPBLOCKS - 1 - 1 - 2) div 2 * 512"

text \<open>The loop of \<open>filewrite\<close> from byte \<open>k\<close> of the \<open>n\<close> bytes at \<open>addr\<close>.\<close>

function filewrite_loop :: "('m, 'st) fops \<Rightarrow> nat \<Rightarrow> nat \<Rightarrow> u8 list \<Rightarrow> int \<Rightarrow> int \<Rightarrow> 'm fstate \<Rightarrow> (int \<times> 'm fstate) res" where
  "filewrite_loop ops i ip addr n k s =
     (if k < n then
        let n1 = (if n - k > max_chunk then max_chunk else n - k) in
        bindE (on_env (fo_begin_op ops) s) (\<lambda>s.
        bindE (on_env (fo_ilock ops ip) s) (\<lambda>s.
        bindE (on_env' (fo_writei ops ip (take (nat n1) (drop (nat k) addr)) (f_off (ft_file s ! i)) n1) s) (\<lambda>(r, s).
        let s = (if r > 0 then upd_file i (\<lambda>f. f\<lparr>f_off := f_off f + of_int r\<rparr>) s else s) in
        bindE (on_env (fo_iunlock ops ip) s) (\<lambda>s.
        bindE (on_env (fo_end_op ops) s) (\<lambda>s.
        if r < 0 then Inr (- 1, s)
        else if r \<noteq> n1 then Inl (Panic ''short filewrite'')
        else filewrite_loop ops i ip addr n (k + n1) s)))))
      else Inr (if k = n then n else - 1, s))"
  by pat_completeness auto
termination by (relation "measure (\<lambda>(ops, i, ip, addr, n, k, s). nat (n - k))") (auto simp: max_chunk_def MAXOPBLOCKS_def)

declare filewrite_loop.simps [simp del]

definition filewrite :: "('m, 'st) fops \<Rightarrow> nat \<Rightarrow> u8 list \<Rightarrow> int \<Rightarrow> 'm fstate \<Rightarrow> (int \<times> 'm fstate) res" where
  "filewrite ops i addr n s =
     (let f = ft_file s ! i in
      if \<not> f_writable f then Inr (- 1, s)
      else if f_type f = FD_PIPE then deref (f_pipe f) (\<lambda>p. on_env' (fo_pipewrite ops p addr n) s)
      else if f_type f = FD_INODE then deref (f_ip f) (\<lambda>ip. filewrite_loop ops i ip addr n 0 s)
      else Inl (Panic ''filewrite''))"

text \<open>\<open>off_t\<close> is \<open>int\<close>, but the comparisons and sums with \<open>uint\<close> values are unsigned.\<close>

definition fileseek :: "('m, 'st) fops \<Rightarrow> nat \<Rightarrow> u32 \<Rightarrow> int \<Rightarrow> 'm fstate \<Rightarrow> (int \<times> 'm fstate) res" where
  "fileseek ops i offset whence s =
     deref (f_ip (ft_file s ! i)) (\<lambda>ip.
     bindE (on_env (fo_ilock ops ip) s) (\<lambda>s.
     let size = fo_isize ops ip (ft_env s) in
     bindE (on_env (fo_iunlock ops ip) s) (\<lambda>s.
     let f = ft_file s ! i in
     if whence = 0 then
       if size < offset then Inr (- 1, s) else Inr (0, upd_file i (\<lambda>f. f\<lparr>f_off := offset\<rparr>) s)
     else if whence = 1 then
       if size < f_off f + offset then Inr (- 1, s) else Inr (0, upd_file i (\<lambda>f. f\<lparr>f_off := f_off f + offset\<rparr>) s)
     else if whence = 2 then
       if f_type f = FD_INODE then
         if size < offset then Inr (- 1, s) else Inr (0, upd_file i (\<lambda>f. f\<lparr>f_off := size + offset\<rparr>) s)
       else Inr (- 1, s)
     else Inr (- 1, s))))"

function filetruncate_loop :: "('m, 'st) fops \<Rightarrow> nat \<Rightarrow> int \<Rightarrow> 'm fstate \<Rightarrow> (int \<times> 'm fstate) res" where
  "filetruncate_loop ops i len s =
     (if len > 0 then
        bindE (filewrite ops i (replicate (nat max_chunk) 0) (if max_chunk < len then max_chunk else len) s) (\<lambda>(r, s).
        if r < 0 then Inr (- 1, s) else filetruncate_loop ops i (len - max_chunk) s)
      else Inr (0, s))"
  by pat_completeness auto
termination by (relation "measure (\<lambda>(ops, i, len, s). nat len)") (auto simp: max_chunk_def MAXOPBLOCKS_def)

definition filetruncate :: "('m, 'st) fops \<Rightarrow> nat \<Rightarrow> int \<Rightarrow> 'm fstate \<Rightarrow> (int \<times> 'm fstate) res" where
  "filetruncate ops i len s =
     bindE (on_env (fo_begin_op ops) s) (\<lambda>s.
     deref (f_ip (ft_file s ! i)) (\<lambda>ip.
     bindE (on_env (fo_ilock ops ip) s) (\<lambda>s.
     let size = fo_isize ops ip (ft_env s) in
     bindE (on_env (fo_iunlock ops ip) s) (\<lambda>s.
     bindE (on_env (fo_end_op ops) s) (\<lambda>s.
     if size > of_int len then Inr (- 1, s)
     else if size = of_int len then Inr (0, s)
     else filetruncate_loop ops i len s)))))"

section \<open>File descriptors\<close>

definition argfd :: "int \<Rightarrow> nat option list \<Rightarrow> (nat \<times> nat) option" where
  "argfd fd ofile =
     (if fd < 0 \<or> fd \<ge> int NOFILE then None
      else case ofile ! nat fd of None \<Rightarrow> None | Some f \<Rightarrow> Some (nat fd, f))"

definition fdalloc :: "nat \<Rightarrow> nat option list \<Rightarrow> (nat \<times> nat option list) option" where
  "fdalloc f ofile =
     (case find_idx (\<lambda>x. x = None) ofile of
        Some fd \<Rightarrow> Some (fd, ofile[fd := Some f])
      | None \<Rightarrow> None)"

definition sys_dup :: "int \<Rightarrow> nat option list \<Rightarrow> 'm fstate \<Rightarrow> (int \<times> nat option list \<times> 'm fstate) res" where
  "sys_dup fd ofile s =
     (case argfd fd ofile of
        None \<Rightarrow> Inr (- 1, ofile, s)
      | Some (_, f) \<Rightarrow>
          (case fdalloc f ofile of
             None \<Rightarrow> Inr (- 1, ofile, s)
           | Some (fd, ofile) \<Rightarrow> bindE (filedup f s) (\<lambda>s. Inr (int fd, ofile, s))))"

definition sys_close :: "('m, 'st) fops \<Rightarrow> int \<Rightarrow> nat option list \<Rightarrow> 'm fstate \<Rightarrow> (int \<times> nat option list \<times> 'm fstate) res" where
  "sys_close ops fd ofile s =
     (case argfd fd ofile of
        None \<Rightarrow> Inr (- 1, ofile, s)
      | Some (fd, f) \<Rightarrow> let ofile = ofile[fd := None] in bindE (fileclose ops f s) (\<lambda>s. Inr (0, ofile, s)))"

definition pipealloc :: "('m, 'st) fops \<Rightarrow> 'm fstate \<Rightarrow> ((nat \<times> nat) option \<times> 'm fstate) res" where
  "pipealloc ops s =
     (case filealloc s of
        (None, s) \<Rightarrow> Inr (None, s)
      | (Some f0, s) \<Rightarrow>
          (case filealloc s of
             (None, s) \<Rightarrow> bindE (fileclose ops f0 s) (\<lambda>s. Inr (None, s))
           | (Some f1, s) \<Rightarrow>
               bindE (on_env' (fo_kalloc ops) s) (\<lambda>(p, s).
               if p = 0 then bindE (fileclose ops f0 s) (\<lambda>s. bindE (fileclose ops f1 s) (\<lambda>s. Inr (None, s)))
               else
                 let s = s\<lparr>ft_env := fo_pipe_init ops p (ft_env s)\<rparr>;
                     s = upd_file f0 (\<lambda>f. f\<lparr>f_type := FD_PIPE, f_readable := True, f_writable := False, f_pipe := Some p\<rparr>) s;
                     s = upd_file f1 (\<lambda>f. f\<lparr>f_type := FD_PIPE, f_readable := False, f_writable := True, f_pipe := Some p\<rparr>) s
                 in Inr (Some (f0, f1), s))))"

definition sys_pipe :: "('m, 'st) fops \<Rightarrow> nat option list \<Rightarrow> 'm fstate \<Rightarrow> ((int \<times> nat \<times> nat) \<times> nat option list \<times> 'm fstate) res" where
  "sys_pipe ops ofile s =
     bindE (pipealloc ops s) (\<lambda>(r, s).
     case r of
       None \<Rightarrow> Inr ((- 1, 0, 0), ofile, s)
     | Some (rf, wrf) \<Rightarrow>
         (case fdalloc rf ofile of
            None \<Rightarrow> bindE (fileclose ops rf s) (\<lambda>s. bindE (fileclose ops wrf s) (\<lambda>s. Inr ((- 1, 0, 0), ofile, s)))
          | Some (fd0, ofile0) \<Rightarrow>
              (case fdalloc wrf ofile0 of
                 None \<Rightarrow> bindE (fileclose ops rf s) (\<lambda>s. bindE (fileclose ops wrf s) (\<lambda>s. Inr ((- 1, 0, 0), ofile0[fd0 := None], s)))
               | Some (fd1, ofile) \<Rightarrow> Inr ((0, fd0, fd1), ofile, s))))"

text \<open>\<open>sys_open\<close> once it has the locked inode \<open>ip\<close>: its file and its descriptor.\<close>

definition open_inode :: "('m, 'st) fops \<Rightarrow> nat \<Rightarrow> u32 \<Rightarrow> nat option list \<Rightarrow> 'm fstate \<Rightarrow> (int \<times> nat option list \<times> 'm fstate) res" where
  "open_inode ops ip omode ofile s =
     (case filealloc s of
        (None, s) \<Rightarrow>
          bindE (on_env (fo_iunlock ops ip) s) (\<lambda>s. bindE (on_env (fo_iput ops ip) s) (\<lambda>s.
          bindE (on_env (fo_end_op ops) s) (\<lambda>s. Inr (- 1, ofile, s))))
      | (Some f, s) \<Rightarrow>
          (case fdalloc f ofile of
             None \<Rightarrow>
               bindE (fileclose ops f s) (\<lambda>s.
               bindE (on_env (fo_iunlock ops ip) s) (\<lambda>s. bindE (on_env (fo_iput ops ip) s) (\<lambda>s.
               bindE (on_env (fo_end_op ops) s) (\<lambda>s. Inr (- 1, ofile, s)))))
           | Some (fd, ofile) \<Rightarrow>
               bindE (on_env (fo_iunlock ops ip) s) (\<lambda>s.
               bindE (on_env (fo_end_op ops) s) (\<lambda>s.
               Inr (int fd, ofile, upd_file f (\<lambda>f. f\<lparr>f_type := FD_INODE, f_ip := Some ip, f_off := 0, f_readable := (omode AND 1 = 0),
                      f_writable := (omode AND 1 \<noteq> 0 \<or> omode AND 2 \<noteq> 0)\<rparr>) s)))))"

text \<open>The loops over \<open>ofile\<close> of \<open>fork\<close>, which duplicates, and of \<open>exit\<close>, which closes.\<close>

fun dup_all :: "nat option list \<Rightarrow> 'm fstate \<Rightarrow> 'm fstate res" where
  "dup_all [] s = Inr s"
| "dup_all (None # fs) s = dup_all fs s"
| "dup_all (Some f # fs) s = bindE (filedup f s) (dup_all fs)"

fun close_all :: "('m, 'st) fops \<Rightarrow> nat option list \<Rightarrow> 'm fstate \<Rightarrow> 'm fstate res" where
  "close_all ops [] s = Inr s"
| "close_all ops (None # fs) s = close_all ops fs s"
| "close_all ops (Some f # fs) s = bindE (fileclose ops f s) (close_all ops fs)"

section \<open>Reference counts\<close>

text \<open>The operations below the table return; none of the code above checks them for errors.\<close>

definition fops_total :: "('m, 'st) fops \<Rightarrow> bool" where
  "fops_total ops \<longleftrightarrow> (\<forall>m. (\<forall>p w. is_ok (fo_pipeclose ops p w m)) \<and> (\<forall>ip. is_ok (fo_iput ops ip m) \<and> is_ok (fo_iunlock ops ip m)) \<and>
     is_ok (fo_begin_op ops m) \<and> is_ok (fo_end_op ops m) \<and> is_ok (fo_kalloc ops m))"

definition file_ok :: "file_s \<Rightarrow> bool" where
  "file_ok f \<longleftrightarrow> (f_type f = FD_PIPE \<longrightarrow> f_pipe f \<noteq> None) \<and> (f_type f = FD_INODE \<longrightarrow> f_ip f \<noteq> None) \<and> (f_ref f = 0 \<longrightarrow> f_type f = FD_NONE)"

definition files_ok :: "('m, 'st) fops \<Rightarrow> 'm fstate \<Rightarrow> nat multiset \<Rightarrow> bool" where
  "files_ok ops s R \<longleftrightarrow> fops_total ops \<and> length (ft_file s) = NFILE \<and> set_mset R \<subseteq> {..<NFILE} \<and>
     (\<forall>i < NFILE. f_ref (ft_file s ! i) = int (count R i) \<and> file_ok (ft_file s ! i))"

lemma upd_file_simps [simp]:
  "length (ft_file (upd_file i g s)) = length (ft_file s)" "ft_env (upd_file i g s) = ft_env s"
  "ft_file (upd_file i g s) ! j = (if i = j \<and> i < length (ft_file s) then g (ft_file s ! i) else ft_file s ! j)"
  "ft_file (s\<lparr>ft_env := m\<rparr>) = ft_file s" "upd_file i g (s\<lparr>ft_env := m\<rparr>) = upd_file i g s\<lparr>ft_env := m\<rparr>"
  by (simp_all add: upd_file_def nth_upd)

lemma files_okD:
  assumes "files_ok ops s R" "i < NFILE"
  shows "f_ref (ft_file s ! i) = int (count R i)" "file_ok (ft_file s ! i)" "i < length (ft_file s)"
  using assms by (auto simp: files_ok_def)

lemma files_ok_env: "files_ok ops (s\<lparr>ft_env := m\<rparr>) R = files_ok ops s R"
  by (simp add: files_ok_def)

lemma files_ok_upd:
  assumes k: "files_ok ops s R" and i: "i < NFILE" and g: "file_ok (g (ft_file s ! i))" "f_ref (g (ft_file s ! i)) = int (count Q i)"
    and Q: "set_mset Q \<subseteq> {..<NFILE}" "\<And>j. j \<noteq> i \<Longrightarrow> count Q j = count R j"
  shows "files_ok ops (upd_file i g s) Q"
proof -
  have l: "length (ft_file s) = NFILE" using k by (simp add: files_ok_def)
  have "f_ref (ft_file (upd_file i g s) ! j) = int (count Q j) \<and> file_ok (ft_file (upd_file i g s) ! j)" if "j < NFILE" for j
    using files_okD[OF k that] g Q(2)[of j] i l by (cases "j = i") simp_all
  then show ?thesis using k Q(1) by (simp add: files_ok_def)
qed

lemma filealloc_ok:
  assumes k: "files_ok ops s R"
  shows "{..<NFILE} \<subseteq> set_mset R \<Longrightarrow> filealloc s = (None, s)"
    and "\<not> {..<NFILE} \<subseteq> set_mset R \<Longrightarrow> \<exists>i t. filealloc s = (Some i, t) \<and> i < NFILE \<and> i \<notin># R \<and> t = upd_file i (\<lambda>f. f\<lparr>f_ref := 1\<rparr>) s \<and>
      f_type (ft_file t ! i) = FD_NONE \<and> files_ok ops t (add_mset i R)"
proof -
  have l: "length (ft_file s) = NFILE" using k by (simp add: files_ok_def)
  have z: "f_ref (ft_file s ! i) = 0 \<longleftrightarrow> i \<notin># R" if "i < NFILE" for i using files_okD(1)[OF k that] by (simp add: not_in_iff)
  show "filealloc s = (None, s)" if a: "{..<NFILE} \<subseteq> set_mset R"
  proof -
    have "\<forall>i < NFILE. i \<in># R" using a by auto
    then have "find_idx (\<lambda>f. f_ref f = 0) (ft_file s) = None" using z l by (auto simp: find_idx_None in_set_conv_nth)
    then show ?thesis by (simp add: filealloc_def)
  qed
  show "\<exists>i t. filealloc s = (Some i, t) \<and> i < NFILE \<and> i \<notin># R \<and> t = upd_file i (\<lambda>f. f\<lparr>f_ref := 1\<rparr>) s \<and>
      f_type (ft_file t ! i) = FD_NONE \<and> files_ok ops t (add_mset i R)" if a: "\<not> {..<NFILE} \<subseteq> set_mset R"
  proof -
    obtain j where "j < NFILE" "j \<notin># R" using a by auto
    then have "\<exists>f \<in> set (ft_file s). f_ref f = 0" using z[of j] nth_mem[of j "ft_file s"] l by (intro bexI[of _ "ft_file s ! j"]) auto
    from find_idx_exists[OF this] obtain i where f: "find_idx (\<lambda>f. f_ref f = 0) (ft_file s) = Some i" by (elim exE)
    then have i: "i < NFILE" "f_ref (ft_file s ! i) = 0" using find_idx_SomeD[OF f] l by auto
    have n: "f_type (ft_file s ! i) = FD_NONE" using files_okD(2)[OF k i(1)] i(2) by (simp add: file_ok_def)
    have "files_ok ops (upd_file i (\<lambda>f. f\<lparr>f_ref := 1\<rparr>) s) (add_mset i R)"
      by (rule files_ok_upd[OF k i(1)]) (use n z[OF i(1)] i k in \<open>auto simp: file_ok_def files_ok_def not_in_iff\<close>)
    then show ?thesis using f i n z[OF i(1)] l by (intro exI[of _ i]) (simp add: filealloc_def)
  qed
qed

lemma filedup_ok:
  assumes k: "files_ok ops s R" and i: "i \<in># R"
  shows "\<exists>t. filedup i s = Inr t \<and> files_ok ops t (add_mset i R)"
proof -
  have n: "i < NFILE" using k i by (auto simp: files_ok_def)
  have r: "f_ref (ft_file s ! i) = int (count R i)" "0 < count R i" "file_ok (ft_file s ! i)" using files_okD[OF k n] i by auto
  have "files_ok ops (upd_file i (\<lambda>f. f\<lparr>f_ref := f_ref f + 1\<rparr>) s) (add_mset i R)"
    by (rule files_ok_upd[OF k n]) (use r n k in \<open>auto simp: file_ok_def files_ok_def\<close>)
  then show ?thesis using r by (simp add: filedup_def)
qed

lemma on_env_ok:
  assumes "files_ok ops s R" "is_ok (g (ft_env s))"
  obtains t where "on_env g s = Inr t" "files_ok ops t R"
  using assms by (auto simp: on_env_def is_ok_iff files_ok_env)

lemma fops_totalD:
  assumes "fops_total ops"
  shows "is_ok (fo_pipeclose ops p w m)" "is_ok (fo_iput ops ip m)" "is_ok (fo_iunlock ops ip m)" "is_ok (fo_begin_op ops m)" "is_ok (fo_end_op ops m)" "is_ok (fo_kalloc ops m)"
  using assms unfolding fops_total_def by simp_all

lemma fileclose_ok:
  assumes k: "files_ok ops s R" and i: "i \<in># R"
  shows "\<exists>t. fileclose ops i s = Inr t \<and> files_ok ops t (R - {#i#})"
proof -
  have n: "i < NFILE" using k i by (auto simp: files_ok_def)
  have l: "i < length (ft_file s)" using files_okD(3)[OF k n] .
  have r: "f_ref (ft_file s ! i) = int (count R i)" "0 < count R i" "file_ok (ft_file s ! i)" using files_okD[OF k n] i by auto
  have Q: "set_mset (R - {#i#}) \<subseteq> {..<NFILE}" using k by (auto simp: files_ok_def dest: in_diffD)
  have tot: "fops_total ops" using k by (simp add: files_ok_def)
  show ?thesis
  proof (cases "count R i = 1")
    case False
    have "files_ok ops (upd_file i (\<lambda>f. f\<lparr>f_ref := f_ref f - 1\<rparr>) s) (R - {#i#})"
      by (rule files_ok_upd[OF k n]) (use r Q False in \<open>auto simp: file_ok_def\<close>)
    moreover have "1 < f_ref (ft_file s ! i)" using r(1,2) False by linarith
    ultimately show ?thesis using l by (simp add: fileclose_def Let_def)
  next
    case True
    define t where "t = upd_file i (\<lambda>f. f\<lparr>f_ref := 0, f_type := FD_NONE\<rparr>) (upd_file i (\<lambda>f. f\<lparr>f_ref := f_ref f - 1\<rparr>) s)"
    have "t = upd_file i (\<lambda>f. f\<lparr>f_ref := 0, f_type := FD_NONE\<rparr>) s" using l by (simp add: t_def upd_file_def)
    moreover have "files_ok ops (upd_file i (\<lambda>f. f\<lparr>f_ref := 0, f_type := FD_NONE\<rparr>) s) (R - {#i#})"
      by (rule files_ok_upd[OF k n]) (use r Q True in \<open>auto simp: file_ok_def\<close>)
    ultimately have t: "files_ok ops t (R - {#i#})" by simp
    have e: "fileclose ops i s =
      (if f_type (ft_file s ! i) = FD_PIPE then deref (f_pipe (ft_file s ! i)) (\<lambda>p. on_env (fo_pipeclose ops p (f_writable (ft_file s ! i))) t)
       else if f_type (ft_file s ! i) = FD_INODE then bindE (on_env (fo_begin_op ops) t) (\<lambda>s'. deref (f_ip (ft_file s ! i)) (\<lambda>ip. bindE (on_env (fo_iput ops ip) s') (on_env (fo_end_op ops))))
       else Inr t)"
      using r l True by (simp add: fileclose_def Let_def t_def)
    show ?thesis
    proof (cases "f_type (ft_file s ! i)")
      case FD_NONE
      then show ?thesis using e t by simp
    next
      case FD_PIPE
      then obtain p where p: "f_pipe (ft_file s ! i) = Some p" using r(3) by (auto simp: file_ok_def)
      obtain u where "on_env (fo_pipeclose ops p (f_writable (ft_file s ! i))) t = Inr u" "files_ok ops u (R - {#i#})"
        by (rule on_env_ok[OF t fops_totalD(1)[OF tot]])
      then show ?thesis using e FD_PIPE p by (simp add: deref_def)
    next
      case FD_INODE
      then obtain ip where p: "f_ip (ft_file s ! i) = Some ip" using r(3) by (auto simp: file_ok_def)
      obtain u where u: "on_env (fo_begin_op ops) t = Inr u" "files_ok ops u (R - {#i#})" by (rule on_env_ok[OF t fops_totalD(4)[OF tot]])
      obtain v where v: "on_env (fo_iput ops ip) u = Inr v" "files_ok ops v (R - {#i#})" by (rule on_env_ok[OF u(2) fops_totalD(2)[OF tot]])
      obtain w where "on_env (fo_end_op ops) v = Inr w" "files_ok ops w (R - {#i#})" by (rule on_env_ok[OF v(2) fops_totalD(5)[OF tot]])
      then show ?thesis using e FD_INODE p u(1) v(1) by (simp add: deref_def)
    qed
  qed
qed

definition file_get :: "'m fstate \<Rightarrow> (nat option \<times> 'm fstate) res" where
  "file_get s = Inr (filealloc s)"

interpretation files: ref_pool "files_ok ops" "{..<NFILE}" file_get filedup "fileclose ops" for ops
proof
  fix s R
  assume k: "files_ok ops s R"
  show "set_mset R \<subseteq> {..<NFILE}" using k by (simp add: files_ok_def)
  show "\<exists>x t. file_get s = Inr (Some x, t) \<and> x \<in> {..<NFILE} \<and> x \<notin># R \<and> files_ok ops t (add_mset x R)" if "\<not> {..<NFILE} \<subseteq> set_mset R"
    using filealloc_ok(2)[OF k that] by (auto simp: file_get_def)
  show "\<exists>t. file_get s = Inr (None, t) \<and> files_ok ops t R" if "{..<NFILE} \<subseteq> set_mset R"
    using filealloc_ok(1)[OF k that] k by (simp add: file_get_def)
  fix x assume x: "x \<in># R"
  show "\<exists>t. filedup x s = Inr t \<and> files_ok ops t (add_mset x R)" by (rule filedup_ok[OF k x])
  show "\<exists>t. fileclose ops x s = Inr t \<and> files_ok ops t (R - {#x#})" by (rule fileclose_ok[OF k x])
qed

section \<open>Descriptors as references\<close>

definition ref_of :: "nat option \<Rightarrow> nat multiset" where
  "ref_of x = (case x of None \<Rightarrow> {#} | Some f \<Rightarrow> {#f#})"

primrec fdrefs :: "nat option list \<Rightarrow> nat multiset" where
  "fdrefs [] = {#}"
| "fdrefs (x # xs) = ref_of x + fdrefs xs"

lemma ref_of_simps [simp]: "ref_of None = {#}" "ref_of (Some f) = {#f#}"
  by (simp_all add: ref_of_def)

lemma fdrefs_update: "i < length xs \<Longrightarrow> fdrefs (xs[i := v]) + ref_of (xs ! i) = fdrefs xs + ref_of v"
  by (induction xs arbitrary: i) (auto simp: nth_Cons' ac_simps split: nat.split elim: less_SucE dest!: Suc_less_SucD)

lemma count_fdrefs: "count (fdrefs xs) f = count_list xs (Some f)"
  by (induction xs) (auto simp: ref_of_def split: option.split)

lemma fdrefs_empty [simp]: "fdrefs (replicate n None) = {#}"
  by (induction n) simp_all

lemma fdrefs_add: "i < length xs \<Longrightarrow> xs ! i = None \<Longrightarrow> fdrefs (xs[i := Some f]) = add_mset f (fdrefs xs)"
  using fdrefs_update[of i xs "Some f"] by simp

lemma fdrefs_remove: "i < length xs \<Longrightarrow> xs ! i = Some f \<Longrightarrow> fdrefs xs = add_mset f (fdrefs (xs[i := None]))"
  using fdrefs_update[of i xs None] by simp

lemma fdalloc_ok:
  assumes "fdalloc f ofile = Some (fd, o')" "length ofile = NOFILE"
  shows "length o' = NOFILE" "fdrefs o' = add_mset f (fdrefs ofile)" "fd < NOFILE" "ofile ! fd = None" "o' = ofile[fd := Some f]"
  using assms find_idx_SomeD[of "\<lambda>x. x = None" ofile fd] by (auto simp: fdalloc_def fdrefs_add split: option.splits)

lemma argfd_ok:
  assumes "argfd fd ofile = Some (d, f)" "length ofile = NOFILE"
  shows "d < NOFILE" "ofile ! d = Some f" "f \<in># fdrefs ofile"
proof -
  show d: "d < NOFILE" "ofile ! d = Some f" using assms by (auto simp: argfd_def split: if_splits option.splits)
  show "f \<in># fdrefs ofile" using fdrefs_remove[of d ofile f] d assms(2) by simp
qed

lemma sys_dup_ok:
  assumes k: "files_ok ops s (A + fdrefs ofile)" and l: "length ofile = NOFILE"
  shows "\<exists>r o' t. sys_dup fd ofile s = Inr (r, o', t) \<and> length o' = NOFILE \<and> files_ok ops t (A + fdrefs o')"
proof (cases "argfd fd ofile")
  case None
  then show ?thesis using k l by (simp add: sys_dup_def)
next
  case (Some df)
  obtain d f where df: "df = (d, f)" by (cases df)
  have f: "f \<in># A + fdrefs ofile" using argfd_ok(3)[OF _ l] Some df by auto
  obtain t where t: "filedup f s = Inr t" "files_ok ops t (add_mset f (A + fdrefs ofile))" using files.dup_ok[OF k f] by blast
  show ?thesis
  proof (cases "fdalloc f ofile")
    case None
    then show ?thesis using Some df k l by (simp add: sys_dup_def)
  next
    case (Some x)
    obtain d' o' where x: "x = (d', o')" by (cases x)
    then show ?thesis using Some \<open>argfd fd ofile = Some df\<close> df t fdalloc_ok[OF _ l, of f d' o'] by (simp add: sys_dup_def)
  qed
qed

lemma sys_close_ok:
  assumes k: "files_ok ops s (A + fdrefs ofile)" and l: "length ofile = NOFILE"
  shows "\<exists>r o' t. sys_close ops fd ofile s = Inr (r, o', t) \<and> length o' = NOFILE \<and> files_ok ops t (A + fdrefs o')"
proof (cases "argfd fd ofile")
  case None
  then show ?thesis using k l by (simp add: sys_close_def)
next
  case (Some df)
  obtain d f where df: "df = (d, f)" by (cases df)
  note a = argfd_ok[OF Some[unfolded df] l]
  have r: "fdrefs ofile = add_mset f (fdrefs (ofile[d := None]))" using fdrefs_remove a l by simp
  have "f \<in># A + fdrefs ofile" using a(3) by simp
  then obtain t where t: "fileclose ops f s = Inr t" "files_ok ops t (A + fdrefs ofile - {#f#})" using files.drp_ok[OF k] by blast
  then show ?thesis using Some df l r by (simp add: sys_close_def)
qed

text \<open>A reference that is not yet a descriptor is dropped again.\<close>

lemma drop_extra:
  assumes "files_ok ops s (add_mset f R)"
  obtains t where "fileclose ops f s = Inr t" "files_ok ops t R"
  using files.drp_ok[OF assms, of f] by auto

lemma set_fields:
  assumes k: "files_ok ops s R" and i: "i < NFILE" and g: "\<And>f. f_ref (g f) = f_ref f" "f_ref (ft_file s ! i) \<noteq> 0 \<Longrightarrow> file_ok (g (ft_file s ! i))" "i \<in># R"
  shows "files_ok ops (upd_file i g s) R"
  by (rule files_ok_upd[OF k i]) (use files_okD[OF k i] g k in \<open>auto simp: files_ok_def\<close>)

lemma pipealloc_ok:
  assumes k: "files_ok ops s R"
  shows "\<exists>r t. pipealloc ops s = Inr (r, t) \<and> (case r of None \<Rightarrow> files_ok ops t R | Some (f0, f1) \<Rightarrow> f0 \<noteq> f1 \<and> files_ok ops t (add_mset f1 (add_mset f0 R)))"
proof (cases "{..<NFILE} \<subseteq> set_mset R")
  case True
  then show ?thesis using filealloc_ok(1)[OF k] k by (simp add: pipealloc_def)
next
  case False
  obtain f0 s1 where f0: "filealloc s = (Some f0, s1)" "f0 < NFILE" "f0 \<notin># R" "files_ok ops s1 (add_mset f0 R)" using filealloc_ok(2)[OF k False] by blast
  show ?thesis
  proof (cases "{..<NFILE} \<subseteq> set_mset (add_mset f0 R)")
    case True
    obtain t where "fileclose ops f0 s1 = Inr t" "files_ok ops t R" by (rule drop_extra[OF f0(4)])
    then show ?thesis using f0(1) filealloc_ok(1)[OF f0(4) True] by (simp add: pipealloc_def)
  next
    case False
    obtain f1 s2 where f1: "filealloc s1 = (Some f1, s2)" "f1 < NFILE" "f1 \<notin># add_mset f0 R" "files_ok ops s2 (add_mset f1 (add_mset f0 R))"
      using filealloc_ok(2)[OF f0(4) False] by blast
    obtain p m where m: "fo_kalloc ops (ft_env s2) = Inr (p, m)" using k fops_totalD(6)[of ops "ft_env s2"] by (auto simp: files_ok_def is_ok_iff)
    define s3 where "s3 = s2\<lparr>ft_env := m\<rparr>"
    have k3: "files_ok ops s3 (add_mset f1 (add_mset f0 R))" using f1(4) by (simp add: s3_def files_ok_env)
    show ?thesis
    proof (cases "p = 0")
      case True
      have "files_ok ops s3 (add_mset f0 (add_mset f1 R))" using k3 by (simp add: add_mset_commute)
      then obtain t where t: "fileclose ops f0 s3 = Inr t" "files_ok ops t (add_mset f1 R)" by (rule drop_extra)
      obtain u where "fileclose ops f1 t = Inr u" "files_ok ops u R" by (rule drop_extra[OF t(2)])
      then show ?thesis using f0(1) f1(1) m True t(1) by (simp add: pipealloc_def on_env'_def s3_def)
    next
      case False
      define s4 where "s4 = s3\<lparr>ft_env := fo_pipe_init ops p (ft_env s3)\<rparr>"
      define s5 where "s5 = upd_file f0 (\<lambda>f. f\<lparr>f_type := FD_PIPE, f_readable := True, f_writable := False, f_pipe := Some p\<rparr>) s4"
      define s6 where "s6 = upd_file f1 (\<lambda>f. f\<lparr>f_type := FD_PIPE, f_readable := False, f_writable := True, f_pipe := Some p\<rparr>) s5"
      have k4: "files_ok ops s4 (add_mset f1 (add_mset f0 R))" using k3 by (simp add: s4_def files_ok_env)
      have k5: "files_ok ops s5 (add_mset f1 (add_mset f0 R))" unfolding s5_def by (rule set_fields[OF k4 f0(2)]) (auto simp: file_ok_def)
      have k6: "files_ok ops s6 (add_mset f1 (add_mset f0 R))" unfolding s6_def by (rule set_fields[OF k5 f1(2)]) (auto simp: file_ok_def)
      then show ?thesis using f0(1) f1(1,3) m False by (simp add: pipealloc_def on_env'_def Let_def s3_def s4_def s5_def s6_def)
    qed
  qed
qed

lemma sys_pipe_ok:
  assumes k: "files_ok ops s (A + fdrefs ofile)" and l: "length ofile = NOFILE"
  shows "\<exists>r o' t. sys_pipe ops ofile s = Inr (r, o', t) \<and> length o' = NOFILE \<and> files_ok ops t (A + fdrefs o')"
proof -
  obtain r s1 where p: "pipealloc ops s = Inr (r, s1)" and r: "case r of None \<Rightarrow> files_ok ops s1 (A + fdrefs ofile) | Some (f0, f1) \<Rightarrow> f0 \<noteq> f1 \<and> files_ok ops s1 (add_mset f1 (add_mset f0 (A + fdrefs ofile)))"
    using pipealloc_ok[OF k] by blast
  show ?thesis
  proof (cases r)
    case None
    then show ?thesis using p r l by (simp add: sys_pipe_def)
  next
    case (Some ff)
    obtain f0 f1 where ff: "r = Some (f0, f1)" using Some by (cases ff) auto
    have k1: "files_ok ops s1 (add_mset f1 (add_mset f0 (A + fdrefs ofile)))" using r ff by simp
    have "files_ok ops s1 (add_mset f0 (add_mset f1 (A + fdrefs ofile)))" using k1 by (simp add: add_mset_commute)
    then obtain t where t: "fileclose ops f0 s1 = Inr t" "files_ok ops t (add_mset f1 (A + fdrefs ofile))" by (rule drop_extra)
    obtain u where u: "fileclose ops f1 t = Inr u" "files_ok ops u (A + fdrefs ofile)" by (rule drop_extra[OF t(2)])
    show ?thesis
    proof (cases "fdalloc f0 ofile")
      case None
      then show ?thesis using p ff t u l by (simp add: sys_pipe_def)
    next
      case (Some x)
      obtain d0 o0 where x: "fdalloc f0 ofile = Some (d0, o0)" using Some by (cases x) auto
      note a = fdalloc_ok[OF x l]
      have bk: "o0[d0 := None] = ofile" using a(4,5) list_update_id[of ofile d0] by simp
      show ?thesis
      proof (cases "fdalloc f1 o0")
        case None
        then show ?thesis using p ff x t u l bk by (simp add: sys_pipe_def)
      next
        case (Some y)
        obtain d1 o1 where y: "fdalloc f1 o0 = Some (d1, o1)" using Some by (cases y) auto
        then show ?thesis using p ff x k1 a fdalloc_ok[OF y a(1)] by (simp add: sys_pipe_def)
      qed
    qed
  qed
qed

lemma release_inode:
  assumes k: "files_ok ops s R"
  shows "\<exists>t. bindE (on_env (fo_iunlock ops ip) s) (\<lambda>s. bindE (on_env (fo_iput ops ip) s) (\<lambda>s. bindE (on_env (fo_end_op ops) s) (\<lambda>s. Inr (- 1, ofile, s)))) =
    Inr (- 1 :: int, ofile, t) \<and> files_ok ops t R"
proof -
  have tot: "fops_total ops" using k by (simp add: files_ok_def)
  obtain u where u: "on_env (fo_iunlock ops ip) s = Inr u" "files_ok ops u R" by (rule on_env_ok[OF k fops_totalD(3)[OF tot]])
  obtain v where v: "on_env (fo_iput ops ip) u = Inr v" "files_ok ops v R" by (rule on_env_ok[OF u(2) fops_totalD(2)[OF tot]])
  obtain w where "on_env (fo_end_op ops) v = Inr w" "files_ok ops w R" by (rule on_env_ok[OF v(2) fops_totalD(5)[OF tot]])
  then show ?thesis using u(1) v(1) by simp
qed

lemma open_inode_ok:
  assumes k: "files_ok ops s (A + fdrefs ofile)" and l: "length ofile = NOFILE"
  shows "\<exists>r o' t. open_inode ops ip omode ofile s = Inr (r, o', t) \<and> length o' = NOFILE \<and> files_ok ops t (A + fdrefs o')"
proof (cases "{..<NFILE} \<subseteq> set_mset (A + fdrefs ofile)")
  case True
  then show ?thesis using filealloc_ok(1)[OF k True] release_inode[OF k, of ip ofile] l by (auto simp: open_inode_def)
next
  case False
  obtain f s1 where f: "filealloc s = (Some f, s1)" "f < NFILE" "files_ok ops s1 (add_mset f (A + fdrefs ofile))" using filealloc_ok(2)[OF k False] by blast
  have tot: "fops_total ops" using k by (simp add: files_ok_def)
  show ?thesis
  proof (cases "fdalloc f ofile")
    case None
    obtain t where t: "fileclose ops f s1 = Inr t" "files_ok ops t (A + fdrefs ofile)" by (rule drop_extra[OF f(3)])
    then show ?thesis using f(1) None release_inode[OF t(2), of ip ofile] l by (auto simp: open_inode_def)
  next
    case (Some x)
    obtain d o' where x: "fdalloc f ofile = Some (d, o')" using Some by (cases x) auto
    note a = fdalloc_ok[OF x l]
    obtain u where u: "on_env (fo_iunlock ops ip) s1 = Inr u" "files_ok ops u (A + fdrefs o')" by (rule on_env_ok[OF _ fops_totalD(3)[OF tot]]) (use f(3) a(2) in auto)
    obtain v where v: "on_env (fo_end_op ops) u = Inr v" "files_ok ops v (A + fdrefs o')" by (rule on_env_ok[OF u(2) fops_totalD(5)[OF tot]])
    have "files_ok ops (upd_file f (\<lambda>f. f\<lparr>f_type := FD_INODE, f_ip := Some ip, f_off := 0, f_readable := (omode AND 1 = 0),
        f_writable := (omode AND 1 \<noteq> 0 \<or> omode AND 2 \<noteq> 0)\<rparr>) v) (A + fdrefs o')"
      by (rule set_fields[OF v(2) f(2)]) (use a(2) in \<open>auto simp: file_ok_def\<close>)
    then show ?thesis using f(1) x u(1) v(1) a(1) by (simp add: open_inode_def)
  qed
qed

lemma dup_all_ok: "files_ok ops s R \<Longrightarrow> fdrefs fs \<subseteq># R \<Longrightarrow> \<exists>t. dup_all fs s = Inr t \<and> files_ok ops t (R + fdrefs fs)"
proof (induction fs arbitrary: s R)
  case (Cons x fs)
  show ?case
  proof (cases x)
    case None
    then show ?thesis using Cons by simp
  next
    case (Some f)
    then have "f \<in># R" using Cons.prems(2) by (auto simp: subset_mset.add_increasing dest: mset_subset_eqD)
    then obtain t where t: "filedup f s = Inr t" "files_ok ops t (add_mset f R)" using files.dup_ok[OF Cons.prems(1)] by blast
    have "count (fdrefs fs) a \<le> count (add_mset f R) a" for a
      using mset_subset_eq_count[OF Cons.prems(2), of a] Some by (simp split: if_splits)
    then have "fdrefs fs \<subseteq># add_mset f R" by (rule mset_subset_eqI)
    then show ?thesis using Cons.IH[OF t(2)] t(1) Some by simp
  qed
qed simp

lemma close_all_ok: "files_ok ops s (A + fdrefs fs) \<Longrightarrow> \<exists>t. close_all ops fs s = Inr t \<and> files_ok ops t A"
proof (induction fs arbitrary: s)
  case (Cons x fs)
  show ?case
  proof (cases x)
    case None
    then show ?thesis using Cons by simp
  next
    case (Some f)
    then have "files_ok ops s (add_mset f (A + fdrefs fs))" using Cons.prems by simp
    then obtain t where "fileclose ops f s = Inr t" "files_ok ops t (A + fdrefs fs)" by (rule drop_extra)
    then show ?thesis using Cons.IH[of t] Some by simp
  qed
qed simp

section \<open>All processes\<close>

text \<open>The open files of every slot of the process table, and the file table; the steps are whole system calls.\<close>

definition all_refs :: "(nat \<Rightarrow> nat option list) \<Rightarrow> nat multiset" where
  "all_refs tab = (\<Sum>p < NPROC. fdrefs (tab p))"

inductive fdstep :: "('m, 'st) fops \<Rightarrow> (nat \<Rightarrow> nat option list) \<times> 'm fstate \<Rightarrow> (nat \<Rightarrow> nat option list) \<times> 'm fstate \<Rightarrow> bool" for ops :: "('m, 'st) fops" where
  dups: "p < NPROC \<Longrightarrow> sys_dup fd (tab p) s = Inr (r, o', t) \<Longrightarrow> fdstep ops (tab, s) (tab(p := o'), t)"
| closes: "p < NPROC \<Longrightarrow> sys_close ops fd (tab p) s = Inr (r, o', t) \<Longrightarrow> fdstep ops (tab, s) (tab(p := o'), t)"
| pipes: "p < NPROC \<Longrightarrow> sys_pipe ops (tab p) s = Inr (x, o', t) \<Longrightarrow> fdstep ops (tab, s) (tab(p := o'), t)"
| opens: "p < NPROC \<Longrightarrow> open_inode ops ip omode (tab p) s = Inr (r, o', t) \<Longrightarrow> fdstep ops (tab, s) (tab(p := o'), t)"
| forks: "p < NPROC \<Longrightarrow> q < NPROC \<Longrightarrow> tab q = replicate NOFILE None \<Longrightarrow> dup_all (tab p) s = Inr t \<Longrightarrow> fdstep ops (tab, s) (tab(q := tab p), t)"
| exits: "p < NPROC \<Longrightarrow> close_all ops (tab p) s = Inr t \<Longrightarrow> fdstep ops (tab, s) (tab(p := replicate NOFILE None), t)"

definition fd_inv :: "('m, 'st) fops \<Rightarrow> (nat \<Rightarrow> nat option list) \<times> 'm fstate \<Rightarrow> bool" where
  "fd_inv ops x \<longleftrightarrow> (\<forall>p < NPROC. length (fst x p) = NOFILE) \<and> files_ok ops (snd x) (all_refs (fst x))"

lemma all_refs_split:
  assumes "p < NPROC"
  shows "\<exists>A. all_refs tab = A + fdrefs (tab p) \<and> (\<forall>o'. all_refs (tab(p := o')) = A + fdrefs o')"
proof -
  let ?A = "\<Sum>q \<in> {..<NPROC} - {p}. fdrefs (tab q)"
  have "all_refs (tab(p := o')) = ?A + fdrefs o'" for o'
    unfolding all_refs_def using assms by (subst sum.remove[of _ p]) (auto intro!: sum.cong simp: add.commute)
  moreover have "all_refs tab = ?A + fdrefs (tab p)"
    unfolding all_refs_def using assms by (subst sum.remove[of _ p]) (auto simp: add.commute)
  ultimately show ?thesis by blast
qed

lemma fd_call_inv:
  assumes inv: "fd_inv ops (tab, s)" and p: "p < NPROC"
    and call: "\<And>A. files_ok ops s (A + fdrefs (tab p)) \<Longrightarrow> length (tab p) = NOFILE \<Longrightarrow> length o' = NOFILE \<and> files_ok ops t (A + fdrefs o')"
  shows "fd_inv ops (tab(p := o'), t)"
proof -
  obtain A where A: "all_refs tab = A + fdrefs (tab p)" "\<forall>o'. all_refs (tab(p := o')) = A + fdrefs o'" using all_refs_split[OF p] by blast
  have "length o' = NOFILE \<and> files_ok ops t (A + fdrefs o')" using call[of A] inv p A(1) by (simp add: fd_inv_def)
  then show ?thesis using inv A(2) by (simp add: fd_inv_def)
qed

lemma fdstep_inv: "fdstep ops x y \<Longrightarrow> fd_inv ops x \<Longrightarrow> fd_inv ops y"
proof (induction rule: fdstep.induct)
  case (dups p fd tab s r o' t)
  show ?case by (rule fd_call_inv[OF dups(3,1)]) (use sys_dup_ok[where fd = fd] dups(2) in fastforce)
next
  case (closes p fd tab s r o' t)
  show ?case by (rule fd_call_inv[OF closes(3,1)]) (use sys_close_ok[where fd = fd] closes(2) in fastforce)
next
  case (pipes p tab s x o' t)
  show ?case by (rule fd_call_inv[OF pipes(3,1)]) (use sys_pipe_ok pipes(2) in fastforce)
next
  case (opens p ip omode tab s r o' t)
  show ?case by (rule fd_call_inv[OF opens(3,1)]) (use open_inode_ok[where ip = ip and omode = omode] opens(2) in fastforce)
next
  case (forks p q tab s t)
  obtain A where A: "all_refs tab = A + fdrefs (tab q)" "\<forall>o'. all_refs (tab(q := o')) = A + fdrefs o'" using all_refs_split[OF forks(2)] by blast
  obtain B where "all_refs tab = B + fdrefs (tab p)" using all_refs_split[OF forks(1)] by blast
  then have "fdrefs (tab p) \<subseteq># all_refs tab" by simp
  then have "files_ok ops t (all_refs tab + fdrefs (tab p))" using dup_all_ok[of ops s "all_refs tab" "tab p"] forks(4,5) by (auto simp: fd_inv_def)
  moreover have "all_refs (tab(q := tab p)) = all_refs tab + fdrefs (tab p)" using A forks(3) by simp
  ultimately show ?case using forks(1,5) by (simp add: fd_inv_def)
next
  case (exits p tab s t)
  show ?case by (rule fd_call_inv[OF exits(3,1)]) (use close_all_ok exits(2) in fastforce)
qed

definition no_fds :: "nat \<Rightarrow> nat option list" where
  "no_fds p = replicate NOFILE None"

definition ftable_init :: "'m \<Rightarrow> 'm fstate" where
  "ftable_init m = \<lparr>ft_file = replicate NFILE \<lparr>f_type = FD_NONE, f_ref = 0, f_readable = False, f_writable = False, f_pipe = None, f_ip = None, f_off = 0\<rparr>, ft_env = m\<rparr>"

lemma fd_init: "fops_total ops \<Longrightarrow> fd_inv ops (no_fds, ftable_init m)"
  by (simp add: fd_inv_def no_fds_def ftable_init_def files_ok_def all_refs_def file_ok_def)

lemma fd_reach_inv: "(fdstep ops)\<^sup>*\<^sup>* (no_fds, ftable_init m) x \<Longrightarrow> fops_total ops \<Longrightarrow> fd_inv ops x"
  by (induction rule: rtranclp_induct) (auto intro: fd_init fdstep_inv)


section \<open>Writing in pieces\<close>

definition overwrite :: "u8 list \<Rightarrow> nat \<Rightarrow> u8 list \<Rightarrow> u8 list" where
  "overwrite c off bs = take off c @ bs @ drop (off + length bs) c"

text \<open>
  What \<open>filewrite\<close> relies on: a transaction has room for a piece of \<open>max_chunk\<close> bytes, \<open>writei\<close> writes such a piece
  inside the maximal file size, and the other operations leave the contents of files alone.
\<close>

definition writei_contract :: "('m, 'st) fops \<Rightarrow> ('m \<Rightarrow> nat \<Rightarrow> u8 list) \<Rightarrow> nat \<Rightarrow> bool" where
  "writei_contract ops content cap \<longleftrightarrow>
     (\<forall>m ip bs off n. 0 < n \<longrightarrow> n \<le> max_chunk \<longrightarrow> length bs = nat n \<longrightarrow> unat off \<le> length (content m ip) \<longrightarrow> unat off + nat n \<le> cap \<longrightarrow>
        (\<exists>m'. fo_writei ops ip bs off n m = Inr (n, m') \<and> content m' = (content m)(ip := overwrite (content m ip) (unat off) bs))) \<and>
     (\<forall>m. (\<exists>m'. fo_begin_op ops m = Inr m' \<and> content m' = content m) \<and> (\<exists>m'. fo_end_op ops m = Inr m' \<and> content m' = content m)) \<and>
     (\<forall>m ip. (\<exists>m'. fo_ilock ops ip m = Inr m' \<and> content m' = content m) \<and> (\<exists>m'. fo_iunlock ops ip m = Inr m' \<and> content m' = content m))"

lemma overwrite_append: "off \<le> length c \<Longrightarrow> overwrite (overwrite c off a) (off + length a) b = overwrite c off (a @ b)"
  by (simp add: overwrite_def ac_simps)

lemma overwrite_Nil: "overwrite c off [] = c"
  by (simp add: overwrite_def)

lemma length_overwrite: "off \<le> length c \<Longrightarrow> off + length bs \<le> length (overwrite c off bs)"
  by (simp add: overwrite_def)

lemma on_env_keeps:
  assumes "\<exists>m'. g (ft_env s) = Inr m' \<and> content m' = content (ft_env s)"
  obtains t where "on_env g s = Inr t" "ft_file t = ft_file s" "content (ft_env t) = content (ft_env s)"
  using assms by (auto simp: on_env_def)

lemma chunk_step:
  assumes c: "writei_contract ops content cap" and n1: "0 < n1" "n1 \<le> max_chunk" "length bs = nat n1"
    and off: "unat (f_off (ft_file s ! i)) \<le> length (content (ft_env s) ip)" "unat (f_off (ft_file s ! i)) + nat n1 \<le> cap"
  obtains t where "bindE (on_env (fo_begin_op ops) s) (\<lambda>s. bindE (on_env (fo_ilock ops ip) s) (\<lambda>s.
        bindE (on_env' (fo_writei ops ip bs (f_off (ft_file s ! i)) n1) s) (\<lambda>(r, s).
        let s = (if r > 0 then upd_file i (\<lambda>f. f\<lparr>f_off := f_off f + of_int r\<rparr>) s else s) in
        bindE (on_env (fo_iunlock ops ip) s) (\<lambda>s. bindE (on_env (fo_end_op ops) s) (\<lambda>s. g r s))))) = g n1 t"
    "ft_file t = ft_file (upd_file i (\<lambda>f. f\<lparr>f_off := f_off f + of_int n1\<rparr>) s)"
    "content (ft_env t) = (content (ft_env s))(ip := overwrite (content (ft_env s) ip) (unat (f_off (ft_file s ! i))) bs)"
proof -
  have l: "\<exists>m'. fo_begin_op ops m = Inr m' \<and> content m' = content m" "\<exists>m'. fo_end_op ops m = Inr m' \<and> content m' = content m"
    "\<exists>m'. fo_ilock ops ip m = Inr m' \<and> content m' = content m" "\<exists>m'. fo_iunlock ops ip m = Inr m' \<and> content m' = content m" for m
    using c unfolding writei_contract_def by simp_all
  obtain s1 where s1: "on_env (fo_begin_op ops) s = Inr s1" "ft_file s1 = ft_file s" "content (ft_env s1) = content (ft_env s)" by (rule on_env_keeps[of "fo_begin_op ops" s content, OF l(1)])
  obtain s2 where s2: "on_env (fo_ilock ops ip) s1 = Inr s2" "ft_file s2 = ft_file s1" "content (ft_env s2) = content (ft_env s1)" by (rule on_env_keeps[of "fo_ilock ops ip" s1 content, OF l(3)])
  obtain m where m: "fo_writei ops ip bs (f_off (ft_file s ! i)) n1 (ft_env s2) = Inr (n1, m)"
      "content m = (content (ft_env s))(ip := overwrite (content (ft_env s) ip) (unat (f_off (ft_file s ! i))) bs)"
    using c n1 off s1(3) s2(3) unfolding writei_contract_def by metis
  define s3 where "s3 = upd_file i (\<lambda>f. f\<lparr>f_off := f_off f + of_int n1\<rparr>) (s2\<lparr>ft_env := m\<rparr>)"
  obtain s4 where s4: "on_env (fo_iunlock ops ip) s3 = Inr s4" "ft_file s4 = ft_file s3" "content (ft_env s4) = content (ft_env s3)" by (rule on_env_keeps[of "fo_iunlock ops ip" s3 content, OF l(4)])
  obtain s5 where s5: "on_env (fo_end_op ops) s4 = Inr s5" "ft_file s5 = ft_file s4" "content (ft_env s5) = content (ft_env s4)" by (rule on_env_keeps[of "fo_end_op ops" s4 content, OF l(2)])
  show ?thesis
    by (rule that[of s5]) (use s1 s2 m s4 s5 n1(1) in \<open>simp_all add: on_env'_def Let_def s3_def upd_file_def\<close>)
qed

lemma unat_off_add: "0 \<le> k \<Longrightarrow> unat (off :: u32) + nat k < 2 ^ 32 \<Longrightarrow> unat (off + of_int k) = unat off + nat k"
proof -
  assume k: "0 \<le> k" "unat off + nat k < 2 ^ 32"
  have "unat (of_nat (nat k) :: u32) = nat k" using k(2) by (simp add: unat_of_nat)
  moreover have "of_int k = (of_nat (nat k) :: u32)" using k(1) by simp
  ultimately show "unat (off + of_int k) = unat off + nat k" using k(2) by (simp add: unat_word_ariths(1))
qed

lemma filewrite_loop_ok:
  assumes c: "writei_contract ops content cap" and i: "i < length (ft_file s)" and len: "nat n \<le> length addr"
    and off: "unat off \<le> length (content (ft_env s0) ip)" "unat off + nat n \<le> cap" "cap < 2 ^ 32" and k: "0 \<le> k" "k \<le> n"
    and inv: "f_off (ft_file s ! i) = off + of_int k"
      "content (ft_env s) = (content (ft_env s0))(ip := overwrite (content (ft_env s0) ip) (unat off) (take (nat k) addr))"
  shows "\<exists>t. filewrite_loop ops i ip addr n k s = Inr (n, t) \<and> f_off (ft_file t ! i) = off + of_int n \<and>
    content (ft_env t) = (content (ft_env s0))(ip := overwrite (content (ft_env s0) ip) (unat off) (take (nat n) addr))"
  using i k inv
proof (induction "nat (n - k)" arbitrary: k s rule: less_induct)
  case less
  show ?case
  proof (cases "k < n")
    case True
    define n1 where "n1 = (if n - k > max_chunk then max_chunk else n - k)"
    define bs where "bs = take (nat n1) (drop (nat k) addr)"
    have n1: "0 < n1" "n1 \<le> max_chunk" "k + n1 \<le> n" using True by (auto simp: n1_def max_chunk_def MAXOPBLOCKS_def)
    have bs: "length bs = nat n1" using n1 less.prems(2) len by (simp add: bs_def)
    have fit: "unat off + nat k < 2 ^ 32" using off True less.prems(2) by linarith
    have o: "unat (f_off (ft_file s ! i)) = unat off + nat k"
      unfolding less.prems(4) by (rule unat_off_add[OF less.prems(2) fit])
    have cs: "content (ft_env s) ip = overwrite (content (ft_env s0) ip) (unat off) (take (nat k) addr)" using less.prems(5) by simp
    have lk: "length (take (nat k) addr) = nat k" using True len by simp
    have pre: "unat (f_off (ft_file s ! i)) \<le> length (content (ft_env s) ip)" "unat (f_off (ft_file s ! i)) + nat n1 \<le> cap"
      using length_overwrite[OF off(1), of "take (nat k) addr"] off n1 less.prems(2) unfolding o cs lk by linarith+
    have app: "overwrite (content (ft_env s) ip) (unat off + nat k) bs = overwrite (content (ft_env s0) ip) (unat off) (take (nat (k + n1)) addr)"
      using overwrite_append[OF off(1), of "take (nat k) addr" bs] less.prems(2) n1
      unfolding cs lk bs_def by (simp add: take_add[symmetric] nat_add_distrib)
    let ?g = "\<lambda>r s. if r < 0 then Inr (- 1, s) else if r \<noteq> n1 then Inl (Panic ''short filewrite'') else filewrite_loop ops i ip addr n (k + n1) s"
    obtain t where t: "bindE (on_env (fo_begin_op ops) s) (\<lambda>s. bindE (on_env (fo_ilock ops ip) s) (\<lambda>s.
        bindE (on_env' (fo_writei ops ip bs (f_off (ft_file s ! i)) n1) s) (\<lambda>(r, s).
        let s = (if r > 0 then upd_file i (\<lambda>f. f\<lparr>f_off := f_off f + of_int r\<rparr>) s else s) in
        bindE (on_env (fo_iunlock ops ip) s) (\<lambda>s. bindE (on_env (fo_end_op ops) s) (\<lambda>s. ?g r s))))) = ?g n1 t"
      "ft_file t = ft_file (upd_file i (\<lambda>f. f\<lparr>f_off := f_off f + of_int n1\<rparr>) s)"
      "content (ft_env t) = (content (ft_env s))(ip := overwrite (content (ft_env s) ip) (unat off + nat k) bs)"
      by (rule chunk_step[OF c n1(1,2) bs pre, of ?g, unfolded o])
    have "filewrite_loop ops i ip addr n k s = filewrite_loop ops i ip addr n (k + n1) t"
      using True t(1) n1(1) unfolding filewrite_loop.simps[of ops i ip addr n k s] by (simp add: Let_def n1_def[symmetric] bs_def[symmetric])
    moreover have "nat (n - (k + n1)) < nat (n - k)" "i < length (ft_file t)" "0 \<le> k + n1" "f_off (ft_file t ! i) = off + of_int (k + n1)"
      "content (ft_env t) = (content (ft_env s0))(ip := overwrite (content (ft_env s0) ip) (unat off) (take (nat (k + n1)) addr))"
      using True n1 less.prems app t(2,3) by simp_all
    ultimately show ?thesis using less.hyps[of "k + n1" t] n1(3) by simp
  next
    case False
    then show ?thesis using less.prems unfolding filewrite_loop.simps[of ops i ip addr n k s] by simp
  qed
qed


section \<open>Examples\<close>

definition demo_ops :: "(nat \<Rightarrow> u8 list, unit) fops" where
  "demo_ops = \<lparr>fo_pipeclose = \<lambda>p w m. Inr m, fo_piperead = \<lambda>p n m. Inr ((0, []), m), fo_pipewrite = \<lambda>p bs n m. Inr (n, m),
     fo_pipe_init = \<lambda>p m. m, fo_kalloc = \<lambda>m. Inr (4096, m), fo_kfree = \<lambda>p m. Inr m, fo_begin_op = Inr, fo_end_op = Inr,
     fo_ilock = \<lambda>ip. Inr, fo_iunlock = \<lambda>ip. Inr, fo_iput = \<lambda>ip. Inr, fo_readi = \<lambda>ip off n m. Inr ((0, []), m),
     fo_writei = \<lambda>ip bs off n m. Inr (n, m(ip := overwrite (m ip) (unat off) bs)), fo_stati = \<lambda>ip m. (), fo_isize = \<lambda>ip m. of_nat (length (m ip))\<rparr>"

lemma demo_ops_total: "fops_total demo_ops"
  by (simp add: fops_total_def demo_ops_def is_ok_def)

lemma demo_ops_contract: "writei_contract demo_ops id cap"
  by (simp add: writei_contract_def demo_ops_def)

definition demo_fs :: "(nat \<Rightarrow> u8 list) fstate" where
  "demo_fs = upd_file 0 (\<lambda>f. f\<lparr>f_type := FD_INODE, f_ref := 1, f_writable := True, f_ip := Some 7\<rparr>) (ftable_init (\<lambda>ip. [1, 2, 3]))"


lemma find_idx_replicate: "0 < n \<Longrightarrow> P x \<Longrightarrow> find_idx P (replicate n x) = Some 0"
  by (simp add: find_idx_Some)

definition demo_tab :: "nat \<Rightarrow> nat option list" where
  "demo_tab = no_fds(3 := (replicate NOFILE None)[0 := Some 0])"

lemma fd_demo_open: "\<exists>t. fdstep demo_ops (no_fds, ftable_init m) (demo_tab, t) \<and> f_ref (ft_file t ! 0) = 1"
  unfolding demo_tab_def
  by (rule exI, rule conjI, rule fdstep.opens[where ip = 1 and omode = 0])
    ((simp_all add: open_inode_def filealloc_def ftable_init_def NFILE_def no_fds_def find_idx_replicate demo_ops_def on_env_def fdalloc_def upd_file_def)[2], simp)

lemma fd_demo_fork:
  assumes "f_ref (ft_file s ! 0) = 1"
  shows "\<exists>t. fdstep demo_ops (demo_tab, s) (demo_tab(5 := demo_tab 3), t)"
  by (rule exI, rule fdstep.forks) (use assms in \<open>simp_all add: demo_tab_def no_fds_def filedup_def numeral_eq_Suc\<close>)


end
