(* ===== verification/Syscall.thy ===== *)
theory Syscall
  imports Kalloc File
begin

text \<open>
  The way into the kernel (\<^verbatim>\<open>syscall.c\<close>, the argument checks of \<^verbatim>\<open>sysfile.c\<close> and \<^verbatim>\<open>sysproc.c\<close>): fetching
  integers, buffers and strings that user code passes, the calls that move bytes between files and user memory, the
  collection of the arguments of \<open>exec\<close>, \<open>sbrk\<close>, and the dispatcher. The record \<open>ustate\<close> holds what the code
  reads of the current process. Its memory is what the kernel sees through the page table of the process: an address
  without an entry is one whose page fault the kernel cannot serve, which ends in the panic of \<open>trap\<close>.
\<close>

section \<open>Data\<close>

datatype logev = LStr "u8 list" | LInt "int option" | LBuf int "u8 list" | LNull | LCall string | LEnd | LUnknown int int

record 'm ustate =
  y_sz :: u32
  y_esp :: u32
  y_eax :: u32
  y_pid :: int
  y_ofile :: "nat option list"
  y_mem :: "u32 \<Rightarrow> u8 option"
  y_log :: bool
  y_out :: "logev list"
  y_fs :: "'m fstate"

definition emit :: "logev \<Rightarrow> 'm ustate \<Rightarrow> 'm ustate" where
  "emit e s = s\<lparr>y_out := y_out s @ [e]\<rparr>"

definition kread :: "(u32 \<Rightarrow> u8 option) \<Rightarrow> u32 \<Rightarrow> u8 res" where
  "kread m a = (case m a of None \<Rightarrow> Inl (Panic ''trap'') | Some b \<Rightarrow> Inr b)"

definition kread32 :: "(u32 \<Rightarrow> u8 option) \<Rightarrow> u32 \<Rightarrow> u32 res" where
  "kread32 m a =
     bindE (kread m a) (\<lambda>b0. bindE (kread m (a + 1)) (\<lambda>b1. bindE (kread m (a + 2)) (\<lambda>b2. bindE (kread m (a + 3)) (\<lambda>b3.
     Inr (ucast b0 + ucast b1 * 0x100 + ucast b2 * 0x10000 + ucast b3 * 0x1000000)))))"

definition kwrite :: "u32 \<Rightarrow> u8 \<Rightarrow> (u32 \<Rightarrow> u8 option) \<Rightarrow> (u32 \<Rightarrow> u8 option) res" where
  "kwrite a b m = (case m a of None \<Rightarrow> Inl (Panic ''trap'') | Some _ \<Rightarrow> Inr (m(a \<mapsto> b)))"

fun kstore :: "u32 \<Rightarrow> u8 list \<Rightarrow> (u32 \<Rightarrow> u8 option) \<Rightarrow> (u32 \<Rightarrow> u8 option) res" where
  "kstore a [] m = Inr m"
| "kstore a (b # bs) m = bindE (kwrite a b m) (kstore (a + 1) bs)"

fun kload :: "u32 \<Rightarrow> nat \<Rightarrow> (u32 \<Rightarrow> u8 option) \<Rightarrow> u8 list res" where
  "kload a 0 m = Inr []"
| "kload a (Suc n) m = bindE (kread m a) (\<lambda>b. bindE (kload (a + 1) n m) (\<lambda>bs. Inr (b # bs)))"

text \<open>What \<open>%s\<close> of \<open>cprintf\<close> reads; no string is longer than the address space.\<close>

primrec kstr :: "nat \<Rightarrow> (u32 \<Rightarrow> u8 option) \<Rightarrow> u32 \<Rightarrow> u8 list res" where
  "kstr 0 m a = Inl (Hang ''cprintf'')"
| "kstr (Suc k) m a = bindE (kread m a) (\<lambda>b. if b = 0 then Inr [] else bindE (kstr k m (a + 1)) (\<lambda>bs. Inr (b # bs)))"

section \<open>Arguments\<close>

definition fetchint :: "u32 \<Rightarrow> 'm ustate \<Rightarrow> int option res" where
  "fetchint addr s =
     (if addr \<ge> y_sz s \<or> addr + 4 > y_sz s then Inr None
      else bindE (kread32 (y_mem s) addr) (\<lambda>w. Inr (Some (sint w))))"

function fetchstr_loop :: "(u32 \<Rightarrow> u8 option) \<Rightarrow> u32 \<Rightarrow> u32 \<Rightarrow> u32 option res" where
  "fetchstr_loop m ep s =
     (if s < ep then bindE (kread m s) (\<lambda>c. if c = 0 then Inr (Some s) else fetchstr_loop m ep (s + 1)) else Inr None)"
  by pat_completeness auto
termination
proof (relation "measure (\<lambda>(m, ep, s). unat ep - unat s)")
  fix m :: "u32 \<Rightarrow> u8 option" and ep s :: u32 and c :: u8
  assume lt: "s < ep"
  then have "unat s < unat ep" by (simp add: word_less_nat_alt)
  then show "((m, ep, s + 1), (m, ep, s)) \<in> measure (\<lambda>(m, ep, s). unat ep - unat s)"
    using unat_add_mod[of s 1] unat_u32_lt[of ep] by simp
qed simp

declare fetchstr_loop.simps [simp del]

definition fetchstr :: "u32 \<Rightarrow> 'm ustate \<Rightarrow> ((int \<times> u32) \<times> 'm ustate) res" where
  "fetchstr addr s =
     (if addr \<ge> y_sz s then Inr ((- 1, 0), s)
      else bindE (fetchstr_loop (y_mem s) (y_sz s) addr) (\<lambda>r.
        case r of
          None \<Rightarrow> Inr ((- 1, addr), s)
        | Some e \<Rightarrow>
            if y_log s then bindE (kload addr (unat (e - addr)) (y_mem s)) (\<lambda>bs. Inr ((sint (e - addr), addr), emit (LStr bs) s))
            else Inr ((sint (e - addr), addr), s)))"

definition argint :: "int \<Rightarrow> 'm ustate \<Rightarrow> (int option \<times> 'm ustate) res" where
  "argint n s =
     bindE (fetchint (y_esp s + 4 + 4 * of_int n) s) (\<lambda>r. Inr (r, if y_log s then emit (LInt r) s else s))"

definition argptr :: "int \<Rightarrow> int \<Rightarrow> 'm ustate \<Rightarrow> ((int \<times> u32) \<times> 'm ustate) res" where
  "argptr n len s =
     (let old = y_log s in
      bindE (argint n (s\<lparr>y_log := False\<rparr>)) (\<lambda>(r, s).
      case r of
        None \<Rightarrow> Inr ((- 1, 0), s)
      | Some i \<Rightarrow>
          if i < int PGSIZE then Inr ((- 2, 0), emit LNull s)
          else
            let s = s\<lparr>y_log := old\<rparr>; p = of_int i in
            if len < 0 \<or> p \<ge> y_sz s \<or> p + of_int len > y_sz s then Inr ((- 1, 0), s)
            else if y_log s then
              bindE (kread (y_mem s) p) (\<lambda>c. bindE (kstr (2 ^ 32) (y_mem s) p) (\<lambda>bs. Inr ((0, p), emit (LBuf (sint c) bs) s)))
            else Inr ((0, p), s)))"

definition argstr :: "int \<Rightarrow> 'm ustate \<Rightarrow> ((int \<times> u32) \<times> 'm ustate) res" where
  "argstr n s =
     bindE (argint n s) (\<lambda>(r, s). case r of None \<Rightarrow> Inr ((- 1, 0), s) | Some addr \<Rightarrow> fetchstr (of_int addr) s)"

definition argfd_n :: "int \<Rightarrow> 'm ustate \<Rightarrow> ((nat \<times> nat) option \<times> 'm ustate) res" where
  "argfd_n n s = bindE (argint n s) (\<lambda>(r, s). Inr (case r of None \<Rightarrow> None | Some fd \<Rightarrow> argfd fd (y_ofile s), s))"

section \<open>Calls\<close>

definition on_fs :: "('m fstate \<Rightarrow> ('a \<times> 'm fstate) res) \<Rightarrow> 'm ustate \<Rightarrow> ('a \<times> 'm ustate) res" where
  "on_fs g s = bindE (g (y_fs s)) (\<lambda>(x, t). Inr (x, s\<lparr>y_fs := t\<rparr>))"

text \<open>The check that \<open>sys_read\<close> and \<open>sys_write\<close> begin with: the descriptor, the length and the buffer.\<close>

definition rw_args :: "'m ustate \<Rightarrow> ((nat \<times> int \<times> u32) option \<times> 'm ustate) res" where
  "rw_args s =
     bindE (argfd_n 0 s) (\<lambda>(r, s). case r of None \<Rightarrow> Inr (None, s) | Some (_, f) \<Rightarrow>
     bindE (argint 2 s) (\<lambda>(r, s). case r of None \<Rightarrow> Inr (None, s) | Some n \<Rightarrow>
     bindE (argptr 1 n s) (\<lambda>((r, p), s). Inr (if r < 0 then None else Some (f, n, p), s))))"

definition sys_read :: "('m, 'st) fops \<Rightarrow> 'm ustate \<Rightarrow> (int \<times> 'm ustate) res" where
  "sys_read ops s =
     bindE (rw_args s) (\<lambda>(a, s). case a of None \<Rightarrow> Inr (- 1, s) | Some (f, n, p) \<Rightarrow>
     bindE (on_fs (fileread ops f n) s) (\<lambda>((r, bs), s).
     bindE (kstore p bs (y_mem s)) (\<lambda>m. Inr (r, s\<lparr>y_mem := m\<rparr>))))"

definition sys_write :: "('m, 'st) fops \<Rightarrow> 'm ustate \<Rightarrow> (int \<times> 'm ustate) res" where
  "sys_write ops s =
     bindE (rw_args s) (\<lambda>(a, s). case a of None \<Rightarrow> Inr (- 1, s) | Some (f, n, p) \<Rightarrow>
     bindE (kload p (nat n) (y_mem s)) (\<lambda>bs. on_fs (filewrite ops f bs n) s))"

text \<open>The pointer to the argument array of \<open>exec\<close> is followed until its null pointer; \<open>k\<close> counts up to \<open>MAXARG\<close>.\<close>

definition MAXARG :: nat where "MAXARG = 32"

function exec_args :: "u32 \<Rightarrow> nat \<Rightarrow> u32 list \<Rightarrow> 'm ustate \<Rightarrow> (u32 list option \<times> 'm ustate) res" where
  "exec_args uargv i argv s =
     (if i \<ge> MAXARG then Inr (None, s)
      else bindE (fetchint (uargv + 4 * of_nat i) s) (\<lambda>r.
        case r of
          None \<Rightarrow> Inr (None, s)
        | Some uarg \<Rightarrow>
            if uarg = 0 then Inr (Some argv, s)
            else bindE (fetchstr (of_int uarg) s) (\<lambda>((r, p), s).
              if r < 0 then Inr (None, s) else exec_args uargv (Suc i) (argv @ [p]) s)))"
  by pat_completeness auto
termination by (relation "measure (\<lambda>(uargv, i, argv, s). MAXARG - i)") auto

declare exec_args.simps [simp del]

definition sys_exec :: "(u32 \<Rightarrow> u32 list \<Rightarrow> 'm ustate \<Rightarrow> (int \<times> 'm ustate) res) \<Rightarrow> 'm ustate \<Rightarrow> (int \<times> 'm ustate) res" where
  "sys_exec exec s =
     bindE (argstr 0 s) (\<lambda>((r, path), s). if r < 0 then Inr (- 1, s) else
     bindE (argint 1 s) (\<lambda>(r, s). case r of None \<Rightarrow> Inr (- 1, s) | Some uargv \<Rightarrow>
     bindE (exec_args (of_int uargv) 0 [] s) (\<lambda>(a, s). case a of None \<Rightarrow> Inr (- 1, s) | Some argv \<Rightarrow> exec path argv s)))"

definition sys_sbrk :: "(int \<Rightarrow> 'm ustate \<Rightarrow> (int \<times> 'm ustate) res) \<Rightarrow> 'm ustate \<Rightarrow> (int \<times> 'm ustate) res" where
  "sys_sbrk growproc s =
     bindE (argint 0 s) (\<lambda>(r, s). case r of None \<Rightarrow> Inr (- 1, s) | Some n \<Rightarrow>
     let addr = sint (y_sz s) in
     if n \<ge> 0 then Inr (addr, s\<lparr>y_sz := y_sz s + of_int n\<rparr>)
     else bindE (growproc n s) (\<lambda>(r, s). if r < 0 then Inr (- 1, s) else Inr (addr, s)))"

definition sys_getpid :: "'m ustate \<Rightarrow> (int \<times> 'm ustate) res" where
  "sys_getpid s = Inr (y_pid s, s)"

definition sys_toggleLogging :: "'m ustate \<Rightarrow> (int \<times> 'm ustate) res" where
  "sys_toggleLogging s = Inr (0, s\<lparr>y_log := \<not> y_log s\<rparr>)"

section \<open>Dispatch\<close>

datatype sysname = SYS_fork | SYS_exit | SYS_wait | SYS_pipe | SYS_read | SYS_kill | SYS_exec | SYS_fstat | SYS_chdir
  | SYS_dup | SYS_getpid | SYS_sbrk | SYS_sleep | SYS_uptime | SYS_open | SYS_write | SYS_mknod | SYS_unlink | SYS_link
  | SYS_mkdir | SYS_close | SYS_date | SYS_toggleLogging | SYS_state | SYS_swap

text \<open>The handlers in the order of their numbers, from 1, and the names that tracing prints.\<close>

definition syscalls :: "sysname list" where
  "syscalls = [SYS_fork, SYS_exit, SYS_wait, SYS_pipe, SYS_read, SYS_kill, SYS_exec, SYS_fstat, SYS_chdir, SYS_dup, SYS_getpid,
     SYS_sbrk, SYS_sleep, SYS_uptime, SYS_open, SYS_write, SYS_mknod, SYS_unlink, SYS_link, SYS_mkdir, SYS_close, SYS_date,
     SYS_toggleLogging, SYS_state, SYS_swap]"

definition syscall_names :: "string list" where
  "syscall_names = [''fork'', ''exit'', ''wait'', ''pipe'', ''read'', ''kill'', ''exec'', ''fstat'', ''chdir'', ''dup'', ''getpid'',
     ''sbrk'', ''sleep'', ''uptime'', ''open'', ''write'', ''mknod'', ''unlink'', ''link'', ''mkdir'', ''close'', ''date'',
     ''toggleLogging'', ''state'', ''swap'']"

definition syscall :: "(sysname \<Rightarrow> 'm ustate \<Rightarrow> (int \<times> 'm ustate) res) \<Rightarrow> 'm ustate \<Rightarrow> 'm ustate res" where
  "syscall handler s =
     (let num = sint (y_eax s) in
      if num > 0 \<and> num < int (Suc (length syscalls)) then
        let s = (if y_log s then emit (LCall (syscall_names ! nat (num - 1))) s else s) in
        bindE (handler (syscalls ! nat (num - 1)) s) (\<lambda>(r, s).
        let s = s\<lparr>y_eax := of_int r\<rparr> in Inr (if y_log s then emit LEnd s else s))
      else Inr ((emit (LUnknown (y_pid s) num) s)\<lparr>y_eax := - 1\<rparr>))"

section \<open>What the checks promise\<close>

definition user_buf :: "'m ustate \<Rightarrow> u32 \<Rightarrow> nat \<Rightarrow> bool" where
  "user_buf s p n \<longleftrightarrow> PGSIZE \<le> unat p \<and> unat p + n \<le> unat (y_sz s)"

definition user_str :: "'m ustate \<Rightarrow> u32 \<Rightarrow> u8 list \<Rightarrow> bool" where
  "user_str s p bs \<longleftrightarrow> unat p + length bs < unat (y_sz s) \<and> 0 \<notin> set bs \<and>
     (\<forall>k < length bs. y_mem s (p + of_nat k) = Some (bs ! k)) \<and> y_mem s (p + of_nat (length bs)) = Some 0"

text \<open>Fetching leaves everything but the trace alone.\<close>

definition same :: "'m ustate \<Rightarrow> 'm ustate \<Rightarrow> bool" where
  "same s t \<longleftrightarrow> y_sz t = y_sz s \<and> y_esp t = y_esp s \<and> y_eax t = y_eax s \<and> y_pid t = y_pid s \<and> y_ofile t = y_ofile s \<and>
     y_mem t = y_mem s \<and> y_fs t = y_fs s"

lemma same_refl [simp]: "same s s"
  by (simp add: same_def)

lemma same_trans: "same s t \<Longrightarrow> same t u \<Longrightarrow> same s u"
  by (simp add: same_def)

lemma same_emit [simp]: "same s (emit e t) = same s t" "same s (t\<lparr>y_log := b\<rparr>) = same s t" "same (s\<lparr>y_log := b\<rparr>) t = same s t"
  by (simp_all add: same_def emit_def)

lemma same_user: "same s t \<Longrightarrow> user_buf t p n = user_buf s p n" "same s t \<Longrightarrow> user_str t p bs = user_str s p bs"
  by (simp_all add: same_def user_buf_def user_str_def)

lemma argint_same: "argint n s = Inr (r, t) \<Longrightarrow> same s t"
  by (auto simp: argint_def bindE_Inr_iff split: if_splits)

lemma fetchint_range: "fetchint a s = Inr (Some i) \<Longrightarrow> - (2 ^ 31) \<le> i \<and> i < 2 ^ 31"
  using sint_greater_eq[where 'a = 32] sint_less[where 'a = 32] by (auto simp: fetchint_def bindE_Inr_iff split: if_splits)

lemma argint_range: "argint n s = Inr (Some i, t) \<Longrightarrow> - (2 ^ 31) \<le> i \<and> i < 2 ^ 31"
  by (auto simp: argint_def bindE_Inr_iff dest: fetchint_range)

lemma fetchstr_loop_spec:
  "fetchstr_loop m ep s = Inr (Some e) \<Longrightarrow> \<exists>bs. e = s + of_nat (length bs) \<and> unat s + length bs < unat ep \<and> 0 \<notin> set bs \<and>
     (\<forall>k < length bs. m (s + of_nat k) = Some (bs ! k)) \<and> m (s + of_nat (length bs)) = Some 0"
proof (induction m ep s rule: fetchstr_loop.induct)
  case (1 m ep s)
  obtain c where lt: "s < ep" and c: "kread m s = Inr c" and k: "(if c = 0 then Inr (Some s) else fetchstr_loop m ep (s + 1)) = Inr (Some e)"
    using 1(2) by (subst (asm) fetchstr_loop.simps) (auto simp: bindE_Inr_iff split: if_splits)
  have ms: "m s = Some c" using c by (auto simp: kread_def split: option.splits)
  have lt': "unat s < unat ep" using lt by (simp add: word_less_nat_alt)
  have s1: "unat (s + 1) = unat s + 1" using lt' unat_add_mod[of s 1] unat_u32_lt[of ep] by simp
  show ?case
  proof (cases "c = 0")
    case True
    then show ?thesis using k ms lt' by (intro exI[of _ "[]"]) simp
  next
    case False
    have "\<exists>bs. e = s + 1 + of_nat (length bs) \<and> unat (s + 1) + length bs < unat ep \<and> 0 \<notin> set bs \<and>
       (\<forall>k < length bs. m (s + 1 + of_nat k) = Some (bs ! k)) \<and> m (s + 1 + of_nat (length bs)) = Some 0"
      by (rule 1(1)[OF lt c False]) (use k False in simp)
    then obtain bs where bs: "e = s + 1 + of_nat (length bs)" "unat (s + 1) + length bs < unat ep" "0 \<notin> set bs"
       "\<forall>k < length bs. m (s + 1 + of_nat k) = Some (bs ! k)" "m (s + 1 + of_nat (length bs)) = Some 0" by blast
    have "m (s + of_nat k) = Some ((c # bs) ! k)" if "k < length (c # bs)" for k
      using that bs(4) ms by (cases k) (simp_all add: add.assoc)
    then show ?thesis using bs False s1 by (intro exI[of _ "c # bs"]) (simp add: add.assoc)
  qed
qed

lemma fetchstr_spec:
  assumes f: "fetchstr a s = Inr ((r, p), t)"
  shows "same s t \<and> (0 \<le> r \<longrightarrow> p = a \<and> (y_sz s \<le> KERNBASE \<longrightarrow> (\<exists>bs. int (length bs) = r \<and> user_str s p bs)))"
proof (cases "r < 0")
  case True
  then show ?thesis using f by (auto simp: fetchstr_def bindE_Inr_iff split: if_splits option.splits)
next
  case False
  then obtain e where e: "fetchstr_loop (y_mem s) (y_sz s) a = Inr (Some e)" "r = sint (e - a)" "p = a" "same s t"
    using f by (auto simp: fetchstr_def bindE_Inr_iff split: if_splits option.splits)
  obtain bs where bs: "e = a + of_nat (length bs)" "unat a + length bs < unat (y_sz s)" "user_str s a bs"
    using fetchstr_loop_spec[OF e(1)] by (auto simp: user_str_def)
  have "int (length bs) = r" if "y_sz s \<le> KERNBASE"
  proof -
    have "unat (y_sz s) \<le> 2 ^ 31" using that by (simp add: word_le_nat_alt KERNBASE_def)
    then have l: "length bs < 2 ^ 31" using bs(2) by linarith
    have "sint (of_nat (length bs) :: u32) = int (length bs)"
      using l by (simp add: signed_of_nat signed_take_bit_int_eq_self)
    then show ?thesis using e(2) bs(1) by simp
  qed
  then show ?thesis using e bs(3) by auto
qed

lemma argptr_spec:
  assumes a: "argptr n len s = Inr ((r, p), t)" and len: "len < 2 ^ 31"
  shows "same s t \<and> (0 \<le> r \<longrightarrow> 0 \<le> len \<and> unat p < 2 ^ 31 \<and> user_buf s p (nat len))"
proof -
  obtain i t' where i: "argint n (s\<lparr>y_log := False\<rparr>) = Inr (i, t')" using a by (auto simp: argptr_def Let_def bindE_Inr_iff)
  have s': "same s t'" using argint_same[OF i] by simp
  show ?thesis
  proof (cases "r < 0")
    case True
    then show ?thesis using a i s' by (auto simp: argptr_def Let_def split: option.splits if_splits simp: bindE_Inr_iff)
  next
    case False
    then obtain k where k: "i = Some k" "int PGSIZE \<le> k" "0 \<le> len" "of_int k < y_sz t'" "of_int k + of_int len \<le> y_sz t'" "p = of_int k" "same s t"
      using a i s' by (auto simp: argptr_def Let_def bindE_Inr_iff not_le not_less split: option.splits if_splits)
    have kr: "0 \<le> k" "k < 2 ^ 31" using argint_range i k(1,2) by auto
    have p: "unat p = nat k" using unat_off_add[of k 0] kr by (simp add: k(6))
    have "unat p + nat len < 2 ^ 32" using p kr len k(3) by simp
    then have "unat (p + of_int len) = unat p + nat len" by (rule unat_off_add[OF k(3)])
    moreover have "unat (p + of_int len) \<le> unat (y_sz s)" using k(5,6) s' by (simp add: word_le_nat_alt[symmetric] same_def)
    moreover have "nat k < 2 ^ 31" "PGSIZE \<le> nat k" using k(2) kr by (simp_all add: nat_less_iff le_nat_iff)
    ultimately show ?thesis using k p by (simp add: user_buf_def)
  qed
qed

lemma argfd_n_same: "argfd_n n s = Inr (r, t) \<Longrightarrow> same s t"
  by (auto simp: argfd_n_def bindE_Inr_iff dest: argint_same)

lemma argstr_spec:
  assumes "argstr n s = Inr ((r, p), t)"
  shows "same s t \<and> (0 \<le> r \<longrightarrow> y_sz s \<le> KERNBASE \<longrightarrow> (\<exists>bs. int (length bs) = r \<and> user_str s p bs))"
proof -
  obtain i t' where i: "argint n s = Inr (i, t')" using assms by (auto simp: argstr_def bindE_Inr_iff)
  note s' = argint_same[OF i]
  show ?thesis
  proof (cases i)
    case None
    then show ?thesis using assms i s' by (auto simp: argstr_def)
  next
    case (Some k)
    then have "fetchstr (of_int k) t' = Inr ((r, p), t)" using assms i by (simp add: argstr_def)
    from fetchstr_spec[OF this] show ?thesis using s' same_trans same_user(2)[OF s'] by (auto simp: same_def)
  qed
qed

lemma rw_args_spec:
  assumes "rw_args s = Inr (a, t)"
  shows "same s t \<and> (\<forall>f n p. a = Some (f, n, p) \<longrightarrow> 0 \<le> n \<and> user_buf s p (nat n))"
proof -
  obtain r1 s1 where 1: "argfd_n 0 s = Inr (r1, s1)" using assms by (auto simp: rw_args_def bindE_Inr_iff)
  note m1 = argfd_n_same[OF 1]
  show ?thesis
  proof (cases r1)
    case None
    then show ?thesis using assms 1 m1 by (auto simp: rw_args_def)
  next
    case (Some x)
    obtain d f where x: "x = (d, f)" by fastforce
    obtain r2 s2 where 2: "argint 2 s1 = Inr (r2, s2)" using assms 1 Some x by (auto simp: rw_args_def bindE_Inr_iff)
    have m2: "same s s2" using m1 argint_same[OF 2] by (rule same_trans)
    show ?thesis
    proof (cases r2)
      case None
      then show ?thesis using assms 1 2 Some x m2 by (auto simp: rw_args_def)
    next
      case (Some n)
      obtain r p s3 where 3: "argptr 1 n s2 = Inr ((r, p), s3)" "a = (if r < 0 then None else Some (f, n, p))" "t = s3"
        using assms 1 2 \<open>r1 = Some x\<close> Some x by (auto simp: rw_args_def bindE_Inr_iff)
      have n: "n < 2 ^ 31" using argint_range 2 Some by blast
      from argptr_spec[OF 3(1) n] show ?thesis using same_trans[OF m2] same_user(1)[OF m2] 3(2,3) by (auto split: if_splits)
    qed
  qed
qed

lemma kstore_outside:
  "kstore a bs m = Inr m' \<Longrightarrow> unat a + length bs \<le> 2 ^ 32 \<Longrightarrow> m' x \<noteq> m x \<Longrightarrow> unat a \<le> unat x \<and> unat x < unat a + length bs"
proof (induction bs arbitrary: a m)
  case (Cons b bs)
  obtain m1 where m1: "kwrite a b m = Inr m1" "kstore (a + 1) bs m1 = Inr m'" using Cons.prems(1) by (auto simp: bindE_Inr_iff)
  have m1': "m1 = m(a \<mapsto> b)" using m1(1) by (auto simp: kwrite_def split: option.splits)
  show ?case
  proof (cases "m' x = m1 x")
    case True
    then show ?thesis using Cons.prems(3) m1' by (auto split: if_splits)
  next
    case False
    show ?thesis
    proof (cases bs)
      case Nil
      then show ?thesis using False m1(2) by simp
    next
      case (Cons c cs)
      have "unat (a + 1) = unat a + 1" using Cons.prems(2) Cons unat_add_mod[of a 1] by simp
      then show ?thesis using Cons.IH[OF m1(2) _ False] Cons.prems(2) by simp
    qed
  qed
qed simp

definition bounded_reads :: "('m, 'st) fops \<Rightarrow> bool" where
  "bounded_reads ops \<longleftrightarrow> (\<forall>p n m r bs m'. fo_piperead ops p n m = Inr ((r, bs), m') \<longrightarrow> length bs \<le> nat n) \<and>
     (\<forall>ip off n m r bs m'. fo_readi ops ip off n m = Inr ((r, bs), m') \<longrightarrow> length bs \<le> nat n)"

lemma fileread_bounded: "bounded_reads ops \<Longrightarrow> fileread ops f n s = Inr ((r, bs), t) \<Longrightarrow> length bs \<le> nat n"
  unfolding bounded_reads_def
  by (elim conjE) (auto simp: fileread_def Let_def deref_def on_env'_def bindE_Inr_iff split: if_splits option.splits; blast)


lemma exec_args_spec:
  assumes "exec_args u i argv s = Inr (a, t)" and "y_sz s \<le> KERNBASE"
  shows "same s t \<and> (\<forall>av. a = Some av \<longrightarrow> (\<forall>p \<in> set argv. \<exists>bs. user_str s p bs) \<longrightarrow> length argv = i \<longrightarrow>
    length av < MAXARG \<and> (\<forall>p \<in> set av. \<exists>bs. user_str s p bs))"
  using assms
proof (induction u i argv s rule: exec_args.induct)
  case (1 u i argv s)
  show ?case
  proof (cases "i \<ge> MAXARG")
    case True
    then show ?thesis using 1(2) by (simp add: exec_args.simps[of u i])
  next
    case i: False
    obtain x where x: "fetchint (u + 4 * of_nat i) s = Inr x" using 1(2) i by (auto simp: exec_args.simps[of u i] bindE_Inr_iff)
    show ?thesis
    proof (cases "x = None \<or> x = Some 0")
      case True
      then show ?thesis using 1(2) i x by (auto simp: exec_args.simps[of u i])
    next
      case False
      then obtain w where w: "x = Some w" "w \<noteq> 0" by auto
      obtain r p s1 where f: "fetchstr (of_int w) s = Inr ((r, p), s1)"
        using 1(2) i x w by (auto simp: exec_args.simps[of u i] bindE_Inr_iff)
      note fs = fetchstr_spec[OF f]
      have sm: "same s s1" using fs by blast
      show ?thesis
      proof (cases "r < 0")
        case True
        then show ?thesis using 1(2) i x w f sm by (auto simp: exec_args.simps[of u i])
      next
        case False
        have e: "exec_args u (Suc i) (argv @ [p]) s1 = Inr (a, t)" using 1(2) i x w f False by (simp add: exec_args.simps[of u i argv s])
        have p: "\<exists>bs. user_str s p bs" using fs False 1(3) by auto
        have "y_sz s1 \<le> KERNBASE" using sm 1(3) by (simp add: same_def)
        from 1(1)[OF i x w(1) w(2) f refl refl False e this] show ?thesis
          using p sm same_trans[OF sm] same_user(2)[OF sm] by auto
      qed
    qed
  qed
qed


text \<open>C33. \<open>sbrk\<close> undoes these checks: it adds any positive amount to the size of the process without comparing it with
  \<open>KERNBASE\<close>, and from then on \<open>argptr\<close> accepts a buffer that begins in the last user page and ends in kernel memory.
\<close>

theorem sbrk_exposes_kernel:
  assumes log: "\<not> y_log s" and n: "argint 0 s = Inr (Some n, s)" "0 \<le> n" and fit: "unat (y_sz s) + nat n < 2 ^ 32"
    and big: "0x80000000 < unat (y_sz s) + nat n"
  shows "\<exists>t. sys_sbrk growproc s = Inr (sint (y_sz s), t) \<and> y_sz t > KERNBASE \<and>
    (\<forall>k. argint k t = Inr (Some 0x7FFFF000, t) \<longrightarrow> argptr k 0x1001 t = Inr ((0, KERNBASE - 0x1000), t))"
proof -
  let ?t = "s\<lparr>y_sz := y_sz s + of_int n\<rparr>"
  have u: "unat (y_sz ?t) = unat (y_sz s) + nat n" using unat_off_add[OF n(2) fit] by simp
  then have ge: "0x80000001 \<le> y_sz ?t" using big by (simp add: word_le_nat_alt)
  have "argptr k 0x1001 ?t = Inr ((0, KERNBASE - 0x1000), ?t)" if "argint k ?t = Inr (Some 0x7FFFF000, ?t)" for k
  proof -
    have l: "?t\<lparr>y_log := False\<rparr> = ?t" using log by simp
    have "\<not> y_sz ?t \<le> 0x7FFFF000" "\<not> y_sz ?t < 0x80000001" using ge by (simp_all add: word_le_nat_alt word_less_nat_alt not_le not_less)
    then show ?thesis using that log unfolding argptr_def l by (simp add: Let_def KERNBASE_def)
  qed
  moreover have "sys_sbrk growproc s = Inr (sint (y_sz s), ?t)" using n by (simp add: sys_sbrk_def)
  moreover have "y_sz ?t > KERNBASE" using ge by (simp add: KERNBASE_def word_le_nat_alt word_less_nat_alt)
  ultimately show ?thesis by (intro exI[of _ ?t]) blast
qed


section \<open>Examples\<close>

text \<open>A process of three pages whose stack holds the descriptor 0, the address \<open>0x1000\<close> and the length 2.\<close>

definition demo_stack :: "u32 \<Rightarrow> u8 option" where
  "demo_stack a = (if a < 0x1000 then None else if a = 0x2009 then Some 0x10 else if a = 0x200C then Some 2 else Some 0)"

definition demo_user :: "(nat \<Rightarrow> u8 list) ustate" where
  "demo_user = \<lparr>y_sz = 0x3000, y_esp = 0x2000, y_eax = 5, y_pid = 1, y_ofile = replicate 16 (Some 0), y_mem = demo_stack,
     y_log = False, y_out = [], y_fs = upd_file 0 (\<lambda>f. f\<lparr>f_readable := True\<rparr>) demo_fs\<rparr>"

definition demo_rops :: "(nat \<Rightarrow> u8 list, unit) fops" where
  "demo_rops = demo_ops\<lparr>fo_readi := \<lambda>ip off n m. Inr ((min n 2, take (nat n) [7, 8]), m)\<rparr>"

lemma demo_rops_bounded: "bounded_reads demo_rops"
  by (auto simp: bounded_reads_def demo_rops_def demo_ops_def)

lemmas demo_user_simps = demo_user_def demo_stack_def argint_def fetchint_def kread32_def kread_def

lemma demo_args:
  "argint 0 demo_user = Inr (Some 0, demo_user)" "argint 1 demo_user = Inr (Some 0x1000, demo_user)" "argint 2 demo_user = Inr (Some 2, demo_user)"
  by (simp_all add: demo_user_simps)

lemma demo_rw: "rw_args demo_user = Inr (Some (0, 2, 0x1000), demo_user)"
proof -
  have "demo_user\<lparr>y_log := False\<rparr> = demo_user" by (simp add: demo_user_def)
  then have "argptr 1 2 demo_user = Inr ((0, 0x1000), demo_user)" by (simp add: argptr_def demo_args Let_def) (simp add: demo_user_def)
  moreover have "argfd_n 0 demo_user = Inr (Some (0, 0), demo_user)" by (simp add: argfd_n_def demo_args argfd_def) (simp add: demo_user_def)
  ultimately show ?thesis by (simp add: rw_args_def demo_args)
qed

lemma demo_read: "\<exists>t. sys_read demo_rops demo_user = Inr (2, t) \<and> y_mem t 0x1000 \<noteq> y_mem demo_user 0x1000"
proof -
  have "\<exists>u. fileread demo_rops 0 2 (y_fs demo_user) = Inr ((2, [7, 8]), u)"
    by (simp add: fileread_def demo_user_def demo_fs_def ftable_init_def NFILE_def deref_def on_env_def on_env'_def demo_rops_def demo_ops_def Let_def)
  then show ?thesis by (auto simp: sys_read_def demo_rw on_fs_def) (simp_all add: demo_user_def demo_stack_def kwrite_def)
qed



definition demo_sbrk :: "(nat \<Rightarrow> u8 list) ustate" where
  "demo_sbrk = demo_user\<lparr>y_mem := (\<lambda>a. if a < 0x1000 then None else if a = 0x2005 then Some 0xF0 else if a = 0x2006 then Some 0xFF else if a = 0x2007 then Some 0x7F else Some 0)\<rparr>"

theorem sbrk_exposes_kernel_witness:
  "\<exists>t. sys_sbrk (\<lambda>n s. Inr (0, s)) demo_sbrk = Inr (0x3000, t) \<and> y_sz t > KERNBASE \<and> argptr 0 0x1001 t = Inr ((0, KERNBASE - 0x1000), t)"
proof -
  have "argint 0 demo_sbrk = Inr (Some 0x7FFFF000, demo_sbrk)" by (simp add: demo_sbrk_def demo_user_simps)
  from sbrk_exposes_kernel[OF _ this, of "\<lambda>n s. Inr (0, s)"] obtain t where
    t: "sys_sbrk (\<lambda>n s. Inr (0, s)) demo_sbrk = Inr (0x3000, t)" "y_sz t > KERNBASE"
      "argint 0 t = Inr (Some 0x7FFFF000, t) \<longrightarrow> argptr 0 0x1001 t = Inr ((0, KERNBASE - 0x1000), t)"
    by (auto simp: demo_sbrk_def demo_user_def)
  moreover have "argint 0 t = Inr (Some 0x7FFFF000, t)" using t(1)
    by (auto simp: sys_sbrk_def demo_sbrk_def demo_user_simps)
  ultimately show ?thesis by blast
qed


end
