(* ===== verification/Umalloc.thy ===== *)
theory Umalloc
  imports Prelude
begin

text \<open>
  The user-level memory allocator (\<^verbatim>\<open>umalloc.c\<close>): a circular list of free blocks in the order of their addresses,
  searched first-fit from a moving start, with neighbours joined when a block is freed. Addresses of headers are counted
  in units of \<open>sizeof(Header)\<close>, 8 bytes; sizes are the 32-bit counts the code keeps. The state holds the headers and the
  break of the process, \<open>base\<close> is the address of the static header, and the parameter \<open>grant\<close> says which calls of
  \<open>sbrk\<close> the kernel serves. A loop that never ends has the value \<open>None\<close>.
\<close>

section \<open>Code\<close>

record heap =
  h_ptr :: "nat \<Rightarrow> nat"
  h_size :: "nat \<Rightarrow> u32"
  h_freep :: "nat option"
  h_brk :: int

definition SIZEOF_HEADER :: u32 where "SIZEOF_HEADER = 8"

partial_function (option) free_loop :: "(nat \<Rightarrow> nat) \<Rightarrow> nat \<Rightarrow> nat \<Rightarrow> nat option" where
  "free_loop next bp p =
     (if bp > p \<and> bp < next p then Some p
      else if p \<ge> next p \<and> (bp > p \<or> bp < next p) then Some p
      else free_loop next bp (next p))"

definition join_upper :: "nat \<Rightarrow> nat \<Rightarrow> heap \<Rightarrow> heap" where
  "join_upper bp p h =
     (if bp + unat (h_size h bp) = h_ptr h p then
        h\<lparr>h_size := (h_size h)(bp := h_size h bp + h_size h (h_ptr h p)), h_ptr := (h_ptr h)(bp := h_ptr h (h_ptr h p))\<rparr>
      else h\<lparr>h_ptr := (h_ptr h)(bp := h_ptr h p)\<rparr>)"

definition join_lower :: "nat \<Rightarrow> nat \<Rightarrow> heap \<Rightarrow> heap" where
  "join_lower bp p h =
     (if p + unat (h_size h p) = bp then
        h\<lparr>h_size := (h_size h)(p := h_size h p + h_size h bp), h_ptr := (h_ptr h)(p := h_ptr h bp)\<rparr>
      else h\<lparr>h_ptr := (h_ptr h)(p := bp)\<rparr>)"

definition free :: "nat \<Rightarrow> heap \<Rightarrow> heap res option" where
  "free ap h =
     (let bp = ap - 1 in
      case h_freep h of
        None \<Rightarrow> Some (Inl (Fault ''null pointer''))
      | Some fp \<Rightarrow> Option.bind (free_loop (h_ptr h) bp fp) (\<lambda>p. Some (Inr (join_lower bp p (join_upper bp p h)\<lparr>h_freep := Some p\<rparr>))))"

definition sbrk :: "(int \<Rightarrow> int \<Rightarrow> bool) \<Rightarrow> int \<Rightarrow> heap \<Rightarrow> int \<times> heap" where
  "sbrk grant n h = (if grant n (h_brk h) then (h_brk h, h\<lparr>h_brk := h_brk h + n\<rparr>) else (- 1, h))"

definition morecore :: "(int \<Rightarrow> int \<Rightarrow> bool) \<Rightarrow> u32 \<Rightarrow> heap \<Rightarrow> (nat option \<times> heap) res option" where
  "morecore grant nu h =
     (let nu = (if nu < 4096 then 4096 else nu); (p, h) = sbrk grant (sint (nu * SIZEOF_HEADER)) h in
      if p = - 1 then Some (Inr (None, h))
      else
        let hp = nat p div 8; h = h\<lparr>h_size := (h_size h)(hp := nu)\<rparr> in
        Option.bind (free (hp + 1) h) (\<lambda>r. Some (bindE r (\<lambda>h. Inr (h_freep h, h)))))"

definition take_block :: "u32 \<Rightarrow> nat \<Rightarrow> nat \<Rightarrow> heap \<Rightarrow> nat \<times> heap" where
  "take_block nunits prevp p h =
     (if h_size h p = nunits then (p + 1, h\<lparr>h_ptr := (h_ptr h)(prevp := h_ptr h p), h_freep := Some prevp\<rparr>)
      else
        let h = h\<lparr>h_size := (h_size h)(p := h_size h p - nunits)\<rparr>; p = p + unat (h_size h p) in
        (p + 1, h\<lparr>h_size := (h_size h)(p := nunits), h_freep := Some prevp\<rparr>))"

partial_function (option) malloc_loop :: "(int \<Rightarrow> int \<Rightarrow> bool) \<Rightarrow> u32 \<Rightarrow> nat \<Rightarrow> nat \<Rightarrow> heap \<Rightarrow> (nat option \<times> heap) res option" where
  "malloc_loop grant nunits prevp p h =
     (if h_size h p \<ge> nunits then (let (ap, h) = take_block nunits prevp p h in Some (Inr (Some ap, h)))
      else if h_freep h = Some p then
        Option.bind (morecore grant nunits h) (\<lambda>r.
        case r of
          Inl e \<Rightarrow> Some (Inl e)
        | Inr (q, h) \<Rightarrow> (case q of None \<Rightarrow> Some (Inr (None, h)) | Some p \<Rightarrow> malloc_loop grant nunits p (h_ptr h p) h))
      else malloc_loop grant nunits p (h_ptr h p) h)"

definition nunits_of :: "u32 \<Rightarrow> u32" where
  "nunits_of nbytes = (nbytes + SIZEOF_HEADER - 1) div SIZEOF_HEADER + 1"

definition malloc :: "(int \<Rightarrow> int \<Rightarrow> bool) \<Rightarrow> nat \<Rightarrow> u32 \<Rightarrow> heap \<Rightarrow> (nat option \<times> heap) res option" where
  "malloc grant base nbytes h =
     (let nunits = nunits_of nbytes;
          h = (if h_freep h = None then h\<lparr>h_ptr := (h_ptr h)(base := base), h_freep := Some base, h_size := (h_size h)(base := 0)\<rparr> else h);
          prevp = the (h_freep h) in
      malloc_loop grant nunits prevp (h_ptr h prevp) h)"

section \<open>Tilings\<close>

text \<open>
  The blocks of the heap, free or not, tile the region between its start and the break: the first block begins at the
  start, and each one ends where another begins or at the break.
\<close>

definition tiled :: "(nat \<Rightarrow> nat) \<Rightarrow> nat set \<Rightarrow> nat \<Rightarrow> nat \<Rightarrow> bool" where
  "tiled sz S lo hi \<longleftrightarrow> lo \<le> hi \<and> (if lo = hi then S = {} else lo \<in> S) \<and> (\<forall>a \<in> S. lo \<le> a \<and> 0 < sz a \<and> a + sz a \<le> hi) \<and>
     (\<forall>a \<in> S. \<forall>b \<in> S. a < b \<longrightarrow> a + sz a \<le> b) \<and> (\<forall>a \<in> S. a + sz a = hi \<or> a + sz a \<in> S)"

lemma tiled_in: "tiled sz S lo hi \<Longrightarrow> a \<in> S \<Longrightarrow> lo \<le> a \<and> 0 < sz a \<and> a + sz a \<le> hi"
  by (simp add: tiled_def)

lemma tiled_disj: "tiled sz S lo hi \<Longrightarrow> a \<in> S \<Longrightarrow> b \<in> S \<Longrightarrow> a < b \<Longrightarrow> a + sz a \<le> b"
  by (simp add: tiled_def)

lemma tiled_end: "tiled sz S lo hi \<Longrightarrow> a \<in> S \<Longrightarrow> a + sz a = hi \<or> a + sz a \<in> S"
  by (simp add: tiled_def)

lemma tiled_cong: "tiled sz S lo hi \<Longrightarrow> (\<And>a. a \<in> S \<Longrightarrow> sz' a = sz a) \<Longrightarrow> tiled sz' S lo hi"
  by (simp add: tiled_def)

lemma tiled_end_unique: "tiled sz S lo hi \<Longrightarrow> a \<in> S \<Longrightarrow> c \<in> S \<Longrightarrow> c + sz c = a + sz a \<Longrightarrow> c = a"
  using tiled_disj[of sz S lo hi a c] tiled_disj[of sz S lo hi c a] tiled_in[of sz S lo hi a] tiled_in[of sz S lo hi c]
  by (cases a c rule: linorder_cases) simp_all

lemma tiled_merge:
  assumes t: "tiled sz S lo hi" and ab: "a \<in> S" "b \<in> S" "a + sz a = b"
  shows "tiled (sz(a := sz a + sz b)) (S - {b}) lo hi"
proof -
  let ?f = "sz(a := sz a + sz b)"
  have pos: "0 < sz a" "0 < sz b" "lo \<le> a" "b + sz b \<le> hi" using tiled_in[OF t] ab by auto
  have lo: "lo < hi" "lo \<in> S - {b}" using t ab pos by (auto simp: tiled_def split: if_splits)
  have "lo \<le> c \<and> 0 < ?f c \<and> c + ?f c \<le> hi" if "c \<in> S - {b}" for c using tiled_in[OF t, of c] that pos ab(3) by auto
  moreover have "c + ?f c \<le> d" if "c \<in> S - {b}" "d \<in> S - {b}" "c < d" for c d
  proof (cases "c = a")
    case True
    then have "b < d" using tiled_disj[OF t ab(1), of d] that ab(3) by auto
    then show ?thesis using True tiled_disj[OF t ab(2), of d] that ab(3) by auto
  qed (use tiled_disj[OF t] that in auto)
  moreover have "c + ?f c = hi \<or> c + ?f c \<in> S - {b}" if "c \<in> S - {b}" for c
  proof (cases "c = a")
    case True
    then show ?thesis using tiled_end[OF t ab(2)] pos ab(3) by (auto simp: add.assoc)
  next
    case False
    then have "c + sz c \<noteq> b" using tiled_end_unique[OF t ab(1), of c] that ab(3) by auto
    then show ?thesis using tiled_end[OF t, of c] that False by auto
  qed
  ultimately show ?thesis using lo unfolding tiled_def by simp
qed

lemma tiled_split:
  assumes t: "tiled sz S lo hi" and a: "a \<in> S" and k: "0 < k" "k < sz a"
  shows "tiled (sz(a := sz a - k, a + (sz a - k) := k)) (insert (a + (sz a - k)) S) lo hi \<and> a + (sz a - k) \<notin> S"
proof -
  define b where "b = a + (sz a - k)"
  let ?f = "sz(a := sz a - k, b := k)"
  have ar: "a < b" "b < a + sz a" "b + k = a + sz a" using k by (simp_all add: b_def)
  have "b \<notin> S" using tiled_disj[OF t a, of b] ar by auto
  note b = this ar b_def[symmetric]
  have lo: "lo < hi" "lo \<in> S" using t a tiled_in[OF t a] by (auto simp: tiled_def split: if_splits)
  have "lo \<le> c \<and> 0 < ?f c \<and> c + ?f c \<le> hi" if "c \<in> insert b S" for c
    using tiled_in[OF t a] tiled_in[OF t, of c] that k b by auto
  moreover have "c + ?f c \<le> d" if "c \<in> insert b S" "d \<in> insert b S" "c < d" for c d
  proof -
    have "c + sz c \<le> d" if "c \<in> S" "d \<in> S" using tiled_disj[OF t] that \<open>c < d\<close> by blast
    moreover have "c + sz c \<le> a" if "c \<in> S" "c < a" using tiled_disj[OF t that(1) a] that by blast
    moreover have "a + sz a \<le> d" if "d \<in> S" "a < d" using tiled_disj[OF t a that(1)] that by blast
    moreover have "c \<le> a" if "c \<in> S" "c < b"
      using tiled_disj[OF t a that(1)] that b by (cases "a < c") auto
    moreover have "a < d" if "b < d" using that b by simp
    ultimately show ?thesis using that b by auto
  qed
  moreover have "c + ?f c = hi \<or> c + ?f c \<in> insert b S" if "c \<in> insert b S" for c
    using tiled_end[OF t a] tiled_end[OF t, of c] that b by auto
  ultimately have "tiled ?f (insert b S) lo hi" using lo unfolding tiled_def by simp
  then show ?thesis using b(1) by (simp add: b_def)
qed

lemma tiled_extend:
  assumes t: "tiled sz S lo hi" and n: "0 < n"
  shows "tiled (sz(hi := n)) (insert hi S) lo (hi + n) \<and> hi \<notin> S"
proof -
  have i: "a + sz a \<le> hi \<and> 0 < sz a \<and> lo \<le> a" if "a \<in> S" for a using tiled_in[OF t that] by simp
  have h: "hi \<notin> S" using i[of hi] by auto
  have lo: "lo \<le> hi" "lo \<in> insert hi S" using t by (auto simp: tiled_def split: if_splits)
  have "c + (sz(hi := n)) c \<le> d" if "c \<in> insert hi S" "d \<in> insert hi S" "c < d" for c d
    using that i[of c] i[of d] tiled_disj[OF t, of c d] by auto
  moreover have "c + (sz(hi := n)) c = hi + n \<or> c + (sz(hi := n)) c \<in> insert hi S" if "c \<in> insert hi S" for c
    using that tiled_end[OF t, of c] by auto
  moreover have "lo \<le> c \<and> 0 < (sz(hi := n)) c \<and> c + (sz(hi := n)) c \<le> hi + n" if "c \<in> insert hi S" for c using that i[of c] lo n by auto
  moreover have "lo < hi + n" using lo n by simp
  ultimately show ?thesis using lo h unfolding tiled_def by simp
qed

section \<open>Circular lists\<close>

definition linked :: "(nat \<Rightarrow> nat) \<Rightarrow> nat list \<Rightarrow> bool" where
  "linked f xs \<longleftrightarrow> successively (\<lambda>a b. f a = b) xs"

lemma linked_simps [simp]: "linked f []" "linked f [x]" "linked f (x # y # xs) \<longleftrightarrow> f x = y \<and> linked f (y # xs)"
  by (simp_all add: linked_def)

lemma linked_append: "linked f (xs @ ys) \<longleftrightarrow> linked f xs \<and> linked f ys \<and> (xs = [] \<or> ys = [] \<or> f (last xs) = hd ys)"
  by (auto simp: linked_def successively_append_iff)

lemma linked_Cons: "linked f (x # xs) \<longleftrightarrow> linked f xs \<and> (xs = [] \<or> f x = hd xs)"
  by (cases xs) auto

lemma linked_cycle:
  assumes "linked f (b # us @ ws @ [b])"
  shows "linked f (b # us)" "linked f (ws @ [b])" "f (last (b # us)) = hd (ws @ [b])" "ws = [] \<or> f (last ws) = b" "linked f ws"
  using linked_append[of f "b # us" "ws @ [b]"] linked_append[of f ws "[b]"] assms by auto

lemma linked_upd: "x \<notin> set (butlast xs) \<Longrightarrow> linked (f(x := v)) xs = linked f xs"
  by (induction xs rule: induct_list012) auto

lemma linked_keep: "linked f xs \<Longrightarrow> x \<notin> set xs \<Longrightarrow> linked (f(x := v)) xs"
  by (subst linked_upd) (auto dest: in_set_butlastD)

lemma linked_push: "linked f xs \<Longrightarrow> x \<notin> set xs \<Longrightarrow> v = hd xs \<Longrightarrow> linked (f(x := v)) (x # xs)"
  by (cases xs) (auto simp: linked_keep)

lemma linked_pred:
  assumes "linked f (xs @ p # ys)" and "distinct (tl xs @ p # ys)" and "x \<in> set (xs @ butlast (p # ys))" and "f x = p" and "xs \<noteq> []"
  shows "x = last xs"
  using assms
proof (induction xs)
  case (Cons a xs)
  have off: "f y \<noteq> p" if "y \<in> set (butlast (p # ys))" "linked f (p # ys)" "distinct (p # ys)" for y
  proof -
    obtain zs z where z: "p # ys = zs @ [z]" by (metis rev_exhaust list.distinct(1))
    have y: "y \<in> set zs" using that(1) z by simp
    obtain us vs where s: "zs = us @ y # vs" using split_list[OF y] by blast
    have "f y = hd (vs @ [z])" using that(2) unfolding z s by (auto simp: linked_append linked_Cons split: if_splits)
    moreover have "p \<notin> set (vs @ [z])"
      using that(3) z s by (cases us) auto
    ultimately show ?thesis by (metis append_is_Nil_conv hd_in_set list.distinct(1))
  qed
  show ?case
  proof (cases xs)
    case Nil
    then show ?thesis using Cons.prems off by auto
  next
    case (Cons b bs)
    have l: "linked f (xs @ p # ys)" "f a = b" using Cons.prems(1) Cons by auto
    have "b \<noteq> p" using Cons.prems(2) Cons by auto
    then have "x \<noteq> a" using l(2) Cons.prems(4) by auto
    then show ?thesis using Cons.IH[OF l(1)] Cons.prems Cons by auto
  qed
qed simp

lemma linked_rotate:
  assumes "linked f (b # ns @ [b])" and "distinct (b # ns)" and "x \<in> set (b # ns)"
  shows "\<exists>R. linked f (x # R @ [x]) \<and> set (x # R) = set (b # ns) \<and> distinct (x # R)"
proof -
  obtain us ws where s: "b # ns = us @ x # ws" using split_list[OF assms(3)] by blast
  show ?thesis
  proof (cases us)
    case Nil
    then show ?thesis using s assms by (intro exI[of _ ns]) auto
  next
    case (Cons c vs)
    then have ns: "ns = vs @ x # ws" "us = b # vs" using s by auto
    have "linked f (x # (ws @ b # vs) @ [x])" using assms(1) unfolding ns by (auto simp: linked_append linked_Cons hd_append split: if_splits)
    then show ?thesis using assms(2) unfolding ns by (intro exI[of _ "ws @ b # vs"]) auto
  qed
qed

lemma sorted_cut: "sorted_wrt (<) ns \<Longrightarrow> (b :: nat) \<notin> set ns \<Longrightarrow> \<exists>us ws. ns = us @ ws \<and> (\<forall>u \<in> set us. u < b) \<and> (\<forall>w \<in> set ws. b < w)"
proof (induction ns)
  case (Cons a ns)
  show ?case
  proof (cases "a < b")
    case True
    obtain us ws where "ns = us @ ws" "\<forall>u \<in> set us. u < b" "\<forall>w \<in> set ws. b < w" using Cons by auto
    then show ?thesis using True by (intro exI[of _ "a # us"] exI[of _ ws]) simp
  next
    case False
    then show ?thesis using Cons.prems by (intro exI[of _ "[]"] exI[of _ "a # ns"]) fastforce
  qed
qed simp

section \<open>The invariant\<close>

abbreviation szf :: "heap \<Rightarrow> nat \<Rightarrow> nat" where
  "szf h \<equiv> \<lambda>a. unat (h_size h a)"

definition brk_units :: "heap \<Rightarrow> nat" where
  "brk_units h = nat (h_brk h) div 8"

definition blocks_ok :: "nat \<Rightarrow> nat \<Rightarrow> nat set \<Rightarrow> nat set \<Rightarrow> heap \<Rightarrow> bool" where
  "blocks_ok base lo F A h \<longleftrightarrow> base < lo \<and> h_size h base = 0 \<and> 0 \<le> h_brk h \<and> 8 dvd h_brk h \<and> h_brk h \<le> 2 ^ 31 \<and>
     F \<inter> A = {} \<and> tiled (szf h) (F \<union> A) lo (brk_units h)"

definition heap_ok :: "nat \<Rightarrow> nat \<Rightarrow> nat list \<Rightarrow> nat set \<Rightarrow> heap \<Rightarrow> bool" where
  "heap_ok base lo ns A h \<longleftrightarrow> blocks_ok base lo (set ns) A h \<and> linked (h_ptr h) (base # ns @ [base]) \<and> sorted_wrt (<) ns \<and>
     (\<exists>fp \<in> set (base # ns). h_freep h = Some fp) \<and> (\<forall>a \<in> set ns. a + szf h a \<notin> set ns)"

text \<open>The state inside \<open>free\<close>, when the block has its link but nothing links to it.\<close>

definition detached :: "nat \<Rightarrow> nat \<Rightarrow> nat list \<Rightarrow> nat \<Rightarrow> nat list \<Rightarrow> nat set \<Rightarrow> heap \<Rightarrow> bool" where
  "detached base lo us bp ws A h \<longleftrightarrow> blocks_ok base lo (set us \<union> insert bp (set ws)) A h \<and> linked (h_ptr h) (base # us) \<and>
     linked (h_ptr h) (bp # ws @ [base]) \<and> sorted_wrt (<) (us @ bp # ws) \<and>
     (\<forall>a \<in> set us \<union> set ws. a + szf h a \<notin> set us \<union> set ws) \<and> bp + szf h bp \<notin> set ws"

lemma brk_bound: "h_brk h \<le> 2 ^ 31 \<Longrightarrow> brk_units h \<le> 2 ^ 28"
proof -
  assume "h_brk h \<le> 2 ^ 31"
  then have "nat (h_brk h) \<le> 2147483648" by simp
  then show ?thesis unfolding brk_units_def by simp
qed

lemma blocks_okD:
  assumes "blocks_ok base lo F A h" and "a \<in> F \<union> A"
  shows "base < a" "lo \<le> a" "0 < szf h a" "a + szf h a \<le> brk_units h" "a + szf h a \<le> 2 ^ 28"
  using assms tiled_in[of "szf h" "F \<union> A" lo "brk_units h" a] brk_bound[of h] by (auto simp: blocks_ok_def)

lemma heap_sorted: "heap_ok base lo ns A h \<Longrightarrow> sorted_wrt (<) (base # ns)"
  unfolding heap_ok_def using blocks_okD(1)[of base lo "set ns" A h] by auto

lemma heap_distinct: "heap_ok base lo ns A h \<Longrightarrow> distinct (base # ns)"
  using heap_sorted[of base lo ns A h] strict_sorted_iff[of "base # ns"] by simp

lemma blocks_cong:
  assumes "blocks_ok base lo F A h" and "h_brk h' = h_brk h" and "h_size h' = h_size h" and "F' \<union> A' = F \<union> A" and "F' \<inter> A' = {}"
  shows "blocks_ok base lo F' A' h'"
  using assms by (simp add: blocks_ok_def brk_units_def)

lemma free_loop_walk:
  assumes "linked f R" and "fp \<in> set R"
    and "\<And>x. x \<in> set (butlast R) \<Longrightarrow> \<not> (bp > x \<and> bp < f x) \<and> \<not> (x \<ge> f x \<and> (bp > x \<or> bp < f x))"
    and "bp > last R \<and> bp < f (last R) \<or> last R \<ge> f (last R) \<and> (bp > last R \<or> bp < f (last R))"
  shows "free_loop f bp fp = Some (last R)"
  using assms
proof (induction R arbitrary: fp)
  case (Cons x R)
  show ?case
  proof (cases "R = []")
    case True
    then show ?thesis using Cons.prems by (subst free_loop.simps) auto
  next
    case R: False
    have l: "linked f R" "f x = hd R" using Cons.prems(1) R by (auto simp: linked_Cons)
    have ih: "free_loop f bp y = Some (last (x # R))" if "y \<in> set R" for y
      using Cons.IH[OF l(1) that] Cons.prems(3,4) R by simp
    show ?thesis
    proof (cases "fp \<in> set R")
      case True
      then show ?thesis by (rule ih)
    next
      case False
      then have fp: "fp = x" using Cons.prems(2) by simp
      have "free_loop f bp x = free_loop f bp (f x)" using Cons.prems(3)[of x] R by (subst free_loop.simps) auto
      then show ?thesis using ih[of "f x"] l(2) R fp by simp
    qed
  qed
qed simp

lemma distinct_last: "distinct xs \<Longrightarrow> xs \<noteq> [] \<Longrightarrow> last xs \<notin> set (butlast xs)"
  by (cases xs rule: rev_cases) auto

lemma sorted_le_last: "sorted_wrt (<) xs \<Longrightarrow> (x :: nat) \<in> set xs \<Longrightarrow> x \<le> last xs"
  by (cases xs rule: rev_cases) (auto simp: sorted_wrt_append less_imp_le)

lemma linked_mono:
  assumes "linked f (xs @ [y])" and "sorted_wrt (<) xs" and "x \<in> set (butlast xs)"
  shows "x < f x \<and> f x \<in> set xs \<and> f x \<le> last xs"
  using assms
proof (induction xs)
  case (Cons a xs)
  show ?case
  proof (cases "xs = []")
    case False
    have h: "f a = hd xs" "linked f (xs @ [y])" using Cons.prems(1) False by (auto simp: linked_Cons)
    have la: "hd xs \<in> set xs" "last xs \<in> set xs" using False by auto
    have "hd xs \<le> last xs" by (rule sorted_le_last) (use Cons.prems(2) la in simp_all)
    then show ?thesis using Cons h la False by (cases "x = a") auto
  qed (use Cons in simp)
qed simp

lemma free_finds:
  assumes h: "heap_ok base lo ns A h" and ns: "ns = us @ ws" and us: "\<forall>u \<in> set us. u < bp" and ws: "\<forall>w \<in> set ws. bp < w" and bp: "base < bp"
    and fp: "h_freep h = Some fp"
  shows "free_loop (h_ptr h) bp fp = Some (last (base # us))" "h_ptr h (last (base # us)) = hd (ws @ [base])"
proof -
  let ?f = "h_ptr h" and ?R = "ws @ base # us"
  have l: "linked ?f (base # us @ ws @ [base])" using h ns by (simp add: heap_ok_def)
  note cyc = linked_cycle[OF l]
  have lR: "linked ?f ?R" using cyc linked_append[of ?f ws "base # us"] by auto
  have srt: "sorted_wrt (<) (base # us)" "sorted_wrt (<) ws" using heap_sorted[OF h] ns by (auto simp: sorted_wrt_append)
  have lw: "linked ?f (ws @ [base])" "linked ?f ((base # us) @ [hd (ws @ [base])])"
    using cyc linked_append[of ?f "base # us" "[hd (ws @ [base])]"] by auto
  show nx: "?f (last (base # us)) = hd (ws @ [base])" by (rule cyc(3))
  have up: "y \<le> last (base # us)" if "y \<in> set (base # us)" for y
    by (rule sorted_le_last[OF srt(1) that])
  have lt: "last (base # us) < bp" using us bp by (cases us rule: rev_cases) auto
  have "free_loop ?f bp fp = Some (last ?R)"
  proof (rule free_loop_walk[OF lR])
    show "fp \<in> set ?R" using h fp ns by (auto simp: heap_ok_def)
    show "bp > last ?R \<and> bp < ?f (last ?R) \<or> last ?R \<ge> ?f (last ?R) \<and> (bp > last ?R \<or> bp < ?f (last ?R))"
      using nx lt ws up[of base] by (cases ws) auto
    fix x assume "x \<in> set (butlast ?R)"
    then consider "x \<in> set (butlast (base # us))" | "x \<in> set (butlast ws)" | "x \<in> set ws" "x = last ws"
      by (cases ws rule: rev_cases) (auto simp: butlast_append split: if_splits)
    then show "\<not> (bp > x \<and> bp < ?f x) \<and> \<not> (x \<ge> ?f x \<and> (bp > x \<or> bp < ?f x))"
    proof cases
      case 1
      then show ?thesis using linked_mono[OF lw(2) srt(1) 1] lt by auto
    next
      case 2
      then have "bp < x" using ws in_set_butlastD by fast
      then show ?thesis using linked_mono[OF lw(1) srt(2) 2] by auto
    next
      case 3
      then have "?f x = base" using lw(1) by (cases ws rule: rev_cases) (auto simp: linked_append)
      then show ?thesis using 3 ws bp by auto
    qed
  qed
  then show "free_loop ?f bp fp = Some (last (base # us))" by simp
qed

lemma join_upper_ok:
  assumes h: "heap_ok base lo ns (insert bp A) h" and A: "bp \<notin> A" and ns: "ns = us @ ws" and us: "\<forall>u \<in> set us. u < bp" and ws: "\<forall>w \<in> set ws. bp < w"
  shows "\<exists>ws'. detached base lo us bp ws' A (join_upper bp (last (base # us)) h) \<and> szf h bp \<le> szf (join_upper bp (last (base # us)) h) bp"
proof -
  let ?p = "last (base # us)"
  have b: "blocks_ok base lo (set ns) (insert bp A) h" and l: "linked (h_ptr h) (base # us @ ws @ [base])" and srt: "sorted_wrt (<) (us @ ws)"
    and adj: "\<forall>a \<in> set ns. a + szf h a \<notin> set ns" using h ns by (auto simp: heap_ok_def)
  have bp: "base < bp" "bp \<notin> set ns" "0 < szf h bp" using blocks_okD[OF b, of bp] b by (auto simp: blocks_ok_def)
  have l1: "linked (h_ptr h) (base # us)" "linked (h_ptr h) (ws @ [base])" "h_ptr h ?p = hd (ws @ [base])"
    by (rule linked_cycle[OF l])+
  have nbp: "bp \<notin> set (base # us)" "bp \<notin> set (ws @ [base])" using bp us ws by auto
  have s': "sorted_wrt (<) (us @ bp # ws)" using srt us ws by (auto simp: sorted_wrt_append)
  show ?thesis
  proof (cases "bp + szf h bp = h_ptr h ?p")
    case False
    let ?h = "h\<lparr>h_ptr := (h_ptr h)(bp := h_ptr h ?p)\<rparr>"
    have "blocks_ok base lo (set us \<union> insert bp (set ws)) A ?h" by (rule blocks_cong[OF b]) (use ns A bp b in \<open>auto simp: blocks_ok_def\<close>)
    moreover have "bp + szf h bp \<notin> set ws"
    proof
      assume w: "bp + szf h bp \<in> set ws"
      then obtain q vs where q: "ws = q # vs" by (cases ws) auto
      have "bp < q" "q \<in> set ns" using ws q ns by auto
      then have "bp + szf h bp \<le> q" using tiled_disj[of "szf h" "set ns \<union> insert bp A" lo "brk_units h" bp q] b by (auto simp: blocks_ok_def)
      moreover have "q \<le> bp + szf h bp" using w srt q by (auto simp: sorted_wrt_append)
      ultimately show False using False l1(3) q by simp
    qed
    moreover have "linked (h_ptr ?h) (base # us)" using linked_keep[OF l1(1) nbp(1)] by simp
    moreover have "linked (h_ptr ?h) (bp # ws @ [base])" using linked_push[OF l1(2) nbp(2) l1(3)] by simp
    ultimately have "detached base lo us bp ws A ?h" using s' adj ns unfolding detached_def by simp
    then show ?thesis using False by (auto simp: join_upper_def)
  next
    case True
    have "base < bp + szf h bp" using bp by simp
    then obtain q vs where q: "ws = q # vs" "q = bp + szf h bp" using True l1(3) by (cases ws) auto
    let ?h = "h\<lparr>h_size := (h_size h)(bp := h_size h bp + h_size h q), h_ptr := (h_ptr h)(bp := h_ptr h q)\<rparr>"
    have t: "tiled (szf h) (set ns \<union> insert bp A) lo (brk_units h)" using b by (simp add: blocks_ok_def)
    have qn: "q \<in> set ns" using q ns by simp
    have sm: "unat (h_size h bp + h_size h q) = szf h bp + szf h q"
      using blocks_okD(5)[OF b, of q] qn q(2) unat_add_mod[of "h_size h bp" "h_size h q"] by simp
    have F: "(set ns \<union> insert bp A) - {q} = set us \<union> insert bp (set vs) \<union> A"
      using ns q srt b bp us ws by (auto simp: blocks_ok_def sorted_wrt_append)
    have "tiled ((szf h)(bp := szf h bp + szf h q)) ((set ns \<union> insert bp A) - {q}) lo (brk_units h)"
      by (rule tiled_merge[OF t]) (use qn q in auto)
    then have t': "tiled (szf ?h) (set us \<union> insert bp (set vs) \<union> A) lo (brk_units ?h)"
      unfolding F by (rule back_subst[of "\<lambda>x. x"]) (simp add: sm fun_upd_def brk_units_def if_distrib cong: if_cong)
    have b': "blocks_ok base lo (set us \<union> insert bp (set vs)) A ?h"
      using b t' ns q bp A by (auto simp: blocks_ok_def)
    have lv: "linked ((h_ptr h)(bp := h_ptr h q)) (bp # vs @ [base])"
      by (rule linked_push) (use l1(2) nbp q in \<open>auto simp: linked_Cons\<close>)
    have lu: "linked ((h_ptr h)(bp := h_ptr h q)) (base # us)" by (rule linked_keep[OF l1(1) nbp(1)])
    have "bp + (szf h bp + szf h q) \<notin> set vs" using adj qn q ns by (simp add: add.assoc[symmetric])
    then have "detached base lo us bp vs A ?h" using b' lv lu s' adj ns q nbp sm
      by (auto simp: detached_def sorted_wrt_append)
    moreover have "join_upper bp ?p h = ?h" using True q l1(3) by (simp add: join_upper_def)
    ultimately show ?thesis using sm by auto
  qed
qed

lemma detachedD:
  assumes d: "detached base lo us bp ws A h"
  shows "base < bp" "last (base # us) < bp" "0 < szf h bp" "last (base # us) \<notin> set (butlast (base # us))" "last (base # us) \<notin> set (bp # ws)"
    "u \<in> set us \<Longrightarrow> base < u" "u \<in> set us \<Longrightarrow> u < bp" "w \<in> set ws \<Longrightarrow> bp < w" "bp \<notin> A"
proof -
  have b: "blocks_ok base lo (set us \<union> insert bp (set ws)) A h" and srt: "sorted_wrt (<) (us @ bp # ws)" using d by (auto simp: detached_def)
  show bp: "base < bp" "0 < szf h bp" and u: "\<And>u. u \<in> set us \<Longrightarrow> base < u" using blocks_okD[OF b] by auto
  show u': "\<And>u. u \<in> set us \<Longrightarrow> u < bp" and w: "\<And>w. w \<in> set ws \<Longrightarrow> bp < w" using srt by (auto simp: sorted_wrt_append)
  show lt: "last (base # us) < bp" using bp u' by auto
  then show "last (base # us) \<notin> set (bp # ws)" using w by force
  have "distinct (base # us)" using srt u strict_sorted_iff[of us] by (auto simp: sorted_wrt_append)
  then show "last (base # us) \<notin> set (butlast (base # us))" by (rule distinct_last) simp
  show "bp \<notin> A" using b by (auto simp: blocks_ok_def)
qed

lemma join_lower_ok:
  assumes d: "detached base lo us bp ws A h" and h': "h' = join_lower bp (last (base # us)) h\<lparr>h_freep := Some (last (base # us))\<rparr>"
  shows "\<exists>ns'. heap_ok base lo ns' A h' \<and> (\<exists>a \<in> set ns'. szf h bp \<le> szf h' a)"
proof -
  let ?p = "last (base # us)"
  note D = detachedD[OF d]
  have b: "blocks_ok base lo (set us \<union> insert bp (set ws)) A h" and l: "linked (h_ptr h) (base # us)" "linked (h_ptr h) (bp # ws @ [base])"
    and srt: "sorted_wrt (<) (us @ bp # ws)" and adj: "\<forall>a \<in> set us \<union> set ws. a + szf h a \<notin> set us \<union> set ws" "bp + szf h bp \<notin> set ws"
    using d by (auto simp: detached_def)
  have t: "tiled (szf h) (set us \<union> insert bp (set ws) \<union> A) lo (brk_units h)" using b by (simp add: blocks_ok_def)
  have lp: "linked ((h_ptr h)(?p := v)) (base # us)" "linked ((h_ptr h)(?p := v)) (bp # ws @ [base])" for v
    using l D(4,5) by (auto simp: linked_upd butlast_append simp del: butlast.simps last.simps) (simp_all add: linked_upd butlast_append)
  show ?thesis
  proof (cases "?p + szf h ?p = bp")
    case False
    let ?ns = "us @ bp # ws"
    have h1: "h' = h\<lparr>h_ptr := (h_ptr h)(?p := bp), h_freep := Some ?p\<rparr>" using False h' by (simp add: join_lower_def)
    have "linked ((h_ptr h)(?p := bp)) ((base # us) @ bp # ws @ [base])"
      by (subst linked_append) (use lp[of bp] in \<open>simp del: last.simps\<close>)
    then have lk: "linked (h_ptr h') (base # ?ns @ [base])" using h1 by (simp del: last.simps)
    have bk: "blocks_ok base lo (set ?ns) A h'" by (rule blocks_cong[OF b]) (use b h1 in \<open>auto simp: blocks_ok_def\<close>)
    have "a + szf h a \<noteq> bp" if "a \<in> set us" for a
    proof (cases "a = ?p")
      case ne: False
      then have "a < ?p" "?p \<in> set us" using sorted_le_last[of us a] that srt by (auto simp: sorted_wrt_append split: if_splits)
      then have "a + szf h a \<le> ?p" using tiled_disj[OF t, of a ?p] that by auto
      then show ?thesis using D(2) by simp
    qed (use False in simp)
    moreover have "bp + szf h bp \<notin> set us" using D(7) by force
    ultimately have "\<forall>a \<in> set ?ns. a + szf h' a \<notin> set ?ns" using adj D(3,8) h1 by auto
    then have "heap_ok base lo ?ns A h'" using bk lk srt h1 unfolding heap_ok_def by auto
    then show ?thesis using h1 by (intro exI[of _ ?ns]) auto
  next
    case True
    have pu: "?p \<in> set us"
    proof (cases "us = []")
      case True
      then show ?thesis using \<open>?p + szf h ?p = bp\<close> b D(1) by (simp add: blocks_ok_def)
    qed simp
    let ?ns = "us @ ws"
    have h1: "h' = h\<lparr>h_size := (h_size h)(?p := h_size h ?p + h_size h bp), h_ptr := (h_ptr h)(?p := h_ptr h bp), h_freep := Some ?p\<rparr>"
      using True h' by (simp add: join_lower_def)
    have sm: "unat (h_size h ?p + h_size h bp) = szf h ?p + szf h bp"
      using blocks_okD(5)[OF b, of bp] True unat_add_mod[of "h_size h ?p" "h_size h bp"] by simp
    have hb: "h_ptr h bp = hd (ws @ [base])" using l(2) by (simp add: linked_Cons)
    have "linked ((h_ptr h)(?p := h_ptr h bp)) ((base # us) @ ws @ [base])"
      by (subst linked_append) (use lp[of "h_ptr h bp"] hb in \<open>simp add: linked_Cons del: last.simps\<close>)
    then have lk: "linked (h_ptr h') (base # ?ns @ [base])" using h1 by (simp del: last.simps)
    have F: "(set us \<union> insert bp (set ws) \<union> A) - {bp} = set ?ns \<union> A" using D(7,8,9) by auto
    have "tiled ((szf h)(?p := szf h ?p + szf h bp)) (set ?ns \<union> A) lo (brk_units h)"
      unfolding F[symmetric] by (rule tiled_merge[OF t]) (use pu True in auto)
    then have "tiled (szf h') (set ?ns \<union> A) lo (brk_units h)" by (rule tiled_cong) (simp add: sm h1 del: last.simps)
    then have "tiled (szf h') (set ?ns \<union> A) lo (brk_units h')" by (simp add: h1 brk_units_def)
    moreover have "base \<noteq> ?p" using D(6)[OF pu] by simp
    ultimately have bk: "blocks_ok base lo (set ?ns) A h'" using b h1 by (auto simp: blocks_ok_def)
    have "?p + (szf h ?p + szf h bp) \<notin> set us \<union> set ws" using True adj(2) D(7) by (auto simp: add.assoc[symmetric] simp del: last.simps)
    then have "\<forall>a \<in> set ?ns. a + szf h' a \<notin> set ?ns" using adj(1) h1 sm by auto
    then have "heap_ok base lo ?ns A h'" using bk lk srt h1 pu unfolding heap_ok_def by (auto simp: sorted_wrt_append)
    then show ?thesis using h1 sm pu by (intro exI[of _ ?ns]) auto
  qed
qed

lemma free_ok:
  assumes h: "heap_ok base lo ns (insert bp A) h" and A: "bp \<notin> A"
  shows "\<exists>h' ns'. free (bp + 1) h = Some (Inr h') \<and> heap_ok base lo ns' A h' \<and> (\<exists>a \<in> set ns'. szf h bp \<le> szf h' a) \<and>
    (\<forall>a \<in> A. h_size h' a = h_size h a) \<and> h_brk h' = h_brk h \<and> h_freep h' \<noteq> None"
proof -
  have b: "blocks_ok base lo (set ns) (insert bp A) h" and srt: "sorted_wrt (<) ns" using h by (auto simp: heap_ok_def)
  obtain fp where fp: "h_freep h = Some fp" using h by (auto simp: heap_ok_def)
  have bp: "base < bp" "bp \<notin> set ns" using blocks_okD(1)[OF b, of bp] b by (auto simp: blocks_ok_def)
  obtain us ws where c: "ns = us @ ws" "\<forall>u \<in> set us. u < bp" "\<forall>w \<in> set ws. bp < w" using sorted_cut[OF srt bp(2)] by blast
  let ?p = "last (base # us)" let ?h1 = "join_upper bp ?p h" let ?h2 = "join_lower bp ?p ?h1\<lparr>h_freep := Some ?p\<rparr>"
  have f: "free (bp + 1) h = Some (Inr ?h2)" using free_finds(1)[OF h c bp(1) fp] fp by (simp add: free_def del: last.simps)
  obtain ws' where d: "detached base lo us bp ws' A ?h1" "szf h bp \<le> szf ?h1 bp" using join_upper_ok[OF h A c] by blast
  obtain ns' a where n: "heap_ok base lo ns' A ?h2" "a \<in> set ns'" "szf ?h1 bp \<le> szf ?h2 a" using join_lower_ok[OF d(1) refl] by blast
  have "?p \<in> set (base # ns)" using c(1) by auto
  then have "?p \<notin> A" using b blocks_okD(1)[OF b, of base] by (auto simp: blocks_ok_def)
  then have "h_size ?h2 a = h_size h a" if "a \<in> A" for a
    using that A by (auto simp: join_lower_def join_upper_def simp del: last.simps)
  moreover have "h_brk ?h2 = h_brk h" by (simp add: join_lower_def join_upper_def)
  moreover have "szf h bp \<le> szf ?h2 a" by (rule le_trans[OF d(2) n(3)])
  ultimately show ?thesis using f n(1,2) by (intro exI[of _ ?h2] exI[of _ ns']) (auto simp del: last.simps)
qed

definition grant_ok :: "(int \<Rightarrow> int \<Rightarrow> bool) \<Rightarrow> bool" where
  "grant_ok grant \<longleftrightarrow> (\<forall>n b. grant n b \<longrightarrow> b + n \<le> 2 ^ 31)"

definition keeps :: "nat set \<Rightarrow> heap \<Rightarrow> heap \<Rightarrow> bool" where
  "keeps A h h' \<longleftrightarrow> (\<forall>a \<in> A. h_size h' a = h_size h a) \<and> h_brk h \<le> h_brk h'"

lemma sint_below: "unat (w :: u32) < 2 ^ 31 \<Longrightarrow> sint w = int (unat w)"
proof -
  have "sint (of_nat n :: u32) = int n" if "n < 2 ^ 31" for n using that by (simp add: signed_of_nat signed_take_bit_int_eq_self)
  from this[of "unat w"] show "unat w < 2 ^ 31 \<Longrightarrow> sint w = int (unat w)" by simp
qed

lemma morecore_ok:
  assumes h: "heap_ok base lo ns A h" and g: "grant_ok grant" and nu: "unat nu < 2 ^ 28"
  shows "morecore grant nu h = Some (Inr (None, h)) \<or>
    (\<exists>q h' ns'. morecore grant nu h = Some (Inr (Some q, h')) \<and> h_freep h' = Some q \<and> heap_ok base lo ns' A h' \<and>
       (\<exists>a \<in> set ns'. nu \<le> h_size h' a) \<and> keeps A h h')"
proof -
  let ?n = "if nu < 4096 then 4096 else nu"
  have n: "unat ?n < 2 ^ 28" "0 < unat ?n" "nu \<le> ?n" using nu by (auto simp: word_less_nat_alt word_le_nat_alt split: if_splits)
  have "unat (?n * SIZEOF_HEADER) = unat ?n * 8" using n(1) by (simp add: SIZEOF_HEADER_def unat_word_ariths(2))
  then have sn: "sint (?n * SIZEOF_HEADER) = 8 * int (unat ?n)"
    using n(1) sint_below[of "?n * SIZEOF_HEADER"] by simp
  have b: "blocks_ok base lo (set ns) A h" using h by (simp add: heap_ok_def)
  show ?thesis
  proof (cases "grant (8 * int (unat ?n)) (h_brk h)")
    case False
    then show ?thesis by (simp add: morecore_def Let_def sbrk_def sn[simplified])
  next
    case True
    have brk: "0 \<le> h_brk h" "8 dvd h_brk h" "h_brk h + 8 * int (unat ?n) \<le> 2 ^ 31" using b g True by (auto simp: blocks_ok_def grant_ok_def)
    let ?hp = "brk_units h"
    let ?h1 = "h\<lparr>h_brk := h_brk h + 8 * int (unat ?n), h_size := (h_size h)(?hp := ?n)\<rparr>"
    have u: "brk_units ?h1 = ?hp + unat ?n"
    proof -
      have "nat (h_brk h + 8 * int (unat ?n)) = nat (h_brk h) + 8 * unat ?n" using brk(1) by (simp add: nat_add_distrib nat_mult_distrib)
      then show ?thesis by (simp add: brk_units_def)
    qed
    have t: "tiled ((szf h)(?hp := unat ?n)) (insert ?hp (set ns \<union> A)) lo (?hp + unat ?n)" "?hp \<notin> set ns \<union> A"
      using tiled_extend[OF _ n(2), of "szf h" "set ns \<union> A" lo ?hp] b by (auto simp: blocks_ok_def)
    have "tiled (szf ?h1) (set ns \<union> insert ?hp A) lo (brk_units ?h1)" using tiled_cong[OF t(1), of "szf ?h1"] u by simp
    moreover have "base < ?hp" using b by (auto simp: blocks_ok_def tiled_def)
    ultimately have b1: "blocks_ok base lo (set ns) (insert ?hp A) ?h1" using b brk t(2) by (auto simp: blocks_ok_def)
    have "heap_ok base lo ns (insert ?hp A) ?h1" using h b1 t(2) unfolding heap_ok_def by auto
    from free_ok[OF this] obtain h' ns' a where f: "free (?hp + 1) ?h1 = Some (Inr h')" "heap_ok base lo ns' A h'" "a \<in> set ns'" "unat ?n \<le> szf h' a"
      "\<forall>a \<in> A. h_size h' a = h_size ?h1 a" "h_brk h' = h_brk ?h1" "h_freep h' \<noteq> None" using t(2) by auto
    have "morecore grant nu h = Some (Inr (h_freep h', h'))"
      using True f(1) brk(1) by (simp add: morecore_def Let_def sbrk_def sn[simplified] brk_units_def)
    moreover have "nu \<le> h_size h' a" using n(3) f(4) by (simp add: word_le_nat_alt)
    moreover have "keeps A h h'" using f(5,6) t(2) by (auto simp: keeps_def)
    ultimately show ?thesis using f by auto
  qed
qed

lemma take_block_ok:
  assumes h: "heap_ok base lo ns A h" and p: "p \<in> set ns" and pr: "prevp \<in> set (base # ns)" "h_ptr h prevp = p"
    and k: "0 < unat k" "k \<le> h_size h p"
  shows "\<exists>a h' ns'. take_block k prevp p h = (a + 1, h') \<and> heap_ok base lo ns' (insert a A) h' \<and> a \<notin> A \<and> h_size h' a = k \<and> keeps A h h'"
proof -
  have b: "blocks_ok base lo (set ns) A h" and l: "linked (h_ptr h) (base # ns @ [base])" and srt: "sorted_wrt (<) ns"
    and adj: "\<forall>a \<in> set ns. a + szf h a \<notin> set ns" using h by (auto simp: heap_ok_def)
  note dst = heap_distinct[OF h]
  have pA: "p \<notin> A" using p b by (auto simp: blocks_ok_def)
  show ?thesis
  proof (cases "h_size h p = k")
    case True
    let ?h = "h\<lparr>h_ptr := (h_ptr h)(prevp := h_ptr h p), h_freep := Some prevp\<rparr>"
    obtain us ws where ns: "ns = us @ p # ws" using split_list[OF p] by blast
    have l': "linked (h_ptr h) ((base # us) @ p # (ws @ [base]))" using l ns by simp
    have "prevp = last (base # us)"
      by (rule linked_pred[OF l']) (use dst ns pr in \<open>auto simp: butlast_append\<close>)
    note pv = this
    have "p \<noteq> base" "p \<notin> set us" using dst ns by auto
    then have pp: "prevp \<noteq> p" using pv by auto
    have lu: "linked (h_ptr h) (base # us)" "linked (h_ptr h) (p # ws @ [base])" using l' linked_append[of _ "base # us" "p # ws @ [base]"] by auto
    have "distinct (base # us)" "set (base # us) \<inter> set ws = {}" using dst ns by auto
    then have nb: "prevp \<notin> set (butlast (base # us))" "prevp \<notin> set ws"
      using distinct_last[of "base # us"] last_in_set[of "base # us"] unfolding pv by blast+
    have hp: "linked (h_ptr h) (ws @ [base])" "h_ptr h p = hd (ws @ [base])" using lu(2) by (auto simp: linked_Cons)
    have "linked ((h_ptr h)(prevp := h_ptr h p)) (base # us)" by (subst linked_upd[OF nb(1)]) (rule lu(1))
    moreover have "linked ((h_ptr h)(prevp := h_ptr h p)) (ws @ [base])" by (subst linked_upd) (use nb(2) hp in simp_all)
    ultimately have "linked (h_ptr ?h) ((base # us) @ ws @ [base])" by (subst linked_append) (simp add: pv hp(2) del: last.simps)
    moreover have "blocks_ok base lo (set (us @ ws)) (insert p A) ?h"
      by (rule blocks_cong[OF b]) (use b ns dst in \<open>auto simp: blocks_ok_def\<close>)
    ultimately have "heap_ok base lo (us @ ws) (insert p A) ?h"
      using srt adj pv unfolding heap_ok_def ns by (auto simp: sorted_wrt_append)
    moreover have "take_block k prevp p h = (p + 1, ?h)" using True by (simp add: take_block_def)
    ultimately show ?thesis using True pA by (intro exI[of _ p] exI[of _ ?h]) (auto simp: keeps_def)
  next
    case False
    have "unat k \<noteq> szf h p" using False by (metis word_eq_unat_iff)
    moreover have "unat k \<le> szf h p" using k(2) by (simp only: word_le_nat_alt)
    ultimately have lt: "unat k < szf h p" by simp
    have sb: "unat (h_size h p - k) = szf h p - unat k" by (rule unat_sub[OF k(2)])
    define a where "a = p + (szf h p - unat k)"
    let ?h = "h\<lparr>h_size := (h_size h)(p := h_size h p - k, a := k), h_freep := Some prevp\<rparr>"
    have t: "tiled ((szf h)(p := szf h p - unat k, a := unat k)) (insert a (set ns \<union> A)) lo (brk_units h)" "a \<notin> set ns \<union> A"
      using tiled_split[of "szf h" "set ns \<union> A" lo "brk_units h" p "unat k"] b p k(1) lt by (auto simp: blocks_ok_def a_def)
    have "tiled (szf ?h) (set ns \<union> insert a A) lo (brk_units ?h)" using tiled_cong[OF t(1), of "szf ?h"] sb by (simp add: brk_units_def)
    moreover have "base < a" "base \<noteq> p" using blocks_okD(1)[OF b, of p] p by (auto simp: a_def)
    ultimately have b': "blocks_ok base lo (set ns) (insert a A) ?h" using b t(2) by (auto simp: blocks_ok_def)
    have "x + szf ?h x \<notin> set ns" if "x \<in> set ns" for x
      using that adj t(2) sb by (auto simp: a_def)
    then have "heap_ok base lo ns (insert a A) ?h" using b' l srt pr(1) unfolding heap_ok_def by auto
    moreover have "take_block k prevp p h = (a + 1, ?h)" using False sb by (simp add: take_block_def Let_def a_def)
    moreover have "keeps A h ?h" using t(2) pA by (auto simp: keeps_def)
    ultimately show ?thesis using t(2) by (intro exI[of _ a] exI[of _ ?h]) auto
  qed
qed

lemma malloc_scan:
  assumes "linked (h_ptr h) (x # R)" and "R \<noteq> []" and "h_freep h = Some (last R)" and "last R \<notin> set (butlast R)"
  shows "(\<exists>pre q post. R = pre @ q # post \<and> k \<le> h_size h q \<and>
      malloc_loop grant k x (hd R) h = (let (ap, h) = take_block k (last (x # pre)) q h in Some (Inr (Some ap, h)))) \<or>
    (\<forall>q \<in> set R. h_size h q < k) \<and>
      malloc_loop grant k x (hd R) h = Option.bind (morecore grant k h) (\<lambda>r.
        case r of Inl e \<Rightarrow> Some (Inl e)
        | Inr (q, h) \<Rightarrow> (case q of None \<Rightarrow> Some (Inr (None, h)) | Some p \<Rightarrow> malloc_loop grant k p (h_ptr h p) h))"
  using assms
proof (induction R arbitrary: x)
  case (Cons y R)
  show ?case
  proof (cases "k \<le> h_size h y")
    case True
    then show ?thesis by (intro disjI1 exI[of _ "[]"] exI[of _ y] exI[of _ R]) (subst malloc_loop.simps, simp)
  next
    case False
    show ?thesis
    proof (cases "R = []")
      case True
      then show ?thesis using False Cons.prems(3) by (intro disjI2 conjI) (simp add: not_le, subst malloc_loop.simps, simp)
    next
      case ne: False
      have y: "h_freep h \<noteq> Some y" using Cons.prems(3,4) ne by auto
      have nx: "h_ptr h y = hd R" "linked (h_ptr h) (y # R)" using Cons.prems(1) ne by (auto simp: linked_Cons)
      have e: "malloc_loop grant k x y h = malloc_loop grant k y (hd R) h" using False y nx(1) by (subst malloc_loop.simps) simp
      have "last R \<notin> set (butlast R)" "h_freep h = Some (last R)" using Cons.prems(3,4) ne by auto
      from Cons.IH[OF nx(2) ne this(2,1)] show ?thesis
      proof (elim disjE exE conjE)
        fix pre q post assume "R = pre @ q # post" "k \<le> h_size h q"
          "malloc_loop grant k y (hd R) h = (let (ap, h) = take_block k (last (y # pre)) q h in Some (Inr (Some ap, h)))"
        then show ?thesis using e by (intro disjI1 exI[of _ "y # pre"] exI[of _ q] exI[of _ post]) simp
      qed (use e False in \<open>simp add: not_le\<close>)
    qed
  qed
qed simp

lemma malloc_search:
  assumes h: "heap_ok base lo ns A h" and fp: "h_freep h = Some fp" and k: "0 < unat k"
  shows "(\<exists>a h' ns'. malloc_loop grant k fp (h_ptr h fp) h = Some (Inr (Some (a + 1), h')) \<and> heap_ok base lo ns' (insert a A) h' \<and>
      a \<notin> A \<and> h_size h' a = k \<and> keeps A h h') \<or>
    (\<forall>q \<in> set ns. h_size h q < k) \<and>
      malloc_loop grant k fp (h_ptr h fp) h = Option.bind (morecore grant k h) (\<lambda>r.
        case r of Inl e \<Rightarrow> Some (Inl e)
        | Inr (q, h) \<Rightarrow> (case q of None \<Rightarrow> Some (Inr (None, h)) | Some p \<Rightarrow> malloc_loop grant k p (h_ptr h p) h))"
proof -
  have l: "linked (h_ptr h) (base # ns @ [base])" and fpin: "fp \<in> set (base # ns)" and b: "blocks_ok base lo (set ns) A h"
    using h fp by (auto simp: heap_ok_def)
  obtain R where R: "linked (h_ptr h) (fp # R @ [fp])" "set (fp # R) = set (base # ns)" "distinct (fp # R)"
    using linked_rotate[OF l heap_distinct[OF h] fpin] by blast
  have hd: "h_ptr h fp = hd (R @ [fp])" using R(1) by (simp add: linked_Cons)
  have pre: "R @ [fp] \<noteq> []" "h_freep h = Some (last (R @ [fp]))" "last (R @ [fp]) \<notin> set (butlast (R @ [fp]))"
    using fp R(3) by simp_all
  from malloc_scan[OF R(1) pre, of k grant, folded hd] show ?thesis
  proof (elim disjE exE conjE)
    fix pre q post
    assume q: "R @ [fp] = pre @ q # post" "k \<le> h_size h q"
      and m: "malloc_loop grant k fp (h_ptr h fp) h = (let (ap, h) = take_block k (last (fp # pre)) q h in Some (Inr (Some ap, h)))"
    have "q \<in> set (R @ [fp])" unfolding q(1) by simp
    moreover have "q \<noteq> base" using q(2) k b by (auto simp: blocks_ok_def word_le_nat_alt)
    ultimately have qn: "q \<in> set ns" using R(2) by auto
    have "linked (h_ptr h) ((fp # pre) @ q # post)" using R(1) q(1) by simp
    then have pq: "h_ptr h (last (fp # pre)) = q" by (subst (asm) linked_append) simp
    have "set (fp # pre) \<subseteq> set (fp # R @ [fp])" unfolding q(1) by auto
    then have "last (fp # pre) \<in> set (base # ns)" using R(2) last_in_set[of "fp # pre"] by auto
    from take_block_ok[OF h qn this pq k q(2)] show ?thesis using m by auto
  qed (use R in auto)
qed

lemma malloc_loop_ok:
  assumes h: "heap_ok base lo ns A h" and fp: "h_freep h = Some fp" and k: "0 < unat k" "unat k < 2 ^ 28" and g: "grant_ok grant"
  shows "malloc_loop grant k fp (h_ptr h fp) h = Some (Inr (None, h)) \<or>
    (\<exists>a h' ns'. malloc_loop grant k fp (h_ptr h fp) h = Some (Inr (Some (a + 1), h')) \<and> heap_ok base lo ns' (insert a A) h' \<and>
      a \<notin> A \<and> h_size h' a = k \<and> keeps A h h')"
  using malloc_search[OF h fp k(1), of grant]
proof
  assume no: "(\<forall>q \<in> set ns. h_size h q < k) \<and> malloc_loop grant k fp (h_ptr h fp) h = Option.bind (morecore grant k h) (\<lambda>r.
        case r of Inl e \<Rightarrow> Some (Inl e)
        | Inr (q, h) \<Rightarrow> (case q of None \<Rightarrow> Some (Inr (None, h)) | Some p \<Rightarrow> malloc_loop grant k p (h_ptr h p) h))"
  from morecore_ok[OF h g k(2)] show ?thesis
  proof (elim disjE exE conjE bexE)
    fix q h1 ns1 x
    assume m: "morecore grant k h = Some (Inr (Some q, h1))" "h_freep h1 = Some q" "heap_ok base lo ns1 A h1" "x \<in> set ns1" "k \<le> h_size h1 x" "keeps A h h1"
    have "malloc_loop grant k fp (h_ptr h fp) h = malloc_loop grant k q (h_ptr h1 q) h1" using no m(1) by simp
    moreover have "\<not> (\<forall>q \<in> set ns1. h_size h1 q < k)" using m(4,5) leD by blast
    moreover have "keeps A h1 h' \<longrightarrow> keeps A h h'" for h' using m(6) by (auto simp: keeps_def)
    ultimately show ?thesis using malloc_search[OF m(3,2) k(1), of grant] by fastforce
  qed (use no in simp)
qed simp

lemma nunits_of_small:
  assumes "unat n + 16 \<le> 2 ^ 31"
  shows "0 < unat (nunits_of n) \<and> unat (nunits_of n) < 2 ^ 28 \<and> unat n \<le> 8 * (unat (nunits_of n) - 1)"
proof -
  have e: "n + SIZEOF_HEADER - 1 = n + 7" by (simp add: SIZEOF_HEADER_def)
  have s: "unat (n + 7) = unat n + 7" using assms unat_add_mod[of n 7] by simp
  have "unat ((n + 7) div 8 + 1) = (unat n + 7) div 8 + 1"
    using assms s unat_add_mod[of "(n + 7) div 8" 1] by (simp add: unat_div)
  then have "unat (nunits_of n) = (unat n + 7) div 8 + 1" unfolding nunits_of_def e by (simp add: SIZEOF_HEADER_def)
  moreover have "x \<le> 8 * ((x + 7) div 8)" for x :: nat by presburger
  moreover have "x \<le> 2147483632 \<Longrightarrow> (x + 7) div 8 < 268435455" for x :: nat by presburger
  ultimately show ?thesis using assms by simp
qed

definition fresh :: "nat \<Rightarrow> nat \<Rightarrow> heap \<Rightarrow> bool" where
  "fresh base lo h \<longleftrightarrow> h_freep h = None \<and> base < lo \<and> 0 \<le> h_brk h \<and> 8 dvd h_brk h \<and> h_brk h \<le> 2 ^ 31 \<and> brk_units h = lo"

definition umalloc_inv :: "nat \<Rightarrow> nat \<Rightarrow> nat set \<Rightarrow> heap \<Rightarrow> bool" where
  "umalloc_inv base lo A h \<longleftrightarrow> fresh base lo h \<and> A = {} \<or> (\<exists>ns. heap_ok base lo ns A h)"

lemma malloc_ok:
  assumes h: "umalloc_inv base lo A h" and n: "unat n + 16 \<le> 2 ^ 31" and g: "grant_ok grant"
  shows "(\<exists>h'. malloc grant base n h = Some (Inr (None, h')) \<and> umalloc_inv base lo A h') \<or>
    (\<exists>a h'. malloc grant base n h = Some (Inr (Some (a + 1), h')) \<and> (\<exists>ns. heap_ok base lo ns (insert a A) h') \<and> a \<notin> A \<and>
       unat n \<le> 8 * (szf h' a - 1) \<and> keeps A h h')"
proof -
  note N = nunits_of_small[OF n]
  define h1 where "h1 = (if h_freep h = None then h\<lparr>h_ptr := (h_ptr h)(base := base), h_freep := Some base, h_size := (h_size h)(base := 0)\<rparr> else h)"
  have "(\<exists>ns. heap_ok base lo ns A h1) \<and> keeps A h h1"
  proof (cases "h_freep h")
    case None
    then have f: "fresh base lo h" "A = {}" using h by (auto simp: umalloc_inv_def heap_ok_def)
    then have "heap_ok base lo [] A h1"
      using None by (simp add: h1_def fresh_def heap_ok_def blocks_ok_def tiled_def brk_units_def)
    moreover have "keeps A h h1" using f(2) by (simp add: h1_def keeps_def)
    ultimately show ?thesis by blast
  next
    case (Some fp)
    then show ?thesis using h by (auto simp: umalloc_inv_def fresh_def h1_def keeps_def)
  qed
  then obtain ns where h1: "heap_ok base lo ns A h1" and k: "keeps A h h1" by blast
  obtain fp where fp: "h_freep h1 = Some fp" using h1 by (auto simp: heap_ok_def)
  have m: "malloc grant base n h = malloc_loop grant (nunits_of n) fp (h_ptr h1 fp) h1" using fp by (simp add: malloc_def Let_def h1_def)
  have "keeps A h h'" if "keeps A h1 h'" for h' using k that by (auto simp: keeps_def)
  note keep = this
  have N': "0 < unat (nunits_of n)" "unat (nunits_of n) < 2 ^ 28" using N by blast+
  from malloc_loop_ok[OF h1 fp N' g, folded m] show ?thesis
  proof (elim disjE exE conjE)
    fix a h' ns'
    assume r: "malloc grant base n h = Some (Inr (Some (a + 1), h'))" "heap_ok base lo ns' (insert a A) h'"
      "a \<notin> A" "h_size h' a = nunits_of n" "keeps A h1 h'"
    show ?thesis using r keep N by (intro disjI2 exI[of _ a] exI[of _ h']) auto
  qed (use h1 in \<open>auto simp: umalloc_inv_def\<close>)
qed

section \<open>Programs that allocate and free\<close>

text \<open>A state is the set of blocks the program holds, by the addresses of their headers, and the heap.\<close>

inductive mstep :: "(int \<Rightarrow> int \<Rightarrow> bool) \<Rightarrow> nat \<Rightarrow> nat set \<times> heap \<Rightarrow> nat set \<times> heap \<Rightarrow> bool" for grant base where
  mallocs: "unat n + 16 \<le> 2 ^ 31 \<Longrightarrow> malloc grant base n h = Some (Inr (Some ap, h')) \<Longrightarrow> mstep grant base (A, h) (insert (ap - 1) A, h')"
| fails: "unat n + 16 \<le> 2 ^ 31 \<Longrightarrow> malloc grant base n h = Some (Inr (None, h')) \<Longrightarrow> mstep grant base (A, h) (A, h')"
| frees: "a \<in> A \<Longrightarrow> free (a + 1) h = Some (Inr h') \<Longrightarrow> mstep grant base (A, h) (A - {a}, h')"

lemma free_inv:
  assumes h: "umalloc_inv base lo A h" and a: "a \<in> A"
  shows "\<exists>h'. free (a + 1) h = Some (Inr h') \<and> umalloc_inv base lo (A - {a}) h' \<and> keeps (A - {a}) h h'"
proof -
  obtain ns where "heap_ok base lo ns (insert a (A - {a})) h" using h a by (auto simp: umalloc_inv_def insert_absorb)
  from free_ok[OF this] show ?thesis by (auto simp: umalloc_inv_def keeps_def)
qed

lemma mstep_inv: "mstep grant base x y \<Longrightarrow> grant_ok grant \<Longrightarrow> umalloc_inv base lo (fst x) (snd x) \<Longrightarrow> umalloc_inv base lo (fst y) (snd y)"
proof (induction rule: mstep.induct)
  case (mallocs n h ap h' A)
  then show ?case using malloc_ok[of base lo A h n grant] by (fastforce simp: umalloc_inv_def)
next
  case (fails n h h' A)
  then show ?case using malloc_ok[of base lo A h n grant] by auto
next
  case (frees a A h h')
  then show ?case using free_inv[of base lo A h a] by auto
qed

lemma mreach_inv: "(mstep grant base)\<^sup>*\<^sup>* ({}, h0) x \<Longrightarrow> grant_ok grant \<Longrightarrow> fresh base lo h0 \<Longrightarrow> umalloc_inv base lo (fst x) (snd x)"
  by (induction rule: rtranclp_induct) (auto simp: umalloc_inv_def[of base lo "{}" h0] intro: mstep_inv)



text \<open>
  A request close to the size of the address space is answered as if it were for nothing: the rounding in
  \<open>malloc\<close> wraps around, and the caller gets a block without room for a single byte.
\<close>

theorem malloc_overflow:
  assumes "n > 0xFFFFFFF8"
  shows "malloc grant base n h = malloc grant base 0 h \<and> 8 * (unat (nunits_of n) - 1) = 0"
proof -
  have "unat n \<ge> 0xFFFFFFF9" using assms by (simp add: word_less_nat_alt)
  moreover have "4294967289 \<le> x \<Longrightarrow> x < 4294967296 \<Longrightarrow> (x + 7) mod 4294967296 < 7" for x :: nat
    by (simp add: mod_if less_diff_conv2)
  ultimately have "unat (n + 7) < 7" using unat_add_mod[of n 7] unat_u32_lt[of n] by simp
  then have "unat ((n + 7) div 8) = 0" by (simp add: unat_div)
  then have "(n + 7) div 8 = 0" by (simp only: unat_eq_0)
  then have "nunits_of n = 1" by (simp add: nunits_of_def SIZEOF_HEADER_def add.commute)
  moreover have "nunits_of 0 = 1" by (simp add: nunits_of_def SIZEOF_HEADER_def)
  ultimately show ?thesis by (simp add: malloc_def)
qed

section \<open>Examples\<close>

definition demo_grant :: "int \<Rightarrow> int \<Rightarrow> bool" where
  "demo_grant n b \<longleftrightarrow> b + n \<le> 2 ^ 31"

definition demo_heap :: heap where
  "demo_heap = \<lparr>h_ptr = (\<lambda>a. 0), h_size = (\<lambda>a. 0), h_freep = None, h_brk = 4096\<rparr>"

lemma demo_grant_ok: "grant_ok demo_grant"
  by (simp add: grant_ok_def demo_grant_def)

lemma demo_fresh: "fresh 10 512 demo_heap"
  by (simp add: fresh_def demo_heap_def brk_units_def)

lemma demo_free_loop: "free_loop ((\<lambda>a. 0)(10 := 10)) 512 10 = Some 10"
  by (subst free_loop.simps) simp

lemma demo_malloc: "\<exists>h'. malloc demo_grant 10 100 demo_heap = Some (Inr (Some 4595, h')) \<and> h_brk h' = 36864"
proof -
  have n: "nunits_of 100 = 14" by (simp add: nunits_of_def SIZEOF_HEADER_def)
  define h1 where "h1 = demo_heap\<lparr>h_ptr := (\<lambda>a. 0)(10 := 10), h_freep := Some 10\<rparr>"
  define h2 where "h2 = h1\<lparr>h_brk := 36864, h_size := (\<lambda>a. 0)(512 := 4096), h_ptr := (\<lambda>a. 0)(10 := 512, 512 := 10)\<rparr>"
  have upd: "((\<lambda>a. 0)(10 := 10, 512 := 10, 10 := 512) :: nat \<Rightarrow> nat) = (\<lambda>a. 0)(10 := 512, 512 := 10)" by auto
  have "morecore demo_grant 14 h1 = Some (Inr (Some 10, h2))"
    by (simp add: morecore_def sbrk_def demo_grant_def h1_def h2_def demo_heap_def free_def demo_free_loop Let_def SIZEOF_HEADER_def
        join_upper_def join_lower_def upd)
  then have "malloc_loop demo_grant 14 10 10 h1 = malloc_loop demo_grant 14 10 512 h2"
    by (subst malloc_loop.simps) (simp add: h1_def demo_heap_def h2_def)
  also have "\<dots> = (let (ap, h) = take_block 14 10 512 h2 in Some (Inr (Some ap, h)))"
    by (subst malloc_loop.simps) (simp add: h2_def)
  finally have "malloc_loop demo_grant 14 10 10 h1 = (let (ap, h) = take_block 14 10 512 h2 in Some (Inr (Some ap, h)))" .
  moreover have "((\<lambda>a. 0)(10 := 0) :: nat \<Rightarrow> u32) = (\<lambda>a. 0)" by auto
  then have "malloc demo_grant 10 100 demo_heap = malloc_loop demo_grant 14 10 10 h1"
    by (simp add: malloc_def n h1_def demo_heap_def Let_def)
  ultimately show ?thesis by (simp add: take_block_def h2_def Let_def)
qed



theorem malloc_overflow_witness: "malloc demo_grant 10 0xFFFFFFFF demo_heap = malloc demo_grant 10 0 demo_heap"
  by (rule conjunct1[OF malloc_overflow]) simp

end
